(* ===== verification/Prelude.thy ===== *)
theory Prelude
  imports Main "HOL-Library.Word" "HOL-Library.List_Lexorder" "HOL-Library.Char_ord"
begin

unbundle bit_operations_syntax

text \<open>
  Shared ground of the development.

  \<^item> \<open>res\<close> is the outcome of a piece of C++: it returns a value, it ends the process (a failed
    \<^verbatim>\<open>VERIFY\<close>, an uncaught \<^verbatim>\<open>std::out_of_range\<close>, an access outside a buffer), or it never
    returns (a thread that sleeps on a condition variable nobody signals, or a loop that does
    not end).
  \<^item> \<open>mfind\<close>, \<open>mput\<close>, \<open>merase\<close>, \<open>mget\<close> are the operations of \<^verbatim>\<open>std::map\<close> the sources use, on
    association lists kept in key order, so that iteration visits the keys in the order the C++
    container does. \<open>ordered_map\<close> is their interface.
  \<^item> \<open>std_find\<close>, \<open>std_substr\<close> are the \<^verbatim>\<open>std::string\<close> operations of the sources, on the byte
    strings of HOL.
  \<^item> \<open>show_nat\<close>, \<open>digits_val\<close> print and read decimal numbers.
  \<^item> \<open>run_ops\<close> runs a sequence of operations; \<open>op_machine\<close> lifts a property that every operation
    keeps to a whole run.
\<close>

named_theorems map_simps "lookups after updates of an ordered map"

section \<open>Machine types and outcomes\<close>

type_synonym byte = "8 word"
type_synonym u32 = "32 word"
type_synonym u64 = "64 word"

text \<open>How a process can end other than by returning.\<close>

datatype fault =
    Verify_failed   \<comment> \<open>\<^verbatim>\<open>VERIFY(e)\<close> with \<open>e\<close> false: \<^verbatim>\<open>abort()\<close>\<close>
  | Out_of_range    \<comment> \<open>an uncaught \<^verbatim>\<open>std::out_of_range\<close>\<close>
  | Bad_access      \<comment> \<open>a read or write outside an allocated buffer\<close>
  | Exit_failure    \<comment> \<open>\<^verbatim>\<open>exit(1)\<close> after an error message\<close>

datatype 'a res =
    Ret 'a
  | Fault fault
  | Stuck           \<comment> \<open>the call never returns\<close>

primrec bind_res :: "'a res \<Rightarrow> ('a \<Rightarrow> 'b res) \<Rightarrow> 'b res" where
  "bind_res (Ret x) f = f x"
| "bind_res (Fault e) f = Fault e"
| "bind_res Stuck f = Stuck"

definition verify :: "bool \<Rightarrow> 'a res \<Rightarrow> 'a res" where
  "verify b r = (if b then r else Fault Verify_failed)"

lemma bind_res_eq_Ret [simp]:
  "bind_res m f = Ret y \<longleftrightarrow> (\<exists>x. m = Ret x \<and> f x = Ret y)"
  by (cases m) auto

lemma bind_res_Ret_right [simp]: "bind_res m Ret = m"
  by (cases m) auto

lemma bind_res_assoc [simp]: "bind_res (bind_res m f) g = bind_res m (\<lambda>x. bind_res (f x) g)"
  by (cases m) auto

lemma bind_res_cong: "m = m' \<Longrightarrow> (\<And>x. m' = Ret x \<Longrightarrow> f x = g x) \<Longrightarrow> bind_res m f = bind_res m' g"
  by (cases m') auto

lemma verify_simps [simp]:
  "verify True r = r"
  "verify False r = Fault Verify_failed"
  "verify b r = Ret x \<longleftrightarrow> b \<and> r = Ret x"
  by (auto simp: verify_def)

section \<open>Sequences of operations\<close>

text \<open>
  \<open>run_ops step ops s\<close> performs the operations \<open>ops\<close> one after another from the state \<open>s\<close>, and
  stops at the first that does not return.
\<close>

primrec run_ops :: "('o \<Rightarrow> 's \<Rightarrow> 's res) \<Rightarrow> 'o list \<Rightarrow> 's \<Rightarrow> 's res" where
  "run_ops step [] s = Ret s"
| "run_ops step (x # xs) s = bind_res (step x s) (run_ops step xs)"

lemma run_ops_append:
  "run_ops step (xs @ ys) s = bind_res (run_ops step xs s) (run_ops step ys)"
  by (induction xs arbitrary: s) (simp_all cong: bind_res_cong)

text \<open>The contract of a component whose every operation keeps an invariant.\<close>

locale op_machine =
  fixes step :: "'o \<Rightarrow> 's \<Rightarrow> 's res"
    and inv :: "'s \<Rightarrow> bool"
  assumes step_inv: "inv s \<Longrightarrow> step x s = Ret s' \<Longrightarrow> inv s'"
begin

lemma run_inv: "inv s \<Longrightarrow> run_ops step xs s = Ret s' \<Longrightarrow> inv s'"
  by (induction xs arbitrary: s) (auto dest: step_inv)

lemma run_prefix_inv:
  assumes "inv s" and "run_ops step (xs @ ys) s = Ret s'"
  shows "\<exists>t. run_ops step xs s = Ret t \<and> inv t \<and> run_ops step ys t = Ret s'"
  using assms run_inv by (auto simp: run_ops_append)

end

section \<open>The ordered map of the standard library\<close>

type_synonym ('k, 'v) smap = "('k \<times> 'v) list"

definition mwf :: "('k::linorder, 'v) smap \<Rightarrow> bool" where
  "mwf m \<longleftrightarrow> sorted_wrt (<) (map fst m)"

definition mfind :: "('k, 'v) smap \<Rightarrow> 'k \<Rightarrow> 'v option" where
  "mfind m k = map_of m k"

definition mcount :: "('k, 'v) smap \<Rightarrow> 'k \<Rightarrow> nat" where
  "mcount m k = (case mfind m k of None \<Rightarrow> 0 | Some _ \<Rightarrow> 1)"

fun mput :: "'k::linorder \<Rightarrow> 'v \<Rightarrow> ('k, 'v) smap \<Rightarrow> ('k, 'v) smap" where
  "mput k v [] = [(k, v)]"
| "mput k v ((k', v') # m) =
     (if k < k' then (k, v) # (k', v') # m
      else if k = k' then (k, v) # m
      else (k', v') # mput k v m)"

fun merase :: "'k::linorder \<Rightarrow> ('k, 'v) smap \<Rightarrow> ('k, 'v) smap" where
  "merase k [] = []"
| "merase k ((k', v') # m) = (if k = k' then m else (k', v') # merase k m)"

text \<open>\<^verbatim>\<open>m[k]\<close> as a value: an absent key reads as the default-constructed value \<open>d\<close>.\<close>

definition mget :: "'v \<Rightarrow> ('k, 'v) smap \<Rightarrow> 'k \<Rightarrow> 'v" where
  "mget d m k = (case mfind m k of None \<Rightarrow> d | Some v \<Rightarrow> v)"

definition mkeys :: "('k, 'v) smap \<Rightarrow> 'k list" where
  "mkeys m = map fst m"

lemma mkeys_simps [simp]:
  "mkeys [] = []"
  "mkeys (p # m) = fst p # mkeys m"
  by (auto simp: mkeys_def)

lemma mfind_simps [simp]:
  "mfind [] k = None"
  "mfind ((k', v) # m) k = (if k' = k then Some v else mfind m k)"
  by (auto simp: mfind_def)

lemma mwf_simps [simp]:
  "mwf []"
  "mwf (p # m) \<longleftrightarrow> (\<forall>x \<in> set (mkeys m). fst p < x) \<and> mwf m"
  by (auto simp: mwf_def mkeys_def)

lemma mfind_None_iff: "mfind m k = None \<longleftrightarrow> k \<notin> set (mkeys m)"
  by (auto simp: mfind_def mkeys_def map_of_eq_None_iff)

lemma mkeys_mput [simp]: "set (mkeys (mput k v m)) = insert k (set (mkeys m))"
  by (induction k v m rule: mput.induct) auto

lemma mkeys_merase_subset: "set (mkeys (merase k m)) \<subseteq> set (mkeys m)"
  by (induction k m rule: merase.induct) auto

lemma mfind_mput [simp, map_simps]: "mfind (mput k v m) k' = (if k' = k then Some v else mfind m k')"
  by (induction k v m rule: mput.induct) auto

lemma mfind_merase [simp, map_simps]:
  "mwf m \<Longrightarrow> mfind (merase k m) k' = (if k' = k then None else mfind m k')"
  by (induction k m rule: merase.induct) (auto simp: mfind_None_iff)

lemma mwf_mput [simp, intro]: "mwf m \<Longrightarrow> mwf (mput k v m)"
  by (induction k v m rule: mput.induct) auto

lemma mput_mput: "mput k v (mput k v' m) = mput k v m"
  by (induction k v' m rule: mput.induct) auto

lemma mwf_merase [simp, intro]: "mwf m \<Longrightarrow> mwf (merase k m)"
  by (induction k m rule: merase.induct) (use mkeys_merase_subset in fastforce)+

lemma mget_mput [simp, map_simps]: "mget d (mput k v m) k' = (if k' = k then v else mget d m k')"
  by (simp add: mget_def)

lemma mget_Nil [simp]: "mget d [] k = d"
  by (simp add: mget_def)

lemma mget_Cons [simp]: "mget d ((k', v) # m) k = (if k' = k then v else mget d m k)"
  by (simp add: mget_def)

lemma mcount_mput [simp, map_simps]: "mcount (mput k v m) k' = (if k' = k then 1 else mcount m k')"
  by (simp add: mcount_def)

lemma mcount_Nil [simp]: "mcount [] k = 0"
  by (simp add: mcount_def)

lemma mcount_eq_0 [simp]: "mcount m k = 0 \<longleftrightarrow> mfind m k = None"
  by (simp add: mcount_def split: option.splits)

lemma mcount_eq_1: "mcount m k = Suc 0 \<longleftrightarrow> (\<exists>v. mfind m k = Some v)"
  by (auto simp add: mcount_def split: option.splits)

lemma mfind_mem: "mwf m \<Longrightarrow> mfind m k = Some v \<longleftrightarrow> (k, v) \<in> set m"
proof -
  assume "mwf m"
  then have "distinct (map fst m)"
    by (simp add: mwf_def strict_sorted_iff)
  then show ?thesis by (simp add: mfind_def)
qed

text \<open>The key order makes the representation unique: equal lookups are equal lists.\<close>

lemma smap_ext: "mwf m \<Longrightarrow> mwf m' \<Longrightarrow> (\<And>k. mfind m k = mfind m' k) \<Longrightarrow> m = m'"
proof (induction m arbitrary: m')
  case Nil
  then show ?case by (cases m') (auto split: if_splits, metis option.distinct(1))
next
  case (Cons p m)
  obtain k v where p: "p = (k, v)" by fastforce
  from Cons.prems(3) [of k] p obtain k' v' n where m': "m' = (k', v') # n"
    by (cases m') auto
  have kk: "k = k'"
  proof (rule ccontr)
    assume ne: "k \<noteq> k'"
    from Cons.prems(3) [of k] ne p m' have "k \<in> set (mkeys n)"
      using mfind_None_iff [of n k] by auto
    moreover from Cons.prems(3) [of k'] ne p m' have "k' \<in> set (mkeys m)"
      using mfind_None_iff [of m k'] by auto
    ultimately show False using Cons.prems(1,2) p m' by force
  qed
  have vv: "v = v'" using Cons.prems(3) [of k] p m' kk by simp
  have "mfind m x = mfind n x" for x
  proof (cases "x = k")
    case True
    then have "x \<notin> set (mkeys m)" "x \<notin> set (mkeys n)"
      using Cons.prems(1,2) p m' kk by auto
    then show ?thesis using mfind_None_iff by metis
  next
    case False
    then show ?thesis using Cons.prems(3) [of x] p m' kk by simp
  qed
  then have "m = n" using Cons.IH [of n] Cons.prems(1,2) p m' by simp
  then show ?case using p m' kk vv by simp
qed

lemma mfind_map_val: "mfind (map (\<lambda>(x, v). (x, f v)) m) k = map_option f (mfind m k)"
  by (induction m) auto

lemma mwf_map_val: "mwf m \<Longrightarrow> mwf (map (\<lambda>(x, v). (x, f v)) m)"
  by (simp add: mwf_def mkeys_def case_prod_beta comp_def)

lemma mget_map_val: "f d = d \<Longrightarrow> mget d (map (\<lambda>(x, v). (x, f v)) m) k = f (mget d m k)"
  by (simp add: mget_def mfind_map_val split: option.splits)

lemma mget_in_set: "mwf m \<Longrightarrow> (k, v) \<in> set m \<Longrightarrow> mget d m k = v"
  by (simp add: mget_def mfind_mem [THEN iffD2])

lemma mget_default: "mget d m k \<noteq> d \<Longrightarrow> (k, mget d m k) \<in> set m"
  by (induction m) (auto simp: mget_Cons split: if_splits)

lemma count_list_distinct: "distinct xs \<Longrightarrow> x \<in> set xs \<Longrightarrow> count_list xs x = 1"
  by (induction xs) auto

text \<open>The interface the components use of the container, and what follows from it alone.\<close>

locale ordered_map =
  fixes emp :: "'m"
    and look :: "'m \<Rightarrow> 'k \<Rightarrow> 'v option"
    and upd :: "'k \<Rightarrow> 'v \<Rightarrow> 'm \<Rightarrow> 'm"
    and del :: "'k \<Rightarrow> 'm \<Rightarrow> 'm"
    and wf :: "'m \<Rightarrow> bool"
  assumes wf_emp: "wf emp"
    and wf_upd: "wf m \<Longrightarrow> wf (upd k v m)"
    and wf_del: "wf m \<Longrightarrow> wf (del k m)"
    and look_emp: "look emp k = None"
    and look_upd: "wf m \<Longrightarrow> look (upd k v m) k' = (if k' = k then Some v else look m k')"
    and look_del: "wf m \<Longrightarrow> look (del k m) k' = (if k' = k then None else look m k')"
    and look_ext: "wf m \<Longrightarrow> wf m' \<Longrightarrow> (\<And>k. look m k = look m' k) \<Longrightarrow> m = m'"
begin

lemma upd_upd: "wf m \<Longrightarrow> upd k w (upd k v m) = upd k w m"
  by (rule look_ext) (auto simp: wf_upd look_upd)

lemma upd_commute: "wf m \<Longrightarrow> k \<noteq> k' \<Longrightarrow> upd k v (upd k' v' m) = upd k' v' (upd k v m)"
  by (rule look_ext) (auto simp: wf_upd look_upd)

lemma upd_same: "wf m \<Longrightarrow> look m k = Some v \<Longrightarrow> upd k v m = m"
  by (rule look_ext) (auto simp: wf_upd look_upd)

lemma del_upd: "wf m \<Longrightarrow> look m k = None \<Longrightarrow> del k (upd k v m) = m"
  by (rule look_ext) (auto simp: wf_upd wf_del look_upd look_del)

lemma del_absent: "wf m \<Longrightarrow> look m k = None \<Longrightarrow> del k m = m"
  by (rule look_ext) (auto simp: wf_del look_del)

lemma upd_del: "wf m \<Longrightarrow> upd k v (del k m) = upd k v m"
  by (rule look_ext) (auto simp: wf_upd wf_del look_upd look_del)

end

interpretation smap: ordered_map "[]" mfind mput merase mwf
  by unfold_locales (auto intro: smap_ext)

lemma fold_mput_inv: "mwf acc \<Longrightarrow> mwf (fold (\<lambda>(a, b). mput a b) d acc)"
  by (induction d arbitrary: acc) auto

lemma mfind_fold_mput:
  "mwf d \<Longrightarrow> mwf acc \<Longrightarrow> mfind (fold (\<lambda>(a, b). mput a b) d acc) k =
     (case mfind d k of None \<Rightarrow> mfind acc k | Some v \<Rightarrow> Some v)"
proof (induction d arbitrary: acc)
  case Nil
  then show ?case by simp
next
  case (Cons p d)
  then show ?case
    by (cases p) (use mfind_None_iff [of d k] in \<open>auto split: option.splits\<close>)
qed

lemma fold_mput_id: "mwf d \<Longrightarrow> fold (\<lambda>(a, b). mput a b) d [] = d"
  by (rule smap_ext) (auto simp: fold_mput_inv mfind_fold_mput split: option.splits)

section \<open>Strings\<close>

text \<open>
  \<^verbatim>\<open>s.find(c, from)\<close>: the least position at or after \<open>from\<close> that holds \<open>c\<close>; \<open>None\<close> is
  \<^verbatim>\<open>npos\<close>. \<^verbatim>\<open>s.substr(pos, n)\<close> raises when \<open>pos\<close> is past the end and clips \<open>n\<close>.
\<close>

fun find_char :: "char \<Rightarrow> string \<Rightarrow> nat \<Rightarrow> nat option" where
  "find_char c [] i = None"
| "find_char c (x # xs) i = (if x = c then Some i else find_char c xs (Suc i))"

definition std_find :: "char \<Rightarrow> string \<Rightarrow> nat \<Rightarrow> nat option" where
  "std_find c s from = (if from \<le> length s then find_char c (drop from s) from else None)"

definition std_substr :: "string \<Rightarrow> nat \<Rightarrow> nat \<Rightarrow> string res" where
  "std_substr s pos n = (if pos \<le> length s then Ret (take n (drop pos s)) else Fault Out_of_range)"

lemma find_char_append:
  "c \<notin> set xs \<Longrightarrow> find_char c (xs @ c # ys) i = Some (i + length xs)"
  by (induction xs arbitrary: i) auto

lemma find_char_None: "find_char c s i = None \<longleftrightarrow> c \<notin> set s"
  by (induction s arbitrary: i) auto

lemma find_char_Some:
  assumes "find_char c s i = Some p"
  shows "\<exists>xs ys. s = xs @ c # ys \<and> c \<notin> set xs \<and> p = i + length xs"
  using assms
proof (induction s arbitrary: i)
  case Nil
  then show ?case by simp
next
  case (Cons x s)
  show ?case
  proof (cases "x = c")
    case True
    with Cons.prems show ?thesis by (intro exI [of _ "[]"] exI [of _ s]) auto
  next
    case False
    with Cons.prems have "find_char c s (Suc i) = Some p" by simp
    from Cons.IH [OF this] obtain xs ys where "s = xs @ c # ys" "c \<notin> set xs" "p = Suc i + length xs"
      by blast
    with False show ?thesis by (intro exI [of _ "x # xs"] exI [of _ ys]) auto
  qed
qed

section \<open>Decimal numbers as text\<close>

function show_nat :: "nat \<Rightarrow> string" where
  "show_nat n = (if n < 10 then [char_of (48 + n)] else show_nat (n div 10) @ [char_of (48 + n mod 10)])"
  by pat_completeness auto
termination
  by (relation "measure (\<lambda>n. n)") auto

declare show_nat.simps [simp del]

definition is_digit :: "char \<Rightarrow> bool" where
  "is_digit c \<longleftrightarrow> 48 \<le> (of_char c :: nat) \<and> (of_char c :: nat) \<le> 57"

definition is_space :: "char \<Rightarrow> bool" where
  "is_space c \<longleftrightarrow> (of_char c :: nat) \<in> {9, 10, 11, 12, 13, 32}"

definition digits_val :: "string \<Rightarrow> nat" where
  "digits_val ds = foldl (\<lambda>v c. 10 * v + (of_char c - 48)) 0 ds"

lemma of_char_digit: "d < 10 \<Longrightarrow> (of_char (char_of (48 + d) :: char) :: nat) = 48 + d"
  by simp

lemma show_nat_digits: "set (show_nat n) \<subseteq> Collect is_digit \<and> show_nat n \<noteq> []"
proof (induction n rule: show_nat.induct)
  case (1 n)
  have "is_digit (char_of (48 + n mod 10))" by (simp add: is_digit_def of_char_digit)
  moreover have "n < 10 \<Longrightarrow> is_digit (char_of (48 + n))" by (simp add: is_digit_def of_char_digit)
  ultimately show ?case using 1 by (auto simp: show_nat.simps [of n])
qed

lemma digits_val_snoc: "digits_val (ds @ [c]) = 10 * digits_val ds + (of_char c - 48)"
  by (simp add: digits_val_def)

lemma digits_val_show: "digits_val (show_nat n) = n"
proof (induction n rule: show_nat.induct)
  case (1 n)
  show ?case
  proof (cases "n < 10")
    case True
    then show ?thesis by (simp add: show_nat.simps [of n] digits_val_def of_char_digit)
  next
    case False
    have "digits_val (show_nat n) = 10 * digits_val (show_nat (n div 10)) + n mod 10"
      using False by (simp add: show_nat.simps [of n] digits_val_snoc of_char_digit)
    then show ?thesis using 1 [OF False] by simp
  qed
qed

lemma digit_not: "is_digit c \<Longrightarrow> \<not> is_space c \<and> c \<noteq> CHR ''-'' \<and> c \<noteq> CHR ''+'' \<and> c \<noteq> CHR '':'' \<and> c \<noteq> CHR '' '' \<and> c \<noteq> CHR 0x00"
  by (auto simp: is_digit_def is_space_def)

end
