(* ===== verification/Marshall.thy ===== *)
theory Marshall
  imports Prelude
begin

text \<open>
  The wire format of the RPC library: the classes \<^verbatim>\<open>marshall\<close> and \<^verbatim>\<open>unmarshall\<close> of
  \<^verbatim>\<open>rpc/marshall.h\<close> and the operators of \<^verbatim>\<open>rpc/rpc.cc\<close>, over buffers of 8-bit words.

  A \<^verbatim>\<open>marshall\<close> object owns a heap buffer of \<open>mcapa\<close> bytes that grows by \<^verbatim>\<open>realloc\<close>; every
  store is checked against the buffer (\<open>Bad_access\<close> otherwise). Bytes that \<^verbatim>\<open>malloc\<close> leaves
  uninitialised hold the value \<open>mjunk\<close>, about which nothing is assumed. The C++ \<^verbatim>\<open>int\<close> positions
  are natural numbers here; \<open>marshall_capacity_bound\<close> gives the bound under which no \<^verbatim>\<open>int\<close>
  overflows. The headers are those of a build without \<^verbatim>\<open>RPC_CHECKSUMMING\<close>, which the makefile
  never defines.

  \<open>emits\<close> and \<open>reads\<close> say what a writer appends and what a reader consumes; \<open>codec\<close> is the
  interface of a type that can be sent, with one interpretation for every type the programs send.
\<close>

named_theorems emits_intros "what a writer appends"
named_theorems reads_intros "what a reader consumes"

section \<open>Headers\<close>

record req_header =
  rq_xid :: u32
  rq_proc :: u32
  rq_clt_nonce :: u32
  rq_srv_nonce :: u32
  rq_xid_rep :: u32

record reply_header =
  rp_xid :: u32
  rp_ret :: u32

definition static_max :: "nat \<Rightarrow> nat \<Rightarrow> nat" where
  "static_max a b = (if a > b then a else b)"

definition DEFAULT_RPC_SZ :: nat where
  "DEFAULT_RPC_SZ = 1024"

definition sizeof_rpc_sz :: nat where
  "sizeof_rpc_sz = 4"

text \<open>Five, respectively two, 4-byte integers, and the 4-byte length the channel fills in.\<close>

definition RPC_HEADER_SZ :: nat where
  "RPC_HEADER_SZ = static_max 20 8 + sizeof_rpc_sz"

lemma RPC_HEADER_SZ_eq [simp]: "RPC_HEADER_SZ = 24"
  by (simp add: RPC_HEADER_SZ_def static_max_def sizeof_rpc_sz_def)

section \<open>Writing\<close>

record marshall =
  mbuf :: "byte list"
  mcapa :: nat
  mind :: nat
  mjunk :: byte

definition marshall_new :: "byte \<Rightarrow> marshall" where
  "marshall_new g = \<lparr>mbuf = replicate DEFAULT_RPC_SZ g, mcapa = DEFAULT_RPC_SZ,
     mind = RPC_HEADER_SZ, mjunk = g\<rparr>"

definition m_realloc :: "nat \<Rightarrow> marshall \<Rightarrow> marshall" where
  "m_realloc n m = m\<lparr>mcapa := n,
     mbuf := take n (mbuf m) @ replicate (n - length (mbuf m)) (mjunk m)\<rparr>"

definition m_rawbyte :: "byte \<Rightarrow> marshall \<Rightarrow> marshall res" where
  "m_rawbyte x m =
     (let m = (if mind m \<ge> mcapa m then m_realloc (mcapa m * 2) m else m)
      in if mind m < length (mbuf m)
         then Ret (m\<lparr>mbuf := (mbuf m)[mind m := x], mind := mind m + 1\<rparr>)
         else Fault Bad_access)"

text \<open>\<open>n\<close> is an \<^verbatim>\<open>int\<close>: a negative count makes \<^verbatim>\<open>memcpy\<close> copy past every buffer.\<close>

definition m_rawbytes :: "byte list \<Rightarrow> int \<Rightarrow> marshall \<Rightarrow> marshall res" where
  "m_rawbytes p n m =
     (let m = (if int (mind m) + n > int (mcapa m)
               then m_realloc (nat (if int (mcapa m) > n then 2 * int (mcapa m) else int (mcapa m) + n)) m
               else m)
      in if 0 \<le> n \<and> nat n \<le> length p \<and> mind m + nat n \<le> length (mbuf m)
         then Ret (m\<lparr>mbuf := take (mind m) (mbuf m) @ take (nat n) p @ drop (mind m + nat n) (mbuf m),
                     mind := mind m + nat n\<rparr>)
         else Fault Bad_access)"

definition put_bool :: "bool \<Rightarrow> marshall \<Rightarrow> marshall res" where
  "put_bool x m = m_rawbyte (if x then 1 else 0) m"

definition put_uchar :: "byte \<Rightarrow> marshall \<Rightarrow> marshall res" where
  "put_uchar x m = m_rawbyte x m"

definition put_char :: "byte \<Rightarrow> marshall \<Rightarrow> marshall res" where
  "put_char x m = put_uchar x m"

definition put_ushort :: "16 word \<Rightarrow> marshall \<Rightarrow> marshall res" where
  "put_ushort x m =
     bind_res (m_rawbyte (ucast (drop_bit 8 x AND 0xff)) m)
       (m_rawbyte (ucast (x AND 0xff)))"

definition put_short :: "16 word \<Rightarrow> marshall \<Rightarrow> marshall res" where
  "put_short x m = put_ushort x m"

definition put_uint :: "u32 \<Rightarrow> marshall \<Rightarrow> marshall res" where
  "put_uint x m =
     bind_res (m_rawbyte (ucast (drop_bit 24 x AND 0xff)) m) (\<lambda>m.
     bind_res (m_rawbyte (ucast (drop_bit 16 x AND 0xff)) m) (\<lambda>m.
     bind_res (m_rawbyte (ucast (drop_bit 8 x AND 0xff)) m)
       (m_rawbyte (ucast (x AND 0xff)))))"

definition put_int :: "u32 \<Rightarrow> marshall \<Rightarrow> marshall res" where
  "put_int x m = put_uint x m"

definition bytes_of :: "string \<Rightarrow> byte list" where
  "bytes_of s = map of_char s"

text \<open>\<^verbatim>\<open>s.size()\<close> is cut to \<^verbatim>\<open>unsigned int\<close> for the length and to \<^verbatim>\<open>int\<close> for the copy.\<close>

definition put_string :: "string \<Rightarrow> marshall \<Rightarrow> marshall res" where
  "put_string s m =
     bind_res (put_uint (of_nat (length s)) m)
       (m_rawbytes (bytes_of s) (sint (of_nat (length s) :: u32)))"

definition put_ull :: "u64 \<Rightarrow> marshall \<Rightarrow> marshall res" where
  "put_ull x m = bind_res (put_uint (ucast (drop_bit 32 x)) m) (put_uint (ucast x))"

primrec put_all :: "('a \<Rightarrow> marshall \<Rightarrow> marshall res) \<Rightarrow> 'a list \<Rightarrow> marshall \<Rightarrow> marshall res" where
  "put_all f [] m = Ret m"
| "put_all f (x # xs) m = bind_res (f x m) (put_all f xs)"

definition put_vector :: "('a \<Rightarrow> marshall \<Rightarrow> marshall res) \<Rightarrow> 'a list \<Rightarrow> marshall \<Rightarrow> marshall res" where
  "put_vector f v m = bind_res (put_uint (of_nat (length v)) m) (put_all f v)"

definition put_pair ::
  "('a \<Rightarrow> marshall \<Rightarrow> marshall res) \<Rightarrow> ('b \<Rightarrow> marshall \<Rightarrow> marshall res) \<Rightarrow> 'a \<times> 'b \<Rightarrow> marshall \<Rightarrow> marshall res"
  where "put_pair f g p m = bind_res (f (fst p) m) (g (snd p))"

definition put_map ::
  "('a \<Rightarrow> marshall \<Rightarrow> marshall res) \<Rightarrow> ('b \<Rightarrow> marshall \<Rightarrow> marshall res) \<Rightarrow> ('a, 'b) smap \<Rightarrow> marshall \<Rightarrow> marshall res"
  where "put_map f g d m = bind_res (put_uint (of_nat (length d)) m) (put_all (put_pair f g) d)"

definition pack :: "u32 \<Rightarrow> marshall \<Rightarrow> marshall res" where
  "pack x m =
     bind_res (m_rawbyte (ucast (drop_bit 24 x AND 0xff)) m) (\<lambda>m.
     bind_res (m_rawbyte (ucast (drop_bit 16 x AND 0xff)) m) (\<lambda>m.
     bind_res (m_rawbyte (ucast (drop_bit 8 x AND 0xff)) m)
       (m_rawbyte (ucast (x AND 0xff)))))"

definition pack_req_header :: "req_header \<Rightarrow> marshall \<Rightarrow> marshall res" where
  "pack_req_header h m =
     (let saved_sz = mind m in
      bind_res (pack (rq_xid h) (m\<lparr>mind := sizeof_rpc_sz\<rparr>)) (\<lambda>m.
      bind_res (pack (rq_proc h) m) (\<lambda>m.
      bind_res (pack (rq_clt_nonce h) m) (\<lambda>m.
      bind_res (pack (rq_srv_nonce h) m) (\<lambda>m.
      bind_res (pack (rq_xid_rep h) m) (\<lambda>m.
        Ret (m\<lparr>mind := saved_sz\<rparr>)))))))"

definition pack_reply_header :: "reply_header \<Rightarrow> marshall \<Rightarrow> marshall res" where
  "pack_reply_header h m =
     (let saved_sz = mind m in
      bind_res (pack (rp_xid h) (m\<lparr>mind := sizeof_rpc_sz\<rparr>)) (\<lambda>m.
      bind_res (pack (rp_ret h) m) (\<lambda>m.
        Ret (m\<lparr>mind := saved_sz\<rparr>))))"

text \<open>\<^verbatim>\<open>cstr()\<close> with \<^verbatim>\<open>size()\<close>, and \<^verbatim>\<open>take_buf\<close>: the bytes in front of the write position.\<close>

definition m_bytes :: "marshall \<Rightarrow> byte list" where
  "m_bytes m = take (mind m) (mbuf m)"

definition get_content :: "marshall \<Rightarrow> byte list" where
  "get_content m = take (mind m - RPC_HEADER_SZ) (drop RPC_HEADER_SZ (mbuf m))"

section \<open>Reading\<close>

record unmarshall =
  ubuf :: "byte list"
  usz :: nat
  uind :: nat
  uok :: bool

definition unmarshall_empty :: unmarshall where
  "unmarshall_empty = \<lparr>ubuf = [], usz = 0, uind = 0, uok = False\<rparr>"

definition unmarshall_new :: "byte list \<Rightarrow> unmarshall" where
  "unmarshall_new b = \<lparr>ubuf = b, usz = length b, uind = 0, uok = True\<rparr>"

definition take_content :: "byte \<Rightarrow> string \<Rightarrow> unmarshall \<Rightarrow> unmarshall" where
  "take_content g s u =
     (let old = ubuf u; n = length s + RPC_HEADER_SZ in
      \<lparr>ubuf = take RPC_HEADER_SZ (old @ replicate RPC_HEADER_SZ g) @ bytes_of s,
       usz = n, uind = RPC_HEADER_SZ, uok = True\<rparr>)"

definition take_in :: "unmarshall \<Rightarrow> unmarshall \<Rightarrow> unmarshall \<times> unmarshall" where
  "take_in another u =
     (u\<lparr>ubuf := ubuf another, usz := usz another, uind := RPC_HEADER_SZ,
        uok := usz another \<ge> RPC_HEADER_SZ\<rparr>,
      another\<lparr>ubuf := [], usz := 0, uind := 0\<rparr>)"

definition okdone :: "unmarshall \<Rightarrow> bool" where
  "okdone u = (uok u \<and> uind u = usz u)"

text \<open>The \<^verbatim>\<open>char\<close> read is signed and widened to \<^verbatim>\<open>unsigned int\<close>.\<close>

definition u_rawbyte :: "unmarshall \<Rightarrow> (u32 \<times> unmarshall) res" where
  "u_rawbyte u =
     (if uind u \<ge> usz u then Ret (0, u\<lparr>uok := False\<rparr>)
      else if uind u < length (ubuf u)
           then Ret (scast (ubuf u ! uind u), u\<lparr>uind := uind u + 1\<rparr>)
           else Fault Bad_access)"

definition get_bool :: "unmarshall \<Rightarrow> (bool \<times> unmarshall) res" where
  "get_bool u = bind_res (u_rawbyte u) (\<lambda>(c, u). Ret (c \<noteq> 0, u))"

definition get_uchar :: "unmarshall \<Rightarrow> (byte \<times> unmarshall) res" where
  "get_uchar u = bind_res (u_rawbyte u) (\<lambda>(c, u). Ret (ucast c, u))"

definition get_char :: "unmarshall \<Rightarrow> (byte \<times> unmarshall) res" where
  "get_char u = bind_res (u_rawbyte u) (\<lambda>(c, u). Ret (ucast c, u))"

definition get_ushort :: "unmarshall \<Rightarrow> (16 word \<times> unmarshall) res" where
  "get_ushort u =
     bind_res (u_rawbyte u) (\<lambda>(c1, u).
     bind_res (u_rawbyte u) (\<lambda>(c0, u).
       Ret (ucast (push_bit 8 (c1 AND 0xff)) OR ucast (c0 AND 0xff), u)))"

definition get_short :: "unmarshall \<Rightarrow> (16 word \<times> unmarshall) res" where
  "get_short u = get_ushort u"

definition get_uint :: "unmarshall \<Rightarrow> (u32 \<times> unmarshall) res" where
  "get_uint u =
     bind_res (u_rawbyte u) (\<lambda>(c3, u).
     bind_res (u_rawbyte u) (\<lambda>(c2, u).
     bind_res (u_rawbyte u) (\<lambda>(c1, u).
     bind_res (u_rawbyte u) (\<lambda>(c0, u).
       Ret (push_bit 24 (c3 AND 0xff) OR push_bit 16 (c2 AND 0xff)
              OR push_bit 8 (c1 AND 0xff) OR (c0 AND 0xff), u)))))"

definition get_int :: "unmarshall \<Rightarrow> (u32 \<times> unmarshall) res" where
  "get_int u = get_uint u"

definition get_ull :: "unmarshall \<Rightarrow> (u64 \<times> unmarshall) res" where
  "get_ull u =
     bind_res (get_uint u) (\<lambda>(h, u).
     bind_res (get_uint u) (\<lambda>(l, u).
       Ret (ucast l OR push_bit 32 (ucast h), u)))"

definition string_of :: "byte list \<Rightarrow> string" where
  "string_of bs = map (\<lambda>b. char_of (unat b)) bs"

text \<open>
  \<^verbatim>\<open>unmarshall::rawbytes\<close>: the guard \<^verbatim>\<open>(_ind+n) > (unsigned)_sz\<close> is computed in 32 bits; the
  copy reads \<open>n\<close> bytes from the buffer. The target string keeps its old value \<open>s\<close> when the
  guard fails.
\<close>

definition u_rawbytes :: "string \<Rightarrow> u32 \<Rightarrow> unmarshall \<Rightarrow> (string \<times> unmarshall) res" where
  "u_rawbytes s n u =
     (if of_nat (uind u) + n > (of_nat (usz u) :: u32) then Ret (s, u\<lparr>uok := False\<rparr>)
      else if uind u + unat n \<le> length (ubuf u)
           then Ret (string_of (take (unat n) (drop (uind u) (ubuf u))), u\<lparr>uind := uind u + unat n\<rparr>)
           else Fault Bad_access)"

definition get_string :: "string \<Rightarrow> unmarshall \<Rightarrow> (string \<times> unmarshall) res" where
  "get_string s u =
     bind_res (get_uint u) (\<lambda>(sz, u). if uok u then u_rawbytes s sz u else Ret (s, u))"

primrec get_n :: "(unmarshall \<Rightarrow> ('a \<times> unmarshall) res) \<Rightarrow> nat \<Rightarrow> 'a list \<Rightarrow> unmarshall \<Rightarrow> ('a list \<times> unmarshall) res" where
  "get_n f 0 v u = Ret (v, u)"
| "get_n f (Suc n) v u = bind_res (f u) (\<lambda>(z, u). get_n f n (v @ [z]) u)"

definition get_vector :: "(unmarshall \<Rightarrow> ('a \<times> unmarshall) res) \<Rightarrow> 'a list \<Rightarrow> unmarshall \<Rightarrow> ('a list \<times> unmarshall) res" where
  "get_vector f v u = bind_res (get_uint u) (\<lambda>(n, u). get_n f (unat n) v u)"

definition get_pair ::
  "(unmarshall \<Rightarrow> ('a \<times> unmarshall) res) \<Rightarrow> (unmarshall \<Rightarrow> ('b \<times> unmarshall) res) \<Rightarrow> unmarshall \<Rightarrow> (('a \<times> 'b) \<times> unmarshall) res"
  where "get_pair f g u = bind_res (f u) (\<lambda>(a, u). bind_res (g u) (\<lambda>(b, u). Ret ((a, b), u)))"

definition get_map ::
  "(unmarshall \<Rightarrow> ('a::linorder \<times> unmarshall) res) \<Rightarrow> (unmarshall \<Rightarrow> ('b \<times> unmarshall) res) \<Rightarrow> unmarshall \<Rightarrow> (('a, 'b) smap \<times> unmarshall) res"
  where "get_map f g u =
     bind_res (get_uint u) (\<lambda>(n, u).
     bind_res (get_n (get_pair f g) (unat n) [] u) (\<lambda>(ps, u).
       Ret (fold (\<lambda>(a, b). mput a b) ps [], u)))"

definition unpack :: "unmarshall \<Rightarrow> (u32 \<times> unmarshall) res" where
  "unpack u =
     bind_res (u_rawbyte u) (\<lambda>(c3, u).
     bind_res (u_rawbyte u) (\<lambda>(c2, u).
     bind_res (u_rawbyte u) (\<lambda>(c1, u).
     bind_res (u_rawbyte u) (\<lambda>(c0, u).
       Ret (push_bit 24 (c3 AND 0xff) OR push_bit 16 (c2 AND 0xff)
              OR push_bit 8 (c1 AND 0xff) OR (c0 AND 0xff), u)))))"

definition unpack_req_header :: "unmarshall \<Rightarrow> (req_header \<times> unmarshall) res" where
  "unpack_req_header u =
     bind_res (unpack (u\<lparr>uind := sizeof_rpc_sz\<rparr>)) (\<lambda>(a, u).
     bind_res (unpack u) (\<lambda>(b, u).
     bind_res (unpack u) (\<lambda>(c, u).
     bind_res (unpack u) (\<lambda>(d, u).
     bind_res (unpack u) (\<lambda>(e, u).
       Ret (\<lparr>rq_xid = a, rq_proc = b, rq_clt_nonce = c, rq_srv_nonce = d, rq_xid_rep = e\<rparr>,
            u\<lparr>uind := RPC_HEADER_SZ\<rparr>))))))"

definition unpack_reply_header :: "unmarshall \<Rightarrow> (reply_header \<times> unmarshall) res" where
  "unpack_reply_header u =
     bind_res (unpack (u\<lparr>uind := sizeof_rpc_sz\<rparr>)) (\<lambda>(a, u).
     bind_res (unpack u) (\<lambda>(b, u).
       Ret (\<lparr>rp_xid = a, rp_ret = b\<rparr>, u\<lparr>uind := RPC_HEADER_SZ\<rparr>)))"

section \<open>The buffer discipline of writing\<close>

definition m_inv :: "marshall \<Rightarrow> bool" where
  "m_inv m \<longleftrightarrow> length (mbuf m) = mcapa m \<and> mind m \<le> mcapa m \<and> RPC_HEADER_SZ \<le> mcapa m"

lemma m_inv_new [simp]: "m_inv (marshall_new g)"
  by (simp add: m_inv_def marshall_new_def DEFAULT_RPC_SZ_def)

lemma length_m_bytes [simp]: "m_inv m \<Longrightarrow> length (m_bytes m) = mind m"
  by (simp add: m_inv_def m_bytes_def)

lemma m_inv_realloc: "m_inv m \<Longrightarrow> mcapa m \<le> n \<Longrightarrow> m_inv (m_realloc n m)"
  by (simp add: m_inv_def m_realloc_def)

lemma m_bytes_realloc: "m_inv m \<Longrightarrow> mcapa m \<le> n \<Longrightarrow> m_bytes (m_realloc n m) = m_bytes m"
  by (simp add: m_inv_def m_realloc_def m_bytes_def)

lemma m_realloc_sel [simp]: "mind (m_realloc n m) = mind m" "mcapa (m_realloc n m) = n"
  by (simp_all add: m_realloc_def)

text \<open>
  \<open>emits f bs\<close>: from every well-formed object the writer \<open>f\<close> returns, keeps the object
  well-formed and appends exactly \<open>bs\<close>.
\<close>

definition emits :: "(marshall \<Rightarrow> marshall res) \<Rightarrow> byte list \<Rightarrow> bool" where
  "emits f bs \<longleftrightarrow> (\<forall>m. m_inv m \<longrightarrow> (\<exists>m'. f m = Ret m' \<and> m_inv m' \<and> m_bytes m' = m_bytes m @ bs))"

lemma emitsE:
  assumes "emits f bs" and "m_inv m"
  obtains m' where "f m = Ret m'" and "m_inv m'" and "m_bytes m' = m_bytes m @ bs"
  using assms unfolding emits_def by blast

lemma emits_Ret [emits_intros]: "emits Ret []"
  by (simp add: emits_def)

lemma emits_bind [emits_intros]:
  assumes f: "emits f a" and g: "emits g b"
  shows "emits (\<lambda>m. bind_res (f m) g) (a @ b)"
  unfolding emits_def
proof (intro allI impI)
  fix m assume "m_inv m"
  then obtain m1 where 1: "f m = Ret m1" "m_inv m1" "m_bytes m1 = m_bytes m @ a"
    by (rule emitsE [OF f])
  obtain m2 where 2: "g m1 = Ret m2" "m_inv m2" "m_bytes m2 = m_bytes m1 @ b"
    by (rule emitsE [OF g 1(2)])
  show "\<exists>m'. bind_res (f m) g = Ret m' \<and> m_inv m' \<and> m_bytes m' = m_bytes m @ a @ b"
    using 1 2 by simp
qed

lemma m_rawbyte_inside:
  "mind m < mcapa m \<Longrightarrow> length (mbuf m) = mcapa m \<Longrightarrow>
   m_rawbyte x m = Ret (m\<lparr>mbuf := (mbuf m)[mind m := x], mind := mind m + 1\<rparr>)"
  by (simp add: m_rawbyte_def Let_def)

lemma emits_rawbyte [emits_intros]: "emits (m_rawbyte x) [x]"
  unfolding emits_def
proof (intro allI impI)
  fix m assume inv: "m_inv m"
  define m1 where "m1 = (if mind m \<ge> mcapa m then m_realloc (mcapa m * 2) m else m)"
  have 1: "m_inv m1" "m_bytes m1 = m_bytes m" "mind m1 < mcapa m1"
    using inv by (auto simp: m1_def m_inv_realloc m_bytes_realloc) (simp_all add: m_inv_def)
  let ?m2 = "m1\<lparr>mbuf := (mbuf m1)[mind m1 := x], mind := mind m1 + 1\<rparr>"
  have "m_rawbyte x m = Ret ?m2"
    unfolding m_rawbyte_def Let_def m1_def [symmetric] using 1 by (simp add: m_inv_def)
  moreover have "m_inv ?m2" using 1 by (simp add: m_inv_def)
  moreover have "m_bytes ?m2 = m_bytes m @ [x]"
    using 1 by (simp add: m_bytes_def m_inv_def take_Suc_conv_app_nth)
  ultimately show "\<exists>m'. m_rawbyte x m = Ret m' \<and> m_inv m' \<and> m_bytes m' = m_bytes m @ [x]"
    by blast
qed

lemma emits_rawbytes [emits_intros]: "n = int (length p) \<Longrightarrow> emits (m_rawbytes p n) p"
  unfolding emits_def
proof (intro allI impI)
  fix m assume n: "n = int (length p)" and inv: "m_inv m"
  define m1 where "m1 = (if int (mind m) + n > int (mcapa m)
    then m_realloc (nat (if int (mcapa m) > n then 2 * int (mcapa m) else int (mcapa m) + n)) m else m)"
  have 1: "m_inv m1" "m_bytes m1 = m_bytes m" "mind m1 + length p \<le> mcapa m1"
    using inv n by (auto simp: m1_def m_inv_realloc m_bytes_realloc) (auto simp: m_inv_def)
  let ?m2 = "m1\<lparr>mbuf := take (mind m1) (mbuf m1) @ p @ drop (mind m1 + length p) (mbuf m1),
                mind := mind m1 + length p\<rparr>"
  have "m_rawbytes p n m = Ret ?m2"
    unfolding m_rawbytes_def Let_def m1_def [symmetric] using 1 n by (simp add: m_inv_def)
  moreover have "m_inv ?m2" using 1 by (simp add: m_inv_def)
  moreover have "m_bytes ?m2 = m_bytes m1 @ p"
    using 1(1,3) by (simp add: m_bytes_def m_inv_def)
  then have "m_bytes ?m2 = m_bytes m @ p" using 1(2) by simp
  ultimately show "\<exists>m'. m_rawbytes p n m = Ret m' \<and> m_inv m' \<and> m_bytes m' = m_bytes m @ p"
    by blast
qed

section \<open>Encodings\<close>

definition be16 :: "16 word \<Rightarrow> byte list" where
  "be16 x = [ucast (drop_bit 8 x AND 0xff), ucast (x AND 0xff)]"

definition be32 :: "u32 \<Rightarrow> byte list" where
  "be32 x = [ucast (drop_bit 24 x AND 0xff), ucast (drop_bit 16 x AND 0xff),
             ucast (drop_bit 8 x AND 0xff), ucast (x AND 0xff)]"

definition be64 :: "u64 \<Rightarrow> byte list" where
  "be64 x = be32 (ucast (drop_bit 32 x)) @ be32 (ucast x)"

definition enc_string :: "string \<Rightarrow> byte list" where
  "enc_string s = be32 (of_nat (length s)) @ bytes_of s"

definition enc_list :: "('a \<Rightarrow> byte list) \<Rightarrow> 'a list \<Rightarrow> byte list" where
  "enc_list e v = be32 (of_nat (length v)) @ concat (map e v)"

lemma length_be [simp]: "length (be16 x) = 2" "length (be32 y) = 4" "length (be64 z) = 8"
  by (simp_all add: be16_def be32_def be64_def)

lemma length_bytes_of [simp]: "length (bytes_of s) = length s"
  by (simp add: bytes_of_def)

lemma emits_put_bool [emits_intros]: "emits (put_bool x) [if x then 1 else 0]"
  unfolding put_bool_def [abs_def] by (rule emits_rawbyte)

lemma emits_put_uchar [emits_intros]: "emits (put_uchar x) [x]" "emits (put_char x) [x]"
  unfolding put_uchar_def [abs_def] put_char_def [abs_def] by (rule emits_rawbyte)+

lemma emits_put_ushort [emits_intros]: "emits (put_ushort x) (be16 x)" "emits (put_short x) (be16 x)"
  using emits_bind [OF emits_rawbyte emits_rawbyte]
  by (simp_all add: put_ushort_def [abs_def] put_short_def [abs_def] be16_def)

lemma emits_pack [emits_intros]: "emits (pack x) (be32 x)"
  using emits_bind [OF emits_rawbyte emits_bind [OF emits_rawbyte emits_bind [OF emits_rawbyte emits_rawbyte]]]
  by (simp add: pack_def [abs_def] be32_def)

lemma put_uint_pack: "put_uint x m = pack x m"
  by (simp add: put_uint_def pack_def)

lemma emits_put_uint [emits_intros]: "emits (put_uint x) (be32 x)" "emits (put_int x) (be32 x)"
  using emits_pack by (simp_all add: put_uint_pack [abs_def] put_int_def [abs_def])

lemma emits_put_ull [emits_intros]: "emits (put_ull x) (be64 x)"
  unfolding put_ull_def [abs_def] be64_def by (intro emits_bind emits_put_uint)

lemma sint_small: "n < 2 ^ 31 \<Longrightarrow> sint (of_nat n :: u32) = int n"
  by (subst sint_uint) (simp add: unsigned_of_nat signed_take_bit_int_eq_self take_bit_nat_eq_self)

lemma emits_put_string [emits_intros]:
  "length s < 2 ^ 31 \<Longrightarrow> emits (put_string s) (enc_string s)"
  unfolding put_string_def [abs_def] enc_string_def
  by (intro emits_bind emits_put_uint emits_rawbytes) (simp add: sint_small)

lemma emits_put_all [emits_intros]:
  "(\<And>x. x \<in> set v \<Longrightarrow> emits (f x) (e x)) \<Longrightarrow> emits (put_all f v) (concat (map e v))"
proof (induction v)
  case Nil
  then show ?case using emits_Ret by (simp add: emits_def)
next
  case (Cons x v)
  have "emits (\<lambda>m. bind_res (f x m) (put_all f v)) (e x @ concat (map e v))"
    using Cons by (intro emits_bind) auto
  then show ?case by (simp add: emits_def)
qed

lemma emits_put_vector [emits_intros]:
  "(\<And>x. x \<in> set v \<Longrightarrow> emits (f x) (e x)) \<Longrightarrow> emits (put_vector f v) (enc_list e v)"
  unfolding put_vector_def [abs_def] enc_list_def
  by (intro emits_bind emits_put_uint emits_put_all)

lemma emits_put_pair [emits_intros]:
  "emits (f (fst p)) a \<Longrightarrow> emits (g (snd p)) b \<Longrightarrow> emits (put_pair f g p) (a @ b)"
  unfolding put_pair_def [abs_def] by (intro emits_bind)

lemma emits_put_map [emits_intros]:
  "(\<And>a b. (a, b) \<in> set d \<Longrightarrow> emits (f a) (ea a) \<and> emits (g b) (eb b)) \<Longrightarrow>
   emits (put_map f g d) (enc_list (\<lambda>(a, b). ea a @ eb b) d)"
  unfolding put_map_def [abs_def] enc_list_def
  by (intro emits_bind emits_put_uint emits_put_all) (auto intro!: emits_put_pair split: prod.splits)

section \<open>What a reader consumes\<close>

definition u_inv :: "unmarshall \<Rightarrow> bool" where
  "u_inv u \<longleftrightarrow> length (ubuf u) = usz u \<and> uind u \<le> usz u \<and> usz u < 2 ^ 31"

definition u_rest :: "unmarshall \<Rightarrow> byte list" where
  "u_rest u = drop (uind u) (ubuf u)"

text \<open>
  \<open>reads f bs x\<close>: from every well-formed object whose unread bytes start with \<open>bs\<close>, the reader
  \<open>f\<close> returns \<open>x\<close> and moves past \<open>bs\<close>, with nothing else changed.
\<close>

definition reads :: "(unmarshall \<Rightarrow> ('a \<times> unmarshall) res) \<Rightarrow> byte list \<Rightarrow> 'a \<Rightarrow> bool" where
  "reads f bs x \<longleftrightarrow> (\<forall>u r. u_inv u \<and> uok u \<and> u_rest u = bs @ r \<longrightarrow>
     f u = Ret (x, u\<lparr>uind := uind u + length bs\<rparr>))"

lemma readsD:
  "reads f bs x \<Longrightarrow> u_inv u \<Longrightarrow> uok u \<Longrightarrow> u_rest u = bs @ r \<Longrightarrow>
   f u = Ret (x, u\<lparr>uind := uind u + length bs\<rparr>)"
  unfolding reads_def by blast

lemma u_rest_length: "u_inv u \<Longrightarrow> u_rest u = bs @ r \<Longrightarrow> uind u + length bs \<le> usz u"
  by (metis add_le_cancel_left append_eq_conv_conj drop_all le_add_diff_inverse length_append
      length_drop le_add1 u_inv_def u_rest_def)

lemma u_after:
  assumes "u_inv u" and "u_rest u = bs @ r"
  shows "u_inv (u\<lparr>uind := uind u + length bs\<rparr>)"
    and "u_rest (u\<lparr>uind := uind u + length bs\<rparr>) = r"
proof -
  show "u_inv (u\<lparr>uind := uind u + length bs\<rparr>)"
    using assms u_rest_length [OF assms] by (simp add: u_inv_def)
  have "drop (length bs) (drop (uind u) (ubuf u)) = r"
    using assms(2) by (simp add: u_rest_def)
  then show "u_rest (u\<lparr>uind := uind u + length bs\<rparr>) = r"
    by (simp add: u_rest_def add.commute)
qed

lemma reads_Ret [reads_intros]: "reads (\<lambda>u. Ret (x, u)) [] x"
  by (simp add: reads_def)

lemma reads_bind [reads_intros]:
  assumes f: "reads f a x" and g: "reads (g x) b y"
  shows "reads (\<lambda>u. bind_res (f u) (\<lambda>(x, u). g x u)) (a @ b) y"
  unfolding reads_def
proof (intro allI impI)
  fix u r assume u: "u_inv u \<and> uok u \<and> u_rest u = (a @ b) @ r"
  let ?v = "u\<lparr>uind := uind u + length a\<rparr>"
  have 1: "f u = Ret (x, ?v)" using readsD [OF f] u by simp
  have "u_inv ?v" "u_rest ?v = b @ r" using u_after [of u a "b @ r"] u by simp_all
  then have "g x ?v = Ret (y, ?v\<lparr>uind := uind ?v + length b\<rparr>)"
    using readsD [OF g] u by simp
  with 1 show "bind_res (f u) (\<lambda>(x, u). g x u) = Ret (y, u\<lparr>uind := uind u + length (a @ b)\<rparr>)"
    by (simp add: add.assoc)
qed

lemma reads_map [reads_intros]:
  assumes "reads f a x"
  shows "reads (\<lambda>u. bind_res (f u) (\<lambda>(x, u). Ret (h x, u))) a (h x)"
  using reads_bind [OF assms, of "\<lambda>x u. Ret (h x, u)" "[]" "h x"] reads_Ret [of "h x"] by simp

lemma reads_rawbyte [reads_intros]: "reads u_rawbyte [b] (scast b)"
  unfolding reads_def
proof (intro allI impI)
  fix u r assume u: "u_inv u \<and> uok u \<and> u_rest u = [b] @ r"
  then have lt: "uind u < length (ubuf u)" "ubuf u ! uind u = b"
    by (auto simp: u_rest_def) (metis drop_all leI list.distinct(1), metis nth_via_drop)
  then show "u_rawbyte u = Ret (scast b, u\<lparr>uind := uind u + length [b]\<rparr>)"
    using u by (simp add: u_rawbyte_def u_inv_def)
qed

text \<open>The byte masks and shifts invert each other.\<close>

lemma mask_ff: "x AND 0xff = take_bit 8 (x::'a::len word)"
  using take_bit_eq_mask [of 8 x] by (simp add: mask_eq_exp_minus_1)

lemma scast_mask_ff: "(scast (b :: byte) :: u32) AND 0xff = ucast b"
  unfolding mask_ff
proof (rule bit_word_eqI)
  fix n assume "n < LENGTH(32)"
  then consider "n < 7" | "n = 7" | "7 < n" by linarith
  then show "bit (take_bit 8 (scast b :: u32)) n = bit (ucast b :: u32) n"
    by cases (auto simp: bit_simps dest: bit_imp_le_length)
qed

lemma be32_inverse:
  "push_bit 24 (scast (ucast (drop_bit 24 x AND 0xff) :: byte) AND 0xff)
     OR push_bit 16 (scast (ucast (drop_bit 16 x AND 0xff) :: byte) AND 0xff)
     OR push_bit 8 (scast (ucast (drop_bit 8 x AND 0xff) :: byte) AND 0xff)
     OR (scast (ucast (x AND 0xff) :: byte) AND 0xff) = (x :: u32)"
  unfolding scast_mask_ff unfolding mask_ff
proof (rule bit_word_eqI)
  fix n assume "n < LENGTH(32)"
  then consider "n < 8" | "8 \<le> n" "n < 16" | "16 \<le> n" "n < 24" | "24 \<le> n" "n < 32"
    by fastforce
  then show "bit (push_bit 24 (ucast (ucast (take_bit 8 (drop_bit 24 x)) :: byte) :: u32)
     OR push_bit 16 (ucast (ucast (take_bit 8 (drop_bit 16 x)) :: byte))
     OR push_bit 8 (ucast (ucast (take_bit 8 (drop_bit 8 x)) :: byte))
     OR ucast (ucast (take_bit 8 x) :: byte)) n = bit x n"
    by cases (auto simp: bit_simps)
qed

lemma be16_inverse:
  "ucast (push_bit 8 ((scast (ucast (drop_bit 8 x AND 0xff) :: byte) :: u32) AND 0xff))
     OR ucast ((scast (ucast (x AND 0xff) :: byte) :: u32) AND 0xff) = (x :: 16 word)"
  unfolding scast_mask_ff unfolding mask_ff
  by (rule bit_word_eqI) (auto simp: bit_simps)

lemma be64_inverse:
  "ucast (ucast x :: u32) OR push_bit 32 (ucast (ucast (drop_bit 32 x) :: u32)) = (x :: u64)"
  by (rule bit_word_eqI) (auto simp: bit_simps)

lemma string_of_bytes_of [simp]: "string_of (bytes_of s) = s"
proof -
  have "char_of (unat (of_char c :: byte)) = c" for c
  proof -
    have "(of_char c :: byte) = of_nat (of_char c)" by (simp only: of_nat_of_char)
    then show ?thesis by (simp add: unat_of_nat)
  qed
  then show ?thesis by (simp add: string_of_def bytes_of_def map_idI)
qed

lemma ucast_scast_byte: "ucast (scast (b :: byte) :: u32) = b"
proof (rule bit_word_eqI)
  fix n assume "n < LENGTH(8)"
  then consider "n < 7" | "n = 7" by fastforce
  then show "bit (ucast (scast b :: u32) :: byte) n = bit b n"
    by cases (auto simp: bit_simps)
qed

lemma reads_unpack [reads_intros]: "reads unpack (be32 x) x"
proof -
  have "reads (\<lambda>u. bind_res (u_rawbyte u) (\<lambda>(c3, u).
     bind_res (u_rawbyte u) (\<lambda>(c2, u).
     bind_res (u_rawbyte u) (\<lambda>(c1, u).
     bind_res (u_rawbyte u) (\<lambda>(c0, u).
       Ret (push_bit 24 (c3 AND 0xff) OR push_bit 16 (c2 AND 0xff)
              OR push_bit 8 (c1 AND 0xff) OR (c0 AND 0xff), u))))))
     ([a3] @ [a2] @ [a1] @ [a0] @ [])
     (push_bit 24 (scast a3 AND 0xff) OR push_bit 16 (scast a2 AND 0xff)
              OR push_bit 8 (scast a1 AND 0xff) OR (scast a0 AND 0xff))" for a3 a2 a1 a0
    by (rule reads_bind [OF reads_rawbyte] reads_Ret)+
  from this [of "ucast (drop_bit 24 x AND 0xff)" "ucast (drop_bit 16 x AND 0xff)"
      "ucast (drop_bit 8 x AND 0xff)" "ucast (x AND 0xff)"]
  show ?thesis unfolding be32_inverse by (simp add: unpack_def [abs_def] be32_def)
qed

lemma get_uint_unpack: "get_uint u = unpack u"
  by (simp add: get_uint_def unpack_def)

lemma reads_get_uint [reads_intros]: "reads get_uint (be32 x) x" "reads get_int (be32 x) x"
  using reads_unpack by (simp_all add: get_uint_unpack [abs_def] get_int_def [abs_def])

lemma reads_get_uchar [reads_intros]: "reads get_uchar [b] b" "reads get_char [b] b"
  using reads_map [OF reads_rawbyte, of "ucast :: u32 \<Rightarrow> byte" b]
  by (simp_all add: get_uchar_def [abs_def] get_char_def [abs_def] ucast_scast_byte)

lemma reads_get_bool [reads_intros]: "reads get_bool [if x then 1 else 0] x"
  using reads_map [OF reads_rawbyte, of "\<lambda>c. c \<noteq> 0" "if x then 1 else 0"]
  by (cases x) (simp_all add: get_bool_def [abs_def])

lemma reads_get_ushort [reads_intros]: "reads get_ushort (be16 x) x" "reads get_short (be16 x) x"
proof -
  have "reads (\<lambda>u. bind_res (u_rawbyte u) (\<lambda>(c1, u). bind_res (u_rawbyte u) (\<lambda>(c0, u).
       Ret (ucast (push_bit 8 (c1 AND 0xff)) OR ucast (c0 AND 0xff), u))))
     ([a1] @ [a0] @ [])
     (ucast (push_bit 8 ((scast a1 :: u32) AND 0xff)) OR ucast ((scast a0 :: u32) AND 0xff) :: 16 word)"
    for a1 a0
    by (rule reads_bind [OF reads_rawbyte] reads_Ret)+
  from this [of "ucast (drop_bit 8 x AND 0xff)" "ucast (x AND 0xff)"]
  show "reads get_ushort (be16 x) x"
    unfolding be16_inverse by (simp add: get_ushort_def [abs_def] be16_def)
  then show "reads get_short (be16 x) x" by (simp add: get_short_def [abs_def])
qed

lemma reads_get_ull [reads_intros]: "reads get_ull (be64 x) x"
proof -
  have "reads (\<lambda>u. bind_res (get_uint u) (\<lambda>(h, u). bind_res (get_uint u) (\<lambda>(l, u).
       Ret (ucast l OR push_bit 32 (ucast h), u))))
     (be32 (ucast (drop_bit 32 x)) @ be32 (ucast x) @ [])
     (ucast (ucast x :: u32) OR push_bit 32 (ucast (ucast (drop_bit 32 x) :: u32)) :: u64)"
    by (rule reads_bind [OF reads_get_uint(1)] reads_Ret)+
  then show ?thesis unfolding be64_inverse by (simp add: get_ull_def [abs_def] be64_def)
qed

lemma reads_u_rawbytes [reads_intros]:
  assumes "length t < 2 ^ 31"
  shows "reads (u_rawbytes s (of_nat (length t))) (bytes_of t) t"
  unfolding reads_def
proof (intro allI impI)
  fix u r assume u: "u_inv u \<and> uok u \<and> u_rest u = bytes_of t @ r"
  then have le: "uind u + length t \<le> usz u" using u_rest_length [of u "bytes_of t" r] by simp
  have n: "unat (of_nat (length t) :: u32) = length t"
    using assms by (simp add: unat_of_nat)
  have "unat (of_nat (uind u) + of_nat (length t) :: u32) = uind u + length t"
    using u le by (simp add: unat_word_ariths unat_of_nat u_inv_def)
  then have guard: "\<not> of_nat (uind u) + of_nat (length t) > (of_nat (usz u) :: u32)"
    using u le by (simp add: word_less_nat_alt unat_of_nat u_inv_def)
  have "take (length t) (drop (uind u) (ubuf u)) = bytes_of t"
    using u by (simp add: u_rest_def)
  then show "u_rawbytes s (of_nat (length t)) u = Ret (t, u\<lparr>uind := uind u + length (bytes_of t)\<rparr>)"
    using guard n le u by (simp add: u_rawbytes_def u_inv_def)
qed

lemma reads_get_string [reads_intros]:
  assumes "length t < 2 ^ 31"
  shows "reads (get_string s) (enc_string t) t"
  unfolding reads_def enc_string_def
proof (intro allI impI)
  fix u r assume u: "u_inv u \<and> uok u \<and> u_rest u = (be32 (of_nat (length t)) @ bytes_of t) @ r"
  let ?v = "u\<lparr>uind := uind u + length (be32 (of_nat (length t)))\<rparr>"
  have v: "u_inv ?v" "u_rest ?v = bytes_of t @ r"
    using u_after [of u "be32 (of_nat (length t))" "bytes_of t @ r"] u by simp_all
  have "get_uint u = Ret (of_nat (length t), ?v)"
    using readsD [OF reads_get_uint(1)] u by simp
  moreover have "u_rawbytes s (of_nat (length t)) ?v = Ret (t, ?v\<lparr>uind := uind ?v + length (bytes_of t)\<rparr>)"
    using readsD [OF reads_u_rawbytes [OF assms] v(1) _ v(2)] u by simp
  ultimately show "get_string s u =
      Ret (t, u\<lparr>uind := uind u + length (be32 (of_nat (length t)) @ bytes_of t)\<rparr>)"
    using u by (simp add: get_string_def add.assoc)
qed

lemma reads_get_n:
  assumes "\<And>x. x \<in> set ws \<Longrightarrow> reads f (e x) x"
  shows "reads (get_n f (length ws) v) (concat (map e ws)) (v @ ws)"
  using assms
proof (induction ws arbitrary: v)
  case Nil
  then show ?case using reads_Ret [of v] by (simp add: reads_def)
next
  case (Cons x ws)
  have "reads (\<lambda>u. bind_res (f u) (\<lambda>(z, u). get_n f (length ws) (v @ [z]) u))
      (e x @ concat (map e ws)) ((v @ [x]) @ ws)"
    by (rule reads_bind [of f "e x" x]) (rule Cons.prems, simp, rule Cons.IH, rule Cons.prems, simp)
  then show ?case by (simp add: reads_def)
qed

lemma reads_get_vector [reads_intros]:
  assumes "\<And>x. x \<in> set ws \<Longrightarrow> reads f (e x) x" and "length ws < 2 ^ 32"
  shows "reads (get_vector f v) (enc_list e ws) (v @ ws)"
proof -
  have "unat (of_nat (length ws) :: u32) = length ws" using assms(2) by (simp add: unat_of_nat)
  then have "reads (\<lambda>u. bind_res (get_uint u) (\<lambda>(n, u). get_n f (unat n) v u))
      (be32 (of_nat (length ws)) @ concat (map e ws)) (v @ ws)"
    by (intro reads_bind [OF reads_get_uint(1)]) (simp add: reads_get_n assms(1))
  then show ?thesis by (simp add: get_vector_def [abs_def] enc_list_def)
qed

lemma reads_get_pair [reads_intros]:
  assumes "reads f (ea a) a" and "reads g (eb b) b"
  shows "reads (get_pair f g) (ea a @ eb b) (a, b)"
proof -
  have "reads (\<lambda>u. bind_res (f u) (\<lambda>(a, u). bind_res (g u) (\<lambda>(b, u). Ret ((a, b), u))))
      (ea a @ eb b @ []) (a, b)"
    by (rule reads_bind [OF assms(1)] reads_bind [OF assms(2)] reads_Ret)+
  then show ?thesis by (simp add: get_pair_def [abs_def])
qed

lemma reads_get_map [reads_intros]:
  assumes d: "\<And>a b. (a, b) \<in> set d \<Longrightarrow> reads f (ea a) a \<and> reads g (eb b) b"
    and len: "length d < 2 ^ 32" and wf: "mwf d"
  shows "reads (get_map f g) (enc_list (\<lambda>(a, b). ea a @ eb b) d) d"
proof -
  have n: "unat (of_nat (length d) :: u32) = length d" using len by (simp add: unat_of_nat)
  have "reads (get_n (get_pair f g) (length d) []) (concat (map (\<lambda>(a, b). ea a @ eb b) d)) ([] @ d)"
    by (rule reads_get_n) (auto intro!: reads_get_pair dest: d)
  from reads_map [OF this, of "\<lambda>ps. fold (\<lambda>(a, b). mput a b) ps []"]
  have r: "reads (\<lambda>u. bind_res (get_n (get_pair f g) (length d) [] u)
      (\<lambda>(ps, u). Ret (fold (\<lambda>(a, b). mput a b) ps [], u)))
      (concat (map (\<lambda>(a, b). ea a @ eb b) d)) d"
    by (simp add: fold_mput_id [OF wf])
  have "reads (\<lambda>u. bind_res (get_uint u) (\<lambda>(n, u).
     bind_res (get_n (get_pair f g) (unat n) [] u) (\<lambda>(ps, u).
       Ret (fold (\<lambda>(a, b). mput a b) ps [], u))))
      (be32 (of_nat (length d)) @ concat (map (\<lambda>(a, b). ea a @ eb b) d)) d"
    by (rule reads_bind [OF reads_get_uint(1)]) (use r n in simp)
  then show ?thesis by (simp add: get_map_def [abs_def] enc_list_def)
qed

section \<open>The interface of a type that can be sent\<close>

locale codec =
  fixes put :: "'a \<Rightarrow> marshall \<Rightarrow> marshall res"
    and get :: "unmarshall \<Rightarrow> ('a \<times> unmarshall) res"
    and enc :: "'a \<Rightarrow> byte list"
    and valid :: "'a \<Rightarrow> bool"
  assumes put_emits: "valid x \<Longrightarrow> emits (put x) (enc x)"
    and get_reads: "valid x \<Longrightarrow> reads get (enc x) x"
begin

text \<open>What is written behind a position of a message is read back from that position.\<close>

lemma message_roundtrip:
  assumes "valid x" and "m_inv m" and "put x m = Ret m'" and "length (m_bytes m') < 2 ^ 31"
  shows "get ((unmarshall_new (m_bytes m'))\<lparr>uind := mind m\<rparr>)
           = Ret (x, (unmarshall_new (m_bytes m'))\<lparr>uind := mind m'\<rparr>)"
    and "okdone ((unmarshall_new (m_bytes m'))\<lparr>uind := mind m'\<rparr>)"
proof -
  obtain m'' where "put x m = Ret m''" "m_inv m''" "m_bytes m'' = m_bytes m @ enc x"
    by (rule emitsE [OF put_emits [OF assms(1)] assms(2)])
  then have m': "m_inv m'" "m_bytes m' = m_bytes m @ enc x" using assms(3) by simp_all
  let ?u = "(unmarshall_new (m_bytes m'))\<lparr>uind := mind m\<rparr>"
  have len: "mind m' = mind m + length (enc x)"
    using length_m_bytes [OF m'(1)] length_m_bytes [OF assms(2)] m'(2) by simp
  have "u_inv ?u" using assms(4) length_m_bytes [OF m'(1)] len
    by (simp add: u_inv_def unmarshall_new_def)
  moreover have "u_rest ?u = enc x @ []"
    using m'(2) length_m_bytes [OF assms(2)] by (simp add: u_rest_def unmarshall_new_def)
  moreover have "uok ?u" by (simp add: unmarshall_new_def)
  ultimately have "get ?u = Ret (x, ?u\<lparr>uind := uind ?u + length (enc x)\<rparr>)"
    using readsD [OF get_reads [OF assms(1)]] by blast
  then show "get ((unmarshall_new (m_bytes m'))\<lparr>uind := mind m\<rparr>)
           = Ret (x, (unmarshall_new (m_bytes m'))\<lparr>uind := mind m'\<rparr>)"
    by (simp add: len)
  show "okdone ((unmarshall_new (m_bytes m'))\<lparr>uind := mind m'\<rparr>)"
    using length_m_bytes [OF m'(1)] by (simp add: okdone_def unmarshall_new_def)
qed

text \<open>No value's encoding is the start of another's: the format needs no separators.\<close>

lemma enc_prefix_free:
  assumes "valid x" and "valid y" and eq: "enc x @ r = enc y @ r'" and len: "length (enc x @ r) < 2 ^ 31"
  shows "x = y"
proof -
  let ?u = "unmarshall_new (enc x @ r)"
  have u: "u_inv ?u" "uok ?u" "u_rest ?u = enc x @ r" "u_rest ?u = enc y @ r'"
    using len eq by (simp_all add: u_inv_def unmarshall_new_def u_rest_def)
  from readsD [OF get_reads [OF assms(1)] u(1,2,3)] readsD [OF get_reads [OF assms(2)] u(1,2,4)]
  show ?thesis by simp
qed

lemma vector_reads:
  "(\<And>x. x \<in> set v \<Longrightarrow> valid x) \<Longrightarrow> length v < 2 ^ 32 \<Longrightarrow> reads (get_vector get []) (enc_list enc v) v"
  using reads_get_vector [of v get enc "[]"] get_reads by simp

lemma vector_emits: "(\<And>x. x \<in> set v \<Longrightarrow> valid x) \<Longrightarrow> emits (put_vector put v) (enc_list enc v)"
  by (rule emits_put_vector) (rule put_emits)

end

text \<open>Two types that can be sent, sent one after the other.\<close>

locale codec_pair = fst: codec put get enc valid + snd: codec put' get' enc' valid'
  for put :: "'a \<Rightarrow> marshall \<Rightarrow> marshall res" and get enc valid
    and put' :: "'b \<Rightarrow> marshall \<Rightarrow> marshall res" and get' enc' valid'

sublocale codec_pair \<subseteq> both: codec "put_pair put put'" "get_pair get get'"
    "\<lambda>p. enc (fst p) @ enc' (snd p)" "\<lambda>p. valid (fst p) \<and> valid' (snd p)"
  by unfold_locales
    (auto intro!: emits_put_pair fst.put_emits snd.put_emits,
     auto dest: reads_get_pair [OF fst.get_reads snd.get_reads])

interpretation c_bool: codec put_bool get_bool "\<lambda>x. [if x then 1 else 0]" "\<lambda>_. True"
  by unfold_locales (rule emits_put_bool, rule reads_get_bool)

interpretation c_uint: codec put_uint get_uint be32 "\<lambda>_. True"
  by unfold_locales (rule emits_put_uint, rule reads_get_uint)

interpretation c_int: codec put_int get_int be32 "\<lambda>_. True"
  by unfold_locales (rule emits_put_uint, rule reads_get_uint)

interpretation c_ushort: codec put_ushort get_ushort be16 "\<lambda>_. True"
  by unfold_locales (rule emits_put_ushort, rule reads_get_ushort)

interpretation c_uchar: codec put_uchar get_uchar "\<lambda>x. [x]" "\<lambda>_. True"
  by unfold_locales (rule emits_put_uchar, rule reads_get_uchar)

interpretation c_ull: codec put_ull get_ull be64 "\<lambda>_. True"
  by unfold_locales (rule emits_put_ull, rule reads_get_ull)

interpretation c_string: codec put_string "get_string s0" enc_string "\<lambda>s. length s < 2 ^ 31" for s0
  by unfold_locales (rule emits_put_string, simp, rule reads_get_string, simp)

text \<open>The arguments of the lock RPCs: a lock number and the caller's address.\<close>

interpretation c_lock_args: codec_pair put_ull get_ull be64 "\<lambda>_. True"
    put_string "get_string s0" enc_string "\<lambda>s. length s < 2 ^ 31" for s0
  by unfold_locales

section \<open>Headers\<close>

lemma length_at_least_4: "4 \<le> length xs \<Longrightarrow> \<exists>a b c d t. xs = a # b # c # d # t"
  by (auto simp: Suc_le_length_iff numeral_eq_Suc)

lemma pack_inside:
  assumes "mind m + 4 \<le> mcapa m" and "length (mbuf m) = mcapa m"
  shows "pack x m = Ret (m\<lparr>mbuf := take (mind m) (mbuf m) @ be32 x @ drop (mind m + 4) (mbuf m),
                           mind := mind m + 4\<rparr>)"
proof -
  let ?i = "mind m" and ?b = "mbuf m"
  have "4 \<le> length (drop ?i ?b)" using assms by simp
  then obtain a b c d t where t: "drop ?i ?b = a # b # c # d # t"
    using length_at_least_4 by blast
  define h where "h = take ?i ?b"
  have b: "?b = h @ a # b # c # d # t" and h: "length h = ?i"
    using t append_take_drop_id [of ?i ?b] assms by (simp_all add: h_def)
  have "?b[?i := w, Suc ?i := x', Suc (Suc ?i) := y, Suc (Suc (Suc ?i)) := z] = h @ w # x' # y # z # t"
    for w x' y z
    unfolding h [symmetric] b by (simp add: list_update_append)
  moreover have "drop (?i + 4) ?b = t" using b h by (simp add: h [symmetric])
  ultimately show ?thesis
    using assms by (simp add: pack_def m_rawbyte_inside be32_def h_def)
qed

lemma pack_req_header_spec:
  assumes "m_inv m"
  shows "\<exists>b. pack_req_header h m = Ret (m\<lparr>mbuf := b\<rparr>) \<and> m_inv (m\<lparr>mbuf := b\<rparr>) \<and>
     b = take 4 (mbuf m) @ (be32 (rq_xid h) @ be32 (rq_proc h) @ be32 (rq_clt_nonce h)
          @ be32 (rq_srv_nonce h) @ be32 (rq_xid_rep h)) @ drop 24 (mbuf m)"
  using assms
  by (simp add: pack_req_header_def pack_inside m_inv_def Let_def sizeof_rpc_sz_def)

lemma pack_reply_header_spec:
  assumes "m_inv m"
  shows "\<exists>b. pack_reply_header h m = Ret (m\<lparr>mbuf := b\<rparr>) \<and> m_inv (m\<lparr>mbuf := b\<rparr>) \<and>
     b = take 4 (mbuf m) @ (be32 (rp_xid h) @ be32 (rp_ret h)) @ drop 12 (mbuf m)"
  using assms
  by (simp add: pack_reply_header_def pack_inside m_inv_def Let_def sizeof_rpc_sz_def)

definition req_fields :: "unmarshall \<Rightarrow> (req_header \<times> unmarshall) res" where
  "req_fields u =
     bind_res (unpack u) (\<lambda>(a, u). bind_res (unpack u) (\<lambda>(b, u).
     bind_res (unpack u) (\<lambda>(c, u). bind_res (unpack u) (\<lambda>(d, u).
     bind_res (unpack u) (\<lambda>(e, u).
       Ret (\<lparr>rq_xid = a, rq_proc = b, rq_clt_nonce = c, rq_srv_nonce = d, rq_xid_rep = e\<rparr>, u))))))"

lemma unpack_req_header_eq:
  "unpack_req_header u =
     bind_res (req_fields (u\<lparr>uind := sizeof_rpc_sz\<rparr>)) (\<lambda>(h, u). Ret (h, u\<lparr>uind := RPC_HEADER_SZ\<rparr>))"
  by (simp add: unpack_req_header_def req_fields_def split_def)

lemma reads_req_fields:
  "reads req_fields (be32 a @ be32 b @ be32 c @ be32 d @ be32 e @ [])
   \<lparr>rq_xid = a, rq_proc = b, rq_clt_nonce = c, rq_srv_nonce = d, rq_xid_rep = e\<rparr>"
  unfolding req_fields_def [abs_def] by (rule reads_bind [OF reads_unpack] reads_Ret)+

lemma unpack_req_header_wire:
  fixes a b c d e :: u32
  defines "hdr \<equiv> be32 a @ be32 b @ be32 c @ be32 d @ be32 e"
  assumes "length p = 4" and "length r < 2 ^ 30"
  shows "unpack_req_header (unmarshall_new (p @ hdr @ r))
     = Ret (\<lparr>rq_xid = a, rq_proc = b, rq_clt_nonce = c, rq_srv_nonce = d, rq_xid_rep = e\<rparr>,
            (unmarshall_new (p @ hdr @ r))\<lparr>uind := RPC_HEADER_SZ\<rparr>)"
proof -
  let ?u = "(unmarshall_new (p @ hdr @ r))\<lparr>uind := sizeof_rpc_sz\<rparr>"
  have "u_inv ?u" "uok ?u" "u_rest ?u = (hdr @ []) @ r"
    using assms(2,3) by (simp_all add: u_inv_def unmarshall_new_def sizeof_rpc_sz_def u_rest_def hdr_def)
  then show ?thesis
    using readsD [OF reads_req_fields, of ?u] by (simp add: unpack_req_header_eq hdr_def)
qed

definition reply_fields :: "unmarshall \<Rightarrow> (reply_header \<times> unmarshall) res" where
  "reply_fields u =
     bind_res (unpack u) (\<lambda>(a, u). bind_res (unpack u) (\<lambda>(b, u). Ret (\<lparr>rp_xid = a, rp_ret = b\<rparr>, u)))"

lemma unpack_reply_header_eq:
  "unpack_reply_header u =
     bind_res (reply_fields (u\<lparr>uind := sizeof_rpc_sz\<rparr>)) (\<lambda>(h, u). Ret (h, u\<lparr>uind := RPC_HEADER_SZ\<rparr>))"
  by (simp add: unpack_reply_header_def reply_fields_def split_def)

lemma reads_reply_fields:
  "reads reply_fields (be32 a @ be32 b @ []) \<lparr>rp_xid = a, rp_ret = b\<rparr>"
  unfolding reply_fields_def [abs_def] by (rule reads_bind [OF reads_unpack] reads_Ret)+

text \<open>One byte never reads outside the buffer, and reading past the end clears the flag.\<close>

lemma u_rawbyte_total:
  "length (ubuf u) = usz u \<Longrightarrow> \<exists>c. u_rawbyte u =
     Ret (c, u\<lparr>uind := (if uind u < usz u then uind u + 1 else uind u), uok := (uok u \<and> uind u < usz u)\<rparr>)"
  by (auto simp: u_rawbyte_def)

lemma unpack_total:
  assumes "length (ubuf u) = usz u"
  shows "\<exists>x. unpack u = Ret (x, u\<lparr>uind := (if uind u < usz u then min (usz u) (uind u + 4) else uind u),
                                 uok := (uok u \<and> uind u + 4 \<le> usz u)\<rparr>)"
proof -
  define nxt where "nxt v = v\<lparr>uind := (if uind v < usz v then uind v + 1 else uind v),
                               uok := (uok v \<and> uind v < usz v)\<rparr>" for v :: unmarshall
  have step: "\<exists>c. u_rawbyte v = Ret (c, nxt v)" if "length (ubuf v) = usz v" for v
    using u_rawbyte_total [OF that] by (simp add: nxt_def)
  have keep: "length (ubuf (nxt v)) = usz (nxt v)" if "length (ubuf v) = usz v" for v
    using that by (simp add: nxt_def)
  obtain c3 where 3: "u_rawbyte u = Ret (c3, nxt u)" using step assms by blast
  obtain c2 where 2: "u_rawbyte (nxt u) = Ret (c2, nxt (nxt u))" using step keep assms by blast
  obtain c1 where 1: "u_rawbyte (nxt (nxt u)) = Ret (c1, nxt (nxt (nxt u)))"
    using step keep assms by blast
  obtain c0 where 0: "u_rawbyte (nxt (nxt (nxt u))) = Ret (c0, nxt (nxt (nxt (nxt u))))"
    using step keep assms by blast
  have "nxt (nxt (nxt (nxt u))) = u\<lparr>uind := (if uind u < usz u then min (usz u) (uind u + 4) else uind u),
                                 uok := (uok u \<and> uind u + 4 \<le> usz u)\<rparr>"
    by (auto simp: nxt_def min_def)
  with 3 2 1 0 show ?thesis by (simp add: unpack_def)
qed

section \<open>Properties\<close>

text \<open>A write of one byte or of a block, the two primitives every operator is made of.\<close>

datatype wop = WByte byte | WBytes "byte list"

fun wop_step :: "wop \<Rightarrow> marshall \<Rightarrow> marshall res" where
  "wop_step (WByte b) m = m_rawbyte b m"
| "wop_step (WBytes p) m = m_rawbytes p (int (length p)) m"

fun wop_bytes :: "wop \<Rightarrow> byte list" where
  "wop_bytes (WByte b) = [b]"
| "wop_bytes (WBytes p) = p"

definition m_capok :: "marshall \<Rightarrow> bool" where
  "m_capok m \<longleftrightarrow> mcapa m \<le> max DEFAULT_RPC_SZ (2 * mind m)"

lemma wop_emits: "emits (wop_step w) (wop_bytes w)"
  using emits_rawbyte emits_rawbytes by (cases w) (simp_all add: emits_def)

lemma wop_capok:
  assumes "m_inv m" and "m_capok m" and "wop_step w m = Ret m'"
  shows "m_capok m'"
  using assms
  by (cases w) (auto simp: m_capok_def m_inv_def m_rawbyte_def m_rawbytes_def m_realloc_def Let_def
      split: if_splits)

interpretation writes: op_machine wop_step "\<lambda>m. m_inv m \<and> m_capok m"
proof
  fix m w m' assume m: "m_inv m \<and> m_capok m" and w: "wop_step w m = Ret m'"
  then have "m_inv m'" by (metis emitsE res.inject(1) wop_emits)
  with wop_capok m w show "m_inv m' \<and> m_capok m'" by blast
qed

lemma run_wops_emits: "emits (run_ops wop_step ws) (concat (map wop_bytes ws))"
proof (induction ws)
  case Nil
  then show ?case using emits_Ret by (simp add: emits_def)
next
  case (Cons w ws)
  have "emits (\<lambda>m. bind_res (wop_step w m) (run_ops wop_step ws)) (wop_bytes w @ concat (map wop_bytes ws))"
    by (rule emits_bind [OF wop_emits Cons])
  then show ?case by (simp add: emits_def)
qed


text \<open>
  Request headers survive the wire. For every header \<open>h\<close> and every well-formed message of at
  least header size, \<^verbatim>\<open>pack_req_header\<close> returns, leaves the payload alone, and
  \<^verbatim>\<open>unpack_req_header\<close> on the bytes sent gives back \<open>h\<close> with the flag set and the read position
  at the payload.
\<close>

theorem req_header_roundtrip:
  assumes "m_inv m" and "RPC_HEADER_SZ \<le> mind m" and "mind m < 2 ^ 30"
  shows "\<exists>m'. pack_req_header h m = Ret m' \<and> get_content m' = get_content m \<and>
     unpack_req_header (unmarshall_new (m_bytes m'))
       = Ret (h, (unmarshall_new (m_bytes m'))\<lparr>uind := RPC_HEADER_SZ\<rparr>)"
proof -
  obtain a b c d e where h: "h = \<lparr>rq_xid = a, rq_proc = b, rq_clt_nonce = c, rq_srv_nonce = d, rq_xid_rep = e\<rparr>"
    by (cases h) auto
  let ?hdr = "be32 a @ be32 b @ be32 c @ be32 d @ be32 e"
  let ?b = "take 4 (mbuf m) @ ?hdr @ drop 24 (mbuf m)"
  let ?m' = "m\<lparr>mbuf := ?b\<rparr>"
  have p: "pack_req_header h m = Ret ?m'" "m_inv ?m'"
    using pack_req_header_spec [OF assms(1), of h] by (simp_all add: h)
  have "m_bytes ?m' = take 4 (mbuf m) @ ?hdr @ take (mind m - 24) (drop 24 (mbuf m))"
    using assms by (simp add: m_bytes_def m_inv_def)
  then have "unpack_req_header (unmarshall_new (m_bytes ?m'))
      = Ret (h, (unmarshall_new (m_bytes ?m'))\<lparr>uind := RPC_HEADER_SZ\<rparr>)"
    using unpack_req_header_wire [of "take 4 (mbuf m)" "take (mind m - 24) (drop 24 (mbuf m))" a b c d e] assms
    by (simp add: h m_inv_def)
  moreover have "get_content ?m' = get_content m"
    using assms by (simp add: get_content_def m_inv_def)
  ultimately show ?thesis using p(1) by blast
qed

theorem req_header_roundtrip_witness:
  "\<exists>m'. pack_req_header \<lparr>rq_xid = 7, rq_proc = 0x7001, rq_clt_nonce = 9, rq_srv_nonce = 5, rq_xid_rep = 6\<rparr>
       (marshall_new 0) = Ret m' \<and> get_content m' = get_content (marshall_new 0) \<and>
     unpack_req_header (unmarshall_new (m_bytes m'))
       = Ret (\<lparr>rq_xid = 7, rq_proc = 0x7001, rq_clt_nonce = 9, rq_srv_nonce = 5, rq_xid_rep = 6\<rparr>,
              (unmarshall_new (m_bytes m'))\<lparr>uind := RPC_HEADER_SZ\<rparr>)"
  by (rule req_header_roundtrip) (simp_all add: marshall_new_def m_inv_def DEFAULT_RPC_SZ_def)

text \<open>
  Truncated requests are noticed. Unpacking a request header from fewer bytes than a header
  has returns (it never reads outside the buffer) with the flag cleared, which is what
  \<^verbatim>\<open>rpcs::dispatch\<close> tests before it looks at the header.
\<close>

theorem short_request_detected:
  assumes "length b < RPC_HEADER_SZ"
  shows "\<exists>h u. unpack_req_header (unmarshall_new b) = Ret (h, u) \<and> \<not> uok u"
proof -
  define nx where "nx u = u\<lparr>uind := (if uind u < usz u then min (usz u) (uind u + 4) else uind u),
                            uok := (uok u \<and> uind u + 4 \<le> usz u)\<rparr>" for u :: unmarshall
  have step: "\<exists>x. unpack u = Ret (x, nx u)" if "length (ubuf u) = usz u" for u
    using unpack_total [OF that] by (simp add: nx_def)
  have keep: "length (ubuf (nx u)) = usz (nx u)" if "length (ubuf u) = usz u" for u
    using that by (simp add: nx_def)
  define u0 where "u0 = (unmarshall_new b)\<lparr>uind := sizeof_rpc_sz\<rparr>"
  have u0: "length (ubuf u0) = usz u0" by (simp add: u0_def unmarshall_new_def)
  obtain x1 x2 x3 x4 x5 where "unpack u0 = Ret (x1, nx u0)" "unpack (nx u0) = Ret (x2, nx (nx u0))"
      "unpack (nx (nx u0)) = Ret (x3, nx (nx (nx u0)))"
      "unpack (nx (nx (nx u0))) = Ret (x4, nx (nx (nx (nx u0))))"
      "unpack (nx (nx (nx (nx u0)))) = Ret (x5, nx (nx (nx (nx (nx u0)))))"
    using step keep u0 by metis
  moreover have "\<not> uok (nx (nx (nx (nx (nx u0)))))"
    using assms by (auto simp: nx_def u0_def unmarshall_new_def sizeof_rpc_sz_def)
  ultimately show ?thesis by (simp add: unpack_req_header_def u0_def [symmetric])
qed

theorem short_request_detected_witness:
  "length (replicate 23 0 :: byte list) < RPC_HEADER_SZ \<and>
   (\<exists>h u. unpack_req_header (unmarshall_new (replicate 23 0)) = Ret (h, u) \<and> \<not> uok u)"
  using short_request_detected [of "replicate 23 0"] by simp

text \<open>
  Lock RPC arguments survive the wire. A lock number and an address of less than two gigabytes,
  marshalled behind the header of a fresh request, are read back unchanged at the payload
  position, and nothing is left over.
\<close>

theorem lock_args_roundtrip:
  assumes "length cid < 2 ^ 20"
  shows "\<exists>m. put_pair put_ull put_string (lid, cid) (marshall_new g) = Ret m \<and>
     get_pair get_ull (get_string []) ((unmarshall_new (m_bytes m))\<lparr>uind := RPC_HEADER_SZ\<rparr>)
       = Ret ((lid, cid), (unmarshall_new (m_bytes m))\<lparr>uind := length (m_bytes m)\<rparr>)"
proof -
  have v: "length (snd (lid, cid)) < 2 ^ 31" using assms by simp
  have "emits (put_pair put_ull put_string (lid, cid)) (be64 (fst (lid, cid)) @ enc_string (snd (lid, cid)))"
    using c_lock_args.both.put_emits [of "(lid, cid)"] v by simp
  then obtain m where m: "put_pair put_ull put_string (lid, cid) (marshall_new g) = Ret m" "m_inv m"
      "m_bytes m = m_bytes (marshall_new g) @ be64 lid @ enc_string cid"
    by (rule emitsE [OF _ m_inv_new [of g]]) simp
  have "length (m_bytes m) < 2 ^ 31"
    using assms m(3) length_m_bytes [OF m_inv_new [of g]]
    by (simp add: enc_string_def marshall_new_def)
  then show ?thesis
    using c_lock_args.both.message_roundtrip(1) [OF _ m_inv_new m(1), of "[]"] v m(1,2)
    by (simp add: marshall_new_def)
qed

theorem lock_args_roundtrip_witness:
  "\<exists>m. put_pair put_ull put_string (1, ''127.0.0.1:3772'') (marshall_new 0) = Ret m \<and>
     get_pair get_ull (get_string []) ((unmarshall_new (m_bytes m))\<lparr>uind := RPC_HEADER_SZ\<rparr>)
       = Ret ((1, ''127.0.0.1:3772''), (unmarshall_new (m_bytes m))\<lparr>uind := length (m_bytes m)\<rparr>)"
  by (rule lock_args_roundtrip) simp

text \<open>
  The length check of \<^verbatim>\<open>unmarshall::rawbytes\<close> wraps. The guard adds the read position to the
  length field in 32 bits, so a message that announces a string of \<open>2^32 - 1\<close> bytes passes it,
  and the copy leaves the buffer, whatever the message's size.
\<close>

theorem rawbytes_guard_wraps:
  assumes "RPC_HEADER_SZ + 4 \<le> length b" and "length b < 2 ^ 31"
    and "take 4 (drop RPC_HEADER_SZ b) = be32 0xffffffff"
  shows "get_string s ((unmarshall_new b)\<lparr>uind := RPC_HEADER_SZ\<rparr>) = Fault Bad_access"
proof -
  let ?u = "(unmarshall_new b)\<lparr>uind := RPC_HEADER_SZ\<rparr>"
  have "u_inv ?u" "uok ?u" "u_rest ?u = be32 0xffffffff @ drop 28 b"
    using assms append_take_drop_id [of 4 "drop 24 b"]
    by (simp_all add: u_inv_def unmarshall_new_def u_rest_def)
  then have "get_uint ?u = Ret (0xffffffff, ?u\<lparr>uind := uind ?u + 4\<rparr>)"
    using readsD [OF reads_get_uint(1)] by simp
  moreover have "\<not> (4294967323 :: u32) > of_nat (length b)"
    using assms by (simp add: word_less_nat_alt unat_of_nat)
  ultimately show ?thesis
    using assms by (simp add: get_string_def unmarshall_new_def u_rawbytes_def)
qed

theorem rawbytes_guard_wraps_witness:
  "get_string [] ((unmarshall_new (replicate 24 0 @ be32 0xffffffff))\<lparr>uind := RPC_HEADER_SZ\<rparr>) = Fault Bad_access"
  by (rule rawbytes_guard_wraps) simp_all

end
