(* ===== verification/Rpc_Server.thy ===== *)
theory Rpc_Server
  imports Marshall
begin

text \<open>
  The server end of the RPC library, class \<^verbatim>\<open>rpcs\<close> of \<^verbatim>\<open>rpc/rpc.h\<close> and \<^verbatim>\<open>rpc/rpc.cc\<close>: the
  window of remembered replies that is to give at-most-once execution, the handler table with the
  argument and reply marshalling of \<^verbatim>\<open>rpcs::reg\<close>, and \<^verbatim>\<open>rpcs::dispatch\<close>.

  \<open>'st\<close> is the state of the server object the handlers work on. A connection is its file
  descriptor and creation time; the reference counts of the connections and the messages handed
  to \<^verbatim>\<open>connection::send\<close> are part of the state, so that the paths of \<^verbatim>\<open>dispatch\<close> can be
  compared. Whether a connection is dead is an argument: it is decided by the network.
\<close>

section \<open>Constants and data\<close>

definition rpc_const_bind :: u32 where "rpc_const_bind = 1"
definition timeout_failure :: u32 where "timeout_failure = -1"
definition unmarshal_args_failure :: u32 where "unmarshal_args_failure = -2"
definition unmarshal_reply_failure :: u32 where "unmarshal_reply_failure = -3"
definition atmostonce_failure :: u32 where "atmostonce_failure = -4"
definition oldsrv_failure :: u32 where "oldsrv_failure = -5"
definition bind_failure :: u32 where "bind_failure = -6"
definition cancel_failure :: u32 where "cancel_failure = -7"

datatype rpcstate = NEW | INPROGRESS | DONE "byte list" | FORGOTTEN

record reply_t =
  r_xid :: u32
  r_cb_present :: bool
  r_buf :: "byte list"

definition reply_new :: "u32 \<Rightarrow> reply_t" where
  "reply_new x = \<lparr>r_xid = x, r_cb_present = False, r_buf = []\<rparr>"

record conn =
  channo :: nat
  create_sec :: int
  create_usec :: int

definition conn_compare :: "conn \<Rightarrow> conn \<Rightarrow> int" where
  "conn_compare a b =
     (if create_sec a > create_sec b then 1
      else if create_sec a < create_sec b then -1
      else if create_usec a > create_usec b then 1
      else if create_usec a < create_usec b then -1
      else 0)"

record 'st rpcs =
  nonce :: u32
  reply_window :: "(u32, reply_t list) smap"
  highest_xid_rep :: "(u32, u32) smap"
  counting :: int
  curr_counts :: int
  counts :: "(u32, int) smap"
  procs :: "(u32, unmarshall \<Rightarrow> marshall \<Rightarrow> 'st \<Rightarrow> (u32 \<times> marshall \<times> 'st) res) smap"
  conns :: "(u32, conn) smap"
  refs :: "nat \<Rightarrow> int"
  sent :: "(nat \<times> byte list) list"
  srv :: 'st

section \<open>The reply window\<close>

text \<open>
  The loop of \<^verbatim>\<open>checkduplicate_and_update\<close> over the list: entries older than \<open>xid\<close> are erased
  when the client has acknowledged them and skipped otherwise. The result is the list in front of
  the iterator and the list from the iterator on.
\<close>

fun cd_walk :: "u32 \<Rightarrow> u32 \<Rightarrow> reply_t list \<Rightarrow> reply_t list \<times> reply_t list" where
  "cd_walk xid xid_rep [] = ([], [])"
| "cd_walk xid xid_rep (r # rs) =
     (if r_xid r < xid
      then (let (pre, post) = cd_walk xid xid_rep rs
            in (if r_xid r \<le> xid_rep then pre else r # pre, post))
      else ([], r # rs))"

text \<open>
  On an empty window the iterator is taken before the first entry is pushed, so it stays at the
  end: the test for a new request succeeds there and the entry is pushed a second time. (The
  test reads the iterator's \<^verbatim>\<open>xid\<close> before it compares the iterator with \<^verbatim>\<open>end()\<close>; at the end
  both orders take the same branch, whatever is read.)
\<close>

definition checkduplicate_and_update ::
  "u32 \<Rightarrow> u32 \<Rightarrow> u32 \<Rightarrow> 'st rpcs \<Rightarrow> (rpcstate \<times> 'st rpcs) res" where
  "checkduplicate_and_update clt_nonce xid xid_rep s =
     verify (xid_rep < xid)
      (let w = mget [] (reply_window s) clt_nonce;
           at_end = (w = []);
           s = (if w = [] then s\<lparr>highest_xid_rep := mput clt_nonce xid_rep (highest_xid_rep s)\<rparr> else s);
           w = (if w = [] then [reply_new xid] else w);
           h = mget 0 (highest_xid_rep s) clt_nonce;
           h = (if xid_rep > h then xid_rep else h);
           s = s\<lparr>highest_xid_rep := mput clt_nonce h (highest_xid_rep s),
                 reply_window := mput clt_nonce w (reply_window s)\<rparr>
       in if xid < h then Ret (FORGOTTEN, s)
          else let (pre, post) = (if at_end then (w, []) else cd_walk xid xid_rep w)
               in case post of
                    [] \<Rightarrow> Ret (NEW, s\<lparr>reply_window := mput clt_nonce (pre @ [reply_new xid]) (reply_window s)\<rparr>)
                  | r # rs \<Rightarrow>
                      if r_xid r > xid
                      then Ret (NEW, s\<lparr>reply_window :=
                             mput clt_nonce (pre @ reply_new xid # post) (reply_window s)\<rparr>)
                      else (let s = s\<lparr>reply_window := mput clt_nonce (pre @ post) (reply_window s)\<rparr>
                            in verify (r_xid r = xid)
                                 (if r_cb_present r then Ret (DONE (r_buf r), s)
                                  else Ret (INPROGRESS, s))))"

text \<open>\<^verbatim>\<open>add_reply\<close> fills in the first entry of the request.\<close>

fun set_reply :: "u32 \<Rightarrow> byte list \<Rightarrow> reply_t list \<Rightarrow> reply_t list option" where
  "set_reply xid b [] = None"
| "set_reply xid b (r # rs) =
     (if r_xid r \<noteq> xid then map_option (Cons r) (set_reply xid b rs)
      else Some (r\<lparr>r_buf := b, r_cb_present := True\<rparr> # rs))"

definition add_reply :: "u32 \<Rightarrow> u32 \<Rightarrow> byte list \<Rightarrow> 'st rpcs \<Rightarrow> 'st rpcs res" where
  "add_reply clt_nonce xid b s =
     verify (clt_nonce > 0)
      (case set_reply xid b (mget [] (reply_window s) clt_nonce) of
         None \<Rightarrow> Fault Verify_failed
       | Some w \<Rightarrow> Ret (s\<lparr>reply_window := mput clt_nonce w (reply_window s)\<rparr>))"

definition free_reply_window :: "'st rpcs \<Rightarrow> 'st rpcs" where
  "free_reply_window s = s\<lparr>reply_window := []\<rparr>"

section \<open>Handlers\<close>

definition reg1 ::
  "u32 \<Rightarrow> (unmarshall \<Rightarrow> marshall \<Rightarrow> 'st \<Rightarrow> (u32 \<times> marshall \<times> 'st) res) \<Rightarrow> 'st rpcs \<Rightarrow> 'st rpcs res" where
  "reg1 proc h s =
     verify (mcount (procs s) proc = 0)
       (let s = s\<lparr>procs := mput proc h (procs s)\<rparr>
        in verify (mcount (procs s) proc \<ge> 1) (Ret s))"

text \<open>
  The wrappers \<^verbatim>\<open>h1::fn\<close> that \<^verbatim>\<open>rpcs::reg\<close> builds for methods of one, two and three arguments:
  read the arguments, refuse leftovers, call the method, write the result.
\<close>

definition reg_fn1 ::
  "(unmarshall \<Rightarrow> ('a \<times> unmarshall) res) \<Rightarrow> ('r \<Rightarrow> marshall \<Rightarrow> marshall res) \<Rightarrow>
   ('a \<Rightarrow> 'st \<Rightarrow> (u32 \<times> 'r \<times> 'st) res) \<Rightarrow>
   unmarshall \<Rightarrow> marshall \<Rightarrow> 'st \<Rightarrow> (u32 \<times> marshall \<times> 'st) res" where
  "reg_fn1 get1 putr meth args ret s =
     bind_res (get1 args) (\<lambda>(a1, args).
       if \<not> okdone args then Ret (unmarshal_args_failure, ret, s)
       else bind_res (meth a1 s) (\<lambda>(b, r, s).
            bind_res (putr r ret) (\<lambda>ret. Ret (b, ret, s))))"

definition reg_fn2 ::
  "(unmarshall \<Rightarrow> ('a \<times> unmarshall) res) \<Rightarrow> (unmarshall \<Rightarrow> ('b \<times> unmarshall) res) \<Rightarrow>
   ('r \<Rightarrow> marshall \<Rightarrow> marshall res) \<Rightarrow> ('a \<Rightarrow> 'b \<Rightarrow> 'st \<Rightarrow> (u32 \<times> 'r \<times> 'st) res) \<Rightarrow>
   unmarshall \<Rightarrow> marshall \<Rightarrow> 'st \<Rightarrow> (u32 \<times> marshall \<times> 'st) res" where
  "reg_fn2 get1 get2 putr meth args ret s =
     bind_res (get1 args) (\<lambda>(a1, args).
     bind_res (get2 args) (\<lambda>(a2, args).
       if \<not> okdone args then Ret (unmarshal_args_failure, ret, s)
       else bind_res (meth a1 a2 s) (\<lambda>(b, r, s).
            bind_res (putr r ret) (\<lambda>ret. Ret (b, ret, s)))))"

definition reg_fn3 ::
  "(unmarshall \<Rightarrow> ('a \<times> unmarshall) res) \<Rightarrow> (unmarshall \<Rightarrow> ('b \<times> unmarshall) res) \<Rightarrow>
   (unmarshall \<Rightarrow> ('c \<times> unmarshall) res) \<Rightarrow>
   ('r \<Rightarrow> marshall \<Rightarrow> marshall res) \<Rightarrow> ('a \<Rightarrow> 'b \<Rightarrow> 'c \<Rightarrow> 'st \<Rightarrow> (u32 \<times> 'r \<times> 'st) res) \<Rightarrow>
   unmarshall \<Rightarrow> marshall \<Rightarrow> 'st \<Rightarrow> (u32 \<times> marshall \<times> 'st) res" where
  "reg_fn3 get1 get2 get3 putr meth args ret s =
     bind_res (get1 args) (\<lambda>(a1, args).
     bind_res (get2 args) (\<lambda>(a2, args).
     bind_res (get3 args) (\<lambda>(a3, args).
       if \<not> okdone args then Ret (unmarshal_args_failure, ret, s)
       else bind_res (meth a1 a2 a3 s) (\<lambda>(b, r, s).
            bind_res (putr r ret) (\<lambda>ret. Ret (b, ret, s))))))"

text \<open>\<^verbatim>\<open>rpcbind\<close>: a client learns the server's nonce.\<close>

definition rpcbind :: "u32 \<Rightarrow> 'st rpcs \<Rightarrow> u32 \<times> u32" where
  "rpcbind a s = (0, nonce s)"

definition updatestat :: "u32 \<Rightarrow> 'st rpcs \<Rightarrow> 'st rpcs" where
  "updatestat proc s =
     (let s = s\<lparr>counts := mput proc (mget 0 (counts s) proc + 1) (counts s),
                curr_counts := curr_counts s - 1\<rparr>
      in if curr_counts s = 0 then s\<lparr>curr_counts := counting s\<rparr> else s)"

section \<open>Dispatch\<close>

definition incref :: "conn \<Rightarrow> 'st rpcs \<Rightarrow> 'st rpcs" where
  "incref c s = s\<lparr>refs := (refs s)(channo c := refs s (channo c) + 1)\<rparr>"

definition decref :: "conn \<Rightarrow> 'st rpcs \<Rightarrow> 'st rpcs res" where
  "decref c s =
     (let s = s\<lparr>refs := (refs s)(channo c := refs s (channo c) - 1)\<rparr>
      in verify (refs s (channo c) \<ge> 0) (Ret s))"

definition conn_send :: "conn \<Rightarrow> byte list \<Rightarrow> 'st rpcs \<Rightarrow> 'st rpcs" where
  "conn_send c b s = s\<lparr>sent := sent s @ [(channo c, b)]\<rparr>"

text \<open>Remembering the latest good connection to the client.\<close>

definition save_conn :: "u32 \<Rightarrow> conn \<Rightarrow> 'st rpcs \<Rightarrow> 'st rpcs res" where
  "save_conn clt_nonce c s =
     (case mfind (conns s) clt_nonce of
        None \<Rightarrow> Ret ((incref c s)\<lparr>conns := mput clt_nonce c (conns s)\<rparr>)
      | Some old \<Rightarrow>
          if conn_compare old c < 0
          then bind_res (decref old s) (\<lambda>s. Ret ((incref c s)\<lparr>conns := mput clt_nonce c (conns s)\<rparr>))
          else Ret s)"

text \<open>
  The branch of a new request: count it, run the handler, remember the reply when the client
  wants at-most-once, and send it on the latest connection. A handler result below zero ends the
  server. When the request's connection is dead, \<^verbatim>\<open>conns_[h.clt_nonce]\<close> is taken instead; for a
  client without a remembered connection that is a null pointer.
\<close>

definition dispatch_new ::
  "(nat \<Rightarrow> bool) \<Rightarrow> byte \<Rightarrow> req_header \<Rightarrow> (unmarshall \<Rightarrow> marshall \<Rightarrow> 'st \<Rightarrow> (u32 \<times> marshall \<times> 'st) res) \<Rightarrow>
   unmarshall \<Rightarrow> conn \<Rightarrow> 'st rpcs \<Rightarrow> 'st rpcs res" where
  "dispatch_new isdead g h f req c s =
     (let s = (if counting s \<noteq> 0 then updatestat (rq_proc h) s else s) in
      bind_res (f req (marshall_new g) (srv s)) (\<lambda>(ret, rep, st).
        let s = s\<lparr>srv := st\<rparr> in
        verify (ret \<noteq> unmarshal_args_failure \<and> \<not> sint ret < 0)
         (bind_res (pack_reply_header \<lparr>rp_xid = rq_xid h, rp_ret = ret\<rparr> rep) (\<lambda>rep.
          let b1 = m_bytes rep in
          bind_res (if rq_clt_nonce h > 0 then add_reply (rq_clt_nonce h) (rq_xid h) b1 s else Ret s) (\<lambda>s.
          bind_res (if isdead (channo c) \<and> mfind (conns s) (rq_clt_nonce h) \<noteq> Some c
                    then (case mfind (conns s) (rq_clt_nonce h) of
                            None \<Rightarrow> Fault Bad_access
                          | Some c' \<Rightarrow> bind_res (decref c s) (\<lambda>s. Ret (c', incref c' s)))
                    else Ret (c, s)) (\<lambda>(c, s).
            decref c (conn_send c b1 s)))))))"

definition dispatch ::
  "(nat \<Rightarrow> bool) \<Rightarrow> byte \<Rightarrow> conn \<Rightarrow> byte list \<Rightarrow> 'st rpcs \<Rightarrow> 'st rpcs res" where
  "dispatch isdead g c buf s =
     bind_res (unpack_req_header (unmarshall_new buf)) (\<lambda>(h, req).
       if \<not> uok req then decref c s
       else if rq_srv_nonce h \<noteq> 0 \<and> rq_srv_nonce h \<noteq> nonce s
       then bind_res (pack_reply_header \<lparr>rp_xid = rq_xid h, rp_ret = oldsrv_failure\<rparr> (marshall_new g))
              (\<lambda>rep. Ret (conn_send c (m_bytes rep) s))
       else (case mfind (procs s) (rq_proc h) of
         None \<Rightarrow> bind_res (decref c s) (\<lambda>s. Fault Verify_failed)
       | Some f \<Rightarrow>
           bind_res (if rq_clt_nonce h \<noteq> 0
                     then (let s = (if mfind (reply_window s) (rq_clt_nonce h) = None
                                    then s\<lparr>reply_window := mput (rq_clt_nonce h) [] (reply_window s)\<rparr>
                                    else s)
                           in bind_res (save_conn (rq_clt_nonce h) c s)
                                (checkduplicate_and_update (rq_clt_nonce h) (rq_xid h) (rq_xid_rep h)))
                     else Ret (NEW, s)) (\<lambda>(stat, s).
           case stat of
             NEW \<Rightarrow> dispatch_new isdead g h f req c s
           | INPROGRESS \<Rightarrow> decref c s
           | DONE b \<Rightarrow> decref c (conn_send c b s)
           | FORGOTTEN \<Rightarrow>
               bind_res (pack_reply_header \<lparr>rp_xid = rq_xid h, rp_ret = atmostonce_failure\<rparr> (marshall_new g))
                 (\<lambda>rep. decref c (conn_send c (m_bytes rep) s)))))"

section \<open>What the window remembers\<close>

abbreviation win :: "'st rpcs \<Rightarrow> u32 \<Rightarrow> reply_t list" where
  "win s c \<equiv> mget [] (reply_window s) c"

abbreviation hi :: "'st rpcs \<Rightarrow> u32 \<Rightarrow> u32" where
  "hi s c \<equiv> mget 0 (highest_xid_rep s) c"

definition xids :: "reply_t list \<Rightarrow> u32 list" where
  "xids w = map r_xid w"

lemma xids_simps [simp]:
  "xids [] = []" "xids (r # w) = r_xid r # xids w" "xids (v @ w) = xids v @ xids w"
  by (simp_all add: xids_def)

lemma reply_new_sel [simp]: "r_xid (reply_new x) = x" "r_cb_present (reply_new x) = False"
  by (simp_all add: reply_new_def)

text \<open>The entry a duplicate of \<open>x\<close> finds.\<close>

definition entry :: "u32 \<Rightarrow> reply_t list \<Rightarrow> reply_t option" where
  "entry x w = List.find (\<lambda>r. r_xid r = x) w"

lemma entry_simps [simp]:
  "entry x [] = None"
  "entry x (r # w) = (if r_xid r = x then Some r else entry x w)"
  by (simp_all add: entry_def)

lemma entry_None_iff: "entry x w = None \<longleftrightarrow> x \<notin> set (xids w)"
  by (induction w) auto

lemma entry_append: "entry x (v @ w) = (case entry x v of None \<Rightarrow> entry x w | Some r \<Rightarrow> Some r)"
  by (induction v) auto

lemma entry_xid: "entry x w = Some r \<Longrightarrow> r_xid r = x"
  by (induction w) (auto split: if_splits)

lemma cd_walk_subset: "cd_walk xid rep w = (pre, post) \<Longrightarrow> set (xids pre) \<subseteq> set (xids w)"
  by (induction w arbitrary: pre post) (auto split: if_splits prod.splits)

lemma cd_walk_sorted:
  "cd_walk xid rep w = (pre, post) \<Longrightarrow> sorted (xids w) \<Longrightarrow>
   sorted (xids pre) \<and> (\<forall>y \<in> set (xids pre). y < xid) \<and> sorted (xids post) \<and> (\<forall>y \<in> set (xids post). xid \<le> y)"
proof (induction w arbitrary: pre post)
  case Nil
  then show ?case by simp
next
  case (Cons r w)
  obtain pre' post' where w: "cd_walk xid rep w = (pre', post')" by fastforce
  show ?case
    using Cons.IH [OF w] Cons.prems w cd_walk_subset [OF w] by (fastforce split: if_splits prod.splits)
qed

lemma cd_walk_entry:
  "cd_walk xid rep w = (pre, post) \<Longrightarrow> rep < x \<Longrightarrow> entry x (pre @ post) = entry x w"
  by (induction w arbitrary: pre post) (auto split: if_splits prod.splits)

text \<open>One request of client \<open>c\<close>: the five ways the function can return.\<close>

lemma checkduplicate_cases [consumes 2, case_names first forgotten newest between dup]:
  assumes "checkduplicate_and_update c xid rep s = Ret (st, s')" and "sorted (xids (win s c))"
  obtains
    "rep < xid" "win s c = []" "st = NEW" "win s' c = [reply_new xid, reply_new xid]" "hi s' c = rep"
  | "rep < xid" "win s c \<noteq> []" "hi s' c = max rep (hi s c)" "xid < hi s' c" "st = FORGOTTEN" "win s' c = win s c"
  | pre where "rep < xid" "win s c \<noteq> []" "hi s' c = max rep (hi s c)" "hi s' c \<le> xid" "st = NEW"
      "cd_walk xid rep (win s c) = (pre, [])" "win s' c = pre @ [reply_new xid]"
  | pre r rs where "rep < xid" "win s c \<noteq> []" "hi s' c = max rep (hi s c)" "hi s' c \<le> xid" "st = NEW"
      "cd_walk xid rep (win s c) = (pre, r # rs)" "xid < r_xid r" "win s' c = pre @ reply_new xid # r # rs"
  | pre r rs where "rep < xid" "win s c \<noteq> []" "hi s' c = max rep (hi s c)" "hi s' c \<le> xid"
      "st = (if r_cb_present r then DONE (r_buf r) else INPROGRESS)"
      "cd_walk xid rep (win s c) = (pre, r # rs)" "r_xid r = xid" "win s' c = pre @ r # rs"
  using assms(1) unfolding checkduplicate_and_update_def Let_def
  by (auto split: if_splits prod.splits list.splits simp: max_absorb1 max_absorb2 not_less less_imp_le)

lemma checkduplicate_other:
  "checkduplicate_and_update c xid rep s = Ret (st, s') \<Longrightarrow> c' \<noteq> c \<Longrightarrow>
   win s' c' = win s c' \<and> hi s' c' = hi s c'"
  unfolding checkduplicate_and_update_def Let_def
  by (auto split: if_splits prod.splits list.splits)

lemma sorted_around:
  fixes a :: "'a::linorder"
  assumes "sorted xs" "\<forall>y \<in> set xs. y < a" "sorted ys" "\<forall>y \<in> set ys. a \<le> y"
  shows "sorted (xs @ ys)" and "sorted (xs @ a # ys)"
  using assms by (auto simp: sorted_append) (meson le_less_trans less_imp_le not_le)+

lemma checkduplicate_sorted:
  assumes "checkduplicate_and_update c xid rep s = Ret (st, s')" and "sorted (xids (win s c))"
  shows "sorted (xids (win s' c))"
  using assms
proof (cases rule: checkduplicate_cases)
  case (newest pre)
  then show ?thesis using cd_walk_sorted [OF newest(6) assms(2)] sorted_around(2) [of "xids pre" xid "[]"]
    by simp
next
  case (between pre r rs)
  then show ?thesis
    using cd_walk_sorted [OF between(6) assms(2)] sorted_around(2) [of "xids pre" xid "xids (r # rs)"] by simp
next
  case (dup pre r rs)
  then show ?thesis
    using cd_walk_sorted [OF dup(6) assms(2)] sorted_around(1) [of "xids pre" xid "xids (r # rs)"] by simp
qed (use assms in auto)

text \<open>A remembered request is answered from its entry, and is not new.\<close>

lemma checkduplicate_known:
  assumes "checkduplicate_and_update c x rep s = Ret (st, s')" and "sorted (xids (win s c))"
    and "entry x (win s c) = Some e" and "hi s' c \<le> x"
  shows "st = (if r_cb_present e then DONE (r_buf e) else INPROGRESS)"
  using assms(1,2)
proof (cases rule: checkduplicate_cases)
  case (newest pre)
  have "entry x (pre @ []) = Some e" using cd_walk_entry [OF newest(6,1)] assms(3) by simp
  moreover have "x \<notin> set (xids pre)" using cd_walk_sorted [OF newest(6) assms(2)] by auto
  ultimately show ?thesis by (simp add: entry_None_iff [symmetric])
next
  case (between pre r rs)
  have "entry x (pre @ r # rs) = Some e" using cd_walk_entry [OF between(6,1)] assms(3) by simp
  moreover have "x \<notin> set (xids (pre @ r # rs))"
    using cd_walk_sorted [OF between(6) assms(2)] between(7) by auto
  ultimately show ?thesis using entry_None_iff [of x "pre @ r # rs"] by simp
next
  case (dup pre r rs)
  have "entry x (pre @ r # rs) = Some e" using cd_walk_entry [OF dup(6,1)] assms(3) by simp
  moreover have "x \<notin> set (xids pre)" using cd_walk_sorted [OF dup(6) assms(2)] by auto
  ultimately have "r = e" using dup(7) by (simp add: entry_append entry_None_iff [symmetric])
  then show ?thesis using dup(5) by simp
qed (use assms(3,4) in auto)

text \<open>Requests that do not acknowledge \<open>x\<close> leave its entry alone.\<close>

lemma checkduplicate_keeps:
  assumes "checkduplicate_and_update c xid rep s = Ret (st, s')" and "sorted (xids (win s c))"
    and "entry x (win s c) = Some e" and "rep < x"
  shows "entry x (win s' c) = Some e"
  using assms(1,2)
proof (cases rule: checkduplicate_cases)
  case (newest pre)
  then show ?thesis using cd_walk_entry [OF newest(6) assms(4)] assms(3) by (simp add: entry_append)
next
  case (between pre r rs)
  have "entry x (pre @ r # rs) = Some e" using cd_walk_entry [OF between(6) assms(4)] assms(3) by simp
  moreover have "x = xid \<Longrightarrow> x \<notin> set (xids (pre @ r # rs))"
    using cd_walk_sorted [OF between(6) assms(2)] between(7) by auto
  ultimately show ?thesis using between(8)
    by (auto simp: entry_append entry_None_iff [symmetric] split: option.splits)
next
  case (dup pre r rs)
  then show ?thesis using cd_walk_entry [OF dup(6) assms(4)] assms(3) by simp
qed (use assms(3) in auto)

lemma checkduplicate_new:
  assumes "checkduplicate_and_update c x rep s = Ret (NEW, s')" and "sorted (xids (win s c))"
  shows "entry x (win s' c) = Some (reply_new x)"
  using assms
proof (cases rule: checkduplicate_cases)
  case (newest pre)
  have "x \<notin> set (xids pre)" using cd_walk_sorted [OF newest(6) assms(2)] by auto
  then show ?thesis using newest by (simp add: entry_append entry_None_iff [symmetric])
next
  case (between pre r rs)
  have "x \<notin> set (xids pre)" using cd_walk_sorted [OF between(6) assms(2)] by auto
  then show ?thesis using between by (simp add: entry_append entry_None_iff [symmetric])
qed (auto split: if_splits)

lemma checkduplicate_hi:
  assumes "checkduplicate_and_update c xid rep s = Ret (st, s')" and "sorted (xids (win s c))"
    and "rep < x" and "win s c \<noteq> [] \<Longrightarrow> hi s c < x"
  shows "hi s' c < x" and "win s' c \<noteq> []"
  using assms(1,2) by (cases rule: checkduplicate_cases; use assms(3,4) in auto)+

lemma set_reply_xids: "set_reply x b w = Some w' \<Longrightarrow> xids w' = xids w"
  by (induction w arbitrary: w') (auto split: if_splits)

lemma set_reply_entry:
  "set_reply y b w = Some w' \<Longrightarrow>
   entry x w' = (if x = y then map_option (\<lambda>e. e\<lparr>r_buf := b, r_cb_present := True\<rparr>) (entry x w) else entry x w)"
  by (induction w arbitrary: w') (auto split: if_splits)

lemma set_reply_total: "entry x w \<noteq> None \<Longrightarrow> set_reply x b w \<noteq> None"
  by (induction w) (auto split: if_splits)

lemma add_reply_spec:
  assumes "add_reply c x b s = Ret s'"
  shows "xids (win s' c') = xids (win s c')" and "hi s' c' = hi s c'" and "win s' c' = [] \<longleftrightarrow> win s c' = []"
    and "c' \<noteq> c \<or> y \<noteq> x \<Longrightarrow> entry y (win s' c') = entry y (win s c')"
    and "entry x (win s' c) = map_option (\<lambda>e. e\<lparr>r_buf := b, r_cb_present := True\<rparr>) (entry x (win s c))"
  using assms set_reply_xids [of x b "win s c"] set_reply_entry [of x b "win s c"]
  by (auto simp: add_reply_def split: option.splits) (metis map_is_Nil_conv xids_def)+

section \<open>Executions along a history of requests and replies\<close>

text \<open>
  A history of the window: requests that arrive and replies that are recorded, in any order, from
  any number of clients. \<open>executions c x\<close> counts how often the request \<open>x\<close> of client \<open>c\<close> is
  classified as new, that is, how often its handler is run.
\<close>

datatype wevent = Request u32 u32 u32 | Reply u32 u32 "byte list"

fun wevent_step :: "wevent \<Rightarrow> 'st rpcs \<Rightarrow> 'st rpcs res" where
  "wevent_step (Request c x rep) s = bind_res (checkduplicate_and_update c x rep s) (\<lambda>(st, s). Ret s)"
| "wevent_step (Reply c x b) s = add_reply c x b s"

definition is_new :: "wevent \<Rightarrow> 'st rpcs \<Rightarrow> u32 \<Rightarrow> u32 \<Rightarrow> bool" where
  "is_new e s c x = (case e of
      Request c' x' rep \<Rightarrow> c' = c \<and> x' = x \<and>
        (case checkduplicate_and_update c' x' rep s of Ret (NEW, s') \<Rightarrow> True | _ \<Rightarrow> False)
    | Reply _ _ _ \<Rightarrow> False)"

fun executions :: "u32 \<Rightarrow> u32 \<Rightarrow> wevent list \<Rightarrow> 'st rpcs \<Rightarrow> nat" where
  "executions c x [] s = 0"
| "executions c x (e # es) s =
     (if is_new e s c x then 1 else 0) +
     (case wevent_step e s of Ret s' \<Rightarrow> executions c x es s' | _ \<Rightarrow> 0)"

fun acks :: "wevent \<Rightarrow> u32 \<Rightarrow> u32 \<Rightarrow> bool" where
  "acks (Request c' x' rep) c x = (c' = c \<and> x \<le> rep)"
| "acks (Reply c' x' b) c x = False"

definition wok :: "'st rpcs \<Rightarrow> bool" where
  "wok s \<longleftrightarrow> (\<forall>c. sorted (xids (win s c)))"

lemma wok_step: "wok s \<Longrightarrow> wevent_step e s = Ret s' \<Longrightarrow> wok s'"
  unfolding wok_def
proof (intro allI)
  fix c assume ok: "\<forall>c. sorted (xids (win s c))" and st: "wevent_step e s = Ret s'"
  show "sorted (xids (win s' c))"
  proof (cases e)
    case (Request c' x rep)
    with st obtain o' where "checkduplicate_and_update c' x rep s = Ret (o', s')" by auto
    then show ?thesis using ok checkduplicate_sorted checkduplicate_other by metis
  next
    case (Reply c' x b)
    then show ?thesis using st ok add_reply_spec(1) by fastforce
  qed
qed

interpretation window: op_machine wevent_step wok
  by unfold_locales (rule wok_step)

text \<open>\<open>unacked s c x\<close>: the client has not yet told the server that it has the reply to \<open>x\<close>.\<close>

definition unacked :: "'st rpcs \<Rightarrow> u32 \<Rightarrow> u32 \<Rightarrow> bool" where
  "unacked s c x \<longleftrightarrow> (win s c \<noteq> [] \<longrightarrow> hi s c < x)"

lemma unacked_step:
  assumes "wok s" "unacked s c x" "\<not> acks e c x" "wevent_step e s = Ret s'"
  shows "unacked s' c x"
proof (cases e)
  case (Request c' y rep)
  with assms(4) obtain o' where cd: "checkduplicate_and_update c' y rep s = Ret (o', s')" by auto
  show ?thesis
  proof (cases "c' = c")
    case True
    then show ?thesis using checkduplicate_hi(1) [of c y rep s o' s' x] cd assms Request
      by (auto simp: unacked_def wok_def)
  next
    case False
    then show ?thesis using checkduplicate_other [OF cd, of c] assms(2) by (simp add: unacked_def)
  qed
next
  case (Reply c' y b)
  then show ?thesis using add_reply_spec(2,3) [of c' y b s s' c] assms by (simp add: unacked_def)
qed

lemma entry_step:
  assumes "wok s" "\<not> acks e c x" "wevent_step e s = Ret s'" "entry x (win s c) = Some r"
  shows "\<exists>r'. entry x (win s' c) = Some r' \<and> ((\<forall>b. e \<noteq> Reply c x b) \<longrightarrow> r' = r)"
proof (cases e)
  case (Request c' y rep)
  with assms(3) obtain o' where cd: "checkduplicate_and_update c' y rep s = Ret (o', s')" by auto
  show ?thesis
  proof (cases "c' = c")
    case True
    then show ?thesis using checkduplicate_keeps [of c y rep s o' s' x r] cd assms Request
      by (auto simp: wok_def)
  next
    case False
    then show ?thesis using checkduplicate_other [OF cd, of c] assms(4) by simp
  qed
next
  case (Reply c' y b)
  then show ?thesis using add_reply_spec(4,5) [of c' y b s s'] assms by (cases "c' = c \<and> y = x") auto
qed

lemma known_not_new:
  assumes "wok s" "unacked s c x" "\<not> acks e c x" "entry x (win s c) = Some r"
  shows "\<not> is_new e s c x"
proof
  assume "is_new e s c x"
  then obtain rep s' where e: "e = Request c x rep" and cd: "checkduplicate_and_update c x rep s = Ret (NEW, s')"
    by (auto simp: is_new_def split: wevent.splits res.splits prod.splits rpcstate.splits)
  have srt: "sorted (xids (win s c))" using assms(1) by (simp add: wok_def)
  have "hi s' c < x"
    using checkduplicate_hi(1) [OF cd srt] assms(2,3) e by (simp add: unacked_def)
  from checkduplicate_known [OF cd srt assms(4) less_imp_le [OF this]]
  show False by (simp split: if_splits)
qed

lemma executions_known:
  "wok s \<Longrightarrow> unacked s c x \<Longrightarrow> entry x (win s c) \<noteq> None \<Longrightarrow> (\<forall>e \<in> set es. \<not> acks e c x) \<Longrightarrow>
   executions c x es s = 0"
proof (induction es arbitrary: s)
  case Nil
  then show ?case by simp
next
  case (Cons e es)
  obtain r where r: "entry x (win s c) = Some r" using Cons.prems(3) by blast
  have "\<not> is_new e s c x" using known_not_new [OF Cons.prems(1,2) _ r] Cons.prems(4) by simp
  moreover have "executions c x es s' = 0" if "wevent_step e s = Ret s'" for s'
    using Cons.IH [of s'] Cons.prems that wok_step [OF _ that] unacked_step [OF _ _ _ that]
      entry_step [OF Cons.prems(1) _ that r] by auto
  ultimately show ?case by (simp split: res.splits)
qed

lemma executions_unacked:
  "wok s \<Longrightarrow> unacked s c x \<Longrightarrow> (\<forall>e \<in> set es. \<not> acks e c x) \<Longrightarrow> executions c x es s \<le> 1"
proof (induction es arbitrary: s)
  case Nil
  then show ?case by simp
next
  case (Cons e es)
  show ?case
  proof (cases "is_new e s c x")
    case False
    moreover have "executions c x es s' \<le> 1" if "wevent_step e s = Ret s'" for s'
      using Cons.IH [of s'] Cons.prems wok_step [OF _ that] unacked_step [OF _ _ _ that] by simp
    ultimately show ?thesis by (simp split: res.splits)
  next
    case True
    then obtain rep s' where e: "e = Request c x rep"
        and cd: "checkduplicate_and_update c x rep s = Ret (NEW, s')"
      by (auto simp: is_new_def split: wevent.splits res.splits prod.splits rpcstate.splits)
    then have st: "wevent_step e s = Ret s'" by simp
    have "entry x (win s' c) = Some (reply_new x)"
      using checkduplicate_new [OF cd] Cons.prems(1) by (simp add: wok_def)
    then have "executions c x es s' = 0"
      using executions_known [of s' c x es] Cons.prems wok_step [OF _ st] unacked_step [OF _ _ _ st] by auto
    with True st show ?thesis by simp
  qed
qed

lemma wok_fresh: "reply_window s = [] \<Longrightarrow> wok s" and unacked_fresh: "reply_window s = [] \<Longrightarrow> unacked s c x"
  by (simp_all add: wok_def unacked_def)

lemma entry_run:
  "wok s \<Longrightarrow> entry x (win s c) = Some r \<Longrightarrow> (\<forall>e \<in> set es. \<not> acks e c x \<and> (\<forall>b. e \<noteq> Reply c x b)) \<Longrightarrow>
   run_ops wevent_step es s = Ret s' \<Longrightarrow> entry x (win s' c) = Some r"
proof (induction es arbitrary: s)
  case Nil
  then show ?case by simp
next
  case (Cons e es)
  then obtain t where t: "wevent_step e s = Ret t" "run_ops wevent_step es t = Ret s'" by auto
  have "entry x (win t c) = Some r"
    using entry_step [OF Cons.prems(1) _ t(1) Cons.prems(2)] Cons.prems(3) by auto
  then show ?case using Cons.IH [of t] Cons.prems t wok_step by auto
qed

lemma unacked_run:
  "wok s \<Longrightarrow> unacked s c x \<Longrightarrow> (\<forall>e \<in> set es. \<not> acks e c x) \<Longrightarrow> run_ops wevent_step es s = Ret s' \<Longrightarrow>
   unacked s' c x"
  by (induction es arbitrary: s) (auto dest: wok_step unacked_step)

lemma checkduplicate_returns:
  assumes "rep < x" and "wok s"
  shows "\<exists>st s'. checkduplicate_and_update c x rep s = Ret (st, s')"
proof -
  obtain pre post where w: "cd_walk x rep (win s c) = (pre, post)" by fastforce
  have "r_xid (hd post) = x" if "post \<noteq> []" "\<not> x < r_xid (hd post)"
    using cd_walk_sorted [OF w] assms(2) that by (cases post) (auto simp: wok_def)
  then show ?thesis
    using assms(1) w by (auto simp: checkduplicate_and_update_def Let_def split: list.splits)
qed

section \<open>Properties\<close>

text \<open>
  C11. At-most-once execution of unacknowledged requests. Whatever requests and replies reach a
  fresh server, in whatever order and however often they are repeated, the handler of request
  \<open>x\<close> of client \<open>c\<close> is started at most once as long as no request of that client acknowledges
  \<open>x\<close>.
\<close>

theorem at_most_once:
  assumes "reply_window s = []" and "\<forall>e \<in> set es. \<not> acks e c x"
  shows "executions c x es s \<le> 1"
  by (rule executions_unacked [OF wok_fresh unacked_fresh]) (use assms in auto)

text \<open>A server as the constructor leaves it, without handlers.\<close>

definition rpcs_init :: "u32 \<Rightarrow> int \<Rightarrow> 'st \<Rightarrow> 'st rpcs" where
  "rpcs_init n count st = \<lparr>nonce = n, reply_window = [], highest_xid_rep = [], counting = count,
     curr_counts = count, counts = [], procs = [], conns = [], refs = (\<lambda>_. 0), sent = [], srv = st\<rparr>"

theorem at_most_once_witness:
  "executions 9 5 [Request 9 5 4, Request 9 5 4, Reply 9 5 [1], Request 8 5 2, Request 9 7 4, Request 9 5 4]
     (rpcs_init 1 0 ()) \<le> 1"
  by (rule at_most_once) (simp_all add: rpcs_init_def)

text \<open>
  A repeated request gets the recorded reply. Once request \<open>x\<close> of client \<open>c\<close> has been run and
  its reply recorded, every later copy of it is answered with those very bytes, after any history
  in which the client does not acknowledge \<open>x\<close>.
\<close>

theorem duplicate_gets_recorded_reply:
  assumes "wok s" and "unacked s c x"
    and "checkduplicate_and_update c x rep s = Ret (NEW, s1)" and "add_reply c x b s1 = Ret s2"
    and "\<forall>e \<in> set es. \<not> acks e c x \<and> (\<forall>b'. e \<noteq> Reply c x b')" and "run_ops wevent_step es s2 = Ret s3"
    and "rep' < x"
  shows "\<exists>s4. checkduplicate_and_update c x rep' s3 = Ret (DONE b, s4)"
proof -
  have rep: "\<not> acks (Request c x rep) c x" and st1: "wevent_step (Request c x rep) s = Ret s1"
    using assms(3) checkduplicate_cases [OF assms(3)] assms(1) by (auto simp: wok_def not_le)
  have ok2: "wok s2" "unacked s2 c x"
    using wok_step [OF wok_step [OF assms(1) st1], of "Reply c x b"] unacked_step [OF assms(1,2) rep st1]
      unacked_step [OF wok_step [OF assms(1) st1], of c x "Reply c x b"] assms(4) by simp_all
  have "entry x (win s2 c) = Some (\<lparr>r_xid = x, r_cb_present = True, r_buf = b\<rparr>)"
    using add_reply_spec(5) [OF assms(4)] checkduplicate_new [OF assms(3)] assms(1)
    by (simp add: wok_def reply_new_def)
  then have e3: "entry x (win s3 c) = Some (\<lparr>r_xid = x, r_cb_present = True, r_buf = b\<rparr>)"
    using entry_run [OF ok2(1)] assms(5,6) by blast
  have ok3: "wok s3" "unacked s3 c x"
    using window.run_inv [OF ok2(1) assms(6)] unacked_run [OF ok2 _ assms(6)] assms(5) by blast+
  obtain st s4 where cd: "checkduplicate_and_update c x rep' s3 = Ret (st, s4)"
    using checkduplicate_returns [OF assms(7) ok3(1)] by blast
  have "hi s4 c < x"
    using checkduplicate_hi(1) [OF cd _ assms(7)] ok3 by (simp add: wok_def unacked_def)
  then show ?thesis
    using checkduplicate_known [OF cd _ e3 less_imp_le] ok3(1) cd by (simp add: wok_def)
qed

theorem duplicate_gets_recorded_reply_witness:
  "\<exists>s1 s2 s3 s4. checkduplicate_and_update 9 5 4 (rpcs_init 1 0 ()) = Ret (NEW, s1) \<and>
     add_reply 9 5 [7] s1 = Ret s2 \<and> run_ops wevent_step [Request 9 6 4] s2 = Ret s3 \<and>
     checkduplicate_and_update 9 5 3 s3 = Ret (DONE [7], s4)"
proof -
  let ?s = "rpcs_init 1 0 () :: unit rpcs"
  have ok: "wok ?s" "unacked ?s 9 5" by (simp_all add: wok_fresh unacked_fresh rpcs_init_def)
  obtain s1 where 1: "checkduplicate_and_update 9 5 4 ?s = Ret (NEW, s1)"
      "win s1 9 = [reply_new 5, reply_new 5]"
    by (auto simp: checkduplicate_and_update_def rpcs_init_def Let_def)
  then obtain s2 where 2: "add_reply 9 5 [7] s1 = Ret s2" by (auto simp: add_reply_def)
  have "wok s2" using wok_step [OF wok_step [OF ok(1), of "Request 9 5 4" s1], of "Reply 9 5 [7]" s2] 1 2 by simp
  then obtain s3 where 3: "run_ops wevent_step [Request 9 6 4] s2 = Ret s3"
    using checkduplicate_returns [of 4 6 s2 9] by auto
  show ?thesis using duplicate_gets_recorded_reply [OF ok 1(1) 2 _ 3, of 3] 1(1) 2 3 by auto
qed

text \<open>
  Requests older than the acknowledged ones are refused. A request below the highest
  acknowledgement of its client is classified as forgotten and is not run, even when the window
  no longer knows it.
\<close>

theorem old_request_forgotten:
  assumes "rep < x" and "win s c \<noteq> []" and "x < hi s c"
  shows "\<exists>s'. checkduplicate_and_update c x rep s = Ret (FORGOTTEN, s') \<and> win s' c = win s c"
  using assms by (auto simp: checkduplicate_and_update_def Let_def)

theorem old_request_forgotten_witness:
  "\<exists>s s' :: unit rpcs. checkduplicate_and_update 9 3 2 s = Ret (FORGOTTEN, s') \<and> win s' 9 = win s 9"
proof -
  let ?s = "(rpcs_init 1 0 ())\<lparr>reply_window := [(9, [reply_new 6])], highest_xid_rep := [(9, 5)]\<rparr>"
  have "\<exists>s'. checkduplicate_and_update 9 3 2 ?s = Ret (FORGOTTEN, s') \<and> win s' 9 = win ?s 9"
    by (rule old_request_forgotten) (simp_all add: mget_def)
  then show ?thesis by blast
qed

text \<open>
  The window forgets one request too early. The comment on \<^verbatim>\<open>checkduplicate_and_update\<close>
  promises that a request whose reply was deleted is forgotten; but the entry of \<open>x\<close> is deleted
  by an acknowledgement of \<open>x\<close>, while only requests strictly below the acknowledgement are
  refused. A copy of \<open>x\<close> that arrives after the client's next request is run a second time.
\<close>

theorem acknowledged_duplicate_runs_again:
  assumes "c \<noteq> 0" and "rep < x" and "x < x + 1" and "reply_window s = []"
  shows "executions c x [Request c x rep, Reply c x b, Request c (x + 1) x, Request c x rep] s = 2"
proof -
  have [simp]: "x \<le> x + 1" "\<not> x + 1 < x" "\<not> x + 1 \<le> x" "x + 1 \<noteq> x" "\<not> x < rep" "rep \<le> x" "0 < c"
    using assms(1-3) by (auto simp: word_neq_0_conv)
  show ?thesis
    using assms
    by (simp add: is_new_def checkduplicate_and_update_def add_reply_def Let_def reply_new_def)
qed

theorem acknowledged_duplicate_runs_again_witness:
  "executions 9 5 [Request 9 5 4, Reply 9 5 [1], Request 9 6 5, Request 9 5 4] (rpcs_init 1 0 ()) = 2"
  using acknowledged_duplicate_runs_again [of 9 4 5 "rpcs_init 1 0 ()" "[1]"] by (simp add: rpcs_init_def)

text \<open>
  A duplicate does not touch the server object. When a request that was run and recorded
  arrives again on its client's connection, \<^verbatim>\<open>dispatch\<close> sends the recorded bytes, leaves the
  server object alone and drops the reference it was given.
\<close>

theorem dispatch_duplicate:
  assumes "unpack_req_header (unmarshall_new buf) = Ret (h, req)" and "uok req"
    and "rq_srv_nonce h = nonce s" and "mfind (procs s) (rq_proc h) = Some f"
    and "rq_clt_nonce h \<noteq> 0" and "mfind (conns s) (rq_clt_nonce h) = Some c" and "refs s (channo c) > 0"
    and "wok s" and "unacked s (rq_clt_nonce h) (rq_xid h)" and "rq_xid_rep h < rq_xid h"
    and "entry (rq_xid h) (win s (rq_clt_nonce h)) = Some e" and "r_cb_present e"
  shows "\<exists>s'. dispatch isdead g c buf s = Ret s' \<and> srv s' = srv s \<and>
     sent s' = sent s @ [(channo c, r_buf e)] \<and> refs s' = (refs s)(channo c := refs s (channo c) - 1)"
proof -
  let ?c = "rq_clt_nonce h" and ?x = "rq_xid h"
  have win: "mfind (reply_window s) ?c \<noteq> None" using assms(11) by (auto simp: mget_def split: option.splits)
  obtain st s1 where cd: "checkduplicate_and_update ?c ?x (rq_xid_rep h) s = Ret (st, s1)"
    using checkduplicate_returns [OF assms(10,8)] by blast
  have "hi s1 ?c < ?x"
    using checkduplicate_hi(1) [OF cd _ assms(10)] assms(8,9) by (simp add: wok_def unacked_def)
  then have "st = DONE (r_buf e)"
    using checkduplicate_known [OF cd _ assms(11) less_imp_le] assms(8,12) by (simp add: wok_def)
  moreover have "srv s1 = srv s" "sent s1 = sent s" "refs s1 = refs s"
    using cd by (auto simp: checkduplicate_and_update_def Let_def split: if_splits prod.splits list.splits)
  moreover have "save_conn ?c c s = Ret s" using assms(6) by (simp add: save_conn_def conn_compare_def)
  ultimately show ?thesis
    using assms win cd by (auto simp: dispatch_def decref_def conn_send_def Let_def)
qed

theorem dispatch_duplicate_witness:
  "\<exists>s s' :: unit rpcs. dispatch (\<lambda>_. False) 0 \<lparr>channo = 4, create_sec = 0, create_usec = 0\<rparr>
       (replicate 4 0 @ (be32 5 @ be32 0x7001 @ be32 9 @ be32 1 @ be32 4) @ []) s = Ret s' \<and>
     srv s' = srv s \<and> sent s' = sent s @ [(4, [7])] \<and> refs s' = (refs s)(4 := refs s 4 - 1)"
proof -
  let ?c = "\<lparr>channo = 4, create_sec = 0, create_usec = 0\<rparr>"
  let ?e = "\<lparr>r_xid = 5, r_cb_present = True, r_buf = [7]\<rparr>"
  let ?s = "(rpcs_init 1 0 ())\<lparr>procs := [(0x7001, \<lambda>u m st. Ret (0, m, st))], conns := [(9, ?c)],
     refs := (\<lambda>_. 2), reply_window := [(9, [?e])]\<rparr>"
  have "\<exists>s'. dispatch (\<lambda>_. False) 0 ?c
      (replicate 4 0 @ (be32 5 @ be32 0x7001 @ be32 9 @ be32 1 @ be32 4) @ []) ?s = Ret s' \<and>
     srv s' = srv ?s \<and> sent s' = sent ?s @ [(channo ?c, r_buf ?e)] \<and>
     refs s' = (refs ?s)(channo ?c := refs ?s (channo ?c) - 1)"
    by (rule dispatch_duplicate [OF unpack_req_header_wire])
      (simp_all add: unmarshall_new_def rpcs_init_def wok_def unacked_def)
  then show ?thesis by fastforce
qed

text \<open>
  Requests for an old server instance leak a connection reference. \<^verbatim>\<open>rpcs::got_pdu\<close> takes a
  reference for every job; a request that carries another instance's nonce is answered with
  \<^verbatim>\<open>oldsrv_failure\<close> and the reference count stays as it was, where every other branch of
  \<^verbatim>\<open>dispatch\<close> drops the reference.
\<close>

theorem dispatch_oldsrv_leaks_reference:
  assumes "unpack_req_header (unmarshall_new buf) = Ret (h, req)" and "uok req"
    and "rq_srv_nonce h \<noteq> 0" and "rq_srv_nonce h \<noteq> nonce s"
  shows "\<exists>s' b. dispatch isdead g c buf (incref c s) = Ret s' \<and> sent s' = sent s @ [(channo c, b)] \<and>
     refs s' = (refs s)(channo c := refs s (channo c) + 1) \<and> srv s' = srv s"
proof -
  obtain b where "pack_reply_header \<lparr>rp_xid = rq_xid h, rp_ret = oldsrv_failure\<rparr> (marshall_new g) = Ret b"
    using pack_reply_header_spec [OF m_inv_new] by blast
  then show ?thesis using assms by (simp add: dispatch_def incref_def conn_send_def)
qed

theorem dispatch_oldsrv_leaks_reference_witness:
  "\<exists>s' b. dispatch (\<lambda>_. False) 0 \<lparr>channo = 4, create_sec = 0, create_usec = 0\<rparr>
       (replicate 4 0 @ (be32 5 @ be32 0x7001 @ be32 9 @ be32 2 @ be32 4) @ [])
       (incref \<lparr>channo = 4, create_sec = 0, create_usec = 0\<rparr> (rpcs_init 1 0 ())) = Ret s' \<and>
     sent s' = sent (rpcs_init 1 0 ()) @ [(channo \<lparr>channo = 4, create_sec = 0, create_usec = 0\<rparr>, b)] \<and>
     refs s' = (refs (rpcs_init 1 0 ()))(channo \<lparr>channo = 4, create_sec = 0, create_usec = 0\<rparr>
        := refs (rpcs_init 1 0 ()) (channo \<lparr>channo = 4, create_sec = 0, create_usec = 0\<rparr>) + 1) \<and>
     srv s' = srv (rpcs_init 1 0 ())"
  by (rule dispatch_oldsrv_leaks_reference [OF unpack_req_header_wire])
    (simp_all add: unmarshall_new_def rpcs_init_def)

end
