(* ===== verification/Lock_Server.thy ===== *)
theory Lock_Server
  imports Rpc_Server
begin

text \<open>
  The lock servers: the protocol constants of \<^verbatim>\<open>lock_protocol.h\<close>, the blocking \<^verbatim>\<open>lock_server\<close> and the
  caching \<^verbatim>\<open>lock_server_cache\<close> with its revocations and retries.

  Both promise the same thing, stated once as the locale \<open>lock_service\<close>: a lock is granted when
  nobody holds it, refused otherwise, and freed by the release of its holder. Mutual exclusion
  over every history of requests is proved from that contract and interpreted on both servers.
\<close>

section \<open>Protocol\<close>

definition l_OK :: u32 where "l_OK = 0"
definition l_RETRY :: u32 where "l_RETRY = 1"
definition l_RPCERR :: u32 where "l_RPCERR = 2"
definition l_NOENT :: u32 where "l_NOENT = 3"
definition l_IOERR :: u32 where "l_IOERR = 4"
definition l_DISCONNECTED :: u32 where "l_DISCONNECTED = 5"

definition rl_OK :: u32 where "rl_OK = 0"
definition rl_RPCERR :: u32 where "rl_RPCERR = 1"
definition rl_DISCONNECTED :: u32 where "rl_DISCONNECTED = 2"

lemmas l_status_defs = l_OK_def l_RETRY_def l_RPCERR_def l_NOENT_def l_IOERR_def l_DISCONNECTED_def
  rl_OK_def rl_RPCERR_def rl_DISCONNECTED_def

definition acquire_proc :: u32 where "acquire_proc = 0x7001"
definition release_proc :: u32 where "release_proc = 0x7002"
definition stat_proc :: u32 where "stat_proc = 0x7003"
definition disconnect_server_proc :: u32 where "disconnect_server_proc = 0x9002"

lemmas lock_proc_defs = acquire_proc_def release_proc_def stat_proc_def disconnect_server_proc_def

text \<open>A \<^verbatim>\<open>std::set\<close> is its increasing list of elements.\<close>

definition sinsert :: "'a::linorder \<Rightarrow> 'a list \<Rightarrow> 'a list" where
  "sinsert x xs = (if x \<in> set xs then xs else insort x xs)"

lemma set_sinsert [simp]: "set (sinsert x xs) = insert x (set xs)"
  by (auto simp: sinsert_def set_insort_key)

lemma sinsert_not_Nil [simp]: "sinsert x xs \<noteq> []"
  by (metis empty_iff empty_set insertCI set_sinsert)

section \<open>The blocking lock server\<close>

record lock_server =
  ls_nacquire :: u32
  ls_status :: "(u64, bool) smap"

definition lock_server_new :: lock_server where
  "lock_server_new = \<lparr>ls_nacquire = 0, ls_status = []\<rparr>"

definition ls_stat :: "u32 \<Rightarrow> u64 \<Rightarrow> lock_server \<Rightarrow> (u32 \<times> u32 \<times> lock_server) res" where
  "ls_stat clt lid s = Ret (l_OK, ls_nacquire s, s)"

text \<open>\<open>Stuck\<close> is a caller asleep on \<^verbatim>\<open>wait_unlock_\<close>; the lookups create the entry.\<close>

definition ls_acquire :: "u32 \<Rightarrow> u64 \<Rightarrow> lock_server \<Rightarrow> (u32 \<times> u32 \<times> lock_server) res" where
  "ls_acquire clt lid s =
     (let r = ls_nacquire s in
      if mget False (ls_status s) lid then Stuck
      else Ret (l_OK, r, s\<lparr>ls_status := mput lid True (ls_status s)\<rparr>))"

definition ls_release :: "u32 \<Rightarrow> u64 \<Rightarrow> lock_server \<Rightarrow> (u32 \<times> u32 \<times> lock_server) res" where
  "ls_release clt lid s = Ret (l_OK, ls_nacquire s, s\<lparr>ls_status := mput lid False (ls_status s)\<rparr>)"

section \<open>The caching lock server\<close>

record lockinfo =
  locked :: bool
  owner :: string
  waiting_set :: "string list"

definition lockinfo_new :: lockinfo where
  "lockinfo_new = \<lparr>locked = False, owner = [], waiting_set = []\<rparr>"

record lock_retry_info =
  ri_lid :: u64
  ri_waiting :: "string list"

record lock_server_cache =
  nacquire :: u32
  lock_status :: "(u64, lockinfo) smap"

definition lock_server_cache_new :: lock_server_cache where
  "lock_server_cache_new = \<lparr>nacquire = 0, lock_status = []\<rparr>"

abbreviation li :: "lock_server_cache \<Rightarrow> u64 \<Rightarrow> lockinfo" where
  "li s lid \<equiv> mget lockinfo_new (lock_status s) lid"

definition set_li :: "u64 \<Rightarrow> lockinfo \<Rightarrow> lock_server_cache \<Rightarrow> lock_server_cache" where
  "set_li lid i s = s\<lparr>lock_status := mput lid i (lock_status s)\<rparr>"

text \<open>
  \<^verbatim>\<open>acquire\<close> under the mutex: the answer \<open>r\<close>, and the owner to be sent a revoke when the requester
  is the first to wait. An owner asking again is only logged.
\<close>

definition acquire_cs ::
  "u64 \<Rightarrow> string \<Rightarrow> lock_server_cache \<Rightarrow> u32 \<times> string option \<times> lock_server_cache" where
  "acquire_cs lid cid s =
     (if locked (li s lid)
      then (l_RETRY, if waiting_set (li s lid) = [] then Some (owner (li s lid)) else None,
            set_li lid ((li s lid)\<lparr>waiting_set := sinsert cid (waiting_set (li s lid))\<rparr>) s)
      else (l_OK, None, set_li lid ((li s lid)\<lparr>locked := True, owner := cid, waiting_set := []\<rparr>) s))"

text \<open>
  The client end of a revoke or retry RPC is an argument: \<open>None\<close> when \<^verbatim>\<open>safebind\<close> fails, else the
  status of the call and the client's answer.
\<close>

definition send_revoke :: "(string \<Rightarrow> u64 \<Rightarrow> (u32 \<times> u32) option) \<Rightarrow> u64 \<Rightarrow> string \<Rightarrow> u32 res" where
  "send_revoke rpc lid cid =
     (case rpc cid lid of
        Some (ret, r) \<Rightarrow> verify (ret = l_OK) (Ret r)
      | None \<Rightarrow> Ret l_IOERR)"

definition lsc_acquire ::
  "(string \<Rightarrow> u64 \<Rightarrow> (u32 \<times> u32) option) \<Rightarrow> u64 \<Rightarrow> string \<Rightarrow> lock_server_cache \<Rightarrow>
   (u32 \<times> u32 \<times> lock_server_cache) res" where
  "lsc_acquire rpc lid cid s =
     (case acquire_cs lid cid s of (r, rv, s) \<Rightarrow>
        (case rv of
           Some own \<Rightarrow> bind_res (send_revoke rpc lid own) (\<lambda>ret. Ret (ret, r, s))
         | None \<Rightarrow> Ret (l_OK, r, s)))"

definition lsc_release ::
  "u64 \<Rightarrow> string \<Rightarrow> lock_server_cache \<Rightarrow> ((u32 \<times> u32 \<times> lock_retry_info) \<times> lock_server_cache) res" where
  "lsc_release lid cid s =
     verify (owner (li s lid) = cid)
       (Ret ((l_OK, l_OK, \<lparr>ri_lid = lid, ri_waiting = waiting_set (li s lid)\<rparr>),
             set_li lid ((li s lid)\<lparr>locked := False, owner := [], waiting_set := []\<rparr>) s))"

text \<open>\<^verbatim>\<open>disconnect_server\<close>: every lock of \<open>cid\<close> is freed and its waiters are to be retried.\<close>

definition free_of :: "string \<Rightarrow> lockinfo \<Rightarrow> lockinfo" where
  "free_of cid i = (if owner i \<noteq> cid then i else i\<lparr>locked := False, owner := [], waiting_set := []\<rparr>)"

definition disconnect_server ::
  "string \<Rightarrow> lock_server_cache \<Rightarrow> (u32 \<times> u32 \<times> lock_retry_info list) \<times> lock_server_cache" where
  "disconnect_server cid s =
     (let to_release = map (\<lambda>(lid, i). \<lparr>ri_lid = lid, ri_waiting = waiting_set i\<rparr>)
            (filter (\<lambda>(lid, i). owner i = cid \<and> waiting_set i \<noteq> []) (lock_status s))
      in ((l_OK, l_OK, to_release),
          s\<lparr>lock_status := map (\<lambda>(lid, i). (lid, free_of cid i)) (lock_status s)\<rparr>))"

text \<open>The retry thread: the clients called, in order.\<close>

fun retry_loop :: "(string \<Rightarrow> u64 \<Rightarrow> (u32 \<times> u32) option) \<Rightarrow> u64 \<Rightarrow> string list \<Rightarrow> string list res" where
  "retry_loop rpc lid [] = Ret []"
| "retry_loop rpc lid (c # cs) =
     (case rpc c lid of
        Some (ret, r) \<Rightarrow> verify (ret = l_OK) (verify (r = rl_OK)
                           (bind_res (retry_loop rpc lid cs) (\<lambda>called. Ret (c # called))))
      | None \<Rightarrow> retry_loop rpc lid cs)"

definition retry_wrapper :: "(string \<Rightarrow> u64 \<Rightarrow> (u32 \<times> u32) option) \<Rightarrow> lock_retry_info \<Rightarrow> string list res" where
  "retry_wrapper rpc info = retry_loop rpc (ri_lid info) (ri_waiting info)"

definition lsc_stat :: "u64 \<Rightarrow> lock_server_cache \<Rightarrow> (u32 \<times> u32 \<times> lock_server_cache) res" where
  "lsc_stat lid s = Ret (l_OK, nacquire s, s)"

section \<open>The server process\<close>

text \<open>
  \<^verbatim>\<open>lock_smain.cc\<close>: the four handlers over the server's state, to which the retry threads that have
  been started are added.
\<close>

record lock_process =
  lp_srv :: lock_server_cache
  lp_threads :: "lock_retry_info list"

definition h_stat :: "u64 \<Rightarrow> lock_process \<Rightarrow> (u32 \<times> u32 \<times> lock_process) res" where
  "h_stat lid p = bind_res (lsc_stat lid (lp_srv p)) (\<lambda>(ret, r, s). Ret (ret, r, p\<lparr>lp_srv := s\<rparr>))"

definition h_acquire ::
  "(string \<Rightarrow> u64 \<Rightarrow> (u32 \<times> u32) option) \<Rightarrow> u64 \<Rightarrow> string \<Rightarrow> lock_process \<Rightarrow> (u32 \<times> u32 \<times> lock_process) res" where
  "h_acquire rpc lid cid p =
     bind_res (lsc_acquire rpc lid cid (lp_srv p)) (\<lambda>(ret, r, s). Ret (ret, r, p\<lparr>lp_srv := s\<rparr>))"

definition h_release :: "u64 \<Rightarrow> string \<Rightarrow> lock_process \<Rightarrow> (u32 \<times> u32 \<times> lock_process) res" where
  "h_release lid cid p =
     bind_res (lsc_release lid cid (lp_srv p)) (\<lambda>((ret, r, info), s).
       Ret (ret, r, p\<lparr>lp_srv := s, lp_threads := lp_threads p @ [info]\<rparr>))"

definition h_disconnect_server :: "string \<Rightarrow> lock_process \<Rightarrow> (u32 \<times> u32 \<times> lock_process) res" where
  "h_disconnect_server cid p =
     (case disconnect_server cid (lp_srv p) of ((ret, r, infos), s) \<Rightarrow>
        Ret (ret, r, p\<lparr>lp_srv := s, lp_threads := lp_threads p @ infos\<rparr>))"

definition lock_smain ::
  "(string \<Rightarrow> u64 \<Rightarrow> (u32 \<times> u32) option) \<Rightarrow> lock_process rpcs \<Rightarrow> lock_process rpcs res" where
  "lock_smain rpc server =
     bind_res (reg1 stat_proc (reg_fn1 get_ull put_int h_stat) server) (\<lambda>server.
     bind_res (reg1 acquire_proc (reg_fn2 get_ull (get_string []) put_int (h_acquire rpc)) server) (\<lambda>server.
     bind_res (reg1 release_proc (reg_fn2 get_ull (get_string []) put_int h_release) server) (\<lambda>server.
       reg1 disconnect_server_proc (reg_fn1 (get_string []) put_int h_disconnect_server) server)))"

section \<open>The contract of a lock service\<close>

text \<open>
  A history of requests, and the grants that are out: a client gives back only what it was
  granted. \<open>acq\<close> answers whether the lock was granted.
\<close>

datatype 'c levent = Acq 'c u64 | Rel 'c u64

fun lock_step ::
  "('c \<Rightarrow> u64 \<Rightarrow> 's \<Rightarrow> bool \<times> 's) \<Rightarrow> ('c \<Rightarrow> u64 \<Rightarrow> 's \<Rightarrow> 's res) \<Rightarrow>
   'c levent \<Rightarrow> 's \<times> ('c \<times> u64) list \<Rightarrow> ('s \<times> ('c \<times> u64) list) res" where
  "lock_step acq rel (Acq c l) (s, out) =
     (case acq c l s of (ok, s) \<Rightarrow> Ret (s, if ok then (c, l) # out else out))"
| "lock_step acq rel (Rel c l) (s, out) =
     (if (c, l) \<in> set out then bind_res (rel c l s) (\<lambda>s. Ret (s, remove1 (c, l) out)) else Ret (s, out))"

locale lock_service =
  fixes acq :: "'c \<Rightarrow> u64 \<Rightarrow> 's \<Rightarrow> bool \<times> 's"
    and rel :: "'c \<Rightarrow> u64 \<Rightarrow> 's \<Rightarrow> 's res"
    and holder :: "'s \<Rightarrow> u64 \<Rightarrow> 'c option"
  assumes acq_free: "holder s l = None \<Longrightarrow> fst (acq c l s) \<and> holder (snd (acq c l s)) = (holder s)(l \<mapsto> c)"
    and acq_busy: "holder s l = Some d \<Longrightarrow> \<not> fst (acq c l s) \<and> holder (snd (acq c l s)) = holder s"
    and rel_holder: "holder s l = Some c \<Longrightarrow> \<exists>s'. rel c l s = Ret s' \<and> holder s' = (holder s)(l := None)"
begin

definition exact :: "'s \<times> ('c \<times> u64) list \<Rightarrow> bool" where
  "exact p \<longleftrightarrow> distinct (map snd (snd p)) \<and> (\<forall>c l. (c, l) \<in> set (snd p) \<longleftrightarrow> holder (fst p) l = Some c)"

lemma exact_acq:
  assumes "exact (s, out)"
  shows "\<exists>p. lock_step acq rel (Acq c l) (s, out) = Ret p \<and> exact p"
proof (cases "holder s l")
  case None
  then have "(d, l) \<notin> set out" for d using assms by (simp add: exact_def)
  then show ?thesis using acq_free [OF None, of c] assms
    by (cases "acq c l s") (force simp: exact_def)
next
  case (Some d)
  then show ?thesis using acq_busy [OF Some, of c] assms by (cases "acq c l s") (simp add: exact_def)
qed

lemma out_unique: "distinct (map snd out) \<Longrightarrow> (c, l) \<in> set out \<Longrightarrow> (d, l) \<in> set out \<Longrightarrow> c = d"
  by (metis (no_types, lifting) distinct_map inj_onD prod.inject snd_conv)

lemma exact_rel:
  assumes "exact (s, out)"
  shows "\<exists>p. lock_step acq rel (Rel c l) (s, out) = Ret p \<and> exact p"
proof (cases "(c, l) \<in> set out")
  case True
  have dist: "distinct out" "distinct (map snd out)" using assms by (auto simp: exact_def distinct_map)
  obtain s' where s': "rel c l s = Ret s'" "holder s' = (holder s)(l := None)"
    using assms True rel_holder [of s l c] by (auto simp: exact_def)
  have "distinct (map snd (remove1 (c, l) out))"
    using dist by (auto simp: distinct_map intro: inj_on_subset)
  moreover have "(d, m) \<in> set (remove1 (c, l) out) \<longleftrightarrow> holder s' m = Some d" for d m
    using assms s'(2) dist out_unique [OF dist(2) True] by (auto simp: exact_def)
  ultimately show ?thesis using True s'(1) by (simp add: exact_def)
qed (use assms in simp)

lemma exact_step: "exact p \<Longrightarrow> \<exists>p'. lock_step acq rel e p = Ret p' \<and> exact p'"
  using exact_acq exact_rel by (cases p; cases e) simp_all

lemma exact_run: "exact p \<Longrightarrow> \<exists>p'. run_ops (lock_step acq rel) es p = Ret p' \<and> exact p'"
proof (induction es arbitrary: p)
  case (Cons e es)
  then show ?case using exact_step [of p e] by force
qed simp

lemma exclusion:
  assumes "\<And>l. holder s l = None"
  shows "\<exists>s' out. run_ops (lock_step acq rel) es (s, []) = Ret (s', out) \<and> distinct (map snd out) \<and>
    (\<forall>c l. (c, l) \<in> set out \<longleftrightarrow> holder s' l = Some c)"
  using exact_run [of "(s, [])" es] assms by (auto simp: exact_def)

end

section \<open>Both servers are lock services\<close>

text \<open>
  The blocking server does not know who holds a lock (client numbers are only printed), so its
  clients are one.
\<close>

definition ls_try :: "unit \<Rightarrow> u64 \<Rightarrow> lock_server \<Rightarrow> bool \<times> lock_server" where
  "ls_try c l s = (case ls_acquire 0 l s of Ret (ret, r, s') \<Rightarrow> (True, s') | _ \<Rightarrow> (False, s))"

definition ls_free :: "unit \<Rightarrow> u64 \<Rightarrow> lock_server \<Rightarrow> lock_server res" where
  "ls_free c l s = bind_res (ls_release 0 l s) (\<lambda>(ret, r, s). Ret s)"

definition ls_holder :: "lock_server \<Rightarrow> u64 \<Rightarrow> unit option" where
  "ls_holder s l = (if mget False (ls_status s) l then Some () else None)"

lemmas ls_defs = ls_try_def ls_free_def ls_holder_def ls_acquire_def ls_release_def

interpretation blocking: lock_service ls_try ls_free ls_holder
  by unfold_locales (auto simp: ls_defs fun_eq_iff Let_def split: if_splits)

definition lsc_try :: "string \<Rightarrow> u64 \<Rightarrow> lock_server_cache \<Rightarrow> bool \<times> lock_server_cache" where
  "lsc_try c l s = (case acquire_cs l c s of (r, rv, s') \<Rightarrow> (r = l_OK, s'))"

definition lsc_free :: "string \<Rightarrow> u64 \<Rightarrow> lock_server_cache \<Rightarrow> lock_server_cache res" where
  "lsc_free c l s = bind_res (lsc_release l c s) (\<lambda>(_, s). Ret s)"

definition lsc_holder :: "lock_server_cache \<Rightarrow> u64 \<Rightarrow> string option" where
  "lsc_holder s l = (if locked (li s l) then Some (owner (li s l)) else None)"

lemma li_set_li [simp]: "li (set_li l i s) m = (if m = l then i else li s m)"
  by (simp add: set_li_def)

lemma lockinfo_new_simps [simp]:
  "locked lockinfo_new = False" "owner lockinfo_new = []" "waiting_set lockinfo_new = []"
  by (simp_all add: lockinfo_new_def)

lemmas lsc_defs = lsc_try_def lsc_free_def lsc_holder_def acquire_cs_def lsc_release_def verify_def

interpretation caching: lock_service lsc_try lsc_free lsc_holder
  by unfold_locales (auto simp: lsc_defs l_status_defs fun_eq_iff split: if_splits)

section \<open>Waiters, revocations and retries\<close>

text \<open>
  A history of the caching server with what it has sent: \<open>sr_revoked\<close> holds the revokes sent to
  the present holders, \<open>sr_refused\<close> the clients that were answered \<^verbatim>\<open>RETRY\<close> and not yet retried.
\<close>

record srun =
  sr_srv :: lock_server_cache
  sr_revoked :: "(u64 \<times> string) list"
  sr_refused :: "(u64 \<times> string) set"

datatype sevent = SAcq string u64 | SRel string u64 | SDisc string

definition retried :: "lock_retry_info \<Rightarrow> (u64 \<times> string) set" where
  "retried info = {(ri_lid info, c) | c. c \<in> set (ri_waiting info)}"

fun sstep :: "sevent \<Rightarrow> srun \<Rightarrow> srun res" where
  "sstep (SAcq c l) x =
     (case acquire_cs l c (sr_srv x) of (r, rv, s) \<Rightarrow>
        Ret \<lparr>sr_srv = s,
             sr_revoked = (case rv of Some own \<Rightarrow> (l, own) # sr_revoked x | None \<Rightarrow> sr_revoked x),
             sr_refused = (if r = l_RETRY then insert (l, c) (sr_refused x) else sr_refused x)\<rparr>)"
| "sstep (SRel c l) x =
     bind_res (lsc_release l c (sr_srv x)) (\<lambda>((ret, r, info), s).
        Ret \<lparr>sr_srv = s, sr_revoked = filter (\<lambda>p. fst p \<noteq> l) (sr_revoked x),
             sr_refused = sr_refused x - retried info\<rparr>)"
| "sstep (SDisc c) x =
     (case disconnect_server c (sr_srv x) of ((ret, r, infos), s) \<Rightarrow>
        Ret \<lparr>sr_srv = s, sr_revoked = filter (\<lambda>p. owner (li (sr_srv x) (fst p)) \<noteq> c) (sr_revoked x),
             sr_refused = sr_refused x - \<Union> (retried ` set infos)\<rparr>)"

definition srun_ok :: "srun \<Rightarrow> bool" where
  "srun_ok x \<longleftrightarrow> mwf (lock_status (sr_srv x)) \<and> distinct (sr_revoked x) \<and>
     (\<forall>l. \<not> locked (li (sr_srv x) l) \<longrightarrow> waiting_set (li (sr_srv x) l) = []) \<and>
     (\<forall>l c. (l, c) \<in> set (sr_revoked x) \<longleftrightarrow>
        locked (li (sr_srv x) l) \<and> owner (li (sr_srv x) l) = c \<and> waiting_set (li (sr_srv x) l) \<noteq> []) \<and>
     (\<forall>l c. (l, c) \<in> sr_refused x \<longleftrightarrow> c \<in> set (waiting_set (li (sr_srv x) l)))"

lemma li_disconnect: "li (snd (disconnect_server c s)) l = free_of c (li s l)"
  by (simp add: disconnect_server_def mget_map_val free_of_def lockinfo_new_def Let_def)

lemma retried_disconnect:
  assumes "mwf (lock_status s)"
  shows "(l, d) \<in> \<Union> (retried ` set (snd (snd (fst (disconnect_server c s))))) \<longleftrightarrow>
    owner (li s l) = c \<and> d \<in> set (waiting_set (li s l))"
proof
  assume "(l, d) \<in> \<Union> (retried ` set (snd (snd (fst (disconnect_server c s)))))"
  then show "owner (li s l) = c \<and> d \<in> set (waiting_set (li s l))"
    using mget_in_set [OF assms] by (auto simp: disconnect_server_def retried_def)
next
  assume own: "owner (li s l) = c \<and> d \<in> set (waiting_set (li s l))"
  then have "li s l \<noteq> lockinfo_new" by auto
  then have "(l, li s l) \<in> set (lock_status s)" by (rule mget_default)
  then show "(l, d) \<in> \<Union> (retried ` set (snd (snd (fst (disconnect_server c s)))))"
    using own by (force simp: disconnect_server_def retried_def)
qed

lemma srun_ok_acq: "srun_ok x \<Longrightarrow> sstep (SAcq c l) x = Ret x' \<Longrightarrow> srun_ok x'"
  unfolding srun_ok_def
  by (auto simp: acquire_cs_def l_status_defs set_li_def split: if_splits)

lemma srun_ok_rel: "srun_ok x \<Longrightarrow> sstep (SRel c l) x = Ret x' \<Longrightarrow> srun_ok x'"
  unfolding srun_ok_def
  by (auto simp: lsc_release_def verify_def set_li_def retried_def split: if_splits)

lemma srun_ok_disc:
  assumes "srun_ok x" and "sstep (SDisc c) x = Ret x'"
  shows "srun_ok x'"
proof -
  obtain ret r infos s where d: "disconnect_server c (sr_srv x) = ((ret, r, infos), s)"
    by (metis prod.exhaust)
  have li: "li s m = free_of c (li (sr_srv x) m)" for m using li_disconnect [of c "sr_srv x" m] d by simp
  have wf: "mwf (lock_status s)" using d assms(1)
    by (auto simp: disconnect_server_def Let_def srun_ok_def intro: mwf_map_val)
  have rt: "(m, e) \<in> \<Union> (retried ` set infos) \<longleftrightarrow>
      owner (li (sr_srv x) m) = c \<and> e \<in> set (waiting_set (li (sr_srv x) m))" for m e
    using retried_disconnect [of "sr_srv x" m e c] d assms(1) by (simp add: srun_ok_def)
  have x': "x' = \<lparr>sr_srv = s, sr_revoked = filter (\<lambda>p. owner (li (sr_srv x) (fst p)) \<noteq> c) (sr_revoked x),
      sr_refused = sr_refused x - \<Union> (retried ` set infos)\<rparr>" using assms(2) d by simp
  show ?thesis using assms(1) wf rt unfolding srun_ok_def x'
    by (simp add: li free_of_def)
qed

lemma srun_ok_step: "srun_ok x \<Longrightarrow> sstep e x = Ret x' \<Longrightarrow> srun_ok x'"
  using srun_ok_acq srun_ok_rel srun_ok_disc by (cases e) blast+

interpretation history: op_machine sstep srun_ok
  by unfold_locales (rule srun_ok_step)

definition srun_new :: srun where
  "srun_new = \<lparr>sr_srv = lock_server_cache_new, sr_revoked = [], sr_refused = {}\<rparr>"

lemma srun_ok_new: "srun_ok srun_new"
  by (simp add: srun_ok_def srun_new_def lock_server_cache_new_def)

section \<open>Properties of the lock servers\<close>

text \<open>
  Mutual exclusion of the caching lock server: whatever acquires and releases its clients
  send, in whatever order, no request makes the server abort, at most one grant of each lock is
  out at any time, and the server's record of the holder is exactly the grants that are out.
\<close>

theorem caching_server_exclusion:
  "\<exists>s out. run_ops (lock_step lsc_try lsc_free) es (lock_server_cache_new, []) = Ret (s, out) \<and>
     distinct (map snd out) \<and> (\<forall>c l. (c, l) \<in> set out \<longleftrightarrow> lsc_holder s l = Some c)"
  by (rule caching.exclusion) (simp add: lsc_holder_def lock_server_cache_new_def)

text \<open>
  Mutual exclusion of the blocking lock server: in every history at most one grant of each
  lock is out.
\<close>

theorem blocking_server_exclusion:
  "\<exists>s out. run_ops (lock_step ls_try ls_free) es (lock_server_new, []) = Ret (s, out) \<and>
     distinct (map snd out) \<and> (\<forall>c l. (c, l) \<in> set out \<longleftrightarrow> ls_holder s l = Some c)"
  by (rule blocking.exclusion) (simp add: ls_holder_def lock_server_new_def)

text \<open>
  No waiter is lost. In every history of acquires, releases and disconnections of the caching
  server, the clients that were answered \<^verbatim>\<open>RETRY\<close> and not yet retried are exactly those in the waiting
  sets; a lock with waiters is held, and exactly one revoke has been sent to its present holder,
  so that the release which will retry the waiters is under way.
\<close>

theorem waiters_not_lost:
  assumes "run_ops sstep es srun_new = Ret x"
  shows "((l, c) \<in> sr_refused x \<longleftrightarrow> c \<in> set (waiting_set (li (sr_srv x) l))) \<and>
    (waiting_set (li (sr_srv x) l) \<noteq> [] \<longrightarrow>
       locked (li (sr_srv x) l) \<and> count_list (sr_revoked x) (l, owner (li (sr_srv x) l)) = 1)"
proof -
  have ok: "srun_ok x" using history.run_inv srun_ok_new assms by blast
  then have "count_list (sr_revoked x) (l, owner (li (sr_srv x) l)) = 1"
    if "waiting_set (li (sr_srv x) l) \<noteq> []" "locked (li (sr_srv x) l)"
    using that by (simp add: srun_ok_def count_list_distinct)
  then show ?thesis using ok unfolding srun_ok_def by blast
qed

theorem waiters_not_lost_witness:
  "\<exists>x. run_ops sstep [SAcq ''a'' 7, SAcq ''b'' 7, SAcq ''c'' 7] srun_new = Ret x \<and>
     (7, ''c'') \<in> sr_refused x \<and> count_list (sr_revoked x) (7, ''a'') = 1"
proof -
  have "\<exists>x. run_ops sstep [SAcq ''a'' 7, SAcq ''b'' 7, SAcq ''c'' 7] srun_new = Ret x \<and>
      ''c'' \<in> set (waiting_set (li (sr_srv x) 7)) \<and> owner (li (sr_srv x) 7) = ''a''"
    by (simp add: acquire_cs_def srun_new_def lock_server_cache_new_def l_status_defs set_li_def)
  then obtain x where x: "run_ops sstep [SAcq ''a'' 7, SAcq ''b'' 7, SAcq ''c'' 7] srun_new = Ret x"
      "''c'' \<in> set (waiting_set (li (sr_srv x) 7))" "owner (li (sr_srv x) 7) = ''a''" by blast
  then show ?thesis using waiters_not_lost [OF x(1), of 7 "''c''"] by force
qed

text \<open>
  \<^verbatim>\<open>disconnect_server\<close> frees every lock of the disconnected client and no other lock, keeps the
  waiters of the other locks, and hands exactly the waiters of the freed locks to retry threads.
\<close>

theorem disconnect_frees_exactly:
  assumes "mwf (lock_status s)" and "c \<noteq> []"
    and "disconnect_server c s = ((ret, r, infos), s')"
  shows "lsc_holder s' l = (if lsc_holder s l = Some c then None else lsc_holder s l) \<and>
    (owner (li s l) \<noteq> c \<longrightarrow> li s' l = li s l) \<and>
    ((l, d) \<in> \<Union> (retried ` set infos) \<longleftrightarrow> owner (li s l) = c \<and> d \<in> set (waiting_set (li s l)))"
  using li_disconnect [of c s l] retried_disconnect [OF assms(1), of l d c] assms(2,3)
  by (auto simp: lsc_holder_def free_of_def)

theorem disconnect_frees_exactly_witness:
  "\<exists>ret r infos s'. disconnect_server ''a''
      \<lparr>nacquire = 0, lock_status = [(3, \<lparr>locked = True, owner = ''a'', waiting_set = [''b'']\<rparr>),
                                   (4, \<lparr>locked = True, owner = ''b'', waiting_set = [''a'']\<rparr>)]\<rparr> =
      ((ret, r, infos), s') \<and>
     lsc_holder s' 3 = None \<and> (3, ''b'') \<in> \<Union> (retried ` set infos)"
proof -
  let ?s = "\<lparr>nacquire = 0, lock_status = [(3, \<lparr>locked = True, owner = ''a'', waiting_set = [''b'']\<rparr>),
      (4, \<lparr>locked = True, owner = ''b'', waiting_set = [''a'']\<rparr>)]\<rparr>"
  obtain ret r infos s' where d: "disconnect_server ''a'' ?s = ((ret, r, infos), s')" by (metis prod.exhaust)
  have wf: "mwf (lock_status ?s)" by simp
  show ?thesis using disconnect_frees_exactly [OF wf _ d, of 3 "''b''"] d
    by (simp add: lsc_holder_def mget_def)
qed

text \<open>
  A release is honoured exactly when it comes from the recorded owner; anything else makes the
  server abort. In particular a client whose locks were taken away by \<^verbatim>\<open>disconnect_server\<close> and that
  releases one of them afterwards brings the server down.
\<close>

theorem release_only_by_owner:
  assumes "c \<noteq> []"
  shows "(\<exists>a s'. lsc_release l c s = Ret (a, s')) = (owner (li s l) = c) \<and>
    lsc_release l c (snd (disconnect_server c s)) = Fault Verify_failed"
  using assms li_disconnect [of c s l]
  by (auto simp: lsc_release_def verify_def free_of_def split: if_splits)

theorem release_only_by_owner_witness:
  "lsc_release 3 ''a'' (snd (disconnect_server ''a''
      \<lparr>nacquire = 0, lock_status = [(3, \<lparr>locked = True, owner = ''a'', waiting_set = []\<rparr>)]\<rparr>)) = Fault Verify_failed"
  using release_only_by_owner [of "''a''" 3] by simp

end
