(* ===== verification/Extent_Server.thy ===== *)
theory Extent_Server
  imports Rpc_Server
begin

text \<open>
  The extent server (\<^verbatim>\<open>extent_protocol.h\<close>, \<^verbatim>\<open>extent_server.h\<close>, \<^verbatim>\<open>extent_server.cc\<close>, \<^verbatim>\<open>extent_smain.cc\<close>):
  attributes and their wire format, the versioned table of extents and the handlers registered
  for it.

  \<^verbatim>\<open>time(NULL)\<close> is an argument \<open>seconds\<close> (already converted to \<^verbatim>\<open>unsigned int\<close>), and the value of an
  uninitialised field is an argument \<open>junk\<close>.
\<close>

section \<open>Protocol\<close>

definition e_OK :: u32 where "e_OK = 0"
definition e_RPCERR :: u32 where "e_RPCERR = 1"
definition e_NOENT :: u32 where "e_NOENT = 2"
definition e_IOERR :: u32 where "e_IOERR = 3"

lemmas e_status_defs = e_OK_def e_RPCERR_def e_NOENT_def e_IOERR_def

definition put_proc :: u32 where "put_proc = 0x6001"
definition get_proc :: u32 where "get_proc = 0x6002"
definition getattr_proc :: u32 where "getattr_proc = 0x6003"
definition remove_proc :: u32 where "remove_proc = 0x6004"

record attr =
  a_atime :: u32
  a_mtime :: u32
  a_ctime :: u32
  a_size :: u32
  a_version :: u32
  a_name :: string

definition get_attr :: "string \<Rightarrow> unmarshall \<Rightarrow> (attr \<times> unmarshall) res" where
  "get_attr name0 u =
     bind_res (get_uint u) (\<lambda>(at, u).
     bind_res (get_uint u) (\<lambda>(mt, u).
     bind_res (get_uint u) (\<lambda>(ct, u).
     bind_res (get_uint u) (\<lambda>(sz, u).
     bind_res (get_uint u) (\<lambda>(ver, u).
     bind_res (get_string name0 u) (\<lambda>(nm, u).
       Ret (\<lparr>a_atime = at, a_mtime = mt, a_ctime = ct, a_size = sz, a_version = ver, a_name = nm\<rparr>, u)))))))"

definition put_attr :: "attr \<Rightarrow> marshall \<Rightarrow> marshall res" where
  "put_attr a m =
     bind_res (put_uint (a_atime a) m) (\<lambda>m.
     bind_res (put_uint (a_mtime a) m) (\<lambda>m.
     bind_res (put_uint (a_ctime a) m) (\<lambda>m.
     bind_res (put_uint (a_size a) m) (\<lambda>m.
     bind_res (put_uint (a_version a) m) (\<lambda>m.
       put_string (a_name a) m)))))"

section \<open>The server\<close>

record finfo =
  fi_buf :: string
  fi_a :: attr

record extent_server =
  es_table :: "(u64, finfo) smap"

definition extent_server_new :: extent_server where
  "extent_server_new = \<lparr>es_table = []\<rparr>"

definition es_put ::
  "u32 \<Rightarrow> u32 \<Rightarrow> u64 \<Rightarrow> attr \<Rightarrow> string \<Rightarrow> extent_server \<Rightarrow> (u32 \<times> u32 \<times> extent_server) res" where
  "es_put junk seconds eid a buf s =
     (let f = \<lparr>fi_buf = buf,
               fi_a = \<lparr>a_atime = junk, a_mtime = seconds, a_ctime = seconds,
                       a_size = of_nat (length buf), a_version = junk, a_name = a_name a\<rparr>\<rparr>
      in bind_res
           (case mfind (es_table s) eid of
              Some g \<Rightarrow> verify (a_version a = a_version (fi_a g))
                          (Ret (f\<lparr>fi_a := (fi_a f)\<lparr>a_version := a_version a + 1\<rparr>\<rparr>))
            | None \<Rightarrow> Ret (f\<lparr>fi_a := (fi_a f)\<lparr>a_version := 1\<rparr>\<rparr>))
           (\<lambda>f. Ret (e_OK, e_OK, s\<lparr>es_table := mput eid f (es_table s)\<rparr>)))"

text \<open>
  \<^verbatim>\<open>get\<close> sets the access time of its own copy of the entry, which it then drops; the table does
  not change. The result string is the caller's empty one when the extent does not exist.
\<close>

definition es_get :: "u32 \<Rightarrow> u64 \<Rightarrow> extent_server \<Rightarrow> (u32 \<times> string \<times> extent_server) res" where
  "es_get seconds eid s =
     (case mfind (es_table s) eid of
        None \<Rightarrow> Ret (e_NOENT, [], s)
      | Some f \<Rightarrow> let f = f\<lparr>fi_a := (fi_a f)\<lparr>a_atime := seconds\<rparr>\<rparr> in Ret (e_OK, fi_buf f, s))"

definition es_getattr :: "attr \<Rightarrow> u64 \<Rightarrow> extent_server \<Rightarrow> (u32 \<times> attr \<times> extent_server) res" where
  "es_getattr a0 eid s =
     (case mfind (es_table s) eid of
        None \<Rightarrow> Ret (e_NOENT, a0, s)
      | Some f \<Rightarrow> Ret (e_OK, fi_a f, s))"

definition es_remove :: "u32 \<Rightarrow> u64 \<Rightarrow> extent_server \<Rightarrow> (u32 \<times> u32 \<times> extent_server) res" where
  "es_remove junk eid s = Ret (e_OK, junk, s\<lparr>es_table := merase eid (es_table s)\<rparr>)"

text \<open>The handlers of \<^verbatim>\<open>extent_smain.cc\<close>.\<close>

definition extent_smain :: "u32 \<Rightarrow> u32 \<Rightarrow> attr \<Rightarrow> extent_server rpcs \<Rightarrow> extent_server rpcs res" where
  "extent_smain junk seconds a0 server =
     bind_res (reg1 get_proc (reg_fn1 get_ull put_string (es_get seconds)) server) (\<lambda>server.
     bind_res (reg1 getattr_proc (reg_fn1 get_ull put_attr (es_getattr a0)) server) (\<lambda>server.
     bind_res (reg1 put_proc
       (reg_fn3 get_ull (get_attr []) (get_string []) put_int (es_put junk seconds)) server) (\<lambda>server.
       reg1 remove_proc (reg_fn1 get_ull put_int (es_remove junk)) server)))"

section \<open>Attributes on the wire\<close>

definition enc_attr :: "attr \<Rightarrow> byte list" where
  "enc_attr a = be32 (a_atime a) @ be32 (a_mtime a) @ be32 (a_ctime a) @ be32 (a_size a) @
     be32 (a_version a) @ enc_string (a_name a)"

lemma emits_put_attr [emits_intros]: "length (a_name a) < 2 ^ 31 \<Longrightarrow> emits (put_attr a) (enc_attr a)"
  unfolding put_attr_def enc_attr_def by (intro emits_intros) simp

lemma reads_get_attr [reads_intros]:
  assumes "length (a_name a) < 2 ^ 31"
  shows "reads (get_attr n0) (enc_attr a) a"
proof -
  have fields: "reads (\<lambda>u. bind_res (get_string n0 u) (\<lambda>(nm, u).
      Ret (\<lparr>a_atime = at, a_mtime = mt, a_ctime = ct, a_size = sz, a_version = ver, a_name = nm\<rparr>, u)))
    (enc_string (a_name a))
    \<lparr>a_atime = at, a_mtime = mt, a_ctime = ct, a_size = sz, a_version = ver, a_name = a_name a\<rparr>"
    for at mt ct sz ver
    using reads_bind [OF reads_get_string reads_Ret, of "a_name a"] assms by simp
  have eta: "\<lparr>a_atime = a_atime a, a_mtime = a_mtime a, a_ctime = a_ctime a, a_size = a_size a,
      a_version = a_version a, a_name = a_name a\<rparr> = a" by simp
  note last = fields [of "a_atime a" "a_mtime a" "a_ctime a" "a_size a" "a_version a", unfolded eta]
  show ?thesis unfolding get_attr_def enc_attr_def
    by (rule reads_bind [OF reads_get_uint(1)])+ (rule last)
qed

interpretation c_attr: codec put_attr "get_attr n0" enc_attr "\<lambda>a. length (a_name a) < 2 ^ 31" for n0
  by unfold_locales (rule emits_put_attr, simp, rule reads_get_attr, simp)

section \<open>The contract of an extent store\<close>

text \<open>
  What a client of a store of extents relies on, whether the store is the server itself or the
  server behind a client's cache: a write changes the content of one extent and a removal drops
  one. \<open>look\<close> is the content a reader sees.
\<close>

datatype store_op = Write u64 string | Drop u64

fun store_spec :: "store_op \<Rightarrow> (u64 \<Rightarrow> string option) \<Rightarrow> u64 \<Rightarrow> string option" where
  "store_spec (Write i b) m = m(i \<mapsto> b)"
| "store_spec (Drop i) m = m(i := None)"

fun store_step :: "(u64 \<Rightarrow> string \<Rightarrow> 's \<Rightarrow> 's res) \<Rightarrow> (u64 \<Rightarrow> 's \<Rightarrow> 's res) \<Rightarrow> store_op \<Rightarrow> 's \<Rightarrow> 's res" where
  "store_step upd del (Write i b) s = upd i b s"
| "store_step upd del (Drop i) s = del i s"

locale extent_store =
  fixes look :: "'s \<Rightarrow> u64 \<Rightarrow> string option"
    and upd :: "u64 \<Rightarrow> string \<Rightarrow> 's \<Rightarrow> 's res"
    and del :: "u64 \<Rightarrow> 's \<Rightarrow> 's res"
    and good :: "'s \<Rightarrow> bool"
  assumes upd_ok: "good s \<Longrightarrow> \<exists>s'. upd i b s = Ret s' \<and> good s' \<and> look s' = (look s)(i \<mapsto> b)"
    and del_ok: "good s \<Longrightarrow> \<exists>s'. del i s = Ret s' \<and> good s' \<and> look s' = (look s)(i := None)"
begin

lemma step_refines:
  "good s \<Longrightarrow> \<exists>s'. store_step upd del x s = Ret s' \<and> good s' \<and> look s' = store_spec x (look s)"
  using upd_ok del_ok by (cases x) simp_all

lemma run_refines:
  "good s \<Longrightarrow> \<exists>s'. run_ops (store_step upd del) xs s = Ret s' \<and> good s' \<and> look s' = fold store_spec xs (look s)"
proof (induction xs arbitrary: s)
  case (Cons x xs)
  then show ?case using step_refines [of s x] by force
qed simp

end

text \<open>The server with a client that asks for the version before it writes.\<close>

definition es_look :: "extent_server \<Rightarrow> u64 \<Rightarrow> string option" where
  "es_look s i = map_option fi_buf (mfind (es_table s) i)"

definition es_update :: "u32 \<Rightarrow> u32 \<Rightarrow> attr \<Rightarrow> u64 \<Rightarrow> string \<Rightarrow> extent_server \<Rightarrow> extent_server res" where
  "es_update junk seconds a0 i b s =
     bind_res (es_getattr a0 i s) (\<lambda>(ret, a, s).
     bind_res (es_put junk seconds i a b s) (\<lambda>(ret, r, s). Ret s))"

definition es_drop :: "u32 \<Rightarrow> u64 \<Rightarrow> extent_server \<Rightarrow> extent_server res" where
  "es_drop junk i s = bind_res (es_remove junk i s) (\<lambda>(ret, r, s). Ret s)"

lemmas es_defs = es_look_def es_update_def es_drop_def es_getattr_def es_put_def es_remove_def verify_def

interpretation server: extent_store es_look "es_update junk seconds a0" "es_drop junk" "\<lambda>s. mwf (es_table s)"
    for junk seconds a0
  by unfold_locales (auto simp: es_defs fun_eq_iff Let_def split: option.splits)

section \<open>Properties of the extent server\<close>


text \<open>
  Optimistic versioning. A write to an existing extent is accepted exactly when it names the
  extent's current version, and then advances the version by one (mod \<open>2^32\<close>); any other version
  makes the server abort. A new extent starts at version 1 whatever the client sends. What was
  written is what is read back, with the size of the data (mod \<open>2^32\<close>) and the client's name.
\<close>

theorem put_version_check:
  shows "(mfind (es_table s) i = Some f \<and> a_version a \<noteq> a_version (fi_a f) \<longrightarrow>
            es_put junk seconds i a b s = Fault Verify_failed) \<and>
    (mfind (es_table s) i = None \<or> (\<exists>f. mfind (es_table s) i = Some f \<and> a_version a = a_version (fi_a f)) \<longrightarrow>
       (\<exists>s' g. es_put junk seconds i a b s = Ret (e_OK, e_OK, s') \<and>
          es_get seconds' i s' = Ret (e_OK, b, s') \<and> es_getattr a0 i s' = Ret (e_OK, g, s') \<and>
          a_version g = (if mfind (es_table s) i = None then 1 else a_version a + 1) \<and>
          a_size g = of_nat (length b) \<and> a_name g = a_name a \<and> a_mtime g = seconds \<and>
          (\<forall>j. j \<noteq> i \<longrightarrow> mfind (es_table s') j = mfind (es_table s) j)))"
  by (auto simp: es_put_def es_get_def es_getattr_def verify_def Let_def split: option.splits)

definition attr_example :: attr where
  "attr_example = \<lparr>a_atime = 0, a_mtime = 0, a_ctime = 0, a_size = 0, a_version = 7, a_name = ''f''\<rparr>"

theorem put_version_check_witness:
  "es_put 0 5 3 attr_example ''xy'' \<lparr>es_table = [(3, \<lparr>fi_buf = ''x'', fi_a = attr_example\<lparr>a_version := 8\<rparr>\<rparr>)]\<rparr>
     = Fault Verify_failed \<and>
   (\<exists>s' g. es_put 0 5 3 attr_example ''xy'' \<lparr>es_table = [(3, \<lparr>fi_buf = ''x'', fi_a = attr_example\<rparr>)]\<rparr>
     = Ret (e_OK, e_OK, s') \<and> es_get 6 3 s' = Ret (e_OK, ''xy'', s') \<and> es_getattr attr_example 3 s' = Ret (e_OK, g, s') \<and>
     a_version g = 8)"
  using put_version_check [of "\<lparr>es_table = [(3, \<lparr>fi_buf = ''x'', fi_a = attr_example\<lparr>a_version := 8\<rparr>\<rparr>)]\<rparr>" 3
        "\<lparr>fi_buf = ''x'', fi_a = attr_example\<lparr>a_version := 8\<rparr>\<rparr>" attr_example 0 5 "''xy''" 6 attr_example]
    put_version_check [of "\<lparr>es_table = [(3, \<lparr>fi_buf = ''x'', fi_a = attr_example\<rparr>)]\<rparr>" 3
        "\<lparr>fi_buf = ''x'', fi_a = attr_example\<rparr>" attr_example 0 5 "''xy''" 6 attr_example]
  by (auto simp: attr_example_def)

text \<open>
  Attributes survive the wire: what \<^verbatim>\<open>operator<<\<close> writes for an \<^verbatim>\<open>extent_protocol::attr\<close> behind a
  message, \<^verbatim>\<open>operator>>\<close> reads back, field by field, and stops exactly behind it.
\<close>

theorem attr_roundtrip:
  assumes "length (a_name a) < 2 ^ 31" and "m_inv m"
    and "put_attr a m = Ret m'" and "length (m_bytes m') < 2 ^ 31"
  shows "get_attr n0 ((unmarshall_new (m_bytes m'))\<lparr>uind := mind m\<rparr>)
    = Ret (a, (unmarshall_new (m_bytes m'))\<lparr>uind := mind m'\<rparr>)"
  by (rule c_attr.message_roundtrip(1)) (use assms in auto)

theorem attr_roundtrip_witness:
  "\<exists>m'. put_attr attr_example (marshall_new 0) = Ret m' \<and>
     get_attr [] ((unmarshall_new (m_bytes m'))\<lparr>uind := 24\<rparr>) =
       Ret (attr_example, (unmarshall_new (m_bytes m'))\<lparr>uind := mind m'\<rparr>)"
proof -
  have v: "length (a_name attr_example) < 2 ^ 31" by (simp add: attr_example_def)
  obtain m' where m': "put_attr attr_example (marshall_new 0) = Ret m'" "m_inv m'"
      "m_bytes m' = m_bytes (marshall_new 0) @ enc_attr attr_example"
    by (rule emitsE [OF emits_put_attr [OF v] m_inv_new])
  have "length (m_bytes m') < 2 ^ 31"
    using m'(3) length_m_bytes [OF m_inv_new [of 0]]
    by (simp add: enc_attr_def enc_string_def attr_example_def marshall_new_def)
  from attr_roundtrip [OF v m_inv_new m'(1) this, of "[]"] m'(1) show ?thesis
    by (simp add: marshall_new_def)
qed

end
