(* ===== verification/Yfs_Dir.thy ===== *)
theory Yfs_Dir
  imports Prelude
begin

text \<open>
  Directories as strings: \<^verbatim>\<open>class yfs_dir\<close> and the conversions \<^verbatim>\<open>n2i\<close> and \<^verbatim>\<open>filename\<close> of \<^verbatim>\<open>yfs_client\<close>
  (\<^verbatim>\<open>yfs_client.h\<close>, \<^verbatim>\<open>yfs_client.cc\<close>). A directory is the map \<^verbatim>\<open>dir_\<close> from names to inode numbers; it
  is stored as \<^verbatim>\<open>name inum:name inum:...\<close>, the empty one as a single colon. An exception of
  \<^verbatim>\<open>std::string::substr\<close> is \<open>Fault Out_of_range\<close>.
\<close>

section \<open>Numbers as text\<close>

definition filename :: "u64 \<Rightarrow> string" where
  "filename inum = show_nat (unat inum)"

text \<open>
  Extraction of an \<^verbatim>\<open>unsigned long long\<close> from a string stream: white space is skipped, a sign is
  allowed, the longest run of digits is taken; nothing to convert gives 0 and a value that is too
  large gives the largest number.
\<close>

definition n2i :: "string \<Rightarrow> u64" where
  "n2i s =
     (let s = dropWhile is_space s;
          neg = (s \<noteq> [] \<and> hd s = CHR ''-'');
          s = (if s \<noteq> [] \<and> (hd s = CHR ''-'' \<or> hd s = CHR ''+'') then tl s else s);
          ds = takeWhile is_digit s;
          v = digits_val ds
      in if ds = [] then 0
         else if v \<ge> 2 ^ 64 then - 1
         else if neg then - of_nat v else of_nat v)"

section \<open>Directories\<close>

record dirent =
  de_name :: string
  de_inum :: u64

type_synonym yfs_dir = "(string, u64) smap"

definition c_str :: "string \<Rightarrow> string" where
  "c_str s = takeWhile (\<lambda>c. c \<noteq> CHR 0x00) s"

definition extract_dirent :: "string \<Rightarrow> dirent res" where
  "extract_dirent str =
     (case std_find (CHR '' '') str 0 of
        None \<Rightarrow> Fault Out_of_range
      | Some found \<Rightarrow>
          bind_res (std_substr str 0 found) (\<lambda>name.
          bind_res (std_substr str found (length str)) (\<lambda>rest.
            Ret \<lparr>de_name = name, de_inum = n2i (c_str rest)\<rparr>)))"

text \<open>The loop of the constructor, from position \<open>lst\<close> on.\<close>

function parse_from :: "string \<Rightarrow> nat \<Rightarrow> yfs_dir \<Rightarrow> yfs_dir res" where
  "parse_from dir lst d =
     (case std_find (CHR '':'') dir lst of
        None \<Rightarrow> Ret d
      | Some found \<Rightarrow>
          bind_res (std_substr dir lst (found - lst)) (\<lambda>str.
          bind_res (extract_dirent str) (\<lambda>e.
            parse_from dir (found + 1) (mput (de_name e) (de_inum e) d))))"
  by pat_completeness auto
termination
proof (relation "measure (\<lambda>(dir, lst, d). Suc (length dir) - lst)")
  fix dir lst d found str e
  assume "std_find (CHR '':'') dir lst = Some found"
  then obtain xs ys where "lst \<le> length dir" "drop lst dir = xs @ CHR '':'' # ys" "found = lst + length xs"
    using find_char_Some [of "CHR '':''" "drop lst dir" lst found] by (auto simp: std_find_def split: if_splits)
  moreover have "length (drop lst dir) = length xs + Suc (length ys)" using calculation by simp
  ultimately show "((dir, found + 1, mput (de_name e) (de_inum e) d), dir, lst, d)
      \<in> measure (\<lambda>(dir, lst, d). Suc (length dir) - lst)" by auto
qed auto

declare parse_from.simps [simp del]

definition yfs_dir_new :: "string \<Rightarrow> yfs_dir res" where
  "yfs_dir_new dir = (if length dir > 1 then parse_from dir 0 [] else Ret [])"

fun entries_string :: "yfs_dir \<Rightarrow> string" where
  "entries_string [] = []"
| "entries_string ((n, i) # d) = n @ '' '' @ filename i @ '':'' @ entries_string d"

definition dir_to_string :: "yfs_dir \<Rightarrow> string" where
  "dir_to_string d = (if d = [] then '':'' else entries_string d)"

definition dir_add :: "dirent \<Rightarrow> yfs_dir \<Rightarrow> yfs_dir" where
  "dir_add e d = mput (de_name e) (de_inum e) d"

definition dir_rem :: "string \<Rightarrow> yfs_dir \<Rightarrow> yfs_dir" where
  "dir_rem n d = merase n d"

definition dir_exists :: "string \<Rightarrow> yfs_dir \<Rightarrow> bool" where
  "dir_exists n d = (mcount d n = 1)"

text \<open>\<^verbatim>\<open>dir_[name]\<close> creates a missing entry; the caller's object keeps it.\<close>

definition dir_get :: "string \<Rightarrow> yfs_dir \<Rightarrow> u64 \<times> yfs_dir" where
  "dir_get n d = (mget 0 d n, if mcount d n = 0 then mput n 0 d else d)"

section \<open>Reading back a number\<close>

lemma filename_chars: "c \<in> set (filename i) \<Longrightarrow> is_digit c"
  using show_nat_digits [of "unat i"] by (auto simp: filename_def)

lemma filename_not_Nil [simp]: "filename i \<noteq> []"
  using show_nat_digits [of "unat i"] by (simp add: filename_def)

lemma n2i_filename: "n2i ('' '' @ filename i) = i"
proof -
  obtain c cs where f: "filename i = c # cs" by (cases "filename i") auto
  have c: "is_digit c" using filename_chars [of c i] f by simp
  have "dropWhile is_space ('' '' @ filename i) = filename i"
    using digit_not [OF c] f by (simp add: is_space_def)
  moreover have "takeWhile is_digit (filename i) = filename i" using filename_chars by (auto simp: takeWhile_eq_all_conv)
  moreover have "digits_val (filename i) = unat i" by (simp add: filename_def digits_val_show)
  moreover have "unat i < 2 ^ 64" by (rule order_less_le_trans [OF unsigned_less]) simp
  ultimately show ?thesis using digit_not [OF c] f by (simp add: n2i_def Let_def)
qed

section \<open>Reading back a directory\<close>

definition clean_name :: "string \<Rightarrow> bool" where
  "clean_name n \<longleftrightarrow> CHR '':'' \<notin> set n \<and> CHR '' '' \<notin> set n"

lemma extract_entry:
  assumes "CHR '' '' \<notin> set n"
  shows "extract_dirent (n @ '' '' @ r) = Ret \<lparr>de_name = n, de_inum = n2i (c_str ('' '' @ r))\<rparr>"
  using find_char_append [OF assms, of r 0]
  by (simp add: extract_dirent_def std_find_def std_substr_def)

lemma extract_clean:
  assumes "clean_name n"
  shows "extract_dirent (n @ '' '' @ filename i) = Ret \<lparr>de_name = n, de_inum = i\<rparr>"
proof -
  have "c_str ('' '' @ filename i) = '' '' @ filename i"
    using filename_chars [of _ i] digit_not by (auto simp: c_str_def takeWhile_eq_all_conv)
  then show ?thesis using extract_entry [of n "filename i"] assms n2i_filename by (simp add: clean_name_def)
qed

lemma parse_entry:
  assumes "CHR '':'' \<notin> set e"
  shows "parse_from (pre @ e @ '':'' @ rest) (length pre) d =
    bind_res (extract_dirent e) (\<lambda>de.
      parse_from (pre @ e @ '':'' @ rest) (length (pre @ e @ '':'')) (mput (de_name de) (de_inum de) d))"
proof -
  let ?s = "pre @ e @ '':'' @ rest"
  have "std_find (CHR '':'') ?s (length pre) = Some (length pre + length e)"
    using find_char_append [OF assms, of rest "length pre"] by (simp add: std_find_def)
  moreover have "std_substr ?s (length pre) (length e) = Ret e" by (simp add: std_substr_def)
  ultimately show ?thesis by (subst parse_from.simps) simp
qed

lemma parse_end: "CHR '':'' \<notin> set rest \<Longrightarrow> parse_from (pre @ rest) (length pre) d = Ret d"
  by (subst parse_from.simps) (simp add: std_find_def find_char_None [THEN iffD2])

lemma parse_entries:
  "(\<forall>(n, i) \<in> set es. clean_name n) \<Longrightarrow>
   parse_from (pre @ entries_string es @ rest) (length pre) d =
   parse_from (pre @ entries_string es @ rest) (length (pre @ entries_string es)) (fold (\<lambda>(n, i). mput n i) es d)"
proof (induction es arbitrary: pre d)
  case (Cons p es)
  obtain n i where p: "p = (n, i)" by fastforce
  let ?e = "n @ '' '' @ filename i"
  have n: "clean_name n" using Cons.prems p by simp
  have "CHR '':'' \<notin> set ?e" using n filename_chars [of "CHR '':''" i] digit_not by (auto simp: clean_name_def)
  from parse_entry [OF this, of pre "entries_string es @ rest" d]
  show ?case using Cons.IH [of "pre @ ?e @ '':''" "mput n i d"] Cons.prems p extract_clean [OF n, of i] by simp
qed simp

lemma entries_nonempty: "es \<noteq> [] \<Longrightarrow> 1 < length (entries_string es)"
  by (cases es) (auto simp: Suc_le_eq)

text \<open>Whatever string is parsed, the directory is well formed and its names are clean.\<close>

lemma extract_clean_name:
  assumes "extract_dirent str = Ret e" and "CHR '':'' \<notin> set str"
  shows "clean_name (de_name e)"
proof -
  obtain found where f: "find_char (CHR '' '') str 0 = Some found"
    using assms(1) by (auto simp: extract_dirent_def std_find_def split: option.splits)
  obtain xs ys where "str = xs @ CHR '' '' # ys" "CHR '' '' \<notin> set xs" "found = length xs"
    using find_char_Some [OF f] by auto
  then show ?thesis using assms f by (auto simp: extract_dirent_def std_find_def std_substr_def clean_name_def)
qed

lemma set_mput: "set (mput k v m) \<subseteq> insert (k, v) (set m)"
  by (induction k v m rule: mput.induct) auto

lemma parse_from_clean:
  "parse_from dir lst d = Ret d' \<Longrightarrow> mwf d \<Longrightarrow> \<forall>(n, i) \<in> set d. clean_name n \<Longrightarrow>
   mwf d' \<and> (\<forall>(n, i) \<in> set d'. clean_name n)"
proof (induction dir lst d rule: parse_from.induct)
  case (1 dir lst d)
  show ?case
  proof (cases "std_find (CHR '':'') dir lst")
    case None
    then show ?thesis using 1(2-4) by (simp add: parse_from.simps [of dir lst d])
  next
    case (Some found)
    obtain str e where s: "std_substr dir lst (found - lst) = Ret str" "extract_dirent str = Ret e"
        "parse_from dir (found + 1) (mput (de_name e) (de_inum e) d) = Ret d'"
      using 1(2) Some by (auto simp: parse_from.simps [of dir lst d])
    have "find_char (CHR '':'') (drop lst dir) lst = Some found" "lst \<le> length dir"
      using Some by (auto simp: std_find_def split: if_splits)
    then obtain xs ys where "drop lst dir = xs @ CHR '':'' # ys" "CHR '':'' \<notin> set xs" "found = lst + length xs"
      using find_char_Some by blast
    then have "CHR '':'' \<notin> set str" using s(1) by (auto simp: std_substr_def split: if_splits)
    then have "\<forall>(n, i) \<in> set (mput (de_name e) (de_inum e) d). clean_name n"
      using extract_clean_name [OF s(2)] 1(4) set_mput [of "de_name e" "de_inum e" d] by auto
    then show ?thesis using 1(1) [OF Some] s(3) 1(3) by simp
  qed
qed

lemma yfs_dir_new_clean: "yfs_dir_new t = Ret d \<Longrightarrow> mwf d \<and> (\<forall>(n, i) \<in> set d. clean_name n)"
  using parse_from_clean [of t 0 "[]" d] by (auto simp: yfs_dir_new_def split: if_splits)

lemma reparse:
  assumes "mwf d" and "\<forall>(n, i) \<in> set d. clean_name n"
  shows "yfs_dir_new (dir_to_string d) = Ret d"
proof (cases "d = []")
  case False
  have "parse_from (entries_string d) 0 [] = Ret d"
    using parse_entries [OF assms(2), of "[]" "[]" "[]"] parse_end [of "[]" "entries_string d" d] assms(1) by (simp add: fold_mput_id)
  then show ?thesis using False entries_nonempty by (simp add: yfs_dir_new_def dir_to_string_def)
qed (simp add: yfs_dir_new_def dir_to_string_def)

lemma reparse_add:
  assumes "yfs_dir_new t = Ret d" and "clean_name n"
  shows "yfs_dir_new (dir_to_string (mput n i d)) = Ret (mput n i d)"
proof (rule reparse)
  show "mwf (mput n i d)" using yfs_dir_new_clean [OF assms(1)] by simp
  show "\<forall>(m, j) \<in> set (mput n i d). clean_name m"
    using yfs_dir_new_clean [OF assms(1)] assms(2) set_mput [of n i d] by auto
qed

lemma set_merase: "set (merase k m) \<subseteq> set m"
  by (induction k m rule: merase.induct) auto

lemma reparse_rem:
  assumes "yfs_dir_new t = Ret d"
  shows "yfs_dir_new (dir_to_string (merase n d)) = Ret (merase n d)"
proof (rule reparse)
  show "mwf (merase n d)" using yfs_dir_new_clean [OF assms] by simp
  show "\<forall>(m, j) \<in> set (merase n d). clean_name m"
    using yfs_dir_new_clean [OF assms] set_merase [of n d] by auto
qed

section \<open>Properties of directories\<close>

text \<open>
  C22. Directories survive storage: if no name contains a colon or a space, parsing the string that
  \<^verbatim>\<open>to_string\<close> prints gives back the same directory, inode numbers included.
\<close>

theorem dir_roundtrip:
  assumes "mwf d" and "\<forall>(n, i) \<in> set d. clean_name n"
  shows "yfs_dir_new (dir_to_string d) = Ret d"
  by (rule reparse [OF assms])

theorem dir_roundtrip_witness:
  "yfs_dir_new (dir_to_string [(''a'', 5), (''tmp'', 2147483650)]) = Ret [(''a'', 5), (''tmp'', 2147483650)]"
  by (rule dir_roundtrip) (auto simp: clean_name_def)

text \<open>
  A name with a colon destroys its directory: once an entry whose name has a colon before any
  space has been stored behind well-named ones, parsing the directory raises \<^verbatim>\<open>out_of_range\<close>, so every later
  operation on the directory ends the client.
\<close>

theorem colon_name_breaks_directory:
  assumes "\<forall>(n, i) \<in> set pre. clean_name n" and "clean_name x"
  shows "yfs_dir_new (dir_to_string (pre @ (x @ '':'' @ y, i) # post)) = Fault Out_of_range"
proof -
  let ?d = "pre @ (x @ '':'' @ y, i) # post"
  have app: "entries_string (es @ es') = entries_string es @ entries_string es'" for es es'
    by (induction es rule: entries_string.induct) auto
  define rest where "rest = y @ '' '' @ filename i @ '':'' @ entries_string post"
  have str: "entries_string ?d = entries_string pre @ x @ '':'' @ rest" by (simp add: app rest_def)
  let ?acc = "fold (\<lambda>(n, i). mput n i) pre []"
  have ext: "extract_dirent x = Fault Out_of_range"
    using assms(2) by (simp add: extract_dirent_def std_find_def clean_name_def find_char_None [THEN iffD2])
  have "parse_from (entries_string ?d) 0 [] = parse_from (entries_string ?d) (length (entries_string pre)) ?acc"
    using parse_entries [OF assms(1), of "[]" "x @ '':'' @ rest" "[]"] unfolding str by simp
  also have "\<dots> = Fault Out_of_range"
    using parse_entry [of x "entries_string pre" rest ?acc] assms(2) ext unfolding str by (simp add: clean_name_def)
  finally show ?thesis using entries_nonempty [of ?d] by (simp add: yfs_dir_new_def dir_to_string_def)
qed

theorem colon_name_breaks_directory_witness:
  "yfs_dir_new (dir_to_string [(''a'', 5), (''b:c'', 6), (''d'', 7)]) = Fault Out_of_range"
  using colon_name_breaks_directory [of "[(''a'', 5)]" "''b''" "''c''" 6 "[(''d'', 7)]"] by (simp add: clean_name_def)

text \<open>
  A name with a space is cut at the space when the directory is read back, and its inode number is
  lost: unless what follows the space looks like a number, the entry comes back with number 0.
\<close>

theorem space_name_truncated:
  assumes "clean_name x" and "CHR '':'' \<notin> set y" and "c \<noteq> CHR '':''" and "\<not> is_space c" and "\<not> is_digit c"
    and "c \<noteq> CHR ''-''" and "c \<noteq> CHR ''+''"
  shows "yfs_dir_new (dir_to_string [(x @ '' '' @ c # y, i)]) = Ret [(x, 0)]"
proof -
  let ?r = "c # y @ '' '' @ filename i"
  have "CHR '':'' \<notin> set (x @ '' '' @ ?r)"
    using assms(1-3) filename_chars [of "CHR '':''" i] digit_not by (auto simp: clean_name_def)
  note step = parse_entry [OF this, of "[]" "[]" "[]"]
  have "n2i (c_str ('' '' @ ?r)) = 0"
    using assms(4-7) by (auto simp: n2i_def c_str_def Let_def is_space_def)
  then have "extract_dirent (x @ '' '' @ ?r) = Ret \<lparr>de_name = x, de_inum = 0\<rparr>"
    using extract_entry [of x ?r] assms(1) by (simp add: clean_name_def)
  then show ?thesis
    using step parse_end [of "[]" "x @ '' '' @ ?r @ '':''"]
    by (simp add: yfs_dir_new_def dir_to_string_def)
qed

theorem space_name_truncated_witness:
  "yfs_dir_new (dir_to_string [(''my file'', 2147483657)]) = Ret [(''my'', 0)]"
  using space_name_truncated [of "''my''" "''ile''" "CHR ''f''" 2147483657]
  by (simp add: clean_name_def is_space_def is_digit_def)

end
