(* ===== verification/Extent_Client_Cache.thy ===== *)
theory Extent_Client_Cache
  imports Extent_Server Yfs_Dir
begin

text \<open>
  The write-back cache of extents of one client: \<^verbatim>\<open>extent_client_cache\<close> and its adaptor for the lock
  client, \<^verbatim>\<open>extent_user\<close> (\<^verbatim>\<open>extent_client_cache.h\<close>, \<^verbatim>\<open>extent_client_cache.cc\<close>), and the uncached stubs of
  \<^verbatim>\<open>extent_client.cc\<close>.

  The state holds the cache and the extent server it talks to. \<^verbatim>\<open>cl->call\<close> runs the server's handler
  (the RPC library and the wire format are theories of their own), or fails with
  \<^verbatim>\<open>timeout_failure\<close> while the server does not answer (\<open>ex_up\<close>). Each \<^verbatim>\<open>time(NULL)\<close> reads the next
  value of the clock \<open>ex_clock\<close>; \<open>ex_junk\<close> is the content of uninitialised fields.
\<close>

section \<open>State\<close>

record extent_entry =
  ee_dirty :: bool
  ee_extent :: string
  ee_attr :: attr

record ext_sys =
  local_extent :: "(u64, extent_entry) smap"
  ex_srv :: extent_server
  ex_up :: bool
  ex_clock :: "nat \<Rightarrow> u32"
  ex_tick :: nat
  ex_junk :: u32

text \<open>A value-initialised attribute and entry, as \<^verbatim>\<open>operator[]\<close> creates them.\<close>

definition attr_zero :: attr where
  "attr_zero = \<lparr>a_atime = 0, a_mtime = 0, a_ctime = 0, a_size = 0, a_version = 0, a_name = []\<rparr>"

definition entry_zero :: extent_entry where
  "entry_zero = \<lparr>ee_dirty = False, ee_extent = [], ee_attr = attr_zero\<rparr>"

definition attr_junk :: "ext_sys \<Rightarrow> attr" where
  "attr_junk s = \<lparr>a_atime = ex_junk s, a_mtime = ex_junk s, a_ctime = ex_junk s, a_size = ex_junk s,
     a_version = ex_junk s, a_name = []\<rparr>"

definition time_null :: "ext_sys \<Rightarrow> u32 \<times> ext_sys" where
  "time_null s = (ex_clock s (ex_tick s), s\<lparr>ex_tick := ex_tick s + 1\<rparr>)"

definition set_entry :: "u64 \<Rightarrow> extent_entry \<Rightarrow> ext_sys \<Rightarrow> ext_sys" where
  "set_entry i e s = s\<lparr>local_extent := mput i e (local_extent s)\<rparr>"

definition ec_call ::
  "(extent_server \<Rightarrow> (u32 \<times> 'r \<times> extent_server) res) \<Rightarrow> 'r \<Rightarrow> ext_sys \<Rightarrow> (u32 \<times> 'r \<times> ext_sys) res" where
  "ec_call h r0 s =
     (if ex_up s then bind_res (h (ex_srv s)) (\<lambda>(ret, r, srv). Ret (ret, r, s\<lparr>ex_srv := srv\<rparr>))
      else Ret (timeout_failure, r0, s))"

definition call_get :: "u64 \<Rightarrow> ext_sys \<Rightarrow> (u32 \<times> string \<times> ext_sys) res" where
  "call_get i s = (case time_null s of (t, s) \<Rightarrow> ec_call (es_get t i) [] s)"

definition call_getattr :: "u64 \<Rightarrow> ext_sys \<Rightarrow> (u32 \<times> attr \<times> ext_sys) res" where
  "call_getattr i s = ec_call (es_getattr (attr_junk s) i) (attr_junk s) s"

definition call_put :: "u64 \<Rightarrow> attr \<Rightarrow> string \<Rightarrow> ext_sys \<Rightarrow> (u32 \<times> u32 \<times> ext_sys) res" where
  "call_put i a b s = (case time_null s of (t, s) \<Rightarrow> ec_call (es_put (ex_junk s) t i a b) (ex_junk s) s)"

definition call_remove :: "u32 \<Rightarrow> u64 \<Rightarrow> ext_sys \<Rightarrow> (u32 \<times> u32 \<times> ext_sys) res" where
  "call_remove r0 i s = ec_call (es_remove (ex_junk s) i) r0 s"

section \<open>Operations\<close>

definition get_helper :: "u64 \<Rightarrow> ext_sys \<Rightarrow> (u32 \<times> ext_sys) res" where
  "get_helper i s =
     bind_res (call_get i s) (\<lambda>(ret, b, s).
       if ret = e_NOENT then Ret (ret, s)
       else verify (ret = e_OK)
         (bind_res (call_getattr i s) (\<lambda>(ret', a, s).
            verify (ret' = e_OK)
              (Ret (ret, set_entry i \<lparr>ee_dirty = False, ee_extent = b, ee_attr = a\<rparr> s)))))"

text \<open>The test that opens \<^verbatim>\<open>get\<close>, \<^verbatim>\<open>getattr\<close> and \<^verbatim>\<open>rename\<close>: fetch the extent unless it is cached.\<close>

definition ensure_cached :: "u64 \<Rightarrow> ext_sys \<Rightarrow> (u32 \<times> ext_sys) res" where
  "ensure_cached i s = (if mcount (local_extent s) i = 0 then get_helper i s else Ret (e_OK, s))"

abbreviation entry_of :: "ext_sys \<Rightarrow> u64 \<Rightarrow> extent_entry" where
  "entry_of s i \<equiv> mget entry_zero (local_extent s) i"

definition ec_get :: "u64 \<Rightarrow> ext_sys \<Rightarrow> (u32 \<times> string \<times> ext_sys) res" where
  "ec_get i s =
     bind_res (ensure_cached i s) (\<lambda>(ret, s).
       if ret = e_NOENT then Ret (ret, [], s)
       else (case time_null s of (t, s) \<Rightarrow>
               let e = entry_of s i;
                   s = set_entry i (e\<lparr>ee_attr := (ee_attr e)\<lparr>a_atime := t\<rparr>\<rparr>) s
               in Ret (e_OK, ee_extent (entry_of s i), s)))"

definition ec_getattr :: "u64 \<Rightarrow> ext_sys \<Rightarrow> (u32 \<times> attr \<times> ext_sys) res" where
  "ec_getattr i s =
     bind_res (ensure_cached i s) (\<lambda>(ret, s).
       if ret = e_NOENT then Ret (ret, attr_junk s, s)
       else verify (ret = e_OK) (Ret (e_OK, ee_attr (entry_of s i), s)))"

definition ec_rename :: "u64 \<Rightarrow> string \<Rightarrow> ext_sys \<Rightarrow> (u32 \<times> ext_sys) res" where
  "ec_rename i name s =
     bind_res (ensure_cached i s) (\<lambda>(ret, s).
       if ret = e_NOENT then Ret (ret, s)
       else verify (ret = e_OK)
         (let e = entry_of s i
          in Ret (e_OK, set_entry i (e\<lparr>ee_attr := (ee_attr e)\<lparr>a_name := name\<rparr>\<rparr>) s)))"

definition ec_put :: "u64 \<Rightarrow> string \<Rightarrow> ext_sys \<Rightarrow> (u32 \<times> ext_sys) res" where
  "ec_put i b s =
     (case time_null s of (t, s) \<Rightarrow>
        let a = \<lparr>a_atime = ex_junk s, a_mtime = t, a_ctime = t, a_size = of_nat (length b),
                 a_version = ex_junk s, a_name = []\<rparr>;
            a = (if mcount (local_extent s) i = 0 then a\<lparr>a_version := 0\<rparr>
                 else a\<lparr>a_version := a_version (ee_attr (entry_of s i)), a_name := a_name (ee_attr (entry_of s i))\<rparr>)
        in Ret (e_OK, set_entry i \<lparr>ee_dirty = True, ee_extent = b, ee_attr = a\<rparr> s))"

definition ec_remove :: "u64 \<Rightarrow> ext_sys \<Rightarrow> (u32 \<times> ext_sys) res" where
  "ec_remove i s =
     verify (mcount (local_extent s) i = 1) (Ret (e_OK, s\<lparr>local_extent := merase i (local_extent s)\<rparr>))"

definition ec_flush :: "u64 \<Rightarrow> ext_sys \<Rightarrow> (u32 \<times> ext_sys) res" where
  "ec_flush i s =
     (let r = e_OK in
      if mcount (local_extent s) i = 0
      then bind_res (call_remove r i s) (\<lambda>(ret, r, s). verify (ret = e_OK) (Ret (r, s)))
      else bind_res
             (if ee_dirty (entry_of s i)
              then bind_res (call_put i (ee_attr (entry_of s i)) (ee_extent (entry_of s i)) s)
                     (\<lambda>(ret, r, s). verify (ret = e_OK) (Ret (r, s)))
              else Ret (r, s))
             (\<lambda>(r, s). verify (mcount (local_extent s) i = 1)
                         (Ret (r, s\<lparr>local_extent := merase i (local_extent s)\<rparr>))))"

definition ec_exists :: "u64 \<Rightarrow> ext_sys \<Rightarrow> bool" where
  "ec_exists i s \<longleftrightarrow> mcount (local_extent s) i > 0"

text \<open>\<^verbatim>\<open>local_extent_[eid]\<close> creates an entry for an extent that is not cached.\<close>

definition touch :: "u64 \<Rightarrow> ext_sys \<Rightarrow> ext_sys" where
  "touch i s = (if mcount (local_extent s) i = 0 then set_entry i entry_zero s else s)"

definition ec_is_dirty :: "u64 \<Rightarrow> ext_sys \<Rightarrow> bool \<times> ext_sys" where
  "ec_is_dirty i s = (ee_dirty (entry_of s i), touch i s)"

definition ec_compare_version :: "u64 \<Rightarrow> ext_sys \<Rightarrow> (bool \<times> ext_sys) res" where
  "ec_compare_version i s =
     bind_res (call_getattr i s) (\<lambda>(ret, a, s).
       let s = touch i s; v = a_version (ee_attr (entry_of s i)) in
       if ret = e_NOENT then Ret (v = 0, s)
       else verify (ret = e_OK) (verify (a_version a \<ge> v) (Ret (a_version a = v, s))))"

definition ec_remote_exists :: "u64 \<Rightarrow> ext_sys \<Rightarrow> (bool \<times> ext_sys) res" where
  "ec_remote_exists i s = bind_res (ec_get i s) (\<lambda>(ret, b, s). Ret (ret \<noteq> e_NOENT, s))"

section \<open>The adaptor for the lock client\<close>

definition eu_dorelease :: "u64 \<Rightarrow> ext_sys \<Rightarrow> ext_sys res" where
  "eu_dorelease lid s = bind_res (ec_flush lid s) (\<lambda>(r, s). Ret s)"

definition eu_exists :: "u64 \<Rightarrow> ext_sys \<Rightarrow> bool" where
  "eu_exists lid s = ec_exists lid s"

definition eu_isdirty :: "u64 \<Rightarrow> ext_sys \<Rightarrow> bool \<times> ext_sys" where
  "eu_isdirty lid s = ec_is_dirty lid s"

definition eu_remove :: "u64 \<Rightarrow> ext_sys \<Rightarrow> ext_sys res" where
  "eu_remove lid s = bind_res (ec_remove lid s) (\<lambda>(r, s). Ret s)"

definition eu_compareversion :: "u64 \<Rightarrow> ext_sys \<Rightarrow> (bool \<times> ext_sys) res" where
  "eu_compareversion lid s = ec_compare_version lid s"

definition eu_remote_exists :: "u64 \<Rightarrow> ext_sys \<Rightarrow> (bool \<times> ext_sys) res" where
  "eu_remote_exists lid s = ec_remote_exists lid s"

text \<open>
  The loop of \<^verbatim>\<open>make_copy\<close> that looks for a free name: \<open>name\<close>, \<open>name.1\<close>, \<open>name.2\<close>, and so on. The fuel
  is one more than the size of the directory, which is always enough (\<open>fresh_name_total\<close> below).
\<close>

fun fresh_name :: "nat \<Rightarrow> string \<Rightarrow> nat \<Rightarrow> string \<Rightarrow> yfs_dir \<Rightarrow> string res" where
  "fresh_name 0 base i name d = (if dir_exists name d then Stuck else Ret name)"
| "fresh_name (Suc n) base i name d =
     (if dir_exists name d then fresh_name n base (i + 1) (base @ ''.'' @ show_nat i) d else Ret name)"

definition eu_make_copy :: "u64 \<Rightarrow> u64 \<Rightarrow> u64 \<Rightarrow> ext_sys \<Rightarrow> ext_sys res" where
  "eu_make_copy lid new_lid tmp_lid s =
     bind_res (ec_get lid s) (\<lambda>(ret, buf_cpy, s). verify (ret = 0)
     (bind_res (ec_getattr lid s) (\<lambda>(ret, a, s). verify (ret = 0)
     (bind_res (ec_put new_lid buf_cpy s) (\<lambda>(ret, s). verify (ret = 0)
     (bind_res (ec_get tmp_lid s) (\<lambda>(ret, tmp_dir_str, s). verify (ret = 0)
     (bind_res (yfs_dir_new tmp_dir_str) (\<lambda>tmp_dir.
      bind_res (fresh_name (Suc (length tmp_dir)) (a_name a) 1 (a_name a) tmp_dir) (\<lambda>name.
      let tmp_dir = dir_add \<lparr>de_name = name, de_inum = new_lid\<rparr> tmp_dir in
      bind_res (ec_rename new_lid name s) (\<lambda>(ret, s). verify (ret = 0)
     (bind_res (ec_put tmp_lid (dir_to_string tmp_dir) s) (\<lambda>(ret, s). verify (ret = 0) (Ret s))))))))))))))"

section \<open>The uncached stubs\<close>

definition xc_get :: "u64 \<Rightarrow> ext_sys \<Rightarrow> (u32 \<times> string \<times> ext_sys) res" where
  "xc_get i s = call_get i s"

definition xc_getattr :: "u64 \<Rightarrow> ext_sys \<Rightarrow> (u32 \<times> attr \<times> ext_sys) res" where
  "xc_getattr i s = call_getattr i s"

definition xc_remove :: "u64 \<Rightarrow> ext_sys \<Rightarrow> (u32 \<times> u32 \<times> ext_sys) res" where
  "xc_remove i s = call_remove (ex_junk s) i s"

section \<open>What a reader sees through the cache\<close>

definition view :: "ext_sys \<Rightarrow> u64 \<Rightarrow> string option" where
  "view s i = (case mfind (local_extent s) i of Some e \<Rightarrow> Some (ee_extent e) | None \<Rightarrow> es_look (ex_srv s) i)"

text \<open>
  The states of a client that works alone: the server answers, each cached copy has the version
  the server has, and an unmodified copy its content. \<open>A\<close> is the set of extents for which the latter
  is known: all of them, except while a conflict is being resolved.
\<close>

definition synced :: "u64 set \<Rightarrow> ext_sys \<Rightarrow> bool" where
  "synced A s \<longleftrightarrow> (\<forall>i \<in> A. \<forall>e. mfind (local_extent s) i = Some e \<longrightarrow>
     (\<forall>f. mfind (es_table (ex_srv s)) i = Some f \<longrightarrow> a_version (ee_attr e) = a_version (fi_a f)) \<and>
     (\<not> ee_dirty e \<longrightarrow> es_look (ex_srv s) i = Some (ee_extent e)) \<and>
     a_size (ee_attr e) = of_nat (length (ee_extent e)))"

text \<open>The recorded size of each extent on the server is that of its data.\<close>

definition sized :: "extent_server \<Rightarrow> bool" where
  "sized s \<longleftrightarrow> (\<forall>i f. mfind (es_table s) i = Some f \<longrightarrow> a_size (fi_a f) = of_nat (length (fi_buf f)))"

definition cache_ok :: "u64 set \<Rightarrow> ext_sys \<Rightarrow> bool" where
  "cache_ok A s \<longleftrightarrow> ex_up s \<and> mwf (local_extent s) \<and> mwf (es_table (ex_srv s)) \<and> sized (ex_srv s) \<and> synced A s"

lemma mcount_0: "mcount m k = 0 \<longleftrightarrow> mfind m k = None"
  by (simp add: mcount_def split: option.splits)

lemma mcount_1: "mcount m k = Suc 0 \<longleftrightarrow> (\<exists>v. mfind m k = Some v)"
  by (auto simp: mcount_def split: option.splits)

lemma mget_found: "mfind m k = Some v \<Longrightarrow> mget d m k = v"
  by (simp add: mget_def)

definition grows :: "ext_sys \<Rightarrow> ext_sys \<Rightarrow> bool" where
  "grows s s' \<longleftrightarrow> ex_srv s' = ex_srv s \<and>
     (\<forall>j. mfind (local_extent s') j = None \<longrightarrow> mfind (local_extent s) j = None)"

lemma grows_trans: "grows s t \<Longrightarrow> grows t u \<Longrightarrow> grows s u"
  by (simp add: grows_def)

lemmas ec_rpc_defs = call_get_def call_getattr_def call_put_def call_remove_def ec_call_def time_null_def
  es_get_def es_getattr_def es_put_def es_remove_def

lemma set_entry_sel [simp]:
  "local_extent (set_entry i e s) = mput i e (local_extent s)" "ex_srv (set_entry i e s) = ex_srv s"
  "ex_up (set_entry i e s) = ex_up s" "ex_junk (set_entry i e s) = ex_junk s"
  "ex_clock (set_entry i e s) = ex_clock s" "ex_tick (set_entry i e s) = ex_tick s"
  by (simp_all add: set_entry_def)

text \<open>Making sure that an extent is cached changes nothing a reader sees.\<close>

lemma ensure_absent:
  assumes "cache_ok A s" and "view s i = None"
  shows "ensure_cached i s = Ret (e_NOENT, s\<lparr>ex_tick := Suc (ex_tick s)\<rparr>)"
  using assms
  by (auto simp: ensure_cached_def mcount_0 get_helper_def ec_rpc_defs view_def es_look_def cache_ok_def e_status_defs
      split: option.splits)

lemma ensure_present:
  assumes ok: "cache_ok A s" and v: "view s i = Some b"
  obtains e s' where "ensure_cached i s = Ret (e_OK, s')" and "mfind (local_extent s') i = Some e"
    and "ee_extent e = b" and "cache_ok A s'" and "view s' = view s" and "ex_srv s' = ex_srv s"
    and "\<And>j. j \<noteq> i \<Longrightarrow> mfind (local_extent s') j = mfind (local_extent s) j"
    and "\<And>e0. mfind (local_extent s) i = Some e0 \<Longrightarrow> e = e0" and "grows s s'"
proof (cases "mfind (local_extent s) i")
  case (Some e)
  show thesis
    by (rule that [of s e]) (use Some ok v in \<open>auto simp: ensure_cached_def mcount_0 view_def grows_def\<close>)
next
  case None
  obtain f where f: "mfind (es_table (ex_srv s)) i = Some f" "fi_buf f = b"
    using v None by (auto simp: view_def es_look_def)
  let ?e = "\<lparr>ee_dirty = False, ee_extent = b, ee_attr = fi_a f\<rparr>"
  let ?s = "set_entry i ?e (s\<lparr>ex_tick := Suc (ex_tick s)\<rparr>)"
  show thesis
  proof (rule that [of ?s ?e])
    show "ensure_cached i s = Ret (e_OK, ?s)"
      using None f ok
      by (simp add: ensure_cached_def mcount_0 get_helper_def ec_rpc_defs cache_ok_def e_status_defs verify_def set_entry_def)
    show "cache_ok A ?s" using ok f by (auto simp: cache_ok_def sized_def synced_def es_look_def split: if_splits)
    show "view ?s = view s" using f None v by (auto simp: view_def fun_eq_iff split: option.splits)
    show "grows s ?s" by (auto simp: grows_def split: if_splits)
  qed (use None in auto)
qed

lemma ec_get_absent:
  assumes "cache_ok A s" and "view s i = None"
  shows "ec_get i s = Ret (e_NOENT, [], s\<lparr>ex_tick := Suc (ex_tick s)\<rparr>)"
  by (simp add: ec_get_def ensure_absent [OF assms])

lemma ec_get_present:
  assumes ok: "cache_ok A s" and v: "view s i = Some b"
  obtains e s' where "ec_get i s = Ret (e_OK, b, s')" and "mfind (local_extent s') i = Some e"
    and "ee_extent e = b" and "cache_ok A s'" and "view s' = view s" and "ex_srv s' = ex_srv s"
    and "\<And>j. j \<noteq> i \<Longrightarrow> mfind (local_extent s') j = mfind (local_extent s) j" and "grows s s'"
proof -
  obtain e t where t: "ensure_cached i s = Ret (e_OK, t)" "mfind (local_extent t) i = Some e" "ee_extent e = b"
    "cache_ok A t" "view t = view s" "ex_srv t = ex_srv s"
    "\<And>j. j \<noteq> i \<Longrightarrow> mfind (local_extent t) j = mfind (local_extent s) j" "grows s t"
    using ensure_present [OF ok v] by metis
  let ?e = "e\<lparr>ee_attr := (ee_attr e)\<lparr>a_atime := ex_clock t (ex_tick t)\<rparr>\<rparr>"
  let ?s = "set_entry i ?e (t\<lparr>ex_tick := Suc (ex_tick t)\<rparr>)"
  show thesis
  proof (rule that [of ?s ?e])
    show "ec_get i s = Ret (e_OK, b, ?s)"
      using t(1-3) by (simp add: ec_get_def time_null_def e_status_defs mget_found Let_def)
    show "cache_ok A ?s" using t(2,4) by (auto simp: cache_ok_def sized_def synced_def split: if_splits)
    have "view ?s = view t" using t(2) by (auto simp: view_def fun_eq_iff split: option.splits)
    then show "view ?s = view s" using t(5) by simp
    show "grows s ?s" using t(8) by (auto simp: grows_def split: if_splits)
  qed (use t in auto)
qed

text \<open>
  The way \<^verbatim>\<open>yfs_client\<close> uses the cache: an extent is read before it is written, and a removed one
  is forgotten locally and then flushed with its lock.
\<close>

definition ec_write :: "u64 \<Rightarrow> string \<Rightarrow> ext_sys \<Rightarrow> ext_sys res" where
  "ec_write i b s = bind_res (ec_get i s) (\<lambda>(ret, old, s). bind_res (ec_put i b s) (\<lambda>(ret, s). Ret s))"

definition ec_drop :: "u64 \<Rightarrow> ext_sys \<Rightarrow> ext_sys res" where
  "ec_drop i s =
     bind_res (ec_get i s) (\<lambda>(ret, old, s).
     bind_res (if ret = e_OK then ec_remove i s else Ret (ret, s)) (\<lambda>(ret, s).
     bind_res (ec_flush i s) (\<lambda>(r, s). Ret s)))"

lemma ec_put_ok:
  assumes "cache_ok A s" and "mfind (local_extent s) i \<noteq> None \<or> mfind (es_table (ex_srv s)) i = None"
  shows "\<exists>s'. ec_put i b s = Ret (e_OK, s') \<and> cache_ok A s' \<and> view s' = (view s)(i \<mapsto> b) \<and>
     (\<exists>e. mfind (local_extent s') i = Some e \<and> ee_extent e = b \<and> ee_dirty e) \<and> grows s s' \<and>
     (\<forall>j. j \<noteq> i \<longrightarrow> mfind (local_extent s') j = mfind (local_extent s) j)"
  using assms
  by (auto simp: grows_def ec_put_def time_null_def cache_ok_def sized_def synced_def view_def fun_eq_iff mcount_0 mget_def Let_def
      split: if_splits option.splits)

lemma view_None: "view s i = None \<longleftrightarrow> mfind (local_extent s) i = None \<and> mfind (es_table (ex_srv s)) i = None"
  by (auto simp: view_def es_look_def split: option.splits)

lemma cache_ok_tick [simp]: "cache_ok A (s\<lparr>ex_tick := n\<rparr>) = cache_ok A s"
  by (simp add: cache_ok_def sized_def synced_def)

lemma view_tick [simp]: "view (s\<lparr>ex_tick := n\<rparr>) = view s"
  by (simp add: view_def fun_eq_iff split: option.splits)

lemma ec_write_ok:
  assumes "cache_ok A s"
  shows "\<exists>s'. ec_write i b s = Ret s' \<and> cache_ok A s' \<and> view s' = (view s)(i \<mapsto> b)"
proof (cases "view s i")
  case None
  let ?s = "s\<lparr>ex_tick := Suc (ex_tick s)\<rparr>"
  obtain s' where "ec_put i b ?s = Ret (e_OK, s')" "cache_ok A s'" "view s' = (view s)(i \<mapsto> b)"
    using ec_put_ok [of A ?s i b] assms None by (auto simp: view_None)
  then show ?thesis using ec_get_absent [OF assms None] by (simp add: ec_write_def)
next
  case (Some old)
  obtain e t where t: "ec_get i s = Ret (e_OK, old, t)" "mfind (local_extent t) i = Some e" "cache_ok A t" "view t = view s"
    using ec_get_present [OF assms Some] by metis
  then show ?thesis using ec_put_ok [of A t i b] by (auto simp: ec_write_def)
qed

lemma ec_flush_absent:
  assumes "cache_ok A s" and "mfind (local_extent s) i = None"
  shows "\<exists>r s'. ec_flush i s = Ret (r, s') \<and> cache_ok A s' \<and> view s' = (view s)(i := None) \<and> local_extent s' = local_extent s"
  using assms
  by (auto simp: ec_flush_def mcount_0 ec_rpc_defs cache_ok_def sized_def synced_def view_def es_look_def verify_def fun_eq_iff
      split: option.splits if_splits)

lemma dorelease_absent:
  assumes "cache_ok A s" and "mfind (local_extent s) i = None"
  shows "\<exists>s'. eu_dorelease i s = Ret s' \<and> cache_ok A s' \<and> es_look (ex_srv s') i = None \<and> view s' = (view s)(i := None)"
proof -
  obtain r s' where f: "ec_flush i s = Ret (r, s')" "cache_ok A s'" "view s' = (view s)(i := None)" "local_extent s' = local_extent s"
    using ec_flush_absent [OF assms] by blast
  then have "es_look (ex_srv s') i = None" using assms(2) by (metis (no_types, lifting) fun_upd_same option.case(1) view_def)
  then show ?thesis using f by (simp add: eu_dorelease_def)
qed

lemma ec_drop_ok:
  assumes "cache_ok A s"
  shows "\<exists>s'. ec_drop i s = Ret s' \<and> cache_ok A s' \<and> view s' = (view s)(i := None)"
proof (cases "view s i")
  case None
  let ?s = "s\<lparr>ex_tick := Suc (ex_tick s)\<rparr>"
  show ?thesis
    using ec_flush_absent [of A ?s i] assms None ec_get_absent [OF assms None]
    by (auto simp: ec_drop_def view_None e_status_defs)
next
  case (Some old)
  obtain e t where t: "ec_get i s = Ret (e_OK, old, t)" "mfind (local_extent t) i = Some e" "cache_ok A t" "view t = view s"
    using ec_get_present [OF assms Some] by metis
  let ?u = "t\<lparr>local_extent := merase i (local_extent t)\<rparr>"
  have u: "cache_ok A ?u" "mfind (local_extent ?u) i = None"
    using t(3) by (auto simp: cache_ok_def sized_def synced_def split: if_splits)
  have "view ?u j = view t j" if "j \<noteq> i" for j
    using t(3) that by (simp add: view_def cache_ok_def split: option.splits)
  moreover obtain r s' where "ec_flush i ?u = Ret (r, s')" "cache_ok A s'" "view s' = (view ?u)(i := None)"
    using ec_flush_absent [OF u] by blast
  ultimately show ?thesis using t
    by (auto simp: ec_drop_def ec_remove_def mcount_1 verify_def fun_eq_iff)
qed

interpretation cache: extent_store view ec_write ec_drop "cache_ok UNIV"
  by unfold_locales (rule ec_write_ok, assumption, rule ec_drop_ok, assumption)

section \<open>Finding a free name\<close>

lemma show_nat_inj: "show_nat m = show_nat n \<Longrightarrow> m = n"
  by (metis digits_val_show)

lemma fresh_name_Ret: "fresh_name n base i name d = Ret x \<Longrightarrow> \<not> dir_exists x d"
  by (induction n base i name d rule: fresh_name.induct) (auto split: if_splits)

lemma fresh_name_no_fault: "fresh_name n base i name d \<noteq> Fault x"
  by (induction n base i name d rule: fresh_name.induct) auto

lemma fresh_name_Stuck:
  "fresh_name n base i name d = Stuck \<Longrightarrow> j < n \<Longrightarrow> dir_exists (base @ ''.'' @ show_nat (i + j)) d"
proof (induction n base i name d arbitrary: j rule: fresh_name.induct)
  case (2 n base i name d)
  then have st: "fresh_name n base (i + 1) (base @ ''.'' @ show_nat i) d = Stuck" and ex: "dir_exists name d"
    by (auto split: if_splits)
  show ?case
  proof (cases j)
    case 0
    then show ?thesis using st by (cases n) (auto split: if_splits)
  next
    case (Suc k)
    then show ?thesis using 2(1) [OF ex st, of k] 2(3) by simp
  qed
qed simp

lemma dir_exists_iff: "dir_exists n d \<longleftrightarrow> n \<in> set (mkeys d)"
  using mfind_None_iff [of d n] by (auto simp: dir_exists_def mcount_def split: option.splits)

lemma fresh_name_total: "\<exists>x. fresh_name (Suc (length d)) base i name d = Ret x \<and> \<not> dir_exists x d"
proof (cases "fresh_name (Suc (length d)) base i name d")
  case Stuck
  let ?f = "\<lambda>j. base @ ''.'' @ show_nat (i + j)"
  have "inj_on ?f {..<Suc (length d)}" by (auto simp: inj_on_def dest: show_nat_inj)
  then have "card (?f ` {..<Suc (length d)}) = Suc (length d)" by (simp add: card_image)
  moreover have "?f ` {..<Suc (length d)} \<subseteq> set (mkeys d)"
    using fresh_name_Stuck [OF Stuck] by (auto simp: dir_exists_iff)
  ultimately have "Suc (length d) \<le> card (set (mkeys d))" by (metis card_mono finite_set)
  moreover have "card (set (mkeys d)) \<le> length d" using card_length [of "mkeys d"] by (simp add: mkeys_def)
  ultimately show ?thesis by simp
qed (simp_all add: fresh_name_no_fault fresh_name_Ret del: fresh_name.simps)

section \<open>Keeping a private copy\<close>

lemma ec_getattr_present:
  assumes "cache_ok A s" and "view s i = Some b"
  shows "\<exists>a s'. ec_getattr i s = Ret (e_OK, a, s') \<and> cache_ok A s' \<and> view s' = view s \<and> grows s s'"
  by (rule ensure_present [OF assms]) (simp add: ec_getattr_def e_status_defs verify_def)

lemma ec_rename_cached:
  assumes "cache_ok A s" and "mfind (local_extent s) i = Some e"
  shows "\<exists>s'. ec_rename i n s = Ret (e_OK, s') \<and> cache_ok A s' \<and> view s' = view s \<and>
    (\<forall>j. mfind (local_extent s') j = None \<longleftrightarrow> mfind (local_extent s) j = None) \<and> grows s s'"
proof -
  let ?s = "set_entry i (e\<lparr>ee_attr := (ee_attr e)\<lparr>a_name := n\<rparr>\<rparr>) s"
  have "ec_rename i n s = Ret (e_OK, ?s)"
    using assms(2) by (simp add: ec_rename_def ensure_cached_def mcount_0 e_status_defs verify_def mget_found Let_def)
  moreover have "cache_ok A ?s" using assms by (auto simp: cache_ok_def sized_def synced_def split: if_splits)
  moreover have "view ?s = view s" using assms(2) by (auto simp: view_def fun_eq_iff split: option.splits)
  ultimately show ?thesis using assms(2) by (auto simp: grows_def)
qed

lemma make_copy_spec:
  assumes ok: "cache_ok A s" and lid: "view s lid = Some b" and new: "view s new_lid = None"
    and tmp: "view s tmp_lid = Some t" and d: "yfs_dir_new t = Ret d"
  shows "\<exists>s' name. eu_make_copy lid new_lid tmp_lid s = Ret s' \<and> cache_ok A s' \<and> \<not> dir_exists name d \<and>
    view s' = (view s)(new_lid \<mapsto> b, tmp_lid \<mapsto> dir_to_string (mput name new_lid d)) \<and> grows s s' \<and>
    mfind (local_extent s') lid \<noteq> None"
proof -
  have ne: "new_lid \<noteq> tmp_lid" using new tmp by auto
  obtain s1 where s1: "ec_get lid s = Ret (e_OK, b, s1)" "cache_ok A s1" "view s1 = view s" "grows s s1"
      "mfind (local_extent s1) lid \<noteq> None"
    using ec_get_present [OF ok lid] by (metis option.distinct(1))
  obtain a s2 where s2: "ec_getattr lid s1 = Ret (e_OK, a, s2)" "cache_ok A s2" "view s2 = view s" "grows s1 s2"
    using ec_getattr_present [OF s1(2), of lid b] s1(3) lid by auto
  have "mfind (es_table (ex_srv s2)) new_lid = None" using new s2(3) view_None by metis
  then obtain s3 where s3: "ec_put new_lid b s2 = Ret (e_OK, s3)" "cache_ok A s3" "view s3 = (view s)(new_lid \<mapsto> b)"
      "mfind (local_extent s3) new_lid \<noteq> None" "grows s2 s3"
    using ec_put_ok [OF s2(2), of new_lid b] s2(3) by auto
  have "view s3 tmp_lid = Some t" using s3(3) tmp ne by simp
  then obtain s4 where s4: "ec_get tmp_lid s3 = Ret (e_OK, t, s4)" "cache_ok A s4" "view s4 = view s3"
      "mfind (local_extent s4) tmp_lid \<noteq> None" "mfind (local_extent s4) new_lid \<noteq> None" "grows s3 s4"
    using ec_get_present [OF s3(2), of tmp_lid t] s3(4) ne by (metis option.distinct(1))
  obtain name where nm: "fresh_name (Suc (length d)) (a_name a) 1 (a_name a) d = Ret name" "\<not> dir_exists name d"
    using fresh_name_total [of d "a_name a" 1 "a_name a"] by blast
  obtain s5 where s5: "ec_rename new_lid name s4 = Ret (e_OK, s5)" "cache_ok A s5" "view s5 = view s4"
      "mfind (local_extent s5) tmp_lid \<noteq> None" "grows s4 s5"
    using ec_rename_cached [OF s4(2), of new_lid] s4(4,5) by (metis not_None_eq)
  obtain s6 where s6: "ec_put tmp_lid (dir_to_string (mput name new_lid d)) s5 = Ret (e_OK, s6)" "cache_ok A s6"
      "view s6 = (view s5)(tmp_lid \<mapsto> dir_to_string (mput name new_lid d))" "grows s5 s6"
    using ec_put_ok [OF s5(2), of tmp_lid] s5(4) by blast
  have "grows s1 s6" using s2(4) s3(5) s4(6) s5(5) s6(4) grows_trans by blast
  moreover have "grows s s6" using calculation s1(4) grows_trans by blast
  moreover have "mfind (local_extent s6) lid \<noteq> None" using calculation(1) s1(5) by (auto simp: grows_def)
  ultimately show ?thesis
    using s6(1-3) s1(1,5) s2(1) s3(1,3) s4(1,3) s5(1,3) nm d
    by (intro exI [of _ s6] exI [of _ name])
      (simp add: eu_make_copy_def verify_def e_status_defs dir_add_def del: fresh_name.simps)
qed

section \<open>One extent at a time\<close>

lemma flush_cached:
  assumes "cache_ok UNIV s" and "mfind (local_extent s) i = Some e"
  shows "\<exists>r s'. ec_flush i s = Ret (r, s') \<and> cache_ok UNIV s' \<and> view s' = view s \<and>
    mfind (local_extent s') i = None \<and> es_look (ex_srv s') i = (if ee_dirty e then Some (ee_extent e) else es_look (ex_srv s) i) \<and>
    (\<forall>j. j \<noteq> i \<longrightarrow> mfind (local_extent s') j = mfind (local_extent s) j) \<and>
    (\<forall>j. j \<noteq> i \<longrightarrow> mfind (es_table (ex_srv s')) j = mfind (es_table (ex_srv s)) j)"
proof -
  have up: "ex_up s" and wf: "mwf (local_extent s)" "mwf (es_table (ex_srv s))" and sz: "sized (ex_srv s)" and sy: "synced UNIV s"
    using assms(1) by (auto simp: cache_ok_def)
  show ?thesis
  proof (cases "ee_dirty e")
    case False
    let ?s = "s\<lparr>local_extent := merase i (local_extent s)\<rparr>"
    have "ec_flush i s = Ret (e_OK, ?s)"
      using False assms(2) by (simp add: ec_flush_def mcount_0 mcount_1 mget_found verify_def)
    moreover have "synced UNIV ?s" using sy wf by (simp add: synced_def)
    moreover have "view ?s j = view s j" for j
      using sy assms(2) False wf(1) by (auto simp: view_def synced_def split: option.splits)
    ultimately show ?thesis using up wf sz False by (auto simp: cache_ok_def)
  next
    case True
    let ?v = "case mfind (es_table (ex_srv s)) i of None \<Rightarrow> 1 | Some f \<Rightarrow> a_version (ee_attr e) + 1"
    let ?f = "\<lparr>fi_buf = ee_extent e, fi_a = \<lparr>a_atime = ex_junk s, a_mtime = ex_clock s (ex_tick s),
       a_ctime = ex_clock s (ex_tick s), a_size = of_nat (length (ee_extent e)), a_version = ?v, a_name = a_name (ee_attr e)\<rparr>\<rparr>"
    let ?s = "s\<lparr>ex_tick := Suc (ex_tick s), ex_srv := (ex_srv s)\<lparr>es_table := mput i ?f (es_table (ex_srv s))\<rparr>,
       local_extent := merase i (local_extent s)\<rparr>"
    have ver: "\<And>f. mfind (es_table (ex_srv s)) i = Some f \<Longrightarrow> a_version (fi_a f) = a_version (ee_attr e)"
      using sy assms(2) by (simp add: synced_def)
    have fl: "ec_flush i s = Ret (e_OK, ?s)"
      using True assms(2) up ver
      by (auto simp: ec_flush_def mcount_0 mcount_1 mget_found verify_def ec_rpc_defs Let_def split: option.splits)
    have look: "es_look (ex_srv ?s) j = (if j = i then Some (ee_extent e) else es_look (ex_srv s) j)" for j
      by (simp add: es_look_def)
    have "synced UNIV ?s" using sy wf look by (auto simp: synced_def split: if_splits)
    moreover have "view ?s j = view s j" for j
      using look [of j] assms(2) wf(1) by (auto simp: view_def split: option.splits)
    moreover have "sized (ex_srv ?s)" using sz by (auto simp: sized_def split: if_splits)
    ultimately show ?thesis using fl up wf True look by (auto simp: cache_ok_def)
  qed
qed

text \<open>
  A client that has an extent cached, or knows that it does not exist, may give up its lock: nothing changes for
  readers, and the cache and the server change at this extent only.
\<close>

lemma dorelease_settled:
  assumes "cache_ok UNIV s" and "mfind (local_extent s) i \<noteq> None \<or> view s i = None"
  shows "\<exists>s'. eu_dorelease i s = Ret s' \<and> cache_ok UNIV s' \<and> view s' = view s \<and> mfind (local_extent s') i = None \<and>
    (\<forall>j. j \<noteq> i \<longrightarrow> mfind (local_extent s') j = mfind (local_extent s) j) \<and>
    (\<forall>j. j \<noteq> i \<longrightarrow> mfind (es_table (ex_srv s')) j = mfind (es_table (ex_srv s)) j)"
proof (cases "mfind (local_extent s) i")
  case None
  then have v: "view s i = None" using assms(2) by simp
  have "\<exists>r s'. ec_flush i s = Ret (r, s') \<and> cache_ok UNIV s' \<and> view s' = (view s)(i := None) \<and> local_extent s' = local_extent s \<and>
      (\<forall>j. j \<noteq> i \<longrightarrow> mfind (es_table (ex_srv s')) j = mfind (es_table (ex_srv s)) j)"
    using assms(1) None
    by (auto simp: ec_flush_def mcount_0 ec_rpc_defs cache_ok_def sized_def synced_def view_def es_look_def verify_def fun_eq_iff
        split: option.splits if_splits)
  then show ?thesis using None v by (auto simp: eu_dorelease_def fun_eq_iff)
next
  case (Some e)
  then show ?thesis using flush_cached [OF assms(1) Some] by (force simp: eu_dorelease_def)
qed

text \<open>Reading and writing through the cache leave the server alone and change the cache at one extent only.\<close>

definition only_at :: "u64 \<Rightarrow> ext_sys \<Rightarrow> ext_sys \<Rightarrow> bool" where
  "only_at i s s' \<longleftrightarrow> cache_ok UNIV s' \<and> ex_srv s' = ex_srv s \<and>
     (\<forall>j. j \<noteq> i \<longrightarrow> mfind (local_extent s') j = mfind (local_extent s) j)"

lemma ec_get_at:
  assumes "cache_ok UNIV s"
  shows "\<exists>ret b s'. ec_get i s = Ret (ret, b, s') \<and> only_at i s s' \<and> view s' = view s \<and>
    (case view s i of None \<Rightarrow> ret = e_NOENT | Some v \<Rightarrow> ret = e_OK \<and> b = v \<and> mfind (local_extent s') i \<noteq> None)"
proof (cases "view s i")
  case None
  then show ?thesis using ec_get_absent [OF assms None] assms by (simp add: only_at_def)
next
  case (Some b)
  show ?thesis by (rule ec_get_present [OF assms Some]) (use Some in \<open>auto simp: only_at_def\<close>)
qed

lemma ec_getattr_at:
  assumes "cache_ok UNIV s"
  shows "\<exists>ret a s'. ec_getattr i s = Ret (ret, a, s') \<and> only_at i s s' \<and> view s' = view s \<and>
    (case view s i of None \<Rightarrow> ret = e_NOENT
     | Some v \<Rightarrow> ret = e_OK \<and> a_size a = of_nat (length v) \<and> mfind (local_extent s') i \<noteq> None)"
proof (cases "view s i")
  case None
  then show ?thesis using ensure_absent [OF assms None] assms by (simp add: ec_getattr_def only_at_def)
next
  case (Some b)
  show ?thesis
  proof (rule ensure_present [OF assms Some])
    fix e s'
    assume e: "ensure_cached i s = Ret (e_OK, s')" "mfind (local_extent s') i = Some e" "ee_extent e = b" "cache_ok UNIV s'"
      "view s' = view s" "ex_srv s' = ex_srv s" "\<And>j. j \<noteq> i \<Longrightarrow> mfind (local_extent s') j = mfind (local_extent s) j"
    have "a_size (ee_attr e) = of_nat (length b)" using e(2-4) by (auto simp: cache_ok_def synced_def)
    moreover have "ec_getattr i s = Ret (e_OK, ee_attr e, s')"
      using e(1,2) by (simp add: ec_getattr_def e_status_defs verify_def mget_found)
    ultimately show ?thesis using e Some by (auto simp: only_at_def)
  qed
qed

lemma ec_write_at:
  assumes "cache_ok UNIV s"
  shows "\<exists>s'. ec_write i b s = Ret s' \<and> only_at i s s' \<and> view s' = (view s)(i \<mapsto> b) \<and> mfind (local_extent s') i \<noteq> None"
proof -
  obtain ret old t where t: "ec_get i s = Ret (ret, old, t)" "only_at i s t" "view t = view s"
      "view s i \<noteq> None \<Longrightarrow> mfind (local_extent t) i \<noteq> None"
    using ec_get_at [OF assms, of i] by (cases "view s i") auto
  have "mfind (local_extent t) i \<noteq> None \<or> mfind (es_table (ex_srv t)) i = None"
    using t(3,4) view_None [of t i] by auto
  then obtain s' where s': "ec_put i b t = Ret (e_OK, s')" "cache_ok UNIV s'" "view s' = (view t)(i \<mapsto> b)" "grows t s'"
      "\<forall>j. j \<noteq> i \<longrightarrow> mfind (local_extent s') j = mfind (local_extent t) j" "mfind (local_extent s') i \<noteq> None"
    using ec_put_ok [of UNIV t i b] t(2) by (auto simp: only_at_def)
  then have "only_at i s s'" using t(2) by (auto simp: only_at_def grows_def)
  then show ?thesis using t(1,3) s' by (auto simp: ec_write_def)
qed

section \<open>Properties of the cache\<close>

definition ext_new :: "(nat \<Rightarrow> u32) \<Rightarrow> u32 \<Rightarrow> ext_sys" where
  "ext_new clk junk = \<lparr>local_extent = [], ex_srv = extent_server_new, ex_up = True, ex_clock = clk, ex_tick = 0,
     ex_junk = junk\<rparr>"

lemma ext_new_ok: "cache_ok UNIV (ext_new clk junk)" "view (ext_new clk junk) = (\<lambda>_. None)"
  by (auto simp: cache_ok_def sized_def synced_def view_def es_look_def ext_new_def extent_server_new_def)


text \<open>
  Releasing a lock loses nothing that is cached: flushing a cached extent succeeds, takes it out of
  the cache, and leaves what readers see unchanged, so a modified extent is then on the server;
  the other cached extents stay as they are.
\<close>

theorem flush_writes_back:
  assumes "cache_ok UNIV s" and "mfind (local_extent s) i = Some e"
  shows "\<exists>r s'. ec_flush i s = Ret (r, s') \<and> cache_ok UNIV s' \<and> view s' = view s \<and>
    mfind (local_extent s') i = None \<and> es_look (ex_srv s') i = (if ee_dirty e then Some (ee_extent e) else es_look (ex_srv s) i) \<and>
    (\<forall>j. j \<noteq> i \<longrightarrow> mfind (local_extent s') j = mfind (local_extent s) j)"
  using flush_cached [OF assms] by blast

definition cache_example :: ext_sys where
  "cache_example = (ext_new (\<lambda>n. of_nat n) 9)\<lparr>local_extent := [(4, \<lparr>ee_dirty = True, ee_extent = ''new'', ee_attr = attr_zero\<lparr>a_size := 3, a_version := 3\<rparr>\<rparr>)],
     ex_srv := \<lparr>es_table = [(4, \<lparr>fi_buf = ''old'', fi_a = attr_zero\<lparr>a_size := 3, a_version := 3\<rparr>\<rparr>), (6, \<lparr>fi_buf = ''six'', fi_a = attr_zero\<lparr>a_size := 3, a_version := 1\<rparr>\<rparr>)]\<rparr>\<rparr>"

lemma cache_example_ok: "cache_ok UNIV cache_example"
  by (auto simp: cache_example_def cache_ok_def sized_def synced_def ext_new_def mfind_def)

theorem flush_writes_back_witness:
  "\<exists>r s'. ec_flush 4 cache_example = Ret (r, s') \<and> es_look (ex_srv s') 4 = Some ''new''"
proof -
  have "mfind (local_extent cache_example) 4 = Some \<lparr>ee_dirty = True, ee_extent = ''new'', ee_attr = attr_zero\<lparr>a_size := 3, a_version := 3\<rparr>\<rparr>"
    by (simp add: cache_example_def mfind_def)
  from flush_writes_back [OF cache_example_ok this] show ?thesis by auto
qed

text \<open>
  Reading through the cache returns what the cache or else the server holds, reports \<^verbatim>\<open>NOENT\<close> exactly
  when neither has the extent, and changes nothing that a reader sees; afterwards the extent is cached.
\<close>

theorem get_reads_view:
  assumes "cache_ok UNIV s"
  shows "\<exists>ret b s'. ec_get i s = Ret (ret, b, s') \<and> cache_ok UNIV s' \<and> view s' = view s \<and> ex_srv s' = ex_srv s \<and>
    (case view s i of None \<Rightarrow> ret = e_NOENT | Some c \<Rightarrow> ret = e_OK \<and> b = c \<and> ec_exists i s')"
proof (cases "view s i")
  case None
  then show ?thesis using ec_get_absent [OF assms None] assms by simp
next
  case (Some b)
  show ?thesis
    by (rule ec_get_present [OF assms Some]) (use Some in \<open>simp add: ec_exists_def mcount_def\<close>)
qed

theorem get_reads_view_witness:
  "\<exists>ret b s'. ec_get 6 cache_example = Ret (ret, b, s') \<and> b = ''six''"
proof -
  have "view cache_example 6 = Some ''six''" by (simp add: view_def cache_example_def es_look_def mfind_def)
  with get_reads_view [OF cache_example_ok, of 6] show ?thesis by auto
qed

text \<open>
  Releasing the lock of an extent that is not cached deletes the extent on the server. The flush
  takes \<open>not cached\<close> for \<open>removed by this client\<close>: a lock that is acquired and revoked without the
  extent having been read, or after a clean copy was dropped, destroys the file for everybody.
\<close>

theorem flush_uncached_deletes:
  assumes "cache_ok UNIV s" and "mfind (local_extent s) i = None"
  shows "\<exists>s'. eu_dorelease i s = Ret s' \<and> cache_ok UNIV s' \<and> es_look (ex_srv s') i = None \<and> view s' = (view s)(i := None)"
  by (rule dorelease_absent [OF assms])

theorem flush_uncached_deletes_witness:
  "view cache_example 6 = Some ''six'' \<and> (\<exists>s'. eu_dorelease 6 cache_example = Ret s' \<and> es_look (ex_srv s') 6 = None)"
proof -
  have "mfind (local_extent cache_example) 6 = None" by (simp add: cache_example_def mfind_def)
  from flush_uncached_deletes [OF cache_example_ok this] show ?thesis
    by (auto simp: view_def cache_example_def es_look_def mfind_def)
qed

text \<open>
  Writing an extent that is on the server without having read it brings the server down: the
  cached copy gets version 0, and the flush at the next revocation fails the server's version check.
\<close>

theorem blind_put_flush_aborts:
  assumes "ex_up s" and "mfind (local_extent s) i = None"
    and "mfind (es_table (ex_srv s)) i = Some f" and "a_version (fi_a f) \<noteq> 0"
  shows "bind_res (ec_put i b s) (\<lambda>(ret, s). ec_flush i s) = Fault Verify_failed"
  using assms
  by (auto simp: ec_put_def ec_flush_def mcount_0 ec_rpc_defs verify_def mget_def Let_def)

theorem blind_put_flush_aborts_witness:
  "bind_res (ec_put 6 ''x'' cache_example) (\<lambda>(ret, s). ec_flush 6 s) = Fault Verify_failed"
  by (rule blind_put_flush_aborts)
    (simp_all add: cache_example_def ext_new_def mfind_def, simp add: attr_zero_def)

text \<open>
  C27. \<^verbatim>\<open>make_copy\<close>, which saves the private version of an extent when a reconnecting client finds that
  the server has moved on: the copy gets the content of the extent under the new number, one entry
  is added to the directory for conflicts under a name it did not have, and no other extent changes.
  The search for a free name always ends.
\<close>

theorem make_copy_keeps_private_version:
  assumes "cache_ok UNIV s" and "view s lid = Some b" and "view s new_lid = None"
    and "view s tmp_lid = Some t" and "yfs_dir_new t = Ret d"
  shows "\<exists>s' name. eu_make_copy lid new_lid tmp_lid s = Ret s' \<and> cache_ok UNIV s' \<and> \<not> dir_exists name d \<and>
    view s' = (view s)(new_lid \<mapsto> b, tmp_lid \<mapsto> dir_to_string (mput name new_lid d))"
  using make_copy_spec [OF assms] by blast

theorem make_copy_keeps_private_version_witness:
  "\<exists>s'. eu_make_copy 4 5 2 (set_entry 2 \<lparr>ee_dirty = True, ee_extent = '':'', ee_attr = attr_zero\<lparr>a_size := 1\<rparr>\<rparr> cache_example) = Ret s' \<and>
     view s' 5 = Some ''new''"
proof -
  let ?s = "set_entry 2 \<lparr>ee_dirty = True, ee_extent = '':'', ee_attr = attr_zero\<lparr>a_size := 1\<rparr>\<rparr> cache_example"
  have "cache_ok UNIV ?s" using cache_example_ok
    by (auto simp: cache_ok_def sized_def synced_def cache_example_def mfind_def)
  moreover have "view ?s 4 = Some ''new''" "view ?s 5 = None" "view ?s 2 = Some '':''"
    by (simp_all add: view_def cache_example_def es_look_def mfind_def)
  moreover have "yfs_dir_new '':'' = Ret []" by (simp add: yfs_dir_new_def)
  ultimately show ?thesis using make_copy_keeps_private_version [of ?s 4 "''new''" 5 2 "'':''" "[]"] by auto
qed

end
