(* ===== verification/Lock_Client_Cache.thy ===== *)
theory Lock_Client_Cache
  imports Lock_Server Extent_Client_Cache
begin

text \<open>
  The caching lock client (\<^verbatim>\<open>lock_client_cache.h\<close>, \<^verbatim>\<open>lock_client_cache.cc\<close>).

  Its methods give up the mutex at two kinds of places, while an RPC to the lock server is under
  way and while a thread sleeps on a condition variable. The theory has one definition for each
  stretch of code that runs under the mutex without interruption; \<open>Lock_System\<close> interleaves them.
  The second half composes them into the whole methods for a client that runs on its own against
  the lock server and the extent server, where a thread that would have to be woken by another one
  is \<open>Stuck\<close>: that is how the file system client above uses them, disconnection and the resolution of
  conflicts on reconnection included.
\<close>

section \<open>State\<close>

datatype lstate = NONE | ACQUIRING | WAITING | FREE | LOCKED | RELEASING | FREE_RLS

record lockstate =
  lk_state :: lstate
  lk_stale :: bool

definition lockstate_new :: lockstate where
  "lockstate_new = \<lparr>lk_state = NONE, lk_stale = False\<rparr>"

record lock_client_cache =
  lc_id :: string
  lc_status :: "(u64, lockstate) smap"
  lc_disconnected :: bool

definition lock_client_cache_new :: "string \<Rightarrow> lock_client_cache" where
  "lock_client_cache_new cid =
     \<lparr>lc_id = cid, lc_status = mput 0 lockstate_new [], lc_disconnected = False\<rparr>"

abbreviation lk :: "lock_client_cache \<Rightarrow> u64 \<Rightarrow> lockstate" where
  "lk c lid \<equiv> mget lockstate_new (lc_status c) lid"

definition set_state :: "u64 \<Rightarrow> lstate \<Rightarrow> lock_client_cache \<Rightarrow> lock_client_cache" where
  "set_state lid st c = c\<lparr>lc_status := mput lid ((lk c lid)\<lparr>lk_state := st\<rparr>) (lc_status c)\<rparr>"

definition set_stale :: "u64 \<Rightarrow> bool \<Rightarrow> lock_client_cache \<Rightarrow> lock_client_cache" where
  "set_stale lid b c = c\<lparr>lc_status := mput lid ((lk c lid)\<lparr>lk_stale := b\<rparr>) (lc_status c)\<rparr>"

section \<open>Stretches of code under the mutex\<close>

text \<open>
  \<^verbatim>\<open>acquire_wo\<close>, first the tests on entry and then from the waiting loop to the first RPC:
  the thread has to wait, is refused, has the lock, or sends an acquire request.
\<close>

definition acq_entry :: "u64 \<Rightarrow> lock_client_cache \<Rightarrow> bool" where
  "acq_entry lid c \<longleftrightarrow>
     (lc_disconnected c \<longrightarrow> lk_state (lk c lid) \<noteq> RELEASING \<and> lk_state (lk c lid) \<noteq> FREE_RLS)"

datatype acq_out = ABlocked | ARefused | AHave | ASend

definition acq_try :: "u64 \<Rightarrow> lock_client_cache \<Rightarrow> acq_out \<times> lock_client_cache" where
  "acq_try lid c =
     (let lis = lk_state (lk c lid) in
      if lis \<noteq> NONE \<and> lis \<noteq> FREE then (ABlocked, c)
      else if lc_disconnected c \<and> lis = NONE then (ARefused, c)
      else if lk_stale (lk c lid) \<or> lis = NONE then (ASend, set_state lid ACQUIRING c)
      else (AHave, set_state lid LOCKED c))"

text \<open>
  The body of the loop after the reply \<open>ret\<close>: the call is over with that status, the lock has been
  acquired (\<^verbatim>\<open>lock_acquired\<close> follows), the thread waits for a retry, or it asks again at once.
\<close>

datatype reply_out = RDone u32 | RAcquired | RSleep | RResend

definition acq_reply :: "u64 \<Rightarrow> u32 \<Rightarrow> lock_client_cache \<Rightarrow> reply_out \<times> lock_client_cache" where
  "acq_reply lid ret c =
     (if lc_disconnected c \<or> ret = l_DISCONNECTED then (RDone l_DISCONNECTED, set_state lid NONE c)
      else (let lis = lk_state (lk c lid) in
        if lis = ACQUIRING
        then (if ret = l_OK then (RAcquired, c)
              else if ret = l_RETRY then (RSleep, set_state lid WAITING c)
              else (RDone ret, c))
        else if lis = WAITING
        then (if ret = l_OK then (RAcquired, c)
              else if ret = l_RETRY then (RResend, set_state lid ACQUIRING c)
              else (RDone ret, c))
        else (RDone ret, c)))"

text \<open>\<^verbatim>\<open>lock_acquired\<close> for a lock that is not stale.\<close>

definition acquired_fresh :: "u64 \<Rightarrow> lock_client_cache \<Rightarrow> lock_client_cache" where
  "acquired_fresh lid c = set_state lid LOCKED c"

text \<open>
  \<^verbatim>\<open>release_wo\<close> up to the RPC. \<open>True\<close>: the extent is to be flushed and a release sent, after which
  \<open>release_done\<close> runs.
\<close>

definition rel_try :: "u64 \<Rightarrow> lock_client_cache \<Rightarrow> (bool \<times> lock_client_cache) res" where
  "rel_try lid c =
     (let lis = lk_state (lk c lid) in
      if lis = LOCKED
      then Ret (False, set_state lid (if lk_stale (lk c lid) then NONE else FREE) c)
      else if lis = RELEASING
      then verify (\<not> lk_stale (lk c lid)) (verify (\<not> lc_disconnected c) (Ret (True, c)))
      else Fault Verify_failed)"

definition release_done :: "u64 \<Rightarrow> lock_client_cache \<Rightarrow> lock_client_cache" where
  "release_done lid c = set_state lid NONE c"

text \<open>\<^verbatim>\<open>revoke_handler\<close> up to the RPC.\<close>

datatype revoke_out = VDisconnected | VDone | VRelease

definition revoke_try :: "u64 \<Rightarrow> lock_client_cache \<Rightarrow> revoke_out \<times> lock_client_cache" where
  "revoke_try lid c =
     (if lc_disconnected c then (VDisconnected, c)
      else (let lis = lk_state (lk c lid);
                c = (if lk_stale (lk c lid) then set_stale lid False c else c)
            in case lis of
                 ACQUIRING \<Rightarrow> (VDone, set_state lid RELEASING c)
               | WAITING \<Rightarrow> (VDone, set_state lid RELEASING c)
               | LOCKED \<Rightarrow> (VDone, set_state lid RELEASING c)
               | FREE \<Rightarrow> (VRelease, set_state lid FREE_RLS c)
               | _ \<Rightarrow> (VDone, c)))"

definition retry_handler :: "u64 \<Rightarrow> lock_client_cache \<Rightarrow> u32 \<times> u32 \<times> lock_client_cache" where
  "retry_handler lid c =
     (if lc_disconnected c then (rl_DISCONNECTED, rl_DISCONNECTED, c)
      else (let lis = lk_state (lk c lid) in
        (rl_OK, rl_OK,
         if lis = ACQUIRING then set_state lid WAITING c
         else if lis = WAITING then set_state lid ACQUIRING c
         else c)))"

text \<open>The loops of \<^verbatim>\<open>disconnect\<close> over the table.\<close>

definition disc_state :: "lockstate \<Rightarrow> lockstate" where
  "disc_state l = l\<lparr>lk_state := (case lk_state l of RELEASING \<Rightarrow> LOCKED | FREE_RLS \<Rightarrow> NONE
                                  | WAITING \<Rightarrow> ACQUIRING | x \<Rightarrow> x)\<rparr>"

definition go_disconnected :: "lock_client_cache \<Rightarrow> lock_client_cache" where
  "go_disconnected c =
     c\<lparr>lc_disconnected := True, lc_status := map (\<lambda>(l, x). (l, disc_state x)) (lc_status c)\<rparr>"

definition settled :: "lockstate \<Rightarrow> bool" where
  "settled l \<longleftrightarrow> lk_state l \<notin> {FREE_RLS, RELEASING, WAITING, ACQUIRING}"

definition mark_stale :: "lock_client_cache \<Rightarrow> lock_client_cache res" where
  "mark_stale c =
     verify (\<forall>(l, x) \<in> set (lc_status c). settled x)
       (Ret (c\<lparr>lc_status := map (\<lambda>(l, x). (l, if lk_state x \<noteq> NONE then x\<lparr>lk_stale := True\<rparr> else x)) (lc_status c)\<rparr>))"

section \<open>The client in its world\<close>

text \<open>
  \<open>w_peer\<close> answers the revokes that the server sends to other clients, as in \<open>Lock_Server\<close>; \<open>w_rand\<close> is the
  sequence of results of \<^verbatim>\<open>rand()\<close>, read at \<open>w_pos\<close>; \<open>w_up\<close> tells whether the lock server answers.
\<close>

record world =
  w_lc :: lock_client_cache
  w_ext :: ext_sys
  w_ls :: lock_server_cache
  w_up :: bool
  w_peer :: "string \<Rightarrow> u64 \<Rightarrow> (u32 \<times> u32) option"
  w_rand :: "nat \<Rightarrow> u32"
  w_pos :: nat

text \<open>\<^verbatim>\<open>(rand()<<16|rand()) & 0xFFFF\<close>\<close>

definition get_rand_num :: "world \<Rightarrow> u64 \<times> world" where
  "get_rand_num w =
     (let a = w_rand w (w_pos w); b = w_rand w (Suc (w_pos w))
      in (ucast ((push_bit 16 a OR b) AND 0xFFFF), w\<lparr>w_pos := w_pos w + 2\<rparr>))"

definition w_lift :: "(ext_sys \<Rightarrow> ('a \<times> ext_sys) res) \<Rightarrow> world \<Rightarrow> ('a \<times> world) res" where
  "w_lift f w = bind_res (f (w_ext w)) (\<lambda>(a, e). Ret (a, w\<lparr>w_ext := e\<rparr>))"

definition w_do :: "(ext_sys \<Rightarrow> ext_sys res) \<Rightarrow> world \<Rightarrow> world res" where
  "w_do f w = bind_res (f (w_ext w)) (\<lambda>e. Ret (w\<lparr>w_ext := e\<rparr>))"

text \<open>The RPCs to the lock server, with the status of the call first.\<close>

definition call_acquire :: "u64 \<Rightarrow> world \<Rightarrow> (u32 \<times> u32 \<times> world) res" where
  "call_acquire lid w =
     (if w_up w
      then bind_res (lsc_acquire (w_peer w) lid (lc_id (w_lc w)) (w_ls w)) (\<lambda>(r, ret, ls). Ret (r, ret, w\<lparr>w_ls := ls\<rparr>))
      else Ret (timeout_failure, 0, w))"

definition call_release :: "u64 \<Rightarrow> world \<Rightarrow> (u32 \<times> u32 \<times> world) res" where
  "call_release lid w =
     (if w_up w
      then bind_res (lsc_release lid (lc_id (w_lc w)) (w_ls w)) (\<lambda>((r, ret, info), ls). Ret (r, ret, w\<lparr>w_ls := ls\<rparr>))
      else Ret (timeout_failure, 0, w))"

definition call_disconnect_server :: "world \<Rightarrow> (u32 \<times> u32 \<times> world) res" where
  "call_disconnect_server w =
     (if w_up w
      then (case disconnect_server (lc_id (w_lc w)) (w_ls w) of ((r, ret, infos), ls) \<Rightarrow> Ret (r, ret, w\<lparr>w_ls := ls\<rparr>))
      else Ret (timeout_failure, 0, w))"

definition release_wo :: "u64 \<Rightarrow> world \<Rightarrow> (u32 \<times> world) res" where
  "release_wo lid w =
     bind_res (rel_try lid (w_lc w)) (\<lambda>(send, c).
       let w = w\<lparr>w_lc := c\<rparr> in
       if \<not> send then Ret (l_OK, w)
       else bind_res (w_do (eu_dorelease lid) w) (\<lambda>w.
            bind_res (call_release lid w) (\<lambda>(r, ret, w).
              verify (r = l_OK) (Ret (l_OK, w\<lparr>w_lc := release_done lid (w_lc w)\<rparr>)))))"

text \<open>
  The decision of \<^verbatim>\<open>lock_acquired\<close> about the extent of a stale lock, with the resolution of a conflict
  as an argument.
\<close>

definition refresh :: "(u64 \<Rightarrow> world \<Rightarrow> world res) \<Rightarrow> u64 \<Rightarrow> world \<Rightarrow> world res" where
  "refresh resolve lid w =
     (if \<not> eu_exists lid (w_ext w) then Ret w
      else (case eu_isdirty lid (w_ext w) of (dirty, e) \<Rightarrow>
        let w = w\<lparr>w_ext := e\<rparr> in
        if \<not> dirty then w_do (eu_remove lid) w
        else bind_res (w_lift (eu_compareversion lid) w) (\<lambda>(same, w).
          if same then Ret w else resolve lid w)))"

text \<open>
  \<^verbatim>\<open>acquire_wo\<close> and \<^verbatim>\<open>lock_acquired\<close> call each other: a conflict is resolved with the lock of a new
  file and that of the directory for conflicts (number 2). The fuel bounds the calls and the
  search for an unused number. A thread that sleeps, for the lock or for a retry, is \<open>Stuck\<close>.
\<close>

fun acquire_wo :: "nat \<Rightarrow> u64 \<Rightarrow> world \<Rightarrow> (u32 \<times> world) res"
  and acq_loop :: "nat \<Rightarrow> u64 \<Rightarrow> world \<Rightarrow> (u32 \<times> world) res"
  and lock_acquired :: "nat \<Rightarrow> u64 \<Rightarrow> world \<Rightarrow> world res"
  and resolve_conflict :: "nat \<Rightarrow> u64 \<Rightarrow> world \<Rightarrow> world res"
  and pick_copy :: "nat \<Rightarrow> world \<Rightarrow> (u64 \<times> world) res" where
  "acquire_wo 0 lid w = Stuck"
| "acquire_wo (Suc n) lid w =
     verify (acq_entry lid (w_lc w))
       (case acq_try lid (w_lc w) of (out, c) \<Rightarrow>
          let w = w\<lparr>w_lc := c\<rparr> in
          (case out of
             ABlocked \<Rightarrow> Stuck
           | ARefused \<Rightarrow> Ret (l_DISCONNECTED, w)
           | AHave \<Rightarrow> Ret (l_OK, w)
           | ASend \<Rightarrow> acq_loop n lid w))"
| "acq_loop 0 lid w = Stuck"
| "acq_loop (Suc n) lid w =
     bind_res (call_acquire lid w) (\<lambda>(r, ret, w).
       verify (r = l_OK)
         (case acq_reply lid ret (w_lc w) of (out, c) \<Rightarrow>
            let w = w\<lparr>w_lc := c\<rparr> in
            (case out of
               RDone ret \<Rightarrow> Ret (ret, w)
             | RAcquired \<Rightarrow> bind_res (lock_acquired n lid w) (\<lambda>w. Ret (ret, w))
             | RSleep \<Rightarrow> Stuck
             | RResend \<Rightarrow> acq_loop n lid w)))"
| "lock_acquired 0 lid w = Stuck"
| "lock_acquired (Suc n) lid w =
     bind_res
       (if \<not> lk_stale (lk (w_lc w) lid) then Ret w
        else bind_res (refresh (resolve_conflict n) lid w)
               (\<lambda>w. Ret (w\<lparr>w_lc := set_stale lid False (w_lc w)\<rparr>)))
       (\<lambda>w. Ret (w\<lparr>w_lc := set_state lid LOCKED (w_lc w)\<rparr>))"
| "resolve_conflict 0 lid w = Stuck"
| "resolve_conflict (Suc n) lid w =
     bind_res (pick_copy n w) (\<lambda>(new_lid, w).
     bind_res (acquire_wo n 2 w) (\<lambda>(r, w). verify (r = 0)
     (bind_res (w_do (eu_make_copy lid new_lid 2) w) (\<lambda>w.
      bind_res (w_do (eu_remove lid) w) (\<lambda>w.
      bind_res (release_wo 2 w) (\<lambda>(r, w). verify (r = 0)
     (bind_res (release_wo new_lid w) (\<lambda>(r, w). verify (r = 0) (Ret w)))))))))"
| "pick_copy 0 w = Stuck"
| "pick_copy (Suc n) w =
     (case get_rand_num w of (x, w) \<Rightarrow>
        let new_lid = x OR 0x80000000 in
        bind_res (acquire_wo n new_lid w) (\<lambda>(r, w).
        bind_res (w_lift (eu_remote_exists new_lid) w) (\<lambda>(ex, w).
          if \<not> ex then Ret (new_lid, w)
          else bind_res (release_wo new_lid w) (\<lambda>(r, w). pick_copy n w))))"

definition lc_acquire :: "nat \<Rightarrow> u64 \<Rightarrow> world \<Rightarrow> (u32 \<times> world) res" where
  "lc_acquire fuel lid w = acquire_wo fuel lid w"

definition lc_release :: "u64 \<Rightarrow> world \<Rightarrow> (u32 \<times> world) res" where
  "lc_release lid w = release_wo lid w"

definition revoke_handler :: "u64 \<Rightarrow> world \<Rightarrow> (u32 \<times> u32 \<times> world) res" where
  "revoke_handler lid w =
     (case revoke_try lid (w_lc w) of (out, c) \<Rightarrow>
        let w = w\<lparr>w_lc := c\<rparr> in
        (case out of
           VDisconnected \<Rightarrow> Ret (rl_DISCONNECTED, rl_DISCONNECTED, w)
         | VDone \<Rightarrow> Ret (rl_OK, rl_OK, w)
         | VRelease \<Rightarrow>
             bind_res (w_do (eu_dorelease lid) w) (\<lambda>w.
             bind_res (call_release lid w) (\<lambda>(ret, r, w).
               verify (ret = l_OK) (Ret (rl_OK, r, w\<lparr>w_lc := set_state lid NONE (w_lc w)\<rparr>))))))"

text \<open>
  The last loop of \<^verbatim>\<open>disconnect(false)\<close>. The map may grow while it runs, so it goes from a key to the
  next larger one that is present.
\<close>

definition next_key :: "u64 option \<Rightarrow> (u64, 'v) smap \<Rightarrow> u64 option" where
  "next_key from m =
     (case filter (\<lambda>k. case from of None \<Rightarrow> True | Some x \<Rightarrow> k > x) (mkeys m) of [] \<Rightarrow> None | k # ks \<Rightarrow> Some k)"

fun reacquire :: "nat \<Rightarrow> u64 option \<Rightarrow> world \<Rightarrow> world res" where
  "reacquire 0 cur w = Stuck"
| "reacquire (Suc n) cur w =
     (case next_key cur (lc_status (w_lc w)) of
        None \<Rightarrow> Ret w
      | Some lid \<Rightarrow>
          verify (settled (lk (w_lc w) lid))
            (bind_res
               (if lk_state (lk (w_lc w) lid) \<noteq> NONE
                then bind_res (acquire_wo n lid w) (\<lambda>(r, w). verify (r = l_OK)
                    (bind_res (release_wo lid w) (\<lambda>(r, w). verify (r = l_OK) (Ret w))))
                else Ret w)
               (reacquire n (Some lid))))"

definition lc_disconnect :: "nat \<Rightarrow> bool \<Rightarrow> world \<Rightarrow> (u32 \<times> world) res" where
  "lc_disconnect fuel kill w =
     bind_res
       (if lc_disconnected (w_lc w) \<noteq> kill
        then bind_res
          (if kill
           then bind_res (call_disconnect_server w) (\<lambda>(r, ret, w). verify (r = l_OK)
                 (Ret (w\<lparr>w_lc := go_disconnected (w_lc w)\<rparr>)))
           else bind_res (mark_stale (w_lc w)) (\<lambda>c.
                 reacquire fuel None (w\<lparr>w_lc := c\<lparr>lc_disconnected := False\<rparr>\<rparr>)))
          (\<lambda>w. Ret (w\<lparr>w_lc := (w_lc w)\<lparr>lc_disconnected := kill\<rparr>\<rparr>))
        else Ret w)
       (\<lambda>w. Ret (l_OK, w))"

section \<open>Frame lemmas\<close>

lemma lk_set_state [simp]: "lk (set_state l st c) m = (if m = l then (lk c l)\<lparr>lk_state := st\<rparr> else lk c m)"
  by (simp add: set_state_def)

lemma lk_set_stale [simp]: "lk (set_stale l b c) m = (if m = l then (lk c l)\<lparr>lk_stale := b\<rparr> else lk c m)"
  by (simp add: set_stale_def)

lemma set_sel [simp]:
  "lc_disconnected (set_state l st c) = lc_disconnected c" "lc_id (set_state l st c) = lc_id c"
  "lc_disconnected (set_stale l b c) = lc_disconnected c" "lc_id (set_stale l b c) = lc_id c"
  by (simp_all add: set_state_def set_stale_def)

lemma w_do_lc: "w_do f w = Ret w' \<Longrightarrow> w_lc w' = w_lc w"
  by (auto simp: w_do_def)

lemma w_lift_lc: "w_lift f w = Ret (a, w') \<Longrightarrow> w_lc w' = w_lc w"
  by (auto simp: w_lift_def)

lemma call_acquire_lc: "call_acquire lid w = Ret (r, ret, w') \<Longrightarrow> w_lc w' = w_lc w"
  by (auto simp: call_acquire_def split: if_splits)

lemma call_release_lc: "call_release lid w = Ret (r, ret, w') \<Longrightarrow> w_lc w' = w_lc w"
  by (auto simp: call_release_def split: if_splits)

lemma release_wo_other:
  assumes "release_wo lid w = Ret (r, w')" and "l \<noteq> lid"
  shows "lk (w_lc w') l = lk (w_lc w) l"
  using assms
  by (auto simp: release_wo_def rel_try_def release_done_def verify_def Let_def dest!: w_do_lc call_release_lc
      split: if_splits)

lemma release_wo_acquiring:
  assumes "release_wo lid w = Ret (r, w')" and "lk_state (lk (w_lc w) l) = ACQUIRING"
  shows "lk_state (lk (w_lc w') l) = ACQUIRING"
proof (cases "l = lid")
  case True
  then show ?thesis using assms by (simp add: release_wo_def rel_try_def)
qed (use assms release_wo_other in metis)

lemma get_rand_num_lc: "get_rand_num w = (x, w') \<Longrightarrow> w_lc w' = w_lc w"
  by (auto simp: get_rand_num_def Let_def)

lemmas w_lc_dests = w_do_lc w_lift_lc call_acquire_lc call_release_lc get_rand_num_lc

text \<open>A lock that a thread is acquiring is not touched by anything that returns.\<close>

definition busy :: "u64 \<Rightarrow> world \<Rightarrow> bool" where
  "busy l w \<longleftrightarrow> lk_state (lk (w_lc w) l) = ACQUIRING"

lemma busy_cong: "w_lc w' = w_lc w \<Longrightarrow> busy l w' = busy l w"
  by (simp add: busy_def)

lemma busy_set [simp]:
  "lid \<noteq> l \<Longrightarrow> busy l (w\<lparr>w_lc := set_state lid st (w_lc w)\<rparr>) = busy l w"
  "busy l (w\<lparr>w_lc := set_stale lid b (w_lc w)\<rparr>) = busy l w"
  "busy l (w\<lparr>w_ext := e\<rparr>) = busy l w" "busy l (w\<lparr>w_lc := w_lc w\<rparr>) = busy l w"
  by (simp_all add: busy_def)

lemma busy_release: "release_wo lid w = Ret (r, w') \<Longrightarrow> busy l w \<Longrightarrow> busy l w'"
  using release_wo_acquiring by (simp add: busy_def)

lemma busy_steps:
  "w_do f w = Ret w' \<Longrightarrow> busy l w \<Longrightarrow> busy l w'"
  "w_lift g w = Ret (a, w') \<Longrightarrow> busy l w \<Longrightarrow> busy l w'"
  "get_rand_num w = (x, w') \<Longrightarrow> busy l w \<Longrightarrow> busy l w'"
  using w_lc_dests busy_cong by metis+

lemma busy_acquire_same: "busy l w \<Longrightarrow> acquire_wo n l w \<noteq> Ret a"
  by (cases n) (simp_all add: busy_def acq_try_def verify_def)

lemma busy_try:
  "acq_try lid (w_lc w) = (out, c) \<Longrightarrow> lid \<noteq> l \<Longrightarrow> busy l w \<Longrightarrow> busy l (w\<lparr>w_lc := c\<rparr>)"
  by (auto simp: acq_try_def Let_def busy_def split: if_splits)

lemma busy_reply:
  "acq_reply lid ret (w_lc w) = (out, c) \<Longrightarrow> lid \<noteq> l \<Longrightarrow> busy l w \<Longrightarrow> busy l (w\<lparr>w_lc := c\<rparr>)"
  by (auto simp: acq_reply_def Let_def busy_def split: if_splits)

lemma busy_acquire_step:
  assumes loop: "\<And>lid w r w'. acq_loop n lid w = Ret (r, w') \<Longrightarrow> lid \<noteq> l \<Longrightarrow> busy l w \<Longrightarrow> busy l w'"
    and a: "acquire_wo (Suc n) lid w = Ret (r, w')" and b: "busy l w"
  shows "busy l w'"
proof -
  have ne: "lid \<noteq> l" using a b busy_acquire_same by blast
  obtain out c where t: "acq_try lid (w_lc w) = (out, c)" by fastforce
  have "busy l (w\<lparr>w_lc := c\<rparr>)" by (rule busy_try [OF t ne b])
  then show ?thesis using a t loop ne by (cases out) (auto simp: verify_def split: if_splits)
qed

lemma busy_loop_step:
  assumes loop: "\<And>lid w r w'. acq_loop n lid w = Ret (r, w') \<Longrightarrow> lid \<noteq> l \<Longrightarrow> busy l w \<Longrightarrow> busy l w'"
    and got: "\<And>lid w w'. lock_acquired n lid w = Ret w' \<Longrightarrow> lid \<noteq> l \<Longrightarrow> busy l w \<Longrightarrow> busy l w'"
    and a: "acq_loop (Suc n) lid w = Ret (r, w')" and ne: "lid \<noteq> l" and b: "busy l w"
  shows "busy l w'"
proof -
  obtain ret w1 where c: "call_acquire lid w = Ret (l_OK, ret, w1)" using a by (auto simp: verify_def split: if_splits)
  have b1: "busy l w1" using call_acquire_lc [OF c] busy_cong b by blast
  obtain out c where t: "acq_reply lid ret (w_lc w1) = (out, c)" by fastforce
  have "busy l (w1\<lparr>w_lc := c\<rparr>)" by (rule busy_reply [OF t ne b1])
  then show ?thesis using a c t loop got ne by (cases out) (auto simp: verify_def)
qed

lemma busy_pick_step:
  assumes acq: "\<And>lid w r w'. acquire_wo n lid w = Ret (r, w') \<Longrightarrow> busy l w \<Longrightarrow> busy l w'"
    and pick: "\<And>w x w'. pick_copy n w = Ret (x, w') \<Longrightarrow> busy l w \<Longrightarrow> busy l w'"
    and a: "pick_copy (Suc n) w = Ret (x, w')" and b: "busy l w"
  shows "busy l w'"
proof -
  obtain y w1 where g: "get_rand_num w = (y, w1)" by fastforce
  obtain r2 w2 ex w3 where s: "acquire_wo n (y OR 0x80000000) w1 = Ret (r2, w2)"
      "w_lift (eu_remote_exists (y OR 0x80000000)) w2 = Ret (ex, w3)"
    using a g by (auto simp: Let_def)
  have b3: "busy l w3" using busy_steps(3) [OF g b] acq [OF s(1)] busy_steps(2) [OF s(2)] by blast
  show ?thesis
  proof (cases ex)
    case True
    then obtain r4 w4 where "release_wo (y OR 0x80000000) w3 = Ret (r4, w4)" "pick_copy n w4 = Ret (x, w')"
      using a g s by (auto simp: Let_def)
    then show ?thesis using busy_release [OF _ b3] pick by blast
  qed (use a g s b3 in \<open>simp add: Let_def\<close>)
qed

lemma busy_resolve_step:
  assumes acq: "\<And>lid w r w'. acquire_wo n lid w = Ret (r, w') \<Longrightarrow> busy l w \<Longrightarrow> busy l w'"
    and pick: "\<And>w x w'. pick_copy n w = Ret (x, w') \<Longrightarrow> busy l w \<Longrightarrow> busy l w'"
    and a: "resolve_conflict (Suc n) lid w = Ret w'" and b: "busy l w"
  shows "busy l w'"
proof -
  obtain x w1 r1 w2 w3 w4 r2 w5 r3 where
    "pick_copy n w = Ret (x, w1)" "acquire_wo n 2 w1 = Ret (r1, w2)" "w_do (eu_make_copy lid x 2) w2 = Ret w3"
    "w_do (eu_remove lid) w3 = Ret w4" "release_wo 2 w4 = Ret (r2, w5)" "release_wo x w5 = Ret (r3, w')"
    using a by (auto simp: verify_def split: if_splits)
  then show ?thesis using b pick acq busy_steps(1) busy_release by metis
qed

lemma busy_refresh:
  assumes res: "\<And>lid w w'. resolve lid w = Ret w' \<Longrightarrow> busy l w \<Longrightarrow> busy l w'"
    and a: "refresh resolve lid w = Ret w'" and b: "busy l w"
  shows "busy l w'"
proof -
  obtain dirty e where d: "eu_isdirty lid (w_ext w) = (dirty, e)" by fastforce
  let ?w = "w\<lparr>w_ext := e\<rparr>"
  have b': "busy l ?w" using b by simp
  note r = a [unfolded refresh_def d Let_def prod.case]
  show ?thesis
  proof (cases "eu_exists lid (w_ext w)")
    case ex: True
    show ?thesis
    proof (cases dirty)
      case True
      obtain same w2 where w2: "w_lift (eu_compareversion lid) ?w = Ret (same, w2)" using r ex True by auto
      have "busy l w2" by (rule busy_steps(2) [OF w2 b'])
      then show ?thesis using r ex True w2 res by (cases same) auto
    next
      case False
      then have "w_do (eu_remove lid) ?w = Ret w'" using r ex by simp
      then show ?thesis by (rule busy_steps(1) [OF _ b'])
    qed
  qed (use r b in simp)
qed

lemma busy_acquired_step:
  assumes res: "\<And>lid w w'. resolve_conflict n lid w = Ret w' \<Longrightarrow> busy l w \<Longrightarrow> busy l w'"
    and a: "lock_acquired (Suc n) lid w = Ret w'" and ne: "lid \<noteq> l" and b: "busy l w"
  shows "busy l w'"
proof (cases "lk_stale (lk (w_lc w) lid)")
  case False
  then show ?thesis using a ne b by auto
next
  case True
  then obtain w1 where "refresh (resolve_conflict n) lid w = Ret w1"
      "w' = w1\<lparr>w_lc := set_state lid LOCKED (set_stale lid False (w_lc w1))\<rparr>"
    using a by auto
  then show ?thesis using busy_refresh [of "resolve_conflict n" l lid w w1, OF res] b ne by (simp add: busy_def)
qed

lemma busy_all:
  "(\<forall>lid w r w'. acquire_wo n lid w = Ret (r, w') \<longrightarrow> busy l w \<longrightarrow> busy l w') \<and>
   (\<forall>lid w r w'. acq_loop n lid w = Ret (r, w') \<longrightarrow> lid \<noteq> l \<longrightarrow> busy l w \<longrightarrow> busy l w') \<and>
   (\<forall>lid w w'. lock_acquired n lid w = Ret w' \<longrightarrow> lid \<noteq> l \<longrightarrow> busy l w \<longrightarrow> busy l w') \<and>
   (\<forall>lid w w'. resolve_conflict n lid w = Ret w' \<longrightarrow> busy l w \<longrightarrow> busy l w') \<and>
   (\<forall>w x w'. pick_copy n w = Ret (x, w') \<longrightarrow> busy l w \<longrightarrow> busy l w')"
proof (induction n)
  case (Suc n)
  note ih = Suc [THEN conjunct1, rule_format] Suc [THEN conjunct2, THEN conjunct1, rule_format]
    Suc [THEN conjunct2, THEN conjunct2, THEN conjunct1, rule_format]
    Suc [THEN conjunct2, THEN conjunct2, THEN conjunct2, THEN conjunct1, rule_format]
    Suc [THEN conjunct2, THEN conjunct2, THEN conjunct2, THEN conjunct2, rule_format]
  show ?case
    by (intro conjI allI impI)
      (erule busy_acquire_step [rotated], assumption, erule ih(2), assumption, assumption,
       erule busy_loop_step [rotated 2], assumption, assumption, erule ih(2), assumption, assumption,
         erule ih(3), assumption, assumption,
       erule busy_acquired_step [rotated], assumption, assumption, erule ih(4), assumption,
       erule busy_resolve_step [rotated 2], assumption, erule ih(1), assumption, erule ih(5), assumption,
       erule busy_pick_step [rotated 2], assumption, erule ih(1), assumption, erule ih(5), assumption)
qed auto

section \<open>Single steps of the whole methods\<close>

text \<open>The server's record of a lock granted to this client.\<close>

definition granted :: "u64 \<Rightarrow> world \<Rightarrow> lock_server_cache" where
  "granted lid w = set_li lid \<lparr>locked = True, owner = lc_id (w_lc w), waiting_set = []\<rparr> (w_ls w)"

definition connected :: "world \<Rightarrow> bool" where
  "connected w \<longleftrightarrow> w_up w \<and> \<not> lc_disconnected (w_lc w)"

lemma lockinfo_upd: "i\<lparr>locked := a, owner := b, waiting_set := c\<rparr> = \<lparr>locked = a, owner = b, waiting_set = c\<rparr>"
  by (cases i) simp

lemma lockstate_new_sel [simp]: "lk_state lockstate_new = NONE" "lk_stale lockstate_new = False"
  by (simp_all add: lockstate_new_def)

lemma call_acquire_free:
  assumes "w_up w" and "\<not> locked (li (w_ls w) lid)"
  shows "call_acquire lid w = Ret (l_OK, l_OK, w\<lparr>w_ls := granted lid w\<rparr>)"
  using assms by (simp add: call_acquire_def lsc_acquire_def acquire_cs_def granted_def lockinfo_upd)

lemma acquire_send:
  assumes "connected w" and "\<not> locked (li (w_ls w) lid)"
    and "lk_state (lk (w_lc w) lid) = NONE \<or> lk_state (lk (w_lc w) lid) = FREE \<and> lk_stale (lk (w_lc w) lid)"
  shows "acquire_wo (Suc (Suc n)) lid w =
    bind_res (lock_acquired n lid (w\<lparr>w_ls := granted lid w, w_lc := set_state lid ACQUIRING (w_lc w)\<rparr>)) (\<lambda>w. Ret (l_OK, w))"
proof -
  let ?w = "w\<lparr>w_lc := set_state lid ACQUIRING (w_lc w)\<rparr>"
  have t: "acq_try lid (w_lc w) = (ASend, set_state lid ACQUIRING (w_lc w))"
    using assms by (auto simp: acq_try_def connected_def Let_def)
  have c: "call_acquire lid ?w = Ret (l_OK, l_OK, ?w\<lparr>w_ls := granted lid w\<rparr>)"
    using call_acquire_free [of ?w lid] assms by (simp add: connected_def granted_def)
  have r: "acq_reply lid l_OK (set_state lid ACQUIRING (w_lc w)) = (RAcquired, set_state lid ACQUIRING (w_lc w))"
    using assms(1) by (simp add: acq_reply_def connected_def l_status_defs)
  show ?thesis using assms(1) by (simp add: verify_def acq_entry_def connected_def t c r)
qed

lemma acquire_none:
  assumes "connected w" and "\<not> locked (li (w_ls w) lid)"
    and "lk (w_lc w) lid = lockstate_new"
  shows "acquire_wo (Suc (Suc (Suc n))) lid w =
    Ret (l_OK, w\<lparr>w_ls := granted lid w, w_lc := set_state lid LOCKED (set_state lid ACQUIRING (w_lc w))\<rparr>)"
  using assms acquire_send [OF assms(1,2), of "Suc n"] by simp

lemma release_locked:
  assumes "lk_state (lk (w_lc w) lid) = LOCKED" and "\<not> lk_stale (lk (w_lc w) lid)"
  shows "release_wo lid w = Ret (l_OK, w\<lparr>w_lc := set_state lid FREE (w_lc w)\<rparr>)"
  using assms by (simp add: release_wo_def rel_try_def)

text \<open>Reacquiring a stale lock: the extent is refreshed, the lock is no longer stale.\<close>

lemma acquire_stale:
  assumes "connected w" and "\<not> locked (li (w_ls w) lid)"
    and "lk (w_lc w) lid = \<lparr>lk_state = FREE, lk_stale = True\<rparr>"
  shows "acquire_wo (Suc (Suc (Suc n))) lid w =
    bind_res (refresh (resolve_conflict n) lid (w\<lparr>w_ls := granted lid w, w_lc := set_state lid ACQUIRING (w_lc w)\<rparr>))
      (\<lambda>w. Ret (l_OK, w\<lparr>w_lc := set_state lid LOCKED (set_stale lid False (w_lc w))\<rparr>))"
proof -
  have a: "bind_res (bind_res (bind_res x f) g) h = bind_res x (\<lambda>w. bind_res (bind_res (f w) g) h)" for x f g h
    by (cases x) simp_all
  show ?thesis using assms acquire_send [OF assms(1,2), of "Suc n"] by (simp add: a)
qed

lemma isdirty_cached: "mfind (local_extent x) lid = Some e \<Longrightarrow> eu_isdirty lid x = (ee_dirty e, x)"
  by (simp add: eu_isdirty_def ec_is_dirty_def touch_def mcount_0 mget_found)

lemma compareversion_cached:
  assumes "ex_up x" and "mfind (local_extent x) lid = Some e" and "mfind (es_table (ex_srv x)) lid = Some f"
    and "a_version (ee_attr e) \<le> a_version (fi_a f)"
  shows "eu_compareversion lid x = Ret (a_version (fi_a f) = a_version (ee_attr e), x)"
  using assms
  by (simp add: eu_compareversion_def ec_compare_version_def ec_rpc_defs touch_def mcount_0 mget_found verify_def
      e_status_defs Let_def)

lemma refresh_clean:
  assumes "mfind (local_extent (w_ext w)) lid = Some e" and "\<not> ee_dirty e"
  shows "refresh res lid w =
    Ret (w\<lparr>w_ext := (w_ext w)\<lparr>local_extent := merase lid (local_extent (w_ext w))\<rparr>\<rparr>)"
  using assms
  by (simp add: refresh_def eu_exists_def ec_exists_def isdirty_cached w_do_def eu_remove_def ec_remove_def mcount_def
      verify_def)

lemma refresh_dirty:
  assumes "ex_up (w_ext w)" and "mfind (local_extent (w_ext w)) lid = Some e" and "ee_dirty e"
    and "mfind (es_table (ex_srv (w_ext w))) lid = Some f" and "a_version (ee_attr e) \<le> a_version (fi_a f)"
  shows "refresh res lid w = (if a_version (fi_a f) = a_version (ee_attr e) then Ret w else res lid w)"
  using assms compareversion_cached [OF assms(1,2,4,5)]
  by (simp add: refresh_def eu_exists_def ec_exists_def isdirty_cached w_lift_def mcount_def)

text \<open>Nobody resolves a conflict while the lock of the directory for conflicts is being acquired.\<close>

lemma resolve_busy: "busy 2 w \<Longrightarrow> resolve_conflict n lid w \<noteq> Ret w'"
proof (cases n)
  case (Suc m)
  assume b: "busy 2 w"
  have "busy 2 w1" if "pick_copy m w = Ret (x, w1)" for x w1 using busy_all [of m 2] b that by blast
  then show ?thesis using busy_acquire_same [of 2 _ m] by (auto simp: Suc)
qed simp

lemma lockinfo_eqI: "locked i = a \<Longrightarrow> owner i = b \<Longrightarrow> waiting_set i = c \<Longrightarrow> i = \<lparr>locked = a, owner = b, waiting_set = c\<rparr>"
  by (cases i) simp

text \<open>The resolution of a conflict when the first number tried is unused.\<close>

lemma pick_copy_first:
  assumes "connected w" and x: "x = fst (get_rand_num w) OR 0x80000000"
    and "lk (w_lc w) x = lockstate_new" and "\<not> locked (li (w_ls w) x)"
    and "cache_ok A (w_ext w)" and "view (w_ext w) x = None"
  shows "\<exists>w1. pick_copy (Suc (Suc (Suc (Suc k)))) w = Ret (x, w1) \<and> connected w1 \<and>
    w_ext w1 = (w_ext w)\<lparr>ex_tick := Suc (ex_tick (w_ext w))\<rparr> \<and> w_ls w1 = granted x w \<and>
    w_lc w1 = set_state x LOCKED (set_state x ACQUIRING (w_lc w))"
proof -
  obtain y w0 where g: "get_rand_num w = (y, w0)" by fastforce
  have w0: "w0 = w\<lparr>w_pos := w_pos w + 2\<rparr>" using g by (auto simp: get_rand_num_def Let_def)
  have y: "y OR 0x80000000 = x" using g x by simp
  have c: "connected w0" using assms(1) by (simp add: w0 connected_def)
  let ?w1 = "w0\<lparr>w_ls := granted x w0, w_lc := set_state x LOCKED (set_state x ACQUIRING (w_lc w0))\<rparr>"
  have a: "acquire_wo (Suc (Suc (Suc k))) x w0 = Ret (l_OK, ?w1)"
    using acquire_none [OF c, of x k] assms(3,4) by (simp add: w0)
  have e: "w_lift (eu_remote_exists x) ?w1 = Ret (False, ?w1\<lparr>w_ext := (w_ext w)\<lparr>ex_tick := Suc (ex_tick (w_ext w))\<rparr>\<rparr>)"
    using ec_get_absent [OF assms(5,6)] by (simp add: w_lift_def eu_remote_exists_def ec_remote_exists_def w0)
  show ?thesis using c
    by (simp add: g Let_def y a e pick_copy.simps(2) del: acquire_wo.simps) (simp add: w0 connected_def granted_def)
qed

lemma resolve_first:
  assumes c: "connected w" and x: "x = fst (get_rand_num w) OR 0x80000000" and ne: "distinct [lid, 2, x]"
    and free: "lk (w_lc w) x = lockstate_new" "\<not> locked (li (w_ls w) x)" "lk (w_lc w) 2 = lockstate_new" "\<not> locked (li (w_ls w) 2)"
    and ok: "cache_ok (- {lid}) (w_ext w)" and e: "mfind (local_extent (w_ext w)) lid = Some e"
    and new: "view (w_ext w) x = None" and tmp: "view (w_ext w) 2 = Some t" and d: "yfs_dir_new t = Ret d"
  shows "\<exists>w' name. resolve_conflict (Suc (Suc (Suc (Suc (Suc k))))) lid w = Ret w' \<and> cache_ok UNIV (w_ext w') \<and>
    \<not> dir_exists name d \<and> lk (w_lc w') lid = lk (w_lc w) lid \<and>
    lk_state (lk (w_lc w') 2) = FREE \<and> lk_state (lk (w_lc w') x) = FREE \<and>
    view (w_ext w') = (view (w_ext w))(lid := es_look (ex_srv (w_ext w)) lid, x \<mapsto> ee_extent e, 2 \<mapsto> dir_to_string (mput name x d))"
proof -
  obtain w1 where w1: "pick_copy (Suc (Suc (Suc (Suc k)))) w = Ret (x, w1)" "connected w1"
      "w_ext w1 = (w_ext w)\<lparr>ex_tick := Suc (ex_tick (w_ext w))\<rparr>" "w_ls w1 = granted x w"
      "w_lc w1 = set_state x LOCKED (set_state x ACQUIRING (w_lc w))"
    using pick_copy_first [OF c x free(1,2) ok new] by blast
  define w2 where "w2 = w1\<lparr>w_ls := granted 2 w1, w_lc := set_state 2 LOCKED (set_state 2 ACQUIRING (w_lc w1))\<rparr>"
  have a2: "acquire_wo (Suc (Suc (Suc (Suc k)))) 2 w1 = Ret (l_OK, w2)"
    using acquire_none [OF w1(2), of 2 "Suc k"] ne free by (simp add: w1(4,5) granted_def w2_def)
  have vl: "view (w_ext w) lid = Some (ee_extent e)" using e by (simp add: view_def)
  obtain e3 name where e3: "eu_make_copy lid x 2 (w_ext w1) = Ret e3" "cache_ok (- {lid}) e3" "\<not> dir_exists name d"
      "view e3 = (view (w_ext w))(x \<mapsto> ee_extent e, 2 \<mapsto> dir_to_string (mput name x d))" "grows (w_ext w) e3"
      "mfind (local_extent e3) lid \<noteq> None"
    using make_copy_spec [of "- {lid}" "w_ext w1" lid "ee_extent e" x 2 t d] ok vl new tmp d
    by (auto simp: w1(3) grows_def)
  define e4 where "e4 = e3\<lparr>local_extent := merase lid (local_extent e3)\<rparr>"
  have r4: "eu_remove lid e3 = Ret e4" using e3(6) by (auto simp: eu_remove_def ec_remove_def mcount_1 verify_def e4_def)
  have ok4: "cache_ok UNIV e4" using e3(2) by (auto simp: cache_ok_def sized_def synced_def e4_def split: if_splits)
  have "view e4 l = (if l = lid then es_look (ex_srv (w_ext w)) lid else view e3 l)" for l
    using e3(2,5) by (auto simp: e4_def view_def cache_ok_def grows_def split: option.splits)
  then have v4: "view e4 = (view (w_ext w))(lid := es_look (ex_srv (w_ext w)) lid, x \<mapsto> ee_extent e, 2 \<mapsto> dir_to_string (mput name x d))"
    using e3(4) ne by (auto simp: fun_eq_iff)
  define w4 where "w4 = w2\<lparr>w_ext := e4\<rparr>"
  have st: "lk_state (lk (w_lc w4) 2) = LOCKED" "\<not> lk_stale (lk (w_lc w4) 2)"
      "lk_state (lk (w_lc w4) x) = LOCKED" "\<not> lk_stale (lk (w_lc w4) x)"
    using ne free by (auto simp: w4_def w2_def w1(5))
  let ?w5 = "w4\<lparr>w_lc := set_state 2 FREE (w_lc w4)\<rparr>"
  let ?w6 = "?w5\<lparr>w_lc := set_state x FREE (w_lc ?w5)\<rparr>"
  have r5: "release_wo 2 w4 = Ret (l_OK, ?w5)" "release_wo x ?w5 = Ret (l_OK, ?w6)"
    using st ne by (auto simp: release_locked)
  have "resolve_conflict (Suc (Suc (Suc (Suc (Suc k))))) lid w = Ret ?w6"
    using w1(1) a2 e3(1) r4 r5
    by (simp add: resolve_conflict.simps(2) w_do_def w2_def w4_def verify_def l_OK_def del: acquire_wo.simps pick_copy.simps)
  moreover have "lk (w_lc ?w6) lid = lk (w_lc w) lid" using ne by (auto simp: w4_def w2_def w1(5))
  ultimately show ?thesis using ok4 v4 e3(3) ne by (intro exI [of _ ?w6] exI [of _ name]) (auto simp: w4_def)
qed

section \<open>Properties of the lock client\<close>

text \<open>
  A cached lock costs nothing: a lock in state \<^verbatim>\<open>FREE\<close> that is not stale is taken and given back
  locally, whether or not the servers answer and whether or not the client is disconnected;
  neither server's state nor any extent changes, and the lock is \<^verbatim>\<open>FREE\<close> again afterwards.
\<close>

theorem cached_lock_is_local:
  assumes "lk (w_lc w) lid = \<lparr>lk_state = FREE, lk_stale = False\<rparr>"
  shows "\<exists>w1 w2. lc_acquire (Suc n) lid w = Ret (l_OK, w1) \<and> lk_state (lk (w_lc w1) lid) = LOCKED \<and>
    lc_release lid w1 = Ret (l_OK, w2) \<and> w_ls w2 = w_ls w \<and> w_ext w2 = w_ext w \<and>
    (\<forall>l. lk (w_lc w2) l = lk (w_lc w) l)"
proof -
  let ?w = "w\<lparr>w_lc := set_state lid LOCKED (w_lc w)\<rparr>"
  have "lc_acquire (Suc n) lid w = Ret (l_OK, ?w)"
    using assms by (simp add: lc_acquire_def acq_entry_def acq_try_def verify_def)
  moreover have "lc_release lid ?w = Ret (l_OK, ?w\<lparr>w_lc := set_state lid FREE (w_lc ?w)\<rparr>)"
    using assms release_locked [of ?w lid] by (simp add: lc_release_def)
  ultimately show ?thesis using assms by auto
qed

definition world_new :: "string \<Rightarrow> (nat \<Rightarrow> u32) \<Rightarrow> world" where
  "world_new cid rnd =
     \<lparr>w_lc = lock_client_cache_new cid, w_ext = ext_new (\<lambda>n. of_nat n) 9, w_ls = lock_server_cache_new, w_up = True,
      w_peer = (\<lambda>_ _. None), w_rand = rnd, w_pos = 0\<rparr>"

theorem cached_lock_is_local_witness:
  "\<exists>w1. lc_acquire 1 7 ((world_new ''c'' (\<lambda>_. 0))\<lparr>w_up := False, w_lc :=
      \<lparr>lc_id = ''c'', lc_status = [(7, \<lparr>lk_state = FREE, lk_stale = False\<rparr>)], lc_disconnected = True\<rparr>\<rparr>) = Ret (l_OK, w1)"
  using cached_lock_is_local [of "(world_new ''c'' (\<lambda>_. 0))\<lparr>w_up := False, w_lc :=
      \<lparr>lc_id = ''c'', lc_status = [(7, \<lparr>lk_state = FREE, lk_stale = False\<rparr>)], lc_disconnected = True\<rparr>\<rparr>" 7 0]
  by (auto simp: mget_def)

text \<open>
  While a client is disconnected, a lock that it has not cached is refused with \<^verbatim>\<open>DISCONNECTED\<close>, without
  any change of state.
\<close>

theorem disconnected_uncached_refused:
  assumes "lc_disconnected (w_lc w)" and "lk_state (lk (w_lc w) lid) = NONE"
  shows "lc_acquire (Suc n) lid w = Ret (l_DISCONNECTED, w)"
  using assms by (simp add: lc_acquire_def acq_entry_def acq_try_def verify_def)

theorem disconnected_uncached_refused_witness:
  "lc_acquire 1 7 ((world_new ''c'' (\<lambda>_. 0))\<lparr>w_lc := (lock_client_cache_new ''c'')\<lparr>lc_disconnected := True\<rparr>\<rparr>)
    = Ret (l_DISCONNECTED, (world_new ''c'' (\<lambda>_. 0))\<lparr>w_lc := (lock_client_cache_new ''c'')\<lparr>lc_disconnected := True\<rparr>\<rparr>)"
  using disconnected_uncached_refused [of "(world_new ''c'' (\<lambda>_. 0))\<lparr>w_lc := (lock_client_cache_new ''c'')\<lparr>lc_disconnected := True\<rparr>\<rparr>" 7 0]
  by (simp add: lock_client_cache_new_def mget_def mfind_def)

text \<open>
  C36. A reconnecting client keeps its own changes when nobody else has written: reacquiring a stale
  lock whose modified extent is based on the server's current version leaves the cached extent as
  it is, and the lock is held and no longer stale.
\<close>

theorem reacquire_keeps_latest:
  assumes "connected w" and "\<not> locked (li (w_ls w) lid)" and "lk (w_lc w) lid = \<lparr>lk_state = FREE, lk_stale = True\<rparr>"
    and "ex_up (w_ext w)" and "mfind (local_extent (w_ext w)) lid = Some e" and "ee_dirty e"
    and "mfind (es_table (ex_srv (w_ext w))) lid = Some f" and "a_version (fi_a f) = a_version (ee_attr e)"
  shows "\<exists>w'. lc_acquire (Suc (Suc (Suc n))) lid w = Ret (l_OK, w') \<and> w_ext w' = w_ext w \<and>
    lk (w_lc w') lid = \<lparr>lk_state = LOCKED, lk_stale = False\<rparr> \<and> lsc_holder (w_ls w') lid = Some (lc_id (w_lc w))"
proof -
  let ?w = "w\<lparr>w_ls := granted lid w, w_lc := set_state lid ACQUIRING (w_lc w)\<rparr>"
  have "refresh (resolve_conflict n) lid ?w = Ret ?w"
    using refresh_dirty [of ?w lid e f "resolve_conflict n"] assms(4-8) by simp
  then show ?thesis using acquire_stale [OF assms(1-3), of n] assms(3)
    by (simp add: lc_acquire_def lsc_holder_def granted_def)
qed

text \<open>
  C38. A reconnected client destroys what it did not change. When a client holds the lock of an extent
  and an unmodified copy, reconnecting (which reacquires and releases the stale lock) drops the
  copy; the next revocation of the lock then finds the extent not cached, takes it for removed, and
  deletes it on the server.
\<close>

theorem reconnect_then_revoke_deletes:
  assumes "connected w" and "\<not> locked (li (w_ls w) lid)" and "lk (w_lc w) lid = \<lparr>lk_state = FREE, lk_stale = True\<rparr>"
    and "cache_ok UNIV (w_ext w)" and "mfind (local_extent (w_ext w)) lid = Some e" and "\<not> ee_dirty e"
  shows "es_look (ex_srv (w_ext w)) lid = Some (ee_extent e) \<and>
    (\<exists>w1 w2 w3 r. lc_acquire (Suc (Suc (Suc n))) lid w = Ret (l_OK, w1) \<and> lc_release lid w1 = Ret (l_OK, w2) \<and>
       revoke_handler lid w2 = Ret (rl_OK, r, w3) \<and> es_look (ex_srv (w_ext w3)) lid = None)"
proof -
  let ?w = "w\<lparr>w_ls := granted lid w, w_lc := set_state lid ACQUIRING (w_lc w)\<rparr>"
  let ?e = "(w_ext w)\<lparr>local_extent := merase lid (local_extent (w_ext w))\<rparr>"
  have wf: "mwf (local_extent (w_ext w))" using assms(4) by (simp add: cache_ok_def)
  define w1 where "w1 = w\<lparr>w_ls := granted lid w, w_ext := ?e,
    w_lc := set_state lid LOCKED (set_stale lid False (set_state lid ACQUIRING (w_lc w)))\<rparr>"
  have 1: "lc_acquire (Suc (Suc (Suc n))) lid w = Ret (l_OK, w1)"
    using acquire_stale [OF assms(1-3), of n] refresh_clean [of ?w lid e "resolve_conflict n"] assms(5,6)
    by (simp add: lc_acquire_def w1_def)
  define w2 where "w2 = w1\<lparr>w_lc := set_state lid FREE (w_lc w1)\<rparr>"
  have 2: "lc_release lid w1 = Ret (l_OK, w2)"
    using release_locked [of w1 lid] by (simp add: lc_release_def w1_def w2_def)
  have "cache_ok UNIV ?e" using assms(4) by (auto simp: cache_ok_def sized_def synced_def split: if_splits)
  moreover have "mfind (local_extent ?e) lid = None" using wf by simp
  ultimately obtain e' where f: "eu_dorelease lid ?e = Ret e'" "es_look (ex_srv e') lid = None"
    using dorelease_absent [of UNIV ?e lid] by blast
  have r: "revoke_try lid (w_lc w2) = (VRelease, set_state lid FREE_RLS (w_lc w2))"
    using assms(1,3) by (simp add: revoke_try_def w2_def w1_def connected_def)
  have "\<exists>r w3. revoke_handler lid w2 = Ret (rl_OK, r, w3) \<and> w_ext w3 = e'"
    using assms(1) r f
    by (simp add: revoke_handler_def w_do_def w2_def w1_def call_release_def connected_def lsc_release_def granted_def
        verify_def)
  moreover have "es_look (ex_srv (w_ext w)) lid = Some (ee_extent e)"
    using assms(4-6) by (simp add: cache_ok_def sized_def synced_def)
  ultimately show ?thesis using 1 2 f(2) by blast
qed

text \<open>
  A conflict on the directory for conflicts itself is never resolved: reacquiring lock 2, whose
  modified extent is older than the server's, needs lock 2 again and waits for it forever.
\<close>

theorem conflict_on_tmp_dir_hangs:
  assumes "connected w" and "\<not> locked (li (w_ls w) 2)" and "lk (w_lc w) 2 = \<lparr>lk_state = FREE, lk_stale = True\<rparr>"
    and "ex_up (w_ext w)" and "mfind (local_extent (w_ext w)) 2 = Some e" and "ee_dirty e"
    and "mfind (es_table (ex_srv (w_ext w))) 2 = Some f" and "a_version (ee_attr e) < a_version (fi_a f)"
  shows "lc_acquire (Suc (Suc (Suc n))) 2 w \<noteq> Ret (r, w')"
proof -
  let ?w = "w\<lparr>w_ls := granted 2 w, w_lc := set_state 2 ACQUIRING (w_lc w)\<rparr>"
  have "refresh (resolve_conflict n) 2 ?w = resolve_conflict n 2 ?w"
    using refresh_dirty [of ?w 2 e f "resolve_conflict n"] assms(4-8) by (auto simp: less_imp_le)
  moreover have "busy 2 ?w" by (simp add: busy_def)
  ultimately show ?thesis
    using acquire_stale [OF assms(1-3), of n] resolve_busy [of ?w n 2] by (auto simp: lc_acquire_def)
qed

text \<open>
  C9. Disconnected operation, the write/write conflict. A reconnecting client whose modified extent is
  older than the server's reacquires the lock and ends with the server's version of the extent
  under its own number and its own version saved as a new file, entered under an unused name in the
  directory for conflicts; every other extent reads as before, the cache is consistent with the
  server again, and the lock is held and no longer stale. (The conflict is not on that directory,
  the first number tried is unused and its lock and that of the directory are free.)
\<close>

theorem conflict_resolved:
  assumes c: "connected w" "\<not> locked (li (w_ls w) lid)" "lk (w_lc w) lid = \<lparr>lk_state = FREE, lk_stale = True\<rparr>"
    and ok: "cache_ok (- {lid}) (w_ext w)"
    and e: "mfind (local_extent (w_ext w)) lid = Some e" "ee_dirty e"
    and f: "mfind (es_table (ex_srv (w_ext w))) lid = Some f" "a_version (ee_attr e) < a_version (fi_a f)"
    and x: "x = fst (get_rand_num w) OR 0x80000000" "distinct [lid, 2, x]"
    and free: "lk (w_lc w) x = lockstate_new" "\<not> locked (li (w_ls w) x)" "lk (w_lc w) 2 = lockstate_new" "\<not> locked (li (w_ls w) 2)"
    and v: "view (w_ext w) x = None" "view (w_ext w) 2 = Some t" "yfs_dir_new t = Ret d"
  shows "\<exists>w' name. lc_acquire (8 + k) lid w = Ret (l_OK, w') \<and> cache_ok UNIV (w_ext w') \<and> \<not> dir_exists name d \<and>
    lk_state (lk (w_lc w') lid) = LOCKED \<and> \<not> lk_stale (lk (w_lc w') lid) \<and>
    view (w_ext w') = (view (w_ext w))(lid \<mapsto> fi_buf f, x \<mapsto> ee_extent e, 2 \<mapsto> dir_to_string (mput name x d))"
proof -
  let ?w = "w\<lparr>w_ls := granted lid w, w_lc := set_state lid ACQUIRING (w_lc w)\<rparr>"
  let ?n = "Suc (Suc (Suc (Suc (Suc k))))"
  have up: "ex_up (w_ext w)" using ok by (simp add: cache_ok_def)
  have rf: "refresh (resolve_conflict ?n) lid ?w = resolve_conflict ?n lid ?w"
    using refresh_dirty [of ?w lid e f "resolve_conflict ?n"] up e f by (auto simp: less_imp_le)
  have cw: "connected ?w" using c(1) by (simp add: connected_def)
  have xw: "x = fst (get_rand_num ?w) OR 0x80000000" using x(1) by (simp add: get_rand_num_def Let_def)
  obtain w' name where w': "resolve_conflict ?n lid ?w = Ret w'" "cache_ok UNIV (w_ext w')" "\<not> dir_exists name d"
      "view (w_ext w') = (view (w_ext w))(lid := es_look (ex_srv (w_ext w)) lid, x \<mapsto> ee_extent e, 2 \<mapsto> dir_to_string (mput name x d))"
    using resolve_first [OF cw xw x(2), of e t d k] free ok e(1) v x(2) by (auto simp: granted_def)
  have "es_look (ex_srv (w_ext w)) lid = Some (fi_buf f)" using f(1) by (simp add: es_look_def)
  moreover have "lc_acquire (8 + k) lid w = Ret (l_OK, w'\<lparr>w_lc := set_state lid LOCKED (set_stale lid False (w_lc w'))\<rparr>)"
    using acquire_stale [OF c, of ?n] rf w'(1) by (simp add: lc_acquire_def eval_nat_numeral del: resolve_conflict.simps acquire_wo.simps)
  ultimately show ?thesis using w'(2-4) by auto
qed

text \<open>A client that has come back with lock and extent 2 or 7, modified or not, at version 3 of what it read.\<close>

definition reconnect_example :: "u64 \<Rightarrow> bool \<Rightarrow> u32 \<Rightarrow> world" where
  "reconnect_example lid dirty v =
     (world_new ''c'' (\<lambda>_. 5))\<lparr>w_lc := \<lparr>lc_id = ''c'', lc_status = [(lid, \<lparr>lk_state = FREE, lk_stale = True\<rparr>)], lc_disconnected = False\<rparr>,
       w_ext := (ext_new (\<lambda>n. of_nat n) 9)\<lparr>
         local_extent := [(lid, \<lparr>ee_dirty = dirty, ee_extent = ''mine'', ee_attr = attr_zero\<lparr>a_size := 4, a_version := 3, a_name := ''f''\<rparr>\<rparr>)],
         ex_srv := \<lparr>es_table = (if lid = 2 then [] else [(2, \<lparr>fi_buf = '':'', fi_a = attr_zero\<lparr>a_size := 1\<rparr>\<rparr>)]) @
           [(lid, \<lparr>fi_buf = (if dirty then ''theirs'' else ''mine''), fi_a = attr_zero\<lparr>a_size := (if dirty then 6 else 4), a_version := v\<rparr>\<rparr>)]\<rparr>\<rparr>\<rparr>"

lemmas example_defs = reconnect_example_def world_new_def ext_new_def connected_def lock_server_cache_new_def mfind_def mget_def
  attr_zero_def lockstate_new_def

theorem conflict_resolved_witness:
  "\<exists>w' name. lc_acquire 8 7 (reconnect_example 7 True 4) = Ret (l_OK, w') \<and>
     view (w_ext w') 7 = Some ''theirs'' \<and> view (w_ext w') 0x80000005 = Some ''mine'' \<and>
     view (w_ext w') 2 = Some (dir_to_string [(name, 0x80000005)])"
proof -
  let ?w = "reconnect_example 7 True 4"
  let ?e = "\<lparr>ee_dirty = True, ee_extent = ''mine'', ee_attr = attr_zero\<lparr>a_size := 4, a_version := 3, a_name := ''f''\<rparr>\<rparr>"
  let ?f = "\<lparr>fi_buf = ''theirs'', fi_a = attr_zero\<lparr>a_size := 6, a_version := 4\<rparr>\<rparr>"
  have x: "fst (get_rand_num ?w) OR 0x80000000 = 0x80000005"
    by (simp add: get_rand_num_def Let_def example_defs)
  have ok: "cache_ok (- {7}) (w_ext ?w)" by (auto simp: cache_ok_def sized_def synced_def example_defs)
  have "\<exists>w' name. lc_acquire (8 + 0) 7 ?w = Ret (l_OK, w') \<and> cache_ok UNIV (w_ext w') \<and> \<not> dir_exists name [] \<and>
    lk_state (lk (w_lc w') 7) = LOCKED \<and> \<not> lk_stale (lk (w_lc w') 7) \<and>
    view (w_ext w') = (view (w_ext ?w))(7 \<mapsto> fi_buf ?f, 0x80000005 \<mapsto> ee_extent ?e, 2 \<mapsto> dir_to_string (mput name 0x80000005 []))"
    by (rule conflict_resolved [where t = "'':''"])
      (use ok in \<open>simp_all add: x\<close>, simp_all add: example_defs view_def es_look_def yfs_dir_new_def)
  then show ?thesis by (auto simp: del: acquire_wo.simps)
qed

theorem reacquire_keeps_latest_witness:
  "\<exists>w'. lc_acquire 3 7 (reconnect_example 7 True 3) = Ret (l_OK, w') \<and> w_ext w' = w_ext (reconnect_example 7 True 3)"
proof -
  have "\<exists>w'. lc_acquire (Suc (Suc (Suc 0))) 7 (reconnect_example 7 True 3) = Ret (l_OK, w') \<and> w_ext w' = w_ext (reconnect_example 7 True 3) \<and>
    lk (w_lc w') 7 = \<lparr>lk_state = LOCKED, lk_stale = False\<rparr> \<and> lsc_holder (w_ls w') 7 = Some (lc_id (w_lc (reconnect_example 7 True 3)))"
    by (rule reacquire_keeps_latest [where e = "\<lparr>ee_dirty = True, ee_extent = ''mine'', ee_attr = attr_zero\<lparr>a_size := 4, a_version := 3, a_name := ''f''\<rparr>\<rparr>"
          and f = "\<lparr>fi_buf = ''theirs'', fi_a = attr_zero\<lparr>a_size := 6, a_version := 3\<rparr>\<rparr>"]) (simp_all add: example_defs)
  then show ?thesis by (auto simp: eval_nat_numeral)
qed

theorem reconnect_then_revoke_deletes_witness:
  "\<exists>w1 w2 w3 r. lc_acquire 3 7 (reconnect_example 7 False 3) = Ret (l_OK, w1) \<and> lc_release 7 w1 = Ret (l_OK, w2) \<and>
     revoke_handler 7 w2 = Ret (rl_OK, r, w3) \<and> es_look (ex_srv (w_ext w3)) 7 = None"
proof -
  let ?w = "reconnect_example 7 False 3"
  let ?e = "\<lparr>ee_dirty = False, ee_extent = ''mine'', ee_attr = attr_zero\<lparr>a_size := 4, a_version := 3, a_name := ''f''\<rparr>\<rparr>"
  have "cache_ok UNIV (w_ext ?w)" by (auto simp: cache_ok_def sized_def synced_def example_defs es_look_def)
  then show ?thesis
    using reconnect_then_revoke_deletes [of ?w 7 ?e 0] by (simp add: example_defs eval_nat_numeral)
qed

theorem conflict_on_tmp_dir_hangs_witness:
  "\<forall>n r w'. lc_acquire (Suc (Suc (Suc n))) 2 (reconnect_example 2 True 4) \<noteq> Ret (r, w')"
  by (intro allI, rule conflict_on_tmp_dir_hangs [where e = "\<lparr>ee_dirty = True, ee_extent = ''mine'', ee_attr = attr_zero\<lparr>a_size := 4, a_version := 3, a_name := ''f''\<rparr>\<rparr>"
          and f = "\<lparr>fi_buf = ''theirs'', fi_a = attr_zero\<lparr>a_size := 6, a_version := 4\<rparr>\<rparr>"]) (simp_all add: example_defs)

text \<open>The retry RPC of the server, answered by the clients' \<^verbatim>\<open>retry_handler\<close>.\<close>

definition retry_rpc :: "(string \<Rightarrow> lock_client_cache) \<Rightarrow> string \<Rightarrow> u64 \<Rightarrow> (u32 \<times> u32) option" where
  "retry_rpc clients c lid = (case retry_handler lid (clients c) of (ret, r, c') \<Rightarrow> Some (ret, r))"

lemma retry_loop_disconnected:
  "b \<in> set cs \<Longrightarrow> lc_disconnected (clients b) \<Longrightarrow> retry_loop (retry_rpc clients) lid cs = Fault Verify_failed"
proof (induction cs)
  case (Cons c cs)
  then show ?case
    by (cases "lc_disconnected (clients c)")
      (auto simp: retry_rpc_def retry_handler_def verify_def l_status_defs Let_def split: if_splits)
qed simp

text \<open>
  A client that disconnects while it waits for a lock brings the lock server down:
  \<^verbatim>\<open>disconnect_server\<close> does not take it out of the waiting sets of locks that others own, so the
  release by the owner sends it a retry, which it answers with \<^verbatim>\<open>DISCONNECTED\<close> and the retry thread
  does not accept.
\<close>

theorem waiting_client_disconnect_aborts_server:
  assumes "b \<in> set (waiting_set (li s lid))" and "owner (li s lid) = a" and "a \<noteq> b"
    and "lc_disconnected (clients b)"
  shows "\<exists>ret r info s'. lsc_release lid a (snd (disconnect_server b s)) = Ret ((ret, r, info), s') \<and>
    retry_wrapper (retry_rpc clients) info = Fault Verify_failed"
proof -
  have "li (snd (disconnect_server b s)) lid = li s lid" using assms(2,3) by (simp add: li_disconnect free_of_def)
  then show ?thesis using assms retry_loop_disconnected [of b "waiting_set (li s lid)" clients lid]
    by (simp add: lsc_release_def verify_def retry_wrapper_def)
qed

theorem waiting_client_disconnect_aborts_server_witness:
  "\<exists>ret r info s'. lsc_release 3 ''a'' (snd (disconnect_server ''b''
      \<lparr>nacquire = 0, lock_status = [(3, \<lparr>locked = True, owner = ''a'', waiting_set = [''b'']\<rparr>)]\<rparr>)) = Ret ((ret, r, info), s') \<and>
    retry_wrapper (retry_rpc (\<lambda>c. (lock_client_cache_new c)\<lparr>lc_disconnected := True\<rparr>)) info = Fault Verify_failed"
  by (rule waiting_client_disconnect_aborts_server [where clients = "\<lambda>c. (lock_client_cache_new c)\<lparr>lc_disconnected := True\<rparr>"])
    (simp_all add: mget_def mfind_def)

end
