(* ===== verification/Yfs_Client.thy ===== *)
theory Yfs_Client
  imports Lock_Client_Cache
begin

text \<open>
  The file system client \<^verbatim>\<open>yfs_client\<close> (\<^verbatim>\<open>yfs_client.h\<close>, \<^verbatim>\<open>yfs_client.cc\<close>): files and directories
  on top of the caching lock client and the extent cache. Each operation takes the fuel of
  \<open>Lock_Client_Cache\<close>'s \<^verbatim>\<open>acquire_wo\<close>; \<open>create\<close> and \<open>mkdir\<close> use it for their search for an unused inode
  number too.
\<close>

section \<open>Data\<close>

definition y_OK :: u32 where "y_OK = 0"
definition y_RPCERR :: u32 where "y_RPCERR = 1"
definition y_NOENT :: u32 where "y_NOENT = 2"
definition y_IOERR :: u32 where "y_IOERR = 3"
definition y_EXIST :: u32 where "y_EXIST = 4"
definition y_DISCONNECTED :: u32 where "y_DISCONNECTED = 5"

lemmas y_status_defs = y_OK_def y_RPCERR_def y_NOENT_def y_IOERR_def y_EXIST_def y_DISCONNECTED_def

record fileinfo =
  fin_size :: u64
  fin_atime :: u64
  fin_mtime :: u64
  fin_ctime :: u64
  fin_version :: u64

record dirinfo =
  din_atime :: u64
  din_mtime :: u64
  din_ctime :: u64

definition ext2yfs :: "u32 \<Rightarrow> u32" where
  "ext2yfs r = (if r = e_OK then y_OK else if r = e_NOENT then y_NOENT else if r = e_RPCERR then y_RPCERR else y_IOERR)"

definition isfile :: "u64 \<Rightarrow> bool" where
  "isfile inum \<longleftrightarrow> inum AND 0x80000000 \<noteq> 0"

definition isdir :: "u64 \<Rightarrow> bool" where
  "isdir inum \<longleftrightarrow> \<not> isfile inum"

text \<open>The cache's operations on the world.\<close>

definition w_get :: "u64 \<Rightarrow> world \<Rightarrow> (u32 \<times> string \<times> world) res" where
  "w_get i w = bind_res (ec_get i (w_ext w)) (\<lambda>(ret, b, e). Ret (ret, b, w\<lparr>w_ext := e\<rparr>))"

definition w_getattr :: "u64 \<Rightarrow> world \<Rightarrow> (u32 \<times> attr \<times> world) res" where
  "w_getattr i w = bind_res (ec_getattr i (w_ext w)) (\<lambda>(ret, a, e). Ret (ret, a, w\<lparr>w_ext := e\<rparr>))"

definition w_put :: "u64 \<Rightarrow> string \<Rightarrow> world \<Rightarrow> (u32 \<times> world) res" where
  "w_put i b w = w_lift (ec_put i b) w"

definition w_rename :: "u64 \<Rightarrow> string \<Rightarrow> world \<Rightarrow> (u32 \<times> world) res" where
  "w_rename i n w = w_lift (ec_rename i n) w"

definition w_remove :: "u64 \<Rightarrow> world \<Rightarrow> (u32 \<times> world) res" where
  "w_remove i w = w_lift (ec_remove i) w"

text \<open>\<^verbatim>\<open>lc->release(ino)\<close> with the status thrown away, then a return.\<close>

definition release_return :: "u64 \<Rightarrow> 'a \<Rightarrow> world \<Rightarrow> ('a \<times> world) res" where
  "release_return lid a w = bind_res (lc_release lid w) (\<lambda>(r, w). Ret (a, w))"

section \<open>Operations\<close>

definition getfile_helper :: "u64 \<Rightarrow> fileinfo \<Rightarrow> world \<Rightarrow> ((u32 \<times> fileinfo) \<times> world) res" where
  "getfile_helper ino fin0 w =
     bind_res (w_getattr ino w) (\<lambda>(ret, a, w).
       let ret = ext2yfs ret in
       if ret = y_OK
       then Ret ((ret, \<lparr>fin_size = ucast (a_size a), fin_atime = ucast (a_atime a), fin_mtime = ucast (a_mtime a),
                        fin_ctime = ucast (a_ctime a), fin_version = ucast (a_version a)\<rparr>), w)
       else Ret ((ret, fin0), w))"

definition getfile :: "nat \<Rightarrow> u64 \<Rightarrow> fileinfo \<Rightarrow> world \<Rightarrow> ((u32 \<times> fileinfo) \<times> world) res" where
  "getfile n ino fin0 w =
     bind_res (lc_acquire n ino w) (\<lambda>(r, w).
       if r = l_DISCONNECTED then Ret ((y_DISCONNECTED, fin0), w)
       else bind_res (getfile_helper ino fin0 w) (\<lambda>(x, w). release_return ino x w))"

definition getdir :: "nat \<Rightarrow> u64 \<Rightarrow> dirinfo \<Rightarrow> world \<Rightarrow> ((u32 \<times> dirinfo) \<times> world) res" where
  "getdir n inum din0 w =
     bind_res (lc_acquire n inum w) (\<lambda>(r, w).
       if r = l_DISCONNECTED then Ret ((y_DISCONNECTED, din0), w)
       else bind_res (w_getattr inum w) (\<lambda>(ret, a, w).
         let ret = ext2yfs ret;
             din = (if ret = y_OK then \<lparr>din_atime = ucast (a_atime a), din_mtime = ucast (a_mtime a),
                                        din_ctime = ucast (a_ctime a)\<rparr> else din0)
         in release_return inum (ret, din) w))"

text \<open>The loop that picks an inode number: \<open>fbit\<close> is the bit of a file.\<close>

fun pick_ino :: "nat \<Rightarrow> u64 \<Rightarrow> world \<Rightarrow> (u64 \<times> world) res" where
  "pick_ino 0 fbit w = Stuck"
| "pick_ino (Suc n) fbit w =
     (case get_rand_num w of (x, w) \<Rightarrow>
        let new_ino = x OR fbit in
        bind_res (lc_acquire n new_ino w) (\<lambda>(r, w).
        bind_res (w_get new_ino w) (\<lambda>(ret, dummy, w).
          if ext2yfs ret = y_NOENT then Ret (new_ino, w)
          else bind_res (lc_release new_ino w) (\<lambda>(r, w). pick_ino n fbit w))))"

definition create_body :: "u64 \<Rightarrow> string \<Rightarrow> u64 \<Rightarrow> yfs_dir \<Rightarrow> world \<Rightarrow> (u32 \<times> world) res" where
  "create_body p_ino name new_ino p_dir w =
     bind_res (w_put new_ino [] w) (\<lambda>(ret, w).
       if ext2yfs ret \<noteq> y_OK then Ret (ext2yfs ret, w)
       else bind_res (w_rename new_ino name w) (\<lambda>(ret, w).
         if ext2yfs ret \<noteq> y_OK then Ret (ext2yfs ret, w)
         else (let p_dir = dir_add \<lparr>de_name = name, de_inum = new_ino\<rparr> p_dir in
           bind_res (w_put p_ino (dir_to_string p_dir) w) (\<lambda>(ret, w).
             if ext2yfs ret \<noteq> y_OK then bind_res (w_remove new_ino w) (\<lambda>(r, w). Ret (ext2yfs ret, w))
             else Ret (ext2yfs ret, w)))))"

definition y_create :: "nat \<Rightarrow> u64 \<Rightarrow> string \<Rightarrow> u64 \<Rightarrow> world \<Rightarrow> ((u32 \<times> u64) \<times> world) res" where
  "y_create n p_ino name ino0 w =
     bind_res (lc_acquire n p_ino w) (\<lambda>(r, w).
       if r = l_DISCONNECTED then Ret ((y_DISCONNECTED, ino0), w)
       else bind_res (w_get p_ino w) (\<lambda>(ret, p_dir_str, w).
         let ret = ext2yfs ret in
         if ret \<noteq> y_OK then release_return p_ino (ret, ino0) w
         else bind_res (yfs_dir_new p_dir_str) (\<lambda>p_dir.
           if dir_exists name p_dir then release_return p_ino (y_EXIST, ino0) w
           else bind_res (pick_ino n 0x80000000 w) (\<lambda>(new_ino, w).
             bind_res (create_body p_ino name new_ino p_dir w) (\<lambda>(ret, w).
             bind_res (lc_release new_ino w) (\<lambda>(r, w).
               release_return p_ino (ret, new_ino) w))))))"

definition mkdir_body :: "u64 \<Rightarrow> string \<Rightarrow> u64 \<Rightarrow> yfs_dir \<Rightarrow> world \<Rightarrow> (u32 \<times> world) res" where
  "mkdir_body p_ino name new_ino p_dir w =
     bind_res (w_put new_ino '':'' w) (\<lambda>(ret, w).
       if ext2yfs ret \<noteq> y_OK then Ret (ext2yfs ret, w)
       else (let p_dir = dir_add \<lparr>de_name = name, de_inum = new_ino\<rparr> p_dir in
         bind_res (w_put p_ino (dir_to_string p_dir) w) (\<lambda>(ret, w).
           if ext2yfs ret \<noteq> y_OK then bind_res (w_remove new_ino w) (\<lambda>(r, w). Ret (ext2yfs ret, w))
           else Ret (ext2yfs ret, w))))"

definition y_mkdir :: "nat \<Rightarrow> u64 \<Rightarrow> string \<Rightarrow> u64 \<Rightarrow> world \<Rightarrow> ((u32 \<times> u64) \<times> world) res" where
  "y_mkdir n p_ino name ino0 w =
     bind_res (lc_acquire n p_ino w) (\<lambda>(r, w).
       if r = l_DISCONNECTED then Ret ((y_DISCONNECTED, ino0), w)
       else bind_res (w_get p_ino w) (\<lambda>(ret, p_dir_str, w).
         let ret = ext2yfs ret in
         if ret \<noteq> y_OK then release_return p_ino (ret, ino0) w
         else bind_res (yfs_dir_new p_dir_str) (\<lambda>p_dir.
           if dir_exists name p_dir then release_return p_ino (y_EXIST, ino0) w
           else bind_res (pick_ino n 0 w) (\<lambda>(new_ino, w).
             bind_res (mkdir_body p_ino name new_ino p_dir w) (\<lambda>(ret, w).
             bind_res (lc_release new_ino w) (\<lambda>(r, w).
               release_return p_ino (ret, new_ino) w))))))"

definition y_unlink :: "nat \<Rightarrow> u64 \<Rightarrow> string \<Rightarrow> world \<Rightarrow> (u32 \<times> world) res" where
  "y_unlink n p_ino name w =
     bind_res (lc_acquire n p_ino w) (\<lambda>(r, w).
       if r = l_DISCONNECTED then Ret (y_DISCONNECTED, w)
       else bind_res (w_get p_ino w) (\<lambda>(ret, p_dir_str, w).
         let ret = ext2yfs ret in
         if ret \<noteq> y_OK then release_return p_ino ret w
         else bind_res (yfs_dir_new p_dir_str) (\<lambda>p_dir.
           if \<not> dir_exists name p_dir then release_return p_ino y_NOENT w
           else (case dir_get name p_dir of (f_ino, p_dir) \<Rightarrow>
             if isdir f_ino then release_return p_ino y_IOERR w
             else bind_res (lc_acquire n f_ino w) (\<lambda>(r, w).
               if r = l_DISCONNECTED then release_return p_ino y_DISCONNECTED w
               else (let p_dir = dir_rem name p_dir in
                 bind_res (w_put p_ino (dir_to_string p_dir) w) (\<lambda>(ret, w).
                   if ext2yfs ret \<noteq> y_OK
                   then bind_res (lc_release f_ino w) (\<lambda>(r, w). release_return p_ino (ext2yfs ret) w)
                   else bind_res (lc_release f_ino w) (\<lambda>(r, w).
                        bind_res (lc_release p_ino w) (\<lambda>(r, w).
                        bind_res (w_remove f_ino w) (\<lambda>(ret, w). Ret (ext2yfs ret, w)))))))))))"

definition y_lookup :: "nat \<Rightarrow> u64 \<Rightarrow> string \<Rightarrow> u64 \<Rightarrow> world \<Rightarrow> ((u32 \<times> u64) \<times> world) res" where
  "y_lookup n p_ino name f_ino0 w =
     bind_res (lc_acquire n p_ino w) (\<lambda>(r, w).
       if r = l_DISCONNECTED then Ret ((y_DISCONNECTED, f_ino0), w)
       else bind_res (w_get p_ino w) (\<lambda>(ret, p_dir_str, w).
         let ret = ext2yfs ret in
         if ret \<noteq> y_OK then release_return p_ino (ret, f_ino0) w
         else bind_res (yfs_dir_new p_dir_str) (\<lambda>p_dir.
           if \<not> dir_exists name p_dir then release_return p_ino (y_NOENT, f_ino0) w
           else release_return p_ino (y_OK, fst (dir_get name p_dir)) w)))"

definition getdir_contents :: "nat \<Rightarrow> u64 \<Rightarrow> world \<Rightarrow> ((u32 \<times> yfs_dir option) \<times> world) res" where
  "getdir_contents n ino w =
     bind_res (lc_acquire n ino w) (\<lambda>(r, w).
       if r = l_DISCONNECTED then Ret ((y_DISCONNECTED, None), w)
       else bind_res (w_get ino w) (\<lambda>(ret, dir_str, w).
         let ret = ext2yfs ret in
         if ret = y_OK
         then bind_res (yfs_dir_new dir_str) (\<lambda>d. release_return ino (ret, Some d) w)
         else release_return ino (ret, None) w))"

text \<open>The new content in \<^verbatim>\<open>setattr\<close>; \<open>None\<close> when nothing is written.\<close>

definition resized :: "u32 \<Rightarrow> u32 \<Rightarrow> string \<Rightarrow> string option" where
  "resized new_size data_size f_data =
     (if new_size = 0 then Some []
      else if new_size < data_size then Some (take (unat new_size) f_data)
      else if new_size > data_size then Some (f_data @ replicate (unat (new_size - data_size)) (CHR 0x00))
      else None)"

definition y_setattr :: "nat \<Rightarrow> u64 \<Rightarrow> u32 \<Rightarrow> fileinfo \<Rightarrow> world \<Rightarrow> (u32 \<times> world) res" where
  "y_setattr n ino new_size fin0 w =
     bind_res (lc_acquire n ino w) (\<lambda>(r, w).
       if r = l_DISCONNECTED then Ret (y_DISCONNECTED, w)
       else bind_res (w_get ino w) (\<lambda>(ret, f_data, w).
         let ret = ext2yfs ret in
         if ret \<noteq> y_OK then release_return ino ret w
         else bind_res (getfile_helper ino fin0 w) (\<lambda>((ret, fin), w).
           if ret \<noteq> y_OK then release_return ino ret w
           else bind_res (case resized new_size (ucast (fin_size fin)) f_data of
                            None \<Rightarrow> Ret (ret, w)
                          | Some b \<Rightarrow> bind_res (w_put ino b w) (\<lambda>(ret, w). Ret (ext2yfs ret, w)))
                  (\<lambda>(ret, w). release_return ino ret w))))"

definition y_read :: "nat \<Rightarrow> u64 \<Rightarrow> u32 \<Rightarrow> u32 \<Rightarrow> string \<Rightarrow> world \<Rightarrow> ((u32 \<times> string) \<times> world) res" where
  "y_read n ino off sz buf0 w =
     bind_res (lc_acquire n ino w) (\<lambda>(r, w).
       if r = l_DISCONNECTED then Ret ((y_DISCONNECTED, buf0), w)
       else bind_res (w_get ino w) (\<lambda>(ret, f_data, w).
         let ret = ext2yfs ret in
         if ret \<noteq> y_OK then release_return ino (ret, buf0) w
         else (let buf = (if unat off < length f_data then take (unat sz) (drop (unat off) f_data) else buf0)
               in release_return ino (y_OK, buf) w)))"

text \<open>The new content in \<^verbatim>\<open>write\<close>, statement by statement.\<close>

definition overwrite :: "string \<Rightarrow> u32 \<Rightarrow> string \<Rightarrow> string" where
  "overwrite f_data off data =
     (let new_data = take (unat off) f_data;
          new_data = (if unat off > length f_data
                      then new_data @ replicate (unat off - length f_data) (CHR 0x00) else new_data);
          new_data = new_data @ data
      in if length new_data < length f_data then new_data @ drop (length new_data) f_data else new_data)"

definition y_write :: "nat \<Rightarrow> u64 \<Rightarrow> string \<Rightarrow> u32 \<Rightarrow> u32 \<Rightarrow> world \<Rightarrow> (u32 \<times> world) res" where
  "y_write n ino buf off sz w =
     bind_res (lc_acquire n ino w) (\<lambda>(r, w).
       if r = l_DISCONNECTED then Ret (y_DISCONNECTED, w)
       else bind_res (w_get ino w) (\<lambda>(ret, f_data, w).
         let ret = ext2yfs ret in
         if ret \<noteq> y_OK then release_return ino ret w
         else if length buf < unat sz then Fault Bad_access
         else bind_res (w_put ino (overwrite f_data off (take (unat sz) buf)) w) (\<lambda>(ret, w).
              release_return ino (ext2yfs ret) w)))"

text \<open>The constructor: the root directory and the directory for conflicts, unless they exist.\<close>

definition y_new :: "nat \<Rightarrow> world \<Rightarrow> world res" where
  "y_new n w =
     bind_res (yfs_dir_new ''tmp 2:'') (\<lambda>dir.
     bind_res (lc_acquire n 1 w) (\<lambda>(r, w).
     bind_res (w_get 1 w) (\<lambda>(ret, root_dir, w).
     bind_res (if ret = e_NOENT
               then bind_res (lc_acquire n 2 w) (\<lambda>(r, w).
                    bind_res (w_put 1 (dir_to_string dir) w) (\<lambda>(r, w).
                    bind_res (yfs_dir_new '':'') (\<lambda>tmp_dir.
                    bind_res (w_put 2 (dir_to_string tmp_dir) w) (\<lambda>(r, w).
                    bind_res (lc_release 2 w) (\<lambda>(r, w). Ret w)))))
               else Ret w) (\<lambda>w.
     bind_res (lc_release 1 w) (\<lambda>(r, w). Ret w)))))"

section \<open>A client that works undisturbed\<close>

text \<open>
  \<open>holding L w\<close>: the client is connected, its cache agrees with the server, it holds exactly the locks in
  \<open>L\<close>, and every other lock is either cached by it or free at the server.
\<close>

definition idle :: "world \<Rightarrow> u64 \<Rightarrow> bool" where
  "idle w l \<longleftrightarrow> \<not> lk_stale (lk (w_lc w) l) \<and>
     (lk_state (lk (w_lc w) l) = FREE \<or> lk_state (lk (w_lc w) l) = NONE \<and> \<not> locked (li (w_ls w) l))"

definition held :: "world \<Rightarrow> u64 \<Rightarrow> bool" where
  "held w l \<longleftrightarrow> \<not> lk_stale (lk (w_lc w) l) \<and> lk_state (lk (w_lc w) l) = LOCKED"

definition holding :: "u64 set \<Rightarrow> world \<Rightarrow> bool" where
  "holding L w \<longleftrightarrow> connected w \<and> cache_ok UNIV (w_ext w) \<and> (\<forall>l. if l \<in> L then held w l else idle w l)"

text \<open>What a lock operation leaves alone.\<close>

definition same_data :: "world \<Rightarrow> world \<Rightarrow> bool" where
  "same_data w w' \<longleftrightarrow> w_ext w' = w_ext w \<and> w_rand w' = w_rand w \<and> w_pos w' = w_pos w"

lemma lockstate_newI: "lk_state x = NONE \<Longrightarrow> \<not> lk_stale x \<Longrightarrow> x = lockstate_new"
  by (cases x) (simp add: lockstate_new_def)

lemma holding_acquire:
  assumes "holding L w" and "l \<notin> L"
  shows "\<exists>w1. lc_acquire (Suc (Suc (Suc n))) l w = Ret (l_OK, w1) \<and> holding (insert l L) w1 \<and> same_data w w1"
proof -
  have idl: "idle w l" and c: "connected w" using assms by (auto simp: holding_def split: if_splits)
  show ?thesis
  proof (cases "lk_state (lk (w_lc w) l) = FREE")
    case True
    let ?w = "w\<lparr>w_lc := set_state l LOCKED (w_lc w)\<rparr>"
    have "lc_acquire (Suc (Suc (Suc n))) l w = Ret (l_OK, ?w)"
      using True idl by (simp add: lc_acquire_def acq_entry_def acq_try_def verify_def idle_def)
    moreover have "holding (insert l L) ?w"
      using assms idl by (auto simp: holding_def held_def idle_def connected_def split: if_splits)
    ultimately show ?thesis by (auto simp: same_data_def)
  next
    case False
    then have n: "lk (w_lc w) l = lockstate_new" "\<not> locked (li (w_ls w) l)"
      using idl by (auto simp: idle_def intro: lockstate_newI)
    let ?w = "w\<lparr>w_ls := granted l w, w_lc := set_state l LOCKED (set_state l ACQUIRING (w_lc w))\<rparr>"
    have "lc_acquire (Suc (Suc (Suc n))) l w = Ret (l_OK, ?w)"
      using acquire_none [OF c n(2,1), of n] by (simp only: lc_acquire_def)
    moreover have "holding (insert l L) ?w"
      using assms n by (auto simp: holding_def held_def idle_def connected_def granted_def split: if_splits)
    ultimately show ?thesis by (auto simp: same_data_def)
  qed
qed

lemma holding_release:
  assumes "holding L w" and "l \<in> L"
  shows "\<exists>w1. lc_release l w = Ret (l_OK, w1) \<and> holding (L - {l}) w1 \<and> same_data w w1"
proof -
  have "held w l" using assms by (auto simp: holding_def split: if_splits)
  then have "lc_release l w = Ret (l_OK, w\<lparr>w_lc := set_state l FREE (w_lc w)\<rparr>)"
    using release_locked [of w l] by (simp add: lc_release_def held_def)
  moreover have "holding (L - {l}) (w\<lparr>w_lc := set_state l FREE (w_lc w)\<rparr>)"
    using assms \<open>held w l\<close> by (auto simp: holding_def held_def idle_def connected_def split: if_splits)
  ultimately show ?thesis by (auto simp: same_data_def)
qed

lemma holding_ext: "holding L w \<Longrightarrow> cache_ok UNIV e \<Longrightarrow> holding L (w\<lparr>w_ext := e\<rparr>)"
  unfolding holding_def held_def idle_def connected_def by simp

lemma holding_ok: "holding L w \<Longrightarrow> cache_ok UNIV (w_ext w)"
  by (simp add: holding_def)

lemma w_get_absent:
  assumes "holding L w" and "view (w_ext w) i = None"
  shows "\<exists>e. w_get i w = Ret (e_NOENT, [], w\<lparr>w_ext := e\<rparr>) \<and> holding L (w\<lparr>w_ext := e\<rparr>) \<and> view e = view (w_ext w) \<and> grows (w_ext w) e"
  using ec_get_absent [OF holding_ok [OF assms(1)] assms(2)] holding_ext [OF assms(1)] holding_ok [OF assms(1)]
  by (intro exI [of _ "(w_ext w)\<lparr>ex_tick := Suc (ex_tick (w_ext w))\<rparr>"]) (simp add: w_get_def grows_def)

lemma w_get_present:
  assumes "holding L w" and "view (w_ext w) i = Some b"
  shows "\<exists>e. w_get i w = Ret (e_OK, b, w\<lparr>w_ext := e\<rparr>) \<and> holding L (w\<lparr>w_ext := e\<rparr>) \<and> view e = view (w_ext w) \<and>
    mfind (local_extent e) i \<noteq> None \<and> grows (w_ext w) e \<and>
    (\<forall>j. j \<noteq> i \<longrightarrow> mfind (local_extent e) j = mfind (local_extent (w_ext w)) j)"
proof (rule ec_get_present [OF holding_ok [OF assms(1)] assms(2)])
  fix x e
  assume "ec_get i (w_ext w) = Ret (e_OK, b, e)" "mfind (local_extent e) i = Some x" "cache_ok UNIV e"
    "view e = view (w_ext w)" "grows (w_ext w) e"
    "\<And>j. j \<noteq> i \<Longrightarrow> mfind (local_extent e) j = mfind (local_extent (w_ext w)) j"
  then show ?thesis using holding_ext [OF assms(1)] by (intro exI [of _ e]) (simp add: w_get_def)
qed

lemma w_put_ok:
  assumes "holding L w" and "mfind (local_extent (w_ext w)) i \<noteq> None \<or> view (w_ext w) i = None"
  shows "\<exists>e. w_put i b w = Ret (e_OK, w\<lparr>w_ext := e\<rparr>) \<and> holding L (w\<lparr>w_ext := e\<rparr>) \<and> view e = (view (w_ext w))(i \<mapsto> b) \<and>
    mfind (local_extent e) i \<noteq> None \<and> grows (w_ext w) e \<and>
    (\<forall>j. j \<noteq> i \<longrightarrow> mfind (local_extent e) j = mfind (local_extent (w_ext w)) j)"
proof -
  have "mfind (local_extent (w_ext w)) i \<noteq> None \<or> mfind (es_table (ex_srv (w_ext w))) i = None"
    using assms(2) by (auto simp: view_None)
  from ec_put_ok [OF holding_ok [OF assms(1)] this, of b] show ?thesis
    using holding_ext [OF assms(1)] by (auto simp: w_put_def w_lift_def)
qed

lemma ext2yfs_simps [simp]: "ext2yfs e_OK = y_OK" "ext2yfs e_NOENT = y_NOENT" "y_NOENT \<noteq> y_OK" "y_OK \<noteq> y_NOENT"
  by (simp_all add: ext2yfs_def e_status_defs y_status_defs)

lemma l_OK_not_DISCONNECTED [simp]: "l_OK \<noteq> l_DISCONNECTED"
  by (simp add: l_status_defs)

text \<open>The start and the end that the operations share.\<close>

lemma open_present:
  assumes "holding {} w" and "view (w_ext w) i = Some b"
  obtains w1 w2 where "lc_acquire (Suc (Suc (Suc n))) i w = Ret (l_OK, w1)" and "w_get i w1 = Ret (e_OK, b, w2)"
    and "holding {i} w2" and "view (w_ext w2) = view (w_ext w)" and "mfind (local_extent (w_ext w2)) i \<noteq> None"
    and "w_rand w2 = w_rand w" and "w_pos w2 = w_pos w" and "grows (w_ext w) (w_ext w2)"
    and "\<And>j. j \<noteq> i \<Longrightarrow> mfind (local_extent (w_ext w2)) j = mfind (local_extent (w_ext w)) j"
proof -
  obtain w1 where w1: "lc_acquire (Suc (Suc (Suc n))) i w = Ret (l_OK, w1)" "holding {i} w1" "same_data w w1"
    using holding_acquire [OF assms(1), of i n] by auto
  moreover have "view (w_ext w1) i = Some b" using assms(2) w1(3) by (simp add: same_data_def)
  ultimately obtain e where "w_get i w1 = Ret (e_OK, b, w1\<lparr>w_ext := e\<rparr>)" "holding {i} (w1\<lparr>w_ext := e\<rparr>)"
      "view e = view (w_ext w1)" "mfind (local_extent e) i \<noteq> None" "grows (w_ext w1) e"
      "\<forall>j. j \<noteq> i \<longrightarrow> mfind (local_extent e) j = mfind (local_extent (w_ext w1)) j"
    using w_get_present by blast
  then show thesis using that [of w1 "w1\<lparr>w_ext := e\<rparr>"] w1 by (simp add: same_data_def)
qed

lemma open_absent:
  assumes "holding {} w" and "view (w_ext w) i = None"
  obtains w1 w2 where "lc_acquire (Suc (Suc (Suc n))) i w = Ret (l_OK, w1)" and "w_get i w1 = Ret (e_NOENT, [], w2)"
    and "holding {i} w2" and "view (w_ext w2) = view (w_ext w)"
proof -
  obtain w1 where w1: "lc_acquire (Suc (Suc (Suc n))) i w = Ret (l_OK, w1)" "holding {i} w1" "same_data w w1"
    using holding_acquire [OF assms(1), of i n] by auto
  moreover have "view (w_ext w1) i = None" using assms(2) w1(3) by (simp add: same_data_def)
  ultimately obtain e where "w_get i w1 = Ret (e_NOENT, [], w1\<lparr>w_ext := e\<rparr>)" "holding {i} (w1\<lparr>w_ext := e\<rparr>)"
      "view e = view (w_ext w1)"
    using w_get_absent by blast
  then show thesis using that [of w1 "w1\<lparr>w_ext := e\<rparr>"] w1 by (simp add: same_data_def)
qed

lemma close_file:
  assumes "holding {i} w"
  obtains w1 where "release_return i a w = Ret (a, w1)" and "holding {} w1" and "w_ext w1 = w_ext w"
    and "w_rand w1 = w_rand w" and "w_pos w1 = w_pos w"
  using holding_release [OF assms, of i] by (auto simp: release_return_def same_data_def)

section \<open>Directory operations\<close>

lemma pick_ino_first:
  assumes "holding L w" and x: "x = fst (get_rand_num w) OR fbit" and "x \<notin> L" and "view (w_ext w) x = None"
  shows "\<exists>w1. pick_ino (Suc (Suc (Suc (Suc n)))) fbit w = Ret (x, w1) \<and> holding (insert x L) w1 \<and>
    view (w_ext w1) = view (w_ext w) \<and> grows (w_ext w) (w_ext w1)"
proof -
  obtain y w0 where g: "get_rand_num w = (y, w0)" by fastforce
  have w0: "w0 = w\<lparr>w_pos := w_pos w + 2\<rparr>" using g by (auto simp: get_rand_num_def Let_def)
  have y: "y OR fbit = x" using g x by simp
  have "holding L w0" using assms(1) unfolding w0 holding_def held_def idle_def connected_def by simp
  then obtain w1 where w1: "lc_acquire (Suc (Suc (Suc n))) x w0 = Ret (l_OK, w1)" "holding (insert x L) w1" "same_data w0 w1"
    using holding_acquire assms(3) by blast
  moreover have ext: "w_ext w1 = w_ext w" using w1(3) by (simp add: same_data_def w0)
  ultimately obtain e where e: "w_get x w1 = Ret (e_NOENT, [], w1\<lparr>w_ext := e\<rparr>)" "holding (insert x L) (w1\<lparr>w_ext := e\<rparr>)"
      "view e = view (w_ext w)" "grows (w_ext w) e"
    using w_get_absent [OF w1(2), of x] assms(4) by auto
  then show ?thesis using w1(1) by (simp add: g y Let_def)
qed

lemma w_rename_ok:
  assumes "holding L w" and "mfind (local_extent (w_ext w)) i \<noteq> None"
  shows "\<exists>e. w_rename i n w = Ret (e_OK, w\<lparr>w_ext := e\<rparr>) \<and> holding L (w\<lparr>w_ext := e\<rparr>) \<and> view e = view (w_ext w) \<and>
    grows (w_ext w) e"
proof -
  obtain x where "mfind (local_extent (w_ext w)) i = Some x" using assms(2) by auto
  from ec_rename_cached [OF holding_ok [OF assms(1)] this, of n] show ?thesis
    using holding_ext [OF assms(1)] by (auto simp: w_rename_def w_lift_def)
qed

lemma create_body_ok:
  assumes h: "holding L w" and new: "view (w_ext w) new = None" and p: "mfind (local_extent (w_ext w)) p \<noteq> None"
  shows "\<exists>w'. create_body p name new d w = Ret (y_OK, w') \<and> holding L w' \<and>
    view (w_ext w') = (view (w_ext w))(new \<mapsto> [], p \<mapsto> dir_to_string (mput name new d))"
proof -
  obtain e1 where e1: "w_put new [] w = Ret (e_OK, w\<lparr>w_ext := e1\<rparr>)" "holding L (w\<lparr>w_ext := e1\<rparr>)"
      "view e1 = (view (w_ext w))(new \<mapsto> [])" "mfind (local_extent e1) new \<noteq> None" "grows (w_ext w) e1"
    using w_put_ok [OF h, of new "[]"] new by auto
  obtain e2 where e2: "w_rename new name (w\<lparr>w_ext := e1\<rparr>) = Ret (e_OK, w\<lparr>w_ext := e2\<rparr>)" "holding L (w\<lparr>w_ext := e2\<rparr>)"
      "view e2 = view e1" "grows e1 e2"
    using w_rename_ok [OF e1(2), of new name] e1(4) by auto
  have "grows (w_ext w) e2" using e1(5) e2(4) by (rule grows_trans)
  then have "mfind (local_extent e2) p \<noteq> None" using p by (auto simp: grows_def)
  then obtain e3 where "w_put p (dir_to_string (mput name new d)) (w\<lparr>w_ext := e2\<rparr>) = Ret (e_OK, w\<lparr>w_ext := e3\<rparr>)"
      "holding L (w\<lparr>w_ext := e3\<rparr>)" "view e3 = (view e2)(p \<mapsto> dir_to_string (mput name new d))"
    using w_put_ok [OF e2(2), of p "dir_to_string (mput name new d)"] by auto
  then show ?thesis using e1(1,3) e2(1,3) by (simp add: create_body_def dir_add_def)
qed

lemma mkdir_body_ok:
  assumes h: "holding L w" and new: "view (w_ext w) new = None" and p: "mfind (local_extent (w_ext w)) p \<noteq> None"
  shows "\<exists>w'. mkdir_body p name new d w = Ret (y_OK, w') \<and> holding L w' \<and>
    view (w_ext w') = (view (w_ext w))(new \<mapsto> '':'', p \<mapsto> dir_to_string (mput name new d))"
proof -
  obtain e1 where e1: "w_put new '':'' w = Ret (e_OK, w\<lparr>w_ext := e1\<rparr>)" "holding L (w\<lparr>w_ext := e1\<rparr>)"
      "view e1 = (view (w_ext w))(new \<mapsto> '':'')" "grows (w_ext w) e1"
    using w_put_ok [OF h, of new "'':''"] new by auto
  have "mfind (local_extent e1) p \<noteq> None" using p e1(4) by (auto simp: grows_def)
  then obtain e3 where "w_put p (dir_to_string (mput name new d)) (w\<lparr>w_ext := e1\<rparr>) = Ret (e_OK, w\<lparr>w_ext := e3\<rparr>)"
      "holding L (w\<lparr>w_ext := e3\<rparr>)" "view e3 = (view e1)(p \<mapsto> dir_to_string (mput name new d))"
    using w_put_ok [OF e1(2), of p "dir_to_string (mput name new d)"] by auto
  then show ?thesis using e1(1,3) by (simp add: mkdir_body_def dir_add_def)
qed

lemma y_create_spec:
  assumes h: "holding {} w" and p: "view (w_ext w) p = Some t" "yfs_dir_new t = Ret d" "\<not> dir_exists name d"
    and x: "x = fst (get_rand_num w) OR 0x80000000" "view (w_ext w) x = None"
  shows "\<exists>w'. y_create (Suc (Suc (Suc (Suc n)))) p name ino0 w = Ret ((y_OK, x), w') \<and> holding {} w' \<and>
    view (w_ext w') = (view (w_ext w))(x \<mapsto> [], p \<mapsto> dir_to_string (mput name x d))"
proof (rule open_present [OF h p(1), of "Suc n"])
  fix w1 w2
  assume a: "lc_acquire (Suc (Suc (Suc (Suc n)))) p w = Ret (l_OK, w1)" "w_get p w1 = Ret (e_OK, t, w2)" "holding {p} w2"
    "view (w_ext w2) = view (w_ext w)" "mfind (local_extent (w_ext w2)) p \<noteq> None" "w_rand w2 = w_rand w" "w_pos w2 = w_pos w"
  have x2: "x = fst (get_rand_num w2) OR 0x80000000" using x(1) a(6,7) by (simp add: get_rand_num_def Let_def)
  have ne: "x \<noteq> p" using p(1) x(2) by auto
  obtain w3 where w3: "pick_ino (Suc (Suc (Suc (Suc n)))) 0x80000000 w2 = Ret (x, w3)" "holding {x, p} w3"
      "view (w_ext w3) = view (w_ext w)" "grows (w_ext w2) (w_ext w3)"
    using pick_ino_first [OF a(3) x2, of n] ne a(4) x(2) by auto
  have "mfind (local_extent (w_ext w3)) p \<noteq> None" using w3(4) a(5) by (auto simp: grows_def)
  then obtain w4 where w4: "create_body p name x d w3 = Ret (y_OK, w4)" "holding {x, p} w4"
      "view (w_ext w4) = (view (w_ext w))(x \<mapsto> [], p \<mapsto> dir_to_string (mput name x d))"
    using create_body_ok [OF w3(2), of x p name d] w3(3) x(2) by auto
  obtain w5 where w5: "lc_release x w4 = Ret (l_OK, w5)" "holding {p} w5" "w_ext w5 = w_ext w4"
    using holding_release [OF w4(2), of x] ne by (auto simp: same_data_def insert_Diff_if)
  show ?thesis
    by (rule close_file [OF w5(2), of "(y_OK, x)"])
      (use a(1,2) p(2,3) w3(1) w4(1,3) w5(1,3) in \<open>auto simp: y_create_def simp del: pick_ino.simps\<close>)
qed

lemma y_mkdir_spec:
  assumes h: "holding {} w" and p: "view (w_ext w) p = Some t" "yfs_dir_new t = Ret d" "\<not> dir_exists name d"
    and x: "x = fst (get_rand_num w)" "view (w_ext w) x = None"
  shows "\<exists>w'. y_mkdir (Suc (Suc (Suc (Suc n)))) p name ino0 w = Ret ((y_OK, x), w') \<and> holding {} w' \<and>
    view (w_ext w') = (view (w_ext w))(x \<mapsto> '':'', p \<mapsto> dir_to_string (mput name x d))"
proof (rule open_present [OF h p(1), of "Suc n"])
  fix w1 w2
  assume a: "lc_acquire (Suc (Suc (Suc (Suc n)))) p w = Ret (l_OK, w1)" "w_get p w1 = Ret (e_OK, t, w2)" "holding {p} w2"
    "view (w_ext w2) = view (w_ext w)" "mfind (local_extent (w_ext w2)) p \<noteq> None" "w_rand w2 = w_rand w" "w_pos w2 = w_pos w"
  have x2: "x = fst (get_rand_num w2) OR 0" using x(1) a(6,7) by (simp add: get_rand_num_def Let_def)
  have ne: "x \<noteq> p" using p(1) x(2) by auto
  obtain w3 where w3: "pick_ino (Suc (Suc (Suc (Suc n)))) 0 w2 = Ret (x, w3)" "holding {x, p} w3"
      "view (w_ext w3) = view (w_ext w)" "grows (w_ext w2) (w_ext w3)"
    using pick_ino_first [OF a(3) x2, of n] ne a(4) x(2) by auto
  have "mfind (local_extent (w_ext w3)) p \<noteq> None" using w3(4) a(5) by (auto simp: grows_def)
  then obtain w4 where w4: "mkdir_body p name x d w3 = Ret (y_OK, w4)" "holding {x, p} w4"
      "view (w_ext w4) = (view (w_ext w))(x \<mapsto> '':'', p \<mapsto> dir_to_string (mput name x d))"
    using mkdir_body_ok [OF w3(2), of x p name d] w3(3) x(2) by auto
  obtain w5 where w5: "lc_release x w4 = Ret (l_OK, w5)" "holding {p} w5" "w_ext w5 = w_ext w4"
    using holding_release [OF w4(2), of x] ne by (auto simp: same_data_def insert_Diff_if)
  show ?thesis
    by (rule close_file [OF w5(2), of "(y_OK, x)"])
      (use a(1,2) p(2,3) w3(1) w4(1,3) w5(1,3) in \<open>auto simp: y_mkdir_def simp del: pick_ino.simps\<close>)
qed

lemma y_lookup_spec:
  assumes h: "holding {} w" and p: "view (w_ext w) p = Some t" "yfs_dir_new t = Ret d"
  shows "\<exists>w'. y_lookup (Suc (Suc (Suc n))) p name ino0 w =
      Ret (if dir_exists name d then (y_OK, mget 0 d name) else (y_NOENT, ino0), w') \<and> holding {} w' \<and>
    view (w_ext w') = view (w_ext w)"
proof (rule open_present [OF h p(1), of n])
  fix w1 w2
  assume a: "lc_acquire (Suc (Suc (Suc n))) p w = Ret (l_OK, w1)" "w_get p w1 = Ret (e_OK, t, w2)" "holding {p} w2"
    "view (w_ext w2) = view (w_ext w)"
  show ?thesis
    by (rule close_file [OF a(3), of "if dir_exists name d then (y_OK, mget 0 d name) else (y_NOENT, ino0)"])
      (use a p(2) in \<open>auto simp: y_lookup_def dir_get_def\<close>)
qed

text \<open>\<^verbatim>\<open>unlink\<close> up to the removal of the extent, which follows when both locks have been released.\<close>

lemma y_unlink_until_remove:
  assumes h: "holding {} w" and p: "view (w_ext w) p = Some t" "yfs_dir_new t = Ret d" "dir_exists name d"
    and f: "isfile (mget 0 d name)" "mget 0 d name \<noteq> p"
  shows "\<exists>w'. y_unlink (Suc (Suc (Suc n))) p name w =
      bind_res (w_remove (mget 0 d name) w') (\<lambda>(ret, w). Ret (ext2yfs ret, w)) \<and> holding {} w' \<and>
    view (w_ext w') = (view (w_ext w))(p \<mapsto> dir_to_string (merase name d)) \<and>
    mfind (local_extent (w_ext w')) (mget 0 d name) = mfind (local_extent (w_ext w)) (mget 0 d name) \<and>
    es_look (ex_srv (w_ext w')) = es_look (ex_srv (w_ext w))"
proof (rule open_present [OF h p(1), of n])
  let ?f = "mget 0 d name"
  fix w1 w2
  assume a: "lc_acquire (Suc (Suc (Suc n))) p w = Ret (l_OK, w1)" "w_get p w1 = Ret (e_OK, t, w2)" "holding {p} w2"
    "view (w_ext w2) = view (w_ext w)" "mfind (local_extent (w_ext w2)) p \<noteq> None" "grows (w_ext w) (w_ext w2)"
    "\<And>j. j \<noteq> p \<Longrightarrow> mfind (local_extent (w_ext w2)) j = mfind (local_extent (w_ext w)) j"
  obtain w3 where w3: "lc_acquire (Suc (Suc (Suc n))) ?f w2 = Ret (l_OK, w3)" "holding {?f, p} w3" "w_ext w3 = w_ext w2"
    using holding_acquire [OF a(3), of ?f n] f(2) by (auto simp: same_data_def)
  obtain e where e: "w_put p (dir_to_string (merase name d)) w3 = Ret (e_OK, w3\<lparr>w_ext := e\<rparr>)" "holding {?f, p} (w3\<lparr>w_ext := e\<rparr>)"
      "view e = (view (w_ext w))(p \<mapsto> dir_to_string (merase name d))" "grows (w_ext w2) e"
      "\<forall>j. j \<noteq> p \<longrightarrow> mfind (local_extent e) j = mfind (local_extent (w_ext w2)) j"
    using w_put_ok [OF w3(2), of p "dir_to_string (merase name d)"] a(4,5) w3(3) by auto
  obtain w4 where w4: "lc_release ?f (w3\<lparr>w_ext := e\<rparr>) = Ret (l_OK, w4)" "holding {p} w4" "w_ext w4 = e"
    using holding_release [OF e(2), of ?f] f(2) by (auto simp: same_data_def insert_Diff_if)
  obtain w5 where w5: "lc_release p w4 = Ret (l_OK, w5)" "holding {} w5" "w_ext w5 = e"
    using holding_release [OF w4(2), of p] w4(3) by (auto simp: same_data_def)
  have g: "dir_get name d = (?f, d)" using p(3) by (simp add: dir_get_def dir_exists_def)
  have "y_unlink (Suc (Suc (Suc n))) p name w = bind_res (w_remove ?f w5) (\<lambda>(ret, w). Ret (ext2yfs ret, w))"
    using a(1,2) p(2,3) g f(1) w3(1) e(1) w4(1) w5(1) by (simp add: y_unlink_def isdir_def dir_rem_def)
  moreover have "ex_srv e = ex_srv (w_ext w)" using a(6) e(4) by (simp add: grows_def)
  ultimately show ?thesis using w5(2,3) e(3,5) a(7) f(2) by auto
qed

section \<open>Properties of files\<close>

text \<open>What a write of \<open>data\<close> at offset \<open>k\<close> means: bytes outside the range stay, a gap is filled with zeros.\<close>

lemma length_overwrite: "length (overwrite f off data) = max (length f) (unat off + length data)"
  by (auto simp: overwrite_def Let_def max_def min_def)

lemma nth_overwrite:
  assumes "j < length (overwrite f off data)"
  shows "overwrite f off data ! j =
    (if unat off \<le> j \<and> j < unat off + length data then data ! (j - unat off)
     else if j < length f then f ! j else CHR 0x00)"
  using assms
  by (auto simp: overwrite_def Let_def nth_append nth_drop min_def split: if_splits)

lemma y_write_spec:
  assumes "holding {} w" and "view (w_ext w) i = Some old" and "unat sz \<le> length buf"
  shows "\<exists>w'. y_write (Suc (Suc (Suc n))) i buf off sz w = Ret (y_OK, w') \<and> holding {} w' \<and>
    view (w_ext w') = (view (w_ext w))(i \<mapsto> overwrite old off (take (unat sz) buf))"
proof (rule open_present [OF assms(1,2), of n])
  fix w1 w2
  assume a: "lc_acquire (Suc (Suc (Suc n))) i w = Ret (l_OK, w1)" "w_get i w1 = Ret (e_OK, old, w2)" "holding {i} w2"
    "view (w_ext w2) = view (w_ext w)" "mfind (local_extent (w_ext w2)) i \<noteq> None"
  let ?new = "overwrite old off (take (unat sz) buf)"
  obtain e where e: "w_put i ?new w2 = Ret (e_OK, w2\<lparr>w_ext := e\<rparr>)" "holding {i} (w2\<lparr>w_ext := e\<rparr>)"
      "view e = (view (w_ext w))(i \<mapsto> ?new)"
    using w_put_ok [OF a(3), of i ?new] a(4,5) by auto
  show ?thesis
    by (rule close_file [OF e(2), of y_OK]) (use a(1,2) e assms(3) in \<open>auto simp: y_write_def\<close>)
qed

lemma y_read_spec:
  assumes "holding {} w" and "view (w_ext w) i = Some f"
  shows "\<exists>w'. y_read (Suc (Suc (Suc n))) i off sz [] w = Ret ((y_OK, take (unat sz) (drop (unat off) f)), w') \<and>
    holding {} w' \<and> view (w_ext w') = view (w_ext w)"
proof (rule open_present [OF assms, of n])
  fix w1 w2
  assume a: "lc_acquire (Suc (Suc (Suc n))) i w = Ret (l_OK, w1)" "w_get i w1 = Ret (e_OK, f, w2)" "holding {i} w2"
    "view (w_ext w2) = view (w_ext w)"
  show ?thesis
    by (rule close_file [OF a(3), of "(y_OK, take (unat sz) (drop (unat off) f))"])
      (use a in \<open>auto simp: y_read_def\<close>)
qed

text \<open>
  C20. \<^verbatim>\<open>write\<close> changes exactly the bytes it is given: after a write of \<open>sz\<close> bytes at \<open>off\<close> the file is as
  long as the larger of its old length and \<open>off + sz\<close>, holds the new bytes in that range, its old bytes
  elsewhere and zeros in a gap; every other file and directory is as before, and all locks are
  released.
\<close>

theorem write_changes_range:
  assumes "holding {} w" and "view (w_ext w) i = Some old" and "length buf = unat sz"
  shows "\<exists>w' new. y_write (Suc (Suc (Suc n))) i buf off sz w = Ret (y_OK, w') \<and> holding {} w' \<and>
    view (w_ext w') = (view (w_ext w))(i \<mapsto> new) \<and> length new = max (length old) (unat off + unat sz) \<and>
    (\<forall>j < length new. new ! j =
       (if unat off \<le> j \<and> j < unat off + unat sz then buf ! (j - unat off) else if j < length old then old ! j else CHR 0x00))"
proof -
  have "take (unat sz) buf = buf" using assms(3) by simp
  with y_write_spec [OF assms(1,2), of sz buf n off] obtain w' where
    "y_write (Suc (Suc (Suc n))) i buf off sz w = Ret (y_OK, w')" "holding {} w'"
    "view (w_ext w') = (view (w_ext w))(i \<mapsto> overwrite old off buf)"
    using assms(3) by auto
  then show ?thesis
    using length_overwrite [of old off buf] nth_overwrite [of _ old off buf] assms(3)
    by (intro exI [of _ w'] exI [of _ "overwrite old off buf"]) simp
qed

text \<open>
  A read sees the latest write: reading back the range just written returns the bytes written.
\<close>

theorem read_after_write:
  assumes "holding {} w" and "view (w_ext w) i = Some old" and "length buf = unat sz"
  shows "\<exists>w1 w2. y_write (Suc (Suc (Suc n))) i buf off sz w = Ret (y_OK, w1) \<and>
    y_read (Suc (Suc (Suc n))) i off sz [] w1 = Ret ((y_OK, buf), w2) \<and> holding {} w2 \<and>
    view (w_ext w2) = view (w_ext w1)"
proof -
  let ?new = "overwrite old off (take (unat sz) buf)"
  obtain w1 where w1: "y_write (Suc (Suc (Suc n))) i buf off sz w = Ret (y_OK, w1)" "holding {} w1"
      "view (w_ext w1) = (view (w_ext w))(i \<mapsto> ?new)"
    using y_write_spec [OF assms(1,2), of sz buf n off] assms(3) by auto
  have "view (w_ext w1) i = Some ?new" using w1(3) by simp
  moreover have "take (unat sz) (drop (unat off) ?new) = buf"
    by (rule nth_equalityI) (use assms(3) in \<open>auto simp: length_overwrite nth_overwrite max_def\<close>)
  ultimately show ?thesis using y_read_spec [OF w1(2), of i ?new n off sz] w1(1) by auto
qed

text \<open>The undisturbed client of the examples: directory 1 has the entry \<^verbatim>\<open>a\<close> for file \<^verbatim>\<open>0x80000007\<close>.\<close>

definition dir_example :: string where
  "dir_example = dir_to_string [(''a'', 0x80000007)]"

lemma dir_example_parse: "yfs_dir_new dir_example = Ret [(''a'', 0x80000007)]"
  unfolding dir_example_def by (rule reparse) (auto simp: clean_name_def)

definition yfs_example :: world where
  "yfs_example = (world_new ''c'' (\<lambda>_. 5))\<lparr>w_ext := (ext_new (\<lambda>n. of_nat n) 9)\<lparr>
     ex_srv := \<lparr>es_table = [(1, \<lparr>fi_buf = dir_example, fi_a = attr_zero\<lparr>a_size := of_nat (length dir_example), a_version := 1\<rparr>\<rparr>),
                            (0x80000007, \<lparr>fi_buf = ''hello'', fi_a = attr_zero\<lparr>a_size := 5, a_version := 1\<rparr>\<rparr>)]\<rparr>\<rparr>\<rparr>"

lemma yfs_example_holding: "holding {} yfs_example"
  by (auto simp: holding_def idle_def yfs_example_def world_new_def connected_def lock_client_cache_new_def
      cache_ok_def synced_def sized_def ext_new_def lock_server_cache_new_def mfind_def mget_def split: if_splits)

lemma yfs_example_views:
  "view (w_ext yfs_example) 1 = Some dir_example" "view (w_ext yfs_example) 0x80000007 = Some ''hello''"
  "view (w_ext yfs_example) 0x80000005 = None"
  by (simp_all add: view_def es_look_def yfs_example_def ext_new_def mfind_def)

theorem write_changes_range_witness:
  "\<exists>w' new. y_write 3 0x80000007 ''J'' 0 1 yfs_example = Ret (y_OK, w') \<and> view (w_ext w') 0x80000007 = Some new \<and> length new = 5"
proof -
  have "length ''J'' = unat (1 :: u32)" by simp
  from write_changes_range [OF yfs_example_holding yfs_example_views(2) this, of 0 0] show ?thesis
    by (auto simp: numeral_3_eq_3)
qed

theorem read_after_write_witness:
  "\<exists>w1 w2. y_write 3 0x80000007 ''J'' 0 1 yfs_example = Ret (y_OK, w1) \<and> y_read 3 0x80000007 0 1 [] w1 = Ret ((y_OK, ''J''), w2)"
proof -
  have "length ''J'' = unat (1 :: u32)" by simp
  from read_after_write [OF yfs_example_holding yfs_example_views(2) this, of 0 0] show ?thesis
    by (auto simp: numeral_3_eq_3)
qed

lemma ucast_back: "ucast (ucast (x :: u32) :: u64) = x"
  by (rule bit_word_eqI) (auto simp: bit_simps)

lemma resized_spec:
  assumes "length f < 2 ^ 32"
  shows "(case resized n (of_nat (length f)) f of None \<Rightarrow> f | Some g \<Rightarrow> g) =
    take (unat n) f @ replicate (unat n - length f) (CHR 0x00)"
proof -
  have l: "unat (of_nat (length f) :: u32) = length f" using assms by (simp add: unat_of_nat)
  have "unat (n - of_nat (length f)) = unat n - length f" if "n > of_nat (length f)"
    using that l by (simp add: unat_sub less_imp_le)
  then show ?thesis using l
    by (auto simp: resized_def word_less_nat_alt unat_eq_zero not_less intro: word_unat_eq_iff [THEN iffD2])
qed

text \<open>
  \<^verbatim>\<open>setattr\<close> sets the length of a file: the first \<open>n\<close> bytes are kept and a longer file is padded with
  zeros; nothing else changes.
\<close>

theorem setattr_resizes:
  assumes "holding {} w" and "view (w_ext w) i = Some f" and "length f < 2 ^ 32"
  shows "\<exists>w'. y_setattr (Suc (Suc (Suc n))) i len fin0 w = Ret (y_OK, w') \<and> holding {} w' \<and>
    view (w_ext w') = (view (w_ext w))(i \<mapsto> take (unat len) f @ replicate (unat len - length f) (CHR 0x00))"
proof (rule open_present [OF assms(1,2), of n])
  fix w1 w2
  assume a: "lc_acquire (Suc (Suc (Suc n))) i w = Ret (l_OK, w1)" "w_get i w1 = Ret (e_OK, f, w2)" "holding {i} w2"
    "view (w_ext w2) = view (w_ext w)" "mfind (local_extent (w_ext w2)) i \<noteq> None"
  obtain e where e: "mfind (local_extent (w_ext w2)) i = Some e" using a(5) by auto
  have sz: "a_size (ee_attr e) = of_nat (length f)"
  proof -
    have "view (w_ext w2) i = Some (ee_extent e)" using e by (simp add: view_def)
    then have "ee_extent e = f" using a(4) assms(2) by simp
    then show ?thesis using holding_ok [OF a(3)] e by (auto simp: cache_ok_def synced_def)
  qed
  have ga: "w_getattr i w2 = Ret (e_OK, ee_attr e, w2)"
    using e by (simp add: w_getattr_def ec_getattr_def ensure_cached_def mcount_0 mget_found verify_def e_status_defs)
  let ?fin = "\<lparr>fin_size = ucast (a_size (ee_attr e)), fin_atime = ucast (a_atime (ee_attr e)), fin_mtime = ucast (a_mtime (ee_attr e)),
      fin_ctime = ucast (a_ctime (ee_attr e)), fin_version = ucast (a_version (ee_attr e))\<rparr>"
  have gf: "getfile_helper i fin0 w2 = Ret ((y_OK, ?fin), w2)" using ga by (simp add: getfile_helper_def)
  have ds: "ucast (fin_size ?fin) = (of_nat (length f) :: u32)" using sz by (simp add: ucast_back)
  note rs = resized_spec [OF assms(3), of len]
  show ?thesis
  proof (cases "resized len (of_nat (length f)) f")
    case None
    then have v: "view (w_ext w2) = (view (w_ext w))(i \<mapsto> take (unat len) f @ replicate (unat len - length f) (CHR 0x00))"
      using rs a(4) assms(2) by (auto simp: fun_eq_iff)
    show ?thesis
    proof (rule close_file [OF a(3), of y_OK])
      fix w3
      assume r: "release_return i y_OK w2 = Ret (y_OK, w3)" "holding {} w3" "w_ext w3 = w_ext w2"
      have "y_setattr (Suc (Suc (Suc n))) i len fin0 w = Ret (y_OK, w3)"
        using a(1,2) gf ds None r(1) by (simp add: y_setattr_def del: fileinfo.simps)
      then show ?thesis using r v by simp
    qed
  next
    case (Some g)
    obtain x where x: "w_put i g w2 = Ret (e_OK, w2\<lparr>w_ext := x\<rparr>)" "holding {i} (w2\<lparr>w_ext := x\<rparr>)" "view x = (view (w_ext w))(i \<mapsto> g)"
      using w_put_ok [OF a(3), of i g] a(4,5) by auto
    show ?thesis
    proof (rule close_file [OF x(2), of y_OK])
      fix w3
      assume r: "release_return i y_OK (w2\<lparr>w_ext := x\<rparr>) = Ret (y_OK, w3)" "holding {} w3" "w_ext w3 = w_ext (w2\<lparr>w_ext := x\<rparr>)"
      have "y_setattr (Suc (Suc (Suc n))) i len fin0 w = Ret (y_OK, w3)"
        using a(1,2) gf ds Some x(1) r(1) by (simp add: y_setattr_def del: fileinfo.simps)
      then show ?thesis using r x(3) rs Some by simp
    qed
  qed
qed

theorem setattr_resizes_witness:
  "\<exists>w'. y_setattr 3 0x80000007 2 \<lparr>fin_size = 0, fin_atime = 0, fin_mtime = 0, fin_ctime = 0, fin_version = 0\<rparr> yfs_example = Ret (y_OK, w') \<and>
     view (w_ext w') 0x80000007 = Some ''he''"
proof -
  have "length ''hello'' < 2 ^ 32" by simp
  from setattr_resizes [OF yfs_example_holding yfs_example_views(2) this, of 0 2
      "\<lparr>fin_size = 0, fin_atime = 0, fin_mtime = 0, fin_ctime = 0, fin_version = 0\<rparr>"] show ?thesis
    by (auto simp: numeral_3_eq_3)
qed

section \<open>Properties of directories in use\<close>

lemma file_bit: "isfile (y OR 0x80000000)"
proof -
  have "(y OR 0x80000000) AND 0x80000000 = (0x80000000 :: u64)"
    by (rule bit_word_eqI) (auto simp: bit_simps)
  then show ?thesis by (simp add: isfile_def)
qed

text \<open>
  C10. \<^verbatim>\<open>create\<close> makes a file that \<^verbatim>\<open>lookup\<close> finds. In an undisturbed client, for a name without colon or
  space that the directory does not have, \<^verbatim>\<open>create\<close> returns \<^verbatim>\<open>OK\<close> with an inode number that has the
  file bit; exactly the new, empty file and the entry in the directory are added; \<^verbatim>\<open>lookup\<close> of the name then
  returns that number, and of every other name what it returned before.
\<close>

theorem create_then_lookup:
  assumes "holding {} w" and "view (w_ext w) p = Some t" and "yfs_dir_new t = Ret d" and "\<not> dir_exists name d"
    and "clean_name name" and "x = fst (get_rand_num w) OR 0x80000000" and "view (w_ext w) x = None"
  shows "\<exists>w1. y_create (Suc (Suc (Suc (Suc n)))) p name ino0 w = Ret ((y_OK, x), w1) \<and> isfile x \<and> holding {} w1 \<and>
    view (w_ext w1) = (view (w_ext w))(x \<mapsto> [], p \<mapsto> dir_to_string (mput name x d)) \<and>
    (\<exists>w2. y_lookup (Suc (Suc (Suc n))) p name 0 w1 = Ret ((y_OK, x), w2)) \<and>
    (\<forall>m. m \<noteq> name \<longrightarrow> (\<exists>w2. y_lookup (Suc (Suc (Suc n))) p m 0 w1 =
       Ret (if dir_exists m d then (y_OK, mget 0 d m) else (y_NOENT, 0), w2)))"
proof -
  obtain w1 where w1: "y_create (Suc (Suc (Suc (Suc n)))) p name ino0 w = Ret ((y_OK, x), w1)" "holding {} w1"
      "view (w_ext w1) = (view (w_ext w))(x \<mapsto> [], p \<mapsto> dir_to_string (mput name x d))"
    using y_create_spec [OF assms(1-4,6,7)] by blast
  have v: "view (w_ext w1) p = Some (dir_to_string (mput name x d))" using w1(3) by simp
  have l: "\<exists>w2. y_lookup (Suc (Suc (Suc n))) p m 0 w1 =
      Ret (if dir_exists m (mput name x d) then (y_OK, mget 0 (mput name x d) m) else (y_NOENT, 0), w2)" for m
    using y_lookup_spec [OF w1(2) v reparse_add [OF assms(3,5)], of n m 0] by blast
  have ex: "dir_exists m (mput name x d) \<longleftrightarrow> m = name \<or> dir_exists m d" for m
    by (auto simp: dir_exists_def mcount_def)
  have "\<exists>w2. y_lookup (Suc (Suc (Suc n))) p m 0 w1 = Ret (if dir_exists m d then (y_OK, mget 0 d m) else (y_NOENT, 0), w2)"
    if "m \<noteq> name" for m using l [of m] that by (cases "dir_exists m d") (simp_all add: ex)
  moreover have "isfile x" using assms(6) file_bit by simp
  ultimately show ?thesis using w1 l [of name] by (simp add: ex)
qed

theorem create_then_lookup_witness:
  "\<exists>w1 w2. y_create 4 1 ''new'' 0 yfs_example = Ret ((y_OK, 0x80000005), w1) \<and>
     y_lookup 3 1 ''new'' 0 w1 = Ret ((y_OK, 0x80000005), w2)"
proof -
  have x: "0x80000005 = fst (get_rand_num yfs_example) OR 0x80000000"
    by (simp add: get_rand_num_def yfs_example_def world_new_def Let_def)
  have "\<not> dir_exists ''new'' [(''a'', 0x80000007)]" "clean_name ''new''"
    by (simp_all add: dir_exists_def mcount_def mfind_def clean_name_def)
  from create_then_lookup [OF yfs_example_holding yfs_example_views(1) dir_example_parse this x yfs_example_views(3), of 0 0]
  show ?thesis by (auto simp: eval_nat_numeral)
qed

text \<open>
  \<^verbatim>\<open>create\<close> refuses a name that exists and a directory that does not, with \<^verbatim>\<open>EXIST\<close> and \<^verbatim>\<open>NOENT\<close>; nothing is
  changed and the lock of the directory is released.
\<close>

theorem create_refused:
  assumes "holding {} w"
    and "(case view (w_ext w) p of None \<Rightarrow> st = y_NOENT
          | Some t \<Rightarrow> (\<exists>d. yfs_dir_new t = Ret d \<and> dir_exists name d) \<and> st = y_EXIST)"
  shows "\<exists>w'. y_create (Suc (Suc (Suc n))) p name ino0 w = Ret ((st, ino0), w') \<and> holding {} w' \<and>
    view (w_ext w') = view (w_ext w)"
proof (cases "view (w_ext w) p")
  case None
  show ?thesis
  proof (rule open_absent [OF assms(1) None, of n])
    fix w1 w2
    assume a: "lc_acquire (Suc (Suc (Suc n))) p w = Ret (l_OK, w1)" "w_get p w1 = Ret (e_NOENT, [], w2)" "holding {p} w2"
      "view (w_ext w2) = view (w_ext w)"
    show ?thesis
      by (rule close_file [OF a(3), of "(y_NOENT, ino0)"]) (use a None assms(2) in \<open>simp add: y_create_def\<close>)
  qed
next
  case (Some t)
  then obtain d where d: "yfs_dir_new t = Ret d" "dir_exists name d" "st = y_EXIST" using assms(2) by auto
  show ?thesis
  proof (rule open_present [OF assms(1) Some, of n])
    fix w1 w2
    assume a: "lc_acquire (Suc (Suc (Suc n))) p w = Ret (l_OK, w1)" "w_get p w1 = Ret (e_OK, t, w2)" "holding {p} w2"
      "view (w_ext w2) = view (w_ext w)"
    show ?thesis
      by (rule close_file [OF a(3), of "(y_EXIST, ino0)"]) (use a d in \<open>simp add: y_create_def\<close>)
  qed
qed

theorem create_refused_witness:
  "\<exists>w'. y_create 3 9 ''a'' 0 yfs_example = Ret ((y_NOENT, 0), w') \<and> view (w_ext w') = view (w_ext yfs_example)"
proof -
  have "view (w_ext yfs_example) 9 = None" by (simp add: view_def es_look_def yfs_example_def ext_new_def mfind_def)
  then have "\<exists>w'. y_create (Suc (Suc (Suc 0))) 9 ''a'' 0 yfs_example = Ret ((y_NOENT, 0), w') \<and> holding {} w' \<and>
      view (w_ext w') = view (w_ext yfs_example)"
    by (intro create_refused yfs_example_holding) simp
  then show ?thesis by (auto simp: numeral_3_eq_3)
qed

text \<open>
  \<^verbatim>\<open>mkdir\<close> adds exactly an empty directory and its entry in the parent.
\<close>

theorem mkdir_adds_empty_directory:
  assumes "holding {} w" and "view (w_ext w) p = Some t" and "yfs_dir_new t = Ret d" and "\<not> dir_exists name d"
    and "x = fst (get_rand_num w)" and "view (w_ext w) x = None"
  shows "\<exists>w1. y_mkdir (Suc (Suc (Suc (Suc n)))) p name ino0 w = Ret ((y_OK, x), w1) \<and> holding {} w1 \<and>
    view (w_ext w1) = (view (w_ext w))(x \<mapsto> dir_to_string [], p \<mapsto> dir_to_string (mput name x d))"
  using y_mkdir_spec [OF assms] by (simp add: dir_to_string_def)

theorem mkdir_adds_empty_directory_witness:
  "\<exists>w1. y_mkdir 4 1 ''sub'' 0 yfs_example = Ret ((y_OK, 5), w1) \<and> view (w_ext w1) 5 = Some '':''"
proof -
  have x: "5 = fst (get_rand_num yfs_example)" "view (w_ext yfs_example) 5 = None"
    by (simp_all add: get_rand_num_def yfs_example_def world_new_def Let_def view_def es_look_def ext_new_def mfind_def)
  have "\<not> dir_exists ''sub'' [(''a'', 0x80000007)]" by (simp add: dir_exists_def mcount_def mfind_def)
  note m = mkdir_adds_empty_directory [OF yfs_example_holding yfs_example_views(1) dir_example_parse this x, of 0 0]
  have four: "Suc (Suc (Suc (Suc 0))) = 4" by simp
  have ne: "(5 :: u64) \<noteq> 1" by simp
  show ?thesis using m [unfolded four] ne by (auto simp: dir_to_string_def simp del: four)
qed

text \<open>
  C32. \<^verbatim>\<open>unlink\<close> of a file that this client has cached removes the entry from the directory, so that the
  name is no longer found, and forgets the file locally; the server's copy, if there is one, stays
  until the file's lock is revoked.
\<close>

theorem unlink_removes_entry:
  assumes "holding {} w" and "view (w_ext w) p = Some t" and "yfs_dir_new t = Ret d" and "dir_exists name d"
    and "f = mget 0 d name" and "isfile f" and "f \<noteq> p" and "ec_exists f (w_ext w)"
  shows "\<exists>w1 w2. y_unlink (Suc (Suc (Suc n))) p name w = Ret (y_OK, w1) \<and> holding {} w1 \<and>
    view (w_ext w1) = (view (w_ext w))(p \<mapsto> dir_to_string (merase name d), f := es_look (ex_srv (w_ext w)) f) \<and>
    y_lookup (Suc (Suc (Suc n))) p name 0 w1 = Ret ((y_NOENT, 0), w2)"
proof -
  obtain w' where w': "y_unlink (Suc (Suc (Suc n))) p name w = bind_res (w_remove f w') (\<lambda>(ret, w). Ret (ext2yfs ret, w))"
      "holding {} w'" "view (w_ext w') = (view (w_ext w))(p \<mapsto> dir_to_string (merase name d))"
      "mfind (local_extent (w_ext w')) f = mfind (local_extent (w_ext w)) f" "es_look (ex_srv (w_ext w')) = es_look (ex_srv (w_ext w))"
    using y_unlink_until_remove [OF assms(1-4), of n] assms(5-7) by auto
  let ?e = "(w_ext w')\<lparr>local_extent := merase f (local_extent (w_ext w'))\<rparr>"
  have "mfind (local_extent (w_ext w')) f \<noteq> None" using assms(8) w'(4) by (auto simp: ec_exists_def mcount_def split: option.splits)
  then have rm: "w_remove f w' = Ret (e_OK, w'\<lparr>w_ext := ?e\<rparr>)"
    by (auto simp: w_remove_def w_lift_def ec_remove_def mcount_1 verify_def)
  have wf: "mwf (local_extent (w_ext w'))" using holding_ok [OF w'(2)] by (simp add: cache_ok_def)
  have "cache_ok UNIV ?e" using holding_ok [OF w'(2)] by (auto simp: cache_ok_def synced_def split: if_splits)
  then have h1: "holding {} (w'\<lparr>w_ext := ?e\<rparr>)" by (rule holding_ext [OF w'(2)])
  have "view ?e j = (if j = f then es_look (ex_srv (w_ext w)) f else view (w_ext w') j)" for j
    using wf w'(5) by (simp add: view_def split: option.splits)
  then have v: "view ?e = (view (w_ext w))(p \<mapsto> dir_to_string (merase name d), f := es_look (ex_srv (w_ext w)) f)"
    using w'(3) by (auto simp: fun_eq_iff)
  have ne: "\<not> dir_exists name (merase name d)"
    using yfs_dir_new_clean [OF assms(3)] by (simp add: dir_exists_def mcount_def)
  have vp: "view (w_ext (w'\<lparr>w_ext := ?e\<rparr>)) p = Some (dir_to_string (merase name d))" using v assms(7) by simp
  obtain w2 where "y_lookup (Suc (Suc (Suc n))) p name 0 (w'\<lparr>w_ext := ?e\<rparr>) = Ret ((y_NOENT, 0), w2)"
    using y_lookup_spec [OF h1 vp reparse_rem [OF assms(3)], of n name 0] ne by auto
  then show ?thesis using w'(1) rm h1 v by (intro exI [of _ "w'\<lparr>w_ext := ?e\<rparr>"] exI [of _ w2]) simp
qed

text \<open>
  \<^verbatim>\<open>unlink\<close> of a file that this client has not cached ends the client: the directory is updated,
  both locks are released, and then \<^verbatim>\<open>extent_client_cache::remove\<close> insists that the extent is in the cache.
\<close>

theorem unlink_uncached_aborts:
  assumes "holding {} w" and "view (w_ext w) p = Some t" and "yfs_dir_new t = Ret d" and "dir_exists name d"
    and "f = mget 0 d name" and "isfile f" and "f \<noteq> p" and "\<not> ec_exists f (w_ext w)"
  shows "y_unlink (Suc (Suc (Suc n))) p name w = Fault Verify_failed"
proof -
  obtain w' where w': "y_unlink (Suc (Suc (Suc n))) p name w = bind_res (w_remove f w') (\<lambda>(ret, w). Ret (ext2yfs ret, w))"
      "mfind (local_extent (w_ext w')) f = mfind (local_extent (w_ext w)) f"
    using y_unlink_until_remove [OF assms(1-4), of n] assms(5-7) by auto
  have "mfind (local_extent (w_ext w')) f = None" using assms(8) w'(2) by (auto simp: ec_exists_def mcount_def split: option.splits)
  then show ?thesis using w'(1) by (simp add: w_remove_def w_lift_def ec_remove_def mcount_def verify_def)
qed

lemma unlink_example: "dir_exists ''a'' [(''a'', 0x80000007)]" "mget 0 [(''a'', 0x80000007)] ''a'' = (0x80000007 :: u64)"
    "isfile 0x80000007" "(0x80000007 :: u64) \<noteq> 1"
  by (simp_all add: dir_exists_def mcount_def mfind_def mget_def isfile_def)

theorem unlink_uncached_aborts_witness:
  "y_unlink 3 1 ''a'' yfs_example = Fault Verify_failed"
proof -
  have "\<not> ec_exists 0x80000007 (w_ext yfs_example)" by (simp add: ec_exists_def yfs_example_def ext_new_def mcount_def mfind_def)
  from unlink_uncached_aborts [OF yfs_example_holding yfs_example_views(1) dir_example_parse unlink_example(1)
      unlink_example(2) [symmetric] unlink_example(3,4) this, of 0] show ?thesis by (simp add: numeral_3_eq_3)
qed

theorem unlink_removes_entry_witness:
  "\<exists>w w1 w2. y_read 3 0x80000007 0 9 [] yfs_example = Ret ((y_OK, ''hello''), w) \<and> y_unlink 3 1 ''a'' w = Ret (y_OK, w1) \<and>
     y_lookup 3 1 ''a'' 0 w1 = Ret ((y_NOENT, 0), w2)"
proof (rule open_present [OF yfs_example_holding yfs_example_views(2), of 0])
  fix w1 w2
  assume a: "lc_acquire (Suc (Suc (Suc 0))) 0x80000007 yfs_example = Ret (l_OK, w1)" "w_get 0x80000007 w1 = Ret (e_OK, ''hello'', w2)"
    "holding {0x80000007} w2" "view (w_ext w2) = view (w_ext yfs_example)" "mfind (local_extent (w_ext w2)) 0x80000007 \<noteq> None"
  obtain w3 where w3: "release_return 0x80000007 (y_OK, ''hello'') w2 = Ret ((y_OK, ''hello''), w3)" "holding {} w3" "w_ext w3 = w_ext w2"
    using close_file [OF a(3)] by metis
  have rd: "y_read 3 0x80000007 0 9 [] yfs_example = Ret ((y_OK, ''hello''), w3)"
    using a(1,2) w3(1) by (simp add: y_read_def numeral_3_eq_3)
  have v: "view (w_ext w3) 1 = Some dir_example" using w3(3) a(4) yfs_example_views(1) by simp
  have c: "ec_exists 0x80000007 (w_ext w3)" using a(5) w3(3) by (auto simp: ec_exists_def mcount_def)
  from unlink_removes_entry [OF w3(2) v dir_example_parse unlink_example(1) unlink_example(2) [symmetric] unlink_example(3,4) c, of 0]
  show ?thesis using rd by (auto simp: numeral_3_eq_3)
qed

section \<open>Disconnected clients\<close>

lemma acquire_cached:
  assumes "lk_state (lk (w_lc w) l) = FREE" and "\<not> lk_stale (lk (w_lc w) l)"
  shows "lc_acquire (Suc n) l w = Ret (l_OK, w\<lparr>w_lc := set_state l LOCKED (w_lc w)\<rparr>)"
  using assms by (simp add: lc_acquire_def acq_entry_def acq_try_def verify_def)

lemma acquire_refused:
  assumes "lc_disconnected (w_lc w)" and "lk_state (lk (w_lc w) l) = NONE"
  shows "lc_acquire (Suc n) l w = Ret (l_DISCONNECTED, w)"
  using assms by (simp add: lc_acquire_def acq_entry_def acq_try_def verify_def)

lemma create_body_total: "\<exists>r w'. create_body p name new d w = Ret (r, w') \<and> w_lc w' = w_lc w"
  by (simp add: create_body_def w_put_def w_lift_def ec_put_def w_rename_def ec_rename_def ensure_cached_def mcount_def
      time_null_def verify_def e_status_defs Let_def ext2yfs_def y_status_defs)

lemma pick_ino_disconnected:
  assumes "lc_disconnected (w_lc w)" and x: "x = fst (get_rand_num w) OR fbit" and "lk_state (lk (w_lc w) x) = NONE"
    and "cache_ok A (w_ext w)" and "view (w_ext w) x = None"
  shows "\<exists>w1. pick_ino (Suc (Suc n)) fbit w = Ret (x, w1) \<and> w_lc w1 = w_lc w"
proof -
  obtain y w0 where g: "get_rand_num w = (y, w0)" by fastforce
  have w0: "w0 = w\<lparr>w_pos := w_pos w + 2\<rparr>" using g by (auto simp: get_rand_num_def Let_def)
  have y: "y OR fbit = x" using g x by simp
  have "lc_acquire (Suc n) x w0 = Ret (l_DISCONNECTED, w0)" using acquire_refused [of w0 x n] assms(1,3) by (simp add: w0)
  moreover have "w_get x w0 = Ret (e_NOENT, [], w0\<lparr>w_ext := (w_ext w)\<lparr>ex_tick := Suc (ex_tick (w_ext w))\<rparr>\<rparr>)"
    using ec_get_absent [OF assms(4,5)] by (simp add: w_get_def w0)
  ultimately show ?thesis by (simp add: g y Let_def w0)
qed

text \<open>
  A disconnected client that creates a file in a directory whose lock it has cached ends: the lock of
  the new inode number is refused, which \<^verbatim>\<open>create\<close> does not look at, and releasing that lock at the end
  fails.
\<close>

theorem create_disconnected_aborts:
  assumes "lc_disconnected (w_lc w)" and "lk_state (lk (w_lc w) p) = FREE" and "\<not> lk_stale (lk (w_lc w) p)"
    and "cache_ok UNIV (w_ext w)" and "view (w_ext w) p = Some t" and "yfs_dir_new t = Ret d" and "\<not> dir_exists name d"
    and "x = fst (get_rand_num w) OR 0x80000000" and "view (w_ext w) x = None" and "lk_state (lk (w_lc w) x) = NONE"
  shows "y_create (Suc (Suc n)) p name ino0 w = Fault Verify_failed"
proof -
  let ?w = "w\<lparr>w_lc := set_state p LOCKED (w_lc w)\<rparr>"
  have ne: "x \<noteq> p" using assms(5,9) by auto
  obtain e where e: "ec_get p (w_ext w) = Ret (e_OK, t, e)" "cache_ok UNIV e" "view e = view (w_ext w)"
    using ec_get_present [OF assms(4,5)] by metis
  let ?w2 = "?w\<lparr>w_ext := e\<rparr>"
  have x2: "x = fst (get_rand_num ?w2) OR 0x80000000" using assms(8) by (simp add: get_rand_num_def Let_def)
  obtain w3 where w3: "pick_ino (Suc (Suc n)) 0x80000000 ?w2 = Ret (x, w3)" "w_lc w3 = w_lc ?w2"
    using pick_ino_disconnected [OF _ x2, of UNIV n] assms(1,9,10) ne e(2,3) by auto
  obtain r w4 where w4: "create_body p name x d w3 = Ret (r, w4)" "w_lc w4 = w_lc w3" using create_body_total by blast
  have "lc_release x w4 = Fault Verify_failed"
    using w4(2) w3(2) assms(10) ne by (simp add: lc_release_def release_wo_def rel_try_def)
  then show ?thesis
    using acquire_cached [OF assms(2,3), of "Suc n"] e(1) assms(6,7) w3(1) w4(1)
    by (simp add: y_create_def w_get_def del: pick_ino.simps)
qed

theorem create_disconnected_aborts_witness:
  "y_create 2 1 ''new'' 0 (yfs_example\<lparr>w_lc := \<lparr>lc_id = ''c'', lc_status = [(1, \<lparr>lk_state = FREE, lk_stale = False\<rparr>)],
      lc_disconnected = True\<rparr>\<rparr>) = Fault Verify_failed"
proof -
  let ?w = "yfs_example\<lparr>w_lc := \<lparr>lc_id = ''c'', lc_status = [(1, \<lparr>lk_state = FREE, lk_stale = False\<rparr>)], lc_disconnected = True\<rparr>\<rparr>"
  have "y_create (Suc (Suc 0)) 1 ''new'' 0 ?w = Fault Verify_failed"
  proof (rule create_disconnected_aborts)
    show "cache_ok UNIV (w_ext ?w)" using holding_ok [OF yfs_example_holding] by simp
    show "view (w_ext ?w) 1 = Some dir_example" using yfs_example_views(1) by simp
    show "yfs_dir_new dir_example = Ret [(''a'', 0x80000007)]" by (rule dir_example_parse)
    show "0x80000005 = fst (get_rand_num ?w) OR 0x80000000"
      by (simp add: get_rand_num_def yfs_example_def world_new_def Let_def)
    show "view (w_ext ?w) 0x80000005 = None" using yfs_example_views(3) by simp
  qed (simp_all add: mget_def mfind_def dir_exists_def mcount_def)
  then show ?thesis by (simp add: numeral_2_eq_2)
qed

text \<open>
  A disconnected client can work on what it has cached: reading and writing a cached file whose lock it
  has cached succeeds although neither server is asked, and the write is kept in the cache as a
  modification of the version it had.
\<close>

theorem disconnected_write_cached:
  assumes "lc_disconnected (w_lc w)" and "lk_state (lk (w_lc w) i) = FREE" and "\<not> lk_stale (lk (w_lc w) i)"
    and "mfind (local_extent (w_ext w)) i = Some e" and "length buf = unat sz"
  shows "\<exists>w' e'. y_write (Suc n) i buf off sz w = Ret (y_OK, w') \<and> mfind (local_extent (w_ext w')) i = Some e' \<and>
    ee_extent e' = overwrite (ee_extent e) off buf \<and> ee_dirty e' \<and> a_version (ee_attr e') = a_version (ee_attr e) \<and>
    ex_srv (w_ext w') = ex_srv (w_ext w) \<and> w_ls w' = w_ls w \<and> lk_state (lk (w_lc w') i) = FREE"
proof -
  let ?w = "w\<lparr>w_lc := set_state i LOCKED (w_lc w)\<rparr>"
  let ?e = "e\<lparr>ee_attr := (ee_attr e)\<lparr>a_atime := ex_clock (w_ext w) (ex_tick (w_ext w))\<rparr>\<rparr>"
  let ?x = "set_entry i ?e ((w_ext w)\<lparr>ex_tick := Suc (ex_tick (w_ext w))\<rparr>)"
  have g: "w_get i ?w = Ret (e_OK, ee_extent e, ?w\<lparr>w_ext := ?x\<rparr>)"
    using assms(4) by (simp add: w_get_def ec_get_def ensure_cached_def mcount_0 mget_found time_null_def e_status_defs Let_def)
  obtain y where y: "w_put i (overwrite (ee_extent e) off buf) (?w\<lparr>w_ext := ?x\<rparr>) = Ret (e_OK, ?w\<lparr>w_ext := y\<rparr>)"
      "\<exists>e'. mfind (local_extent y) i = Some e' \<and> ee_extent e' = overwrite (ee_extent e) off buf \<and> ee_dirty e' \<and>
         a_version (ee_attr e') = a_version (ee_attr e)" "ex_srv y = ex_srv (w_ext w)"
    by (auto simp: w_put_def w_lift_def ec_put_def time_null_def mcount_def mget_found Let_def)
  have "lk_state (lk (w_lc (?w\<lparr>w_ext := y\<rparr>)) i) = LOCKED" "\<not> lk_stale (lk (w_lc (?w\<lparr>w_ext := y\<rparr>)) i)"
    using assms(3) by simp_all
  from release_locked [OF this] have
    "release_return i y_OK (?w\<lparr>w_ext := y\<rparr>) = Ret (y_OK, ?w\<lparr>w_ext := y, w_lc := set_state i FREE (w_lc ?w)\<rparr>)"
    by (simp add: release_return_def lc_release_def)
  then have "y_write (Suc n) i buf off sz w = Ret (y_OK, ?w\<lparr>w_ext := y, w_lc := set_state i FREE (w_lc ?w)\<rparr>)"
    using acquire_cached [OF assms(2,3), of n] g y(1) assms(5) by (simp add: y_write_def)
  then show ?thesis using y(2,3) by auto
qed

theorem disconnected_write_cached_witness:
  "\<exists>w' e'. y_write 1 7 ''J'' 0 1 ((reconnect_example 7 True 4)\<lparr>w_up := False, w_lc :=
      \<lparr>lc_id = ''c'', lc_status = [(7, \<lparr>lk_state = FREE, lk_stale = False\<rparr>)], lc_disconnected = True\<rparr>\<rparr>) = Ret (y_OK, w') \<and>
     mfind (local_extent (w_ext w')) 7 = Some e' \<and> ee_extent e' = overwrite ''mine'' 0 ''J''"
proof -
  let ?w = "(reconnect_example 7 True 4)\<lparr>w_up := False, w_lc :=
      \<lparr>lc_id = ''c'', lc_status = [(7, \<lparr>lk_state = FREE, lk_stale = False\<rparr>)], lc_disconnected = True\<rparr>\<rparr>"
  let ?e = "\<lparr>ee_dirty = True, ee_extent = ''mine'', ee_attr = attr_zero\<lparr>a_size := 4, a_version := 3, a_name := ''f''\<rparr>\<rparr>"
  have "mfind (local_extent (w_ext ?w)) 7 = Some ?e" by (simp add: reconnect_example_def mfind_def)
  with disconnected_write_cached [of ?w 7 ?e "''J''" 1 0 0] show ?thesis by (auto simp: mget_def)
qed

section \<open>Start-up\<close>

lemma root_string: "dir_to_string [(''tmp'', 2)] = ''tmp 2:''"
proof -
  have "filename 2 = ''2''" by code_simp
  then show ?thesis by (simp add: dir_to_string_def)
qed

text \<open>
  The constructor of \<^verbatim>\<open>yfs_client\<close> sets up the file system when there is none (an empty root directory
  but for the entry \<^verbatim>\<open>tmp\<close>, and the empty directory for conflicts) and leaves an existing one alone; it
  keeps no lock.
\<close>

theorem startup_creates_root:
  assumes "holding {} w" and "view (w_ext w) 1 = None \<longrightarrow> view (w_ext w) 2 = None"
  shows "\<exists>w'. y_new (Suc (Suc (Suc n))) w = Ret w' \<and> holding {} w' \<and>
    view (w_ext w') = (if view (w_ext w) 1 = None
      then (view (w_ext w))(1 \<mapsto> dir_to_string [(''tmp'', 2)], 2 \<mapsto> dir_to_string []) else view (w_ext w))"
proof -
  have d: "yfs_dir_new ''tmp 2:'' = Ret [(''tmp'', 2)]"
    using reparse [of "[(''tmp'', 2)]"] by (simp add: root_string clean_name_def)
  have t: "yfs_dir_new '':'' = Ret []" by (simp add: yfs_dir_new_def)
  show ?thesis
  proof (cases "view (w_ext w) 1")
    case None
    show ?thesis
    proof (rule open_absent [OF assms(1) None, of n])
      fix w1 w2
      assume a: "lc_acquire (Suc (Suc (Suc n))) 1 w = Ret (l_OK, w1)" "w_get 1 w1 = Ret (e_NOENT, [], w2)" "holding {1} w2"
        "view (w_ext w2) = view (w_ext w)"
      obtain w3 where w3: "lc_acquire (Suc (Suc (Suc n))) 2 w2 = Ret (l_OK, w3)" "holding {2, 1} w3" "w_ext w3 = w_ext w2"
        using holding_acquire [OF a(3), of 2 n] by (auto simp: same_data_def)
      obtain e where e: "w_put 1 (dir_to_string [(''tmp'', 2)]) w3 = Ret (e_OK, w3\<lparr>w_ext := e\<rparr>)" "holding {2, 1} (w3\<lparr>w_ext := e\<rparr>)"
          "view e = (view (w_ext w))(1 \<mapsto> dir_to_string [(''tmp'', 2)])"
        using w_put_ok [OF w3(2), of 1 "dir_to_string [(''tmp'', 2)]"] a(4) None w3(3) by auto
      obtain e' where e': "w_put 2 (dir_to_string []) (w3\<lparr>w_ext := e\<rparr>) = Ret (e_OK, w3\<lparr>w_ext := e'\<rparr>)" "holding {2, 1} (w3\<lparr>w_ext := e'\<rparr>)"
          "view e' = (view e)(2 \<mapsto> dir_to_string [])"
        using w_put_ok [OF e(2), of 2 "dir_to_string []"] e(3) assms(2) None by auto
      obtain w4 where w4: "lc_release 2 (w3\<lparr>w_ext := e'\<rparr>) = Ret (l_OK, w4)" "holding {1} w4" "w_ext w4 = e'"
        using holding_release [OF e'(2), of 2] by (auto simp: same_data_def insert_Diff_if)
      obtain w5 where w5: "lc_release 1 w4 = Ret (l_OK, w5)" "holding {} w5" "w_ext w5 = e'"
        using holding_release [OF w4(2), of 1] w4(3) by (auto simp: same_data_def)
      have "y_new (Suc (Suc (Suc n))) w = Ret w5"
        using d t a(1,2) w3(1) e(1) e'(1) w4(1) w5(1) by (simp add: y_new_def)
      then show ?thesis using w5(2,3) e(3) e'(3) None by simp
    qed
  next
    case (Some b)
    show ?thesis
    proof (rule open_present [OF assms(1) Some, of n])
      fix w1 w2
      assume a: "lc_acquire (Suc (Suc (Suc n))) 1 w = Ret (l_OK, w1)" "w_get 1 w1 = Ret (e_OK, b, w2)" "holding {1} w2"
        "view (w_ext w2) = view (w_ext w)"
      obtain w3 where w3: "lc_release 1 w2 = Ret (l_OK, w3)" "holding {} w3" "w_ext w3 = w_ext w2"
        using holding_release [OF a(3), of 1] by (auto simp: same_data_def)
      have "y_new (Suc (Suc (Suc n))) w = Ret w3"
        using d a(1,2) w3(1) by (simp add: y_new_def e_status_defs)
      then show ?thesis using w3(2,3) a(4) Some by simp
    qed
  qed
qed

lemma world_new_holding: "holding {} (world_new cid rnd)" "view (w_ext (world_new cid rnd)) = (\<lambda>_. None)"
  using ext_new_ok by (auto simp: holding_def idle_def world_new_def connected_def lock_client_cache_new_def lockstate_new_def
      lock_server_cache_new_def)

theorem startup_creates_root_witness:
  "\<exists>w'. y_new 3 (world_new ''c'' (\<lambda>_. 0)) = Ret w' \<and> view (w_ext w') 2 = Some '':''"
  using startup_creates_root [OF world_new_holding(1), of "''c''" "\<lambda>_. 0" 0]
  by (auto simp: world_new_holding(2) dir_to_string_def numeral_3_eq_3)

end
