(* ===== verification/Fuse.thy ===== *)
theory Fuse
  imports Yfs_Client
begin

text \<open>
  The request handlers of \<^verbatim>\<open>fuse.cc\<close>, between the FUSE library and \<open>Yfs_Client\<close>. A handler gets the
  arguments of one request and returns the replies it has sent, in order, and the new world. The
  library wants exactly one reply per request: a reply releases the request.

  The library itself is not part of the program. Its functions \<^verbatim>\<open>fuse_dirent_size\<close> and \<^verbatim>\<open>fuse_add_dirent\<close>
  and its constant \<^verbatim>\<open>FUSE_SET_ATTR_SIZE\<close> are arguments of the definitions that use them, and a reply is
  a value. \<^verbatim>\<open>fuse_ino_t\<close>, \<^verbatim>\<open>off_t\<close> and \<^verbatim>\<open>size_t\<close> have 64 bits.
\<close>

section \<open>Data\<close>

datatype errno = E0 | ENOENT | EISDIR | ENOTDIR | EEXIST | EIO | ENOSYS | ENETDOWN

record stat =
  st_ino :: u64
  st_mode :: u32
  st_nlink :: u32
  st_atime :: u64
  st_mtime :: u64
  st_ctime :: u64
  st_size :: u64

definition stat_zero :: stat where
  "stat_zero = \<lparr>st_ino = 0, st_mode = 0, st_nlink = 0, st_atime = 0, st_mtime = 0, st_ctime = 0, st_size = 0\<rparr>"

definition S_IFREG :: u32 where "S_IFREG = 0x8000"
definition S_IFDIR :: u32 where "S_IFDIR = 0x4000"

record fuse_entry =
  fe_ino :: u64
  fe_attr :: stat

datatype reply =
    ReplyErr errno
  | ReplyAttr stat
  | ReplyBuf string
  | ReplyWrite u64
  | ReplyEntry fuse_entry
  | ReplyCreate fuse_entry
  | ReplyOpen
  | ReplyStatfs u64 u64

text \<open>Local variables without an initial value; no handler reads them before they are set.\<close>

definition fileinfo_zero :: fileinfo where
  "fileinfo_zero = \<lparr>fin_size = 0, fin_atime = 0, fin_mtime = 0, fin_ctime = 0, fin_version = 0\<rparr>"

definition dirinfo_zero :: dirinfo where
  "dirinfo_zero = \<lparr>din_atime = 0, din_mtime = 0, din_ctime = 0\<rparr>"

section \<open>Handlers\<close>

definition fs_getattr :: "nat \<Rightarrow> u64 \<Rightarrow> world \<Rightarrow> ((u32 \<times> stat) \<times> world) res" where
  "fs_getattr n inum w =
     (let st = stat_zero\<lparr>st_ino := inum\<rparr> in
      if isfile inum
      then bind_res (getfile n inum fileinfo_zero w) (\<lambda>((ret, info), w).
        if ret \<noteq> y_OK then Ret ((ret, st), w)
        else Ret ((y_OK, st\<lparr>st_mode := S_IFREG OR 0x1B6, st_nlink := 1, st_atime := fin_atime info,
                            st_mtime := fin_mtime info, st_ctime := fin_ctime info, st_size := fin_size info\<rparr>), w))
      else bind_res (getdir n inum dirinfo_zero w) (\<lambda>((ret, info), w).
        if ret \<noteq> y_OK then Ret ((ret, st), w)
        else Ret ((y_OK, st\<lparr>st_mode := S_IFDIR OR 0x1FF, st_nlink := 2, st_atime := din_atime info,
                            st_mtime := din_mtime info, st_ctime := din_ctime info\<rparr>), w)))"

definition fuseserver_getattr :: "nat \<Rightarrow> u64 \<Rightarrow> world \<Rightarrow> (reply list \<times> world) res" where
  "fuseserver_getattr n ino w =
     bind_res (fs_getattr n ino w) (\<lambda>((ret, st), w).
       if ret \<noteq> y_OK then Ret ([ReplyErr ENOENT], w) else Ret ([ReplyAttr st], w))"

definition fuseserver_setattr :: "u32 \<Rightarrow> nat \<Rightarrow> u64 \<Rightarrow> u64 \<Rightarrow> u32 \<Rightarrow> world \<Rightarrow> (reply list \<times> world) res" where
  "fuseserver_setattr size_bit n ino attr_size to_set w =
     (if size_bit AND to_set \<noteq> 0
      then if isdir ino then Ret ([ReplyErr EISDIR], w)
        else bind_res (y_setattr n ino (ucast attr_size) fileinfo_zero w) (\<lambda>(ret, w).
          if ret = y_OK
          then bind_res (fs_getattr n ino w) (\<lambda>((ret, st), w).
                 Ret ((if ret \<noteq> y_OK then [ReplyErr EIO] else []) @ [ReplyAttr st], w))
          else if ret = y_DISCONNECTED then Ret ([ReplyErr ENETDOWN], w)
          else Ret ([ReplyErr EIO], w))
      else Ret ([ReplyErr ENOSYS], w))"

text \<open>In \<^verbatim>\<open>fuseserver_read\<close> and \<^verbatim>\<open>fuseserver_write\<close> an error reply is not followed by a return.\<close>

definition fuseserver_read :: "nat \<Rightarrow> u64 \<Rightarrow> u64 \<Rightarrow> u64 \<Rightarrow> world \<Rightarrow> (reply list \<times> world) res" where
  "fuseserver_read n ino sz off w =
     (let r1 = (if isdir ino then [ReplyErr EISDIR] else []) in
      bind_res (y_read n ino (ucast off) (ucast sz) [] w) (\<lambda>((ret, buf), w).
        let r2 = (if ret = y_DISCONNECTED then [ReplyErr ENETDOWN] else if ret \<noteq> y_OK then [ReplyErr EIO] else [])
        in Ret (r1 @ r2 @ [ReplyBuf buf], w)))"

definition fuseserver_write :: "nat \<Rightarrow> u64 \<Rightarrow> string \<Rightarrow> u64 \<Rightarrow> u64 \<Rightarrow> world \<Rightarrow> (reply list \<times> world) res" where
  "fuseserver_write n ino buf sz off w =
     (let r1 = (if isdir ino then [ReplyErr EISDIR] else []) in
      bind_res (y_write n ino buf (ucast off) (ucast sz) w) (\<lambda>(ret, w).
        let r2 = (if ret = y_DISCONNECTED then [ReplyErr ENETDOWN] else if ret \<noteq> y_OK then [ReplyErr EIO] else [])
        in Ret (r1 @ r2 @ [ReplyWrite sz], w)))"

text \<open>\<open>None\<close>: the entry is not to be read, the status says why.\<close>

definition fuseserver_createhelper :: "nat \<Rightarrow> u64 \<Rightarrow> string \<Rightarrow> world \<Rightarrow> ((u32 \<times> fuse_entry option) \<times> world) res" where
  "fuseserver_createhelper n parent name w =
     bind_res (y_create n parent name 0 w) (\<lambda>((ret, new_ino), w).
       if ret = y_OK
       then bind_res (fs_getattr n new_ino w) (\<lambda>((ret, st), w).
         if ret \<noteq> y_OK then Ret ((ret, None), w)
         else Ret ((ret, Some \<lparr>fe_ino = new_ino, fe_attr = st\<rparr>), w))
       else Ret ((ret, None), w))"

definition create_reply :: "(fuse_entry \<Rightarrow> reply) \<Rightarrow> u32 \<Rightarrow> fuse_entry option \<Rightarrow> reply list" where
  "create_reply ok ret e =
     (case e of
        Some e \<Rightarrow> [ok e]
      | None \<Rightarrow> if ret = y_EXIST then [ReplyErr EEXIST] else [ReplyErr ENOENT])"

definition fuseserver_create :: "nat \<Rightarrow> u64 \<Rightarrow> string \<Rightarrow> world \<Rightarrow> (reply list \<times> world) res" where
  "fuseserver_create n parent name w =
     bind_res (fuseserver_createhelper n parent name w) (\<lambda>((ret, e), w). Ret (create_reply ReplyCreate ret e, w))"

definition fuseserver_mknod :: "nat \<Rightarrow> u64 \<Rightarrow> string \<Rightarrow> world \<Rightarrow> (reply list \<times> world) res" where
  "fuseserver_mknod n parent name w =
     bind_res (fuseserver_createhelper n parent name w) (\<lambda>((ret, e), w). Ret (create_reply ReplyEntry ret e, w))"

definition fuseserver_lookup :: "nat \<Rightarrow> u64 \<Rightarrow> string \<Rightarrow> world \<Rightarrow> (reply list \<times> world) res" where
  "fuseserver_lookup n parent name w =
     bind_res (y_lookup n parent name 0 w) (\<lambda>((ret, f_ino), w).
     bind_res (if ret = y_OK
               then bind_res (fs_getattr n f_ino w) (\<lambda>((ret, st), w).
                 Ret (ret, if ret = y_OK then Some \<lparr>fe_ino = f_ino, fe_attr = st\<rparr> else None, w))
               else Ret (ret, None, w)) (\<lambda>(ret, found, w).
       Ret ((case found of
               Some e \<Rightarrow> [ReplyEntry e]
             | None \<Rightarrow> if ret = y_DISCONNECTED then [ReplyErr ENETDOWN] else [ReplyErr ENOENT]), w)))"

record dirbuf =
  db_p :: string
  db_size :: nat

definition dirbuf_zero :: dirbuf where
  "dirbuf_zero = \<lparr>db_p = [], db_size = 0\<rparr>"

text \<open>
  \<open>dsize\<close> and \<open>dbytes\<close> stand for \<^verbatim>\<open>fuse_dirent_size\<close> and the bytes that \<^verbatim>\<open>fuse_add_dirent\<close> stores for a name, an
  inode number and the offset of the next entry.
\<close>

definition dirbuf_add :: "(nat \<Rightarrow> nat) \<Rightarrow> (string \<Rightarrow> u64 \<Rightarrow> nat \<Rightarrow> string) \<Rightarrow> string \<Rightarrow> u64 \<Rightarrow> dirbuf \<Rightarrow> dirbuf" where
  "dirbuf_add dsize dbytes name ino b =
     (let oldsize = db_size b;
          newsize = oldsize + dsize (length (c_str name))
      in \<lparr>db_p = take oldsize (db_p b) @ dbytes (c_str name) ino newsize, db_size = newsize\<rparr>)"

definition reply_buf_limited :: "string \<Rightarrow> nat \<Rightarrow> u64 \<Rightarrow> u64 \<Rightarrow> reply list" where
  "reply_buf_limited buf bufsize off maxsize =
     (if unat off < bufsize
      then [ReplyBuf (take (min (bufsize - unat off) (unat maxsize)) (drop (unat off) buf))]
      else [ReplyBuf []])"

definition fuseserver_readdir ::
  "(nat \<Rightarrow> nat) \<Rightarrow> (string \<Rightarrow> u64 \<Rightarrow> nat \<Rightarrow> string) \<Rightarrow> nat \<Rightarrow> u64 \<Rightarrow> u64 \<Rightarrow> u64 \<Rightarrow> world \<Rightarrow> (reply list \<times> world) res" where
  "fuseserver_readdir dsize dbytes n ino sz off w =
     (if \<not> isdir ino then Ret ([ReplyErr ENOTDIR], w)
      else bind_res (getdir_contents n ino w) (\<lambda>((ret, dir), w).
        case dir of
          Some d \<Rightarrow>
            if ret = y_OK
            then (let b = fold (\<lambda>(name, i). dirbuf_add dsize dbytes name i) d dirbuf_zero
                  in Ret (reply_buf_limited (db_p b) (db_size b) off sz, w))
            else Ret ([ReplyErr (if ret = y_DISCONNECTED then ENETDOWN else ENOTDIR)], w)
        | None \<Rightarrow> Ret ([ReplyErr (if ret = y_DISCONNECTED then ENETDOWN else ENOTDIR)], w)))"

definition fuseserver_open :: "u64 \<Rightarrow> world \<Rightarrow> (reply list \<times> world) res" where
  "fuseserver_open ino w = Ret ([ReplyOpen], w)"

definition fuseserver_mkdir :: "nat \<Rightarrow> u64 \<Rightarrow> string \<Rightarrow> world \<Rightarrow> (reply list \<times> world) res" where
  "fuseserver_mkdir n parent name w =
     bind_res (y_mkdir n parent name 0 w) (\<lambda>((ret, new_ino), w).
       if ret = y_OK
       then bind_res (fs_getattr n new_ino w) (\<lambda>((ret, st), w).
         if ret \<noteq> y_OK then Ret ([ReplyErr ENOSYS], w)
         else Ret ([ReplyEntry \<lparr>fe_ino = new_ino, fe_attr = st\<rparr>], w))
       else if ret = y_EXIST then Ret ([ReplyErr EEXIST], w)
       else if ret = y_DISCONNECTED then Ret ([ReplyErr ENETDOWN], w)
       else Ret ([ReplyErr EIO], w))"

definition fuseserver_unlink :: "nat \<Rightarrow> u64 \<Rightarrow> string \<Rightarrow> world \<Rightarrow> (reply list \<times> world) res" where
  "fuseserver_unlink n parent name w =
     bind_res (y_unlink n parent name w) (\<lambda>(ret, w).
       if ret = y_OK then Ret ([ReplyErr E0], w)
       else if ret = y_NOENT then Ret ([ReplyErr ENOENT], w)
       else if ret = y_DISCONNECTED then Ret ([ReplyErr ENETDOWN], w)
       else Ret ([ReplyErr EIO], w))"

definition fuseserver_statfs :: "world \<Rightarrow> (reply list \<times> world) res" where
  "fuseserver_statfs w = Ret ([ReplyStatfs 255 512], w)"

text \<open>The table \<^verbatim>\<open>fuseserver_oper\<close> that \<^verbatim>\<open>main\<close> fills in. The last argument of each handler is ignored.\<close>

datatype fuse_request =
    FGetattr u64
  | FStatfs
  | FReaddir u64 u64 u64
  | FLookup u64 string
  | FCreate u64 string
  | FMknod u64 string
  | FOpen u64
  | FRead u64 u64 u64
  | FWrite u64 string u64
  | FSetattr u64 u64 u32
  | FUnlink u64 string
  | FMkdir u64 string

fun fuseserver_oper ::
  "u32 \<Rightarrow> (nat \<Rightarrow> nat) \<Rightarrow> (string \<Rightarrow> u64 \<Rightarrow> nat \<Rightarrow> string) \<Rightarrow> nat \<Rightarrow> fuse_request \<Rightarrow> world \<Rightarrow> (reply list \<times> world) res" where
  "fuseserver_oper size_bit dsize dbytes n (FGetattr i) w = fuseserver_getattr n i w"
| "fuseserver_oper size_bit dsize dbytes n FStatfs w = fuseserver_statfs w"
| "fuseserver_oper size_bit dsize dbytes n (FReaddir i sz off) w = fuseserver_readdir dsize dbytes n i sz off w"
| "fuseserver_oper size_bit dsize dbytes n (FLookup p name) w = fuseserver_lookup n p name w"
| "fuseserver_oper size_bit dsize dbytes n (FCreate p name) w = fuseserver_create n p name w"
| "fuseserver_oper size_bit dsize dbytes n (FMknod p name) w = fuseserver_mknod n p name w"
| "fuseserver_oper size_bit dsize dbytes n (FOpen i) w = fuseserver_open i w"
| "fuseserver_oper size_bit dsize dbytes n (FRead i sz off) w = fuseserver_read n i sz off w"
| "fuseserver_oper size_bit dsize dbytes n (FWrite i buf off) w = fuseserver_write n i buf (of_nat (length buf)) off w"
| "fuseserver_oper size_bit dsize dbytes n (FSetattr i sz to_set) w = fuseserver_setattr size_bit n i sz to_set w"
| "fuseserver_oper size_bit dsize dbytes n (FUnlink p name) w = fuseserver_unlink n p name w"
| "fuseserver_oper size_bit dsize dbytes n (FMkdir p name) w = fuseserver_mkdir n p name w"


section \<open>What every operation keeps\<close>

text \<open>
  The steps the operations of \<open>Yfs_Client\<close> consist of, for a client that works undisturbed and whatever
  they return. A lock that is already held cannot be acquired again (the thread sleeps), and one that
  is not held cannot be released.
\<close>

named_theorems keeps "what a returned step tells of an undisturbed client"

lemma acquire_keeps [keeps]:
  assumes r: "lc_acquire n l w = Ret (r, w1)" and h: "holding L w"
  shows "l \<notin> L \<and> r = l_OK \<and> holding (insert l L) w1 \<and> same_data w w1"
proof -
  obtain m where m: "n = Suc m" using r by (cases n) (simp_all add: lc_acquire_def)
  have out: "l \<notin> L"
  proof
    assume "l \<in> L"
    then have "held w l" using h by (auto simp: holding_def split: if_splits)
    then show False using r by (simp add: m lc_acquire_def held_def acq_try_def verify_def split: if_splits)
  qed
  then have idl: "idle w l" using h by (auto simp: holding_def split: if_splits)
  show ?thesis
  proof (cases "lk_state (lk (w_lc w) l) = FREE")
    case True
    then have "lc_acquire n l w = lc_acquire (Suc (Suc (Suc m))) l w"
      using acquire_cached [of w l] idl by (simp add: m idle_def)
    then show ?thesis using holding_acquire [OF h out, of m] r out by auto
  next
    case False
    then have "lk_state (lk (w_lc w) l) = NONE" "\<not> lc_disconnected (w_lc w)" "w_up w" "\<not> locked (li (w_ls w) l)"
      using idl h by (auto simp: idle_def holding_def connected_def)
    note st = this
    have "\<exists>k. n = Suc (Suc (Suc k))"
    proof (cases m)
      case 0
      then show ?thesis using r st by (simp add: m lc_acquire_def acq_entry_def acq_try_def verify_def)
    next
      case (Suc m')
      then show ?thesis using r st
        by (cases m') (simp_all add: m lc_acquire_def acq_entry_def acq_try_def verify_def call_acquire_def lsc_acquire_def
            acquire_cs_def acq_reply_def Let_def)
    qed
    then obtain k where "n = Suc (Suc (Suc k))" by blast
    then show ?thesis using holding_acquire [OF h out, of k] r out by auto
  qed
qed

lemma release_keeps [keeps]:
  assumes r: "lc_release l w = Ret (r, w1)" and h: "holding L w"
  shows "l \<in> L \<and> holding (L - {l}) w1 \<and> same_data w w1"
proof (cases "l \<in> L")
  case True
  then show ?thesis using holding_release [OF h True] r by auto
next
  case False
  then have "idle w l" using h by (auto simp: holding_def split: if_splits)
  then show ?thesis using r by (auto simp: lc_release_def release_wo_def rel_try_def idle_def)
qed

lemma release_return_keeps [keeps]:
  assumes "release_return l a w = Ret (b, w1)" and "holding L w"
  shows "b = a \<and> l \<in> L \<and> holding (L - {l}) w1 \<and> same_data w w1"
  using assms release_keeps by (auto simp: release_return_def)

lemma get_keeps [keeps]:
  assumes r: "w_get i w = Ret (ret, b, w1)" and h: "holding L w"
  shows "holding L w1 \<and> view (w_ext w1) = view (w_ext w) \<and> grows (w_ext w) (w_ext w1) \<and>
    (ret = e_NOENT \<and> view (w_ext w) i = None \<or>
     ret = e_OK \<and> view (w_ext w) i = Some b \<and> mfind (local_extent (w_ext w1)) i \<noteq> None)"
proof (cases "view (w_ext w) i")
  case None
  then show ?thesis using w_get_absent [OF h None] r by auto
next
  case (Some f)
  then show ?thesis using w_get_present [OF h Some] r by auto
qed

lemma cached_size:
  assumes "cache_ok UNIV s" and "mfind (local_extent s) i = Some e"
  shows "a_size (ee_attr e) = of_nat (length (ee_extent e))"
  using assms by (auto simp: cache_ok_def synced_def)

lemma ec_getattr_size:
  assumes "cache_ok UNIV s" and "view s i = Some b"
  shows "\<exists>a s'. ec_getattr i s = Ret (e_OK, a, s') \<and> a_size a = of_nat (length b) \<and> cache_ok UNIV s' \<and> view s' = view s"
  by (rule ensure_present [OF assms]) (use cached_size in \<open>force simp: ec_getattr_def e_status_defs verify_def mget_found\<close>)

lemma ec_getattr_absent:
  "cache_ok A s \<Longrightarrow> view s i = None \<Longrightarrow> \<exists>a. ec_getattr i s = Ret (e_NOENT, a, s\<lparr>ex_tick := Suc (ex_tick s)\<rparr>)"
  using ensure_absent by (simp add: ec_getattr_def)

lemma getattr_keeps [keeps]:
  assumes r: "w_getattr i w = Ret (ret, a, w1)" and h: "holding L w"
  shows "holding L w1 \<and> view (w_ext w1) = view (w_ext w) \<and>
    (ret = e_NOENT \<and> view (w_ext w) i = None \<or>
     ret = e_OK \<and> (\<exists>b. view (w_ext w) i = Some b \<and> a_size a = of_nat (length b)))"
proof (cases "view (w_ext w) i")
  case None
  then show ?thesis using ec_getattr_absent [OF holding_ok [OF h] None] holding_ext [OF h] holding_ok [OF h] r
    by (auto simp: w_getattr_def)
next
  case (Some b)
  then show ?thesis using ec_getattr_size [OF holding_ok [OF h] Some] holding_ext [OF h] r
    by (auto simp: w_getattr_def)
qed

lemma put_keeps:
  assumes r: "w_put i b w = Ret (ret, w1)" and h: "holding L w"
    and "mfind (local_extent (w_ext w)) i \<noteq> None \<or> view (w_ext w) i = None"
  shows "ret = e_OK \<and> holding L w1 \<and> view (w_ext w1) = (view (w_ext w))(i \<mapsto> b) \<and>
    mfind (local_extent (w_ext w1)) i \<noteq> None \<and> grows (w_ext w) (w_ext w1)"
  using w_put_ok [OF h assms(3), of b] r by auto


section \<open>The operations keep it\<close>

lemma insert_remove [simp]: "l \<notin> L \<Longrightarrow> insert l L - {l} = L"
  by simp

lemma same_data_ext: "same_data w w1 \<Longrightarrow> w_ext w1 = w_ext w"
  by (simp add: same_data_def)

lemma getfile_keeps:
  assumes r: "getfile n i fin0 w = Ret ((ret, info), w')" and h: "holding {} w"
  shows "holding {} w' \<and> view (w_ext w') = view (w_ext w) \<and>
    (ret = y_NOENT \<and> view (w_ext w) i = None \<or>
     ret = y_OK \<and> (\<exists>b. view (w_ext w) i = Some b \<and> fin_size info = ucast (of_nat (length b) :: u32)))"
proof -
  obtain w1 where a: "lc_acquire n i w = Ret (l_OK, w1)" "holding {i} w1" "w_ext w1 = w_ext w"
    using r acquire_keeps [OF _ h] by (auto simp: getfile_def same_data_def)
  obtain ret1 a1 w2 where g: "w_getattr i w1 = Ret (ret1, a1, w2)"
    using r a(1) by (auto simp: getfile_def getfile_helper_def)
  note k = getattr_keeps [OF g a(2)]
  have "ret = ext2yfs ret1 \<and> holding {} w' \<and> w_ext w' = w_ext w2 \<and> (ret = y_OK \<longrightarrow> fin_size info = ucast (a_size a1))"
    using r a(1) g release_return_keeps k
    by (fastforce simp: getfile_def getfile_helper_def same_data_def Let_def split: if_splits)
  then show ?thesis using k a(3) by auto
qed

lemma getdir_keeps:
  assumes r: "getdir n i din0 w = Ret ((ret, info), w')" and h: "holding {} w"
  shows "holding {} w' \<and> view (w_ext w') = view (w_ext w) \<and>
    (ret = y_NOENT \<and> view (w_ext w) i = None \<or> ret = y_OK \<and> view (w_ext w) i \<noteq> None)"
proof -
  obtain w1 where a: "lc_acquire n i w = Ret (l_OK, w1)" "holding {i} w1" "w_ext w1 = w_ext w"
    using r acquire_keeps [OF _ h] by (auto simp: getdir_def same_data_def)
  obtain ret1 a1 w2 where g: "w_getattr i w1 = Ret (ret1, a1, w2)"
    using r a(1) by (auto simp: getdir_def)
  note k = getattr_keeps [OF g a(2)]
  have "ret = ext2yfs ret1 \<and> holding {} w' \<and> w_ext w' = w_ext w2"
    using r a(1) g release_return_keeps k by (fastforce simp: getdir_def same_data_def Let_def)
  then show ?thesis using k a(3) by auto
qed

lemma fs_getattr_keeps:
  assumes r: "fs_getattr n i w = Ret ((ret, st), w')" and h: "holding {} w"
  shows "holding {} w' \<and> view (w_ext w') = view (w_ext w) \<and> st_ino st = i \<and>
    (ret = y_NOENT \<and> view (w_ext w) i = None \<or>
     ret = y_OK \<and> (\<exists>b. view (w_ext w) i = Some b \<and>
       (if isfile i then st_mode st = S_IFREG OR 0x1B6 \<and> st_size st = ucast (of_nat (length b) :: u32)
        else st_mode st = S_IFDIR OR 0x1FF)))"
proof (cases "isfile i")
  case True
  then show ?thesis using r getfile_keeps [OF _ h]
    by (fastforce simp: fs_getattr_def stat_zero_def Let_def split: if_splits)
next
  case False
  then show ?thesis using r getdir_keeps [OF _ h]
    by (fastforce simp: fs_getattr_def stat_zero_def Let_def split: if_splits)
qed

text \<open>The common start of the other operations: the lock and the content.\<close>

lemma open_keeps:
  assumes h: "holding {} w"
    and r: "bind_res (lc_acquire n i w) (\<lambda>(r, w). if r = l_DISCONNECTED then X w
              else bind_res (w_get i w) (\<lambda>(ret, b, w). F ret b w)) = Ret y"
  obtains ret b w2 where "F ret b w2 = Ret y" and "holding {i} w2" and "view (w_ext w2) = view (w_ext w)"
    and "ret = e_NOENT \<and> view (w_ext w) i = None \<or>
         ret = e_OK \<and> view (w_ext w) i = Some b \<and> mfind (local_extent (w_ext w2)) i \<noteq> None"
proof -
  obtain w1 where a: "lc_acquire n i w = Ret (l_OK, w1)" "holding {i} w1" "w_ext w1 = w_ext w"
    using r acquire_keeps [OF _ h] by (auto simp: same_data_def)
  obtain ret b w2 where g: "w_get i w1 = Ret (ret, b, w2)" using r a(1) by auto
  show thesis using that [of ret b w2] get_keeps [OF g a(2)] r a g by simp
qed

lemma read_keeps:
  assumes "y_read n i off sz [] w = Ret ((ret, buf), w')" and h: "holding {} w"
  shows "holding {} w' \<and> view (w_ext w') = view (w_ext w) \<and>
    (ret = y_NOENT \<and> view (w_ext w) i = None \<or>
     ret = y_OK \<and> (\<exists>f. view (w_ext w) i = Some f \<and> buf = take (unat sz) (drop (unat off) f)))"
  using assms(1) unfolding y_read_def
  by (rule open_keeps [OF h]) (auto simp: Let_def same_data_def dest!: release_return_keeps split: if_splits)

lemma lookup_keeps:
  assumes "y_lookup n p name ino0 w = Ret ((ret, ino), w')" and h: "holding {} w"
  shows "holding {} w' \<and> view (w_ext w') = view (w_ext w) \<and> ret \<in> {y_OK, y_NOENT}"
  using assms(1) unfolding y_lookup_def
  by (rule open_keeps [OF h]) (auto simp: Let_def same_data_def dest!: release_return_keeps split: if_splits)

lemma contents_keeps:
  assumes "getdir_contents n i w = Ret ((ret, d), w')" and h: "holding {} w"
  shows "holding {} w' \<and> view (w_ext w') = view (w_ext w) \<and>
    (ret = y_NOENT \<and> view (w_ext w) i = None \<and> d = None \<or>
     ret = y_OK \<and> (\<exists>t d'. view (w_ext w) i = Some t \<and> yfs_dir_new t = Ret d' \<and> d = Some d'))"
  using assms(1) unfolding getdir_contents_def
  by (rule open_keeps [OF h]) (auto simp: Let_def same_data_def dest!: release_return_keeps split: if_splits)

lemma write_keeps:
  assumes "y_write n i buf off sz w = Ret (ret, w')" and h: "holding {} w"
  shows "holding {} w' \<and>
    (ret = y_NOENT \<and> view (w_ext w) i = None \<and> view (w_ext w') = view (w_ext w) \<or>
     ret = y_OK \<and> (\<exists>f. view (w_ext w) i = Some f \<and>
       view (w_ext w') = (view (w_ext w))(i \<mapsto> overwrite f off (take (unat sz) buf))))"
  using assms(1) unfolding y_write_def
  by (rule open_keeps [OF h])
     (auto simp: Let_def same_data_def dest!: release_return_keeps put_keeps split: if_splits)


lemma setattr_keeps:
  assumes "y_setattr n i len fin0 w = Ret (ret, w')" and h: "holding {} w"
  shows "holding {} w' \<and> (ret = y_OK \<and> view (w_ext w') i \<noteq> None \<or> ret = y_NOENT)"
  using assms(1) unfolding y_setattr_def
proof (rule open_keeps [OF h])
  fix st b w2
  assume r: "(let ret = ext2yfs st in if ret \<noteq> y_OK then release_return i ret w2
      else bind_res (getfile_helper i fin0 w2) (\<lambda>((ret, fin), w). if ret \<noteq> y_OK then release_return i ret w
        else bind_res (case resized len (ucast (fin_size fin)) b of None \<Rightarrow> Ret (ret, w)
            | Some b \<Rightarrow> bind_res (w_put i b w) (\<lambda>(ret, w). Ret (ext2yfs ret, w)))
          (\<lambda>(ret, w). release_return i ret w))) = Ret (ret, w')"
    and h2: "holding {i} w2" and v2: "view (w_ext w2) = view (w_ext w)"
    and c: "st = e_NOENT \<and> view (w_ext w) i = None \<or>
         st = e_OK \<and> view (w_ext w) i = Some b \<and> mfind (local_extent (w_ext w2)) i \<noteq> None"
  show ?thesis
  proof (cases "st = e_OK")
    case False
    then show ?thesis using r c h2 v2 by (auto simp: same_data_def dest!: release_return_keeps)
  next
    case True
    then have cached: "mfind (local_extent (w_ext w2)) i \<noteq> None" and "view (w_ext w) i = Some b"
      using c by (auto simp: e_status_defs)
    obtain e where e: "mfind (local_extent (w_ext w2)) i = Some e" using cached by auto
    then have ga: "w_getattr i w2 = Ret (e_OK, ee_attr e, w2)"
      by (simp add: w_getattr_def ec_getattr_def ensure_cached_def mcount_0 mget_found verify_def e_status_defs)
    then obtain fin where gf: "getfile_helper i fin0 w2 = Ret ((y_OK, fin), w2)" by (simp add: getfile_helper_def)
    show ?thesis using r True h2 v2 cached gf \<open>view (w_ext w) i = Some b\<close>
      by (auto simp: Let_def same_data_def dest!: release_return_keeps put_keeps split: option.splits)
  qed
qed

lemma holding_pos: "holding L (w\<lparr>w_pos := k\<rparr>) = holding L w"
  unfolding holding_def held_def idle_def connected_def by simp

lemma pick_ino_keeps:
  "pick_ino n fbit w = Ret (x, w1) \<Longrightarrow> holding L w \<Longrightarrow>
   x \<notin> L \<and> holding (insert x L) w1 \<and> view (w_ext w1) = view (w_ext w) \<and> view (w_ext w) x = None \<and>
   grows (w_ext w) (w_ext w1)"
proof (induction n fbit w rule: pick_ino.induct)
  case (2 n fbit w)
  obtain y w0 where g: "get_rand_num w = (y, w0)" by fastforce
  have w0: "w0 = w\<lparr>w_pos := w_pos w + 2\<rparr>" using g by (auto simp: get_rand_num_def Let_def)
  have h0: "holding L w0" using "2.prems"(2) by (simp add: w0 holding_pos)
  obtain r w2 where a: "lc_acquire n (y OR fbit) w0 = Ret (r, w2)" using "2.prems"(1) g by (auto simp: Let_def)
  have ak: "y OR fbit \<notin> L" "holding (insert (y OR fbit) L) w2" "w_ext w2 = w_ext w"
    using acquire_keeps [OF a h0] by (auto simp: same_data_def w0)
  obtain st b w3 where b: "w_get (y OR fbit) w2 = Ret (st, b, w3)" using "2.prems"(1) g a by (auto simp: Let_def)
  note bk = get_keeps [OF b ak(2)]
  show ?case
  proof (cases "ext2yfs st = y_NOENT")
    case True
    then show ?thesis using "2.prems"(1) g a b ak bk by (auto simp: Let_def)
  next
    case False
    obtain r' w4 where c: "lc_release (y OR fbit) w3 = Ret (r', w4)" "pick_ino n fbit w4 = Ret (x, w1)"
      using "2.prems"(1) g a b False by (auto simp: Let_def)
    have h3: "holding (insert (y OR fbit) L) w3" using bk by blast
    have ck: "holding L w4" "w_ext w4 = w_ext w3" using release_keeps [OF c(1) h3] ak(1) by (auto simp: same_data_def)
    have "x \<notin> L \<and> holding (insert x L) w1 \<and> view (w_ext w1) = view (w_ext w4) \<and> view (w_ext w4) x = None \<and>
        grows (w_ext w4) (w_ext w1)"
      by (rule "2.IH" [OF g [symmetric] refl False c(2) ck(1)])
    moreover have "view (w_ext w4) = view (w_ext w)" "grows (w_ext w) (w_ext w4)" using ck(2) bk ak(3) by auto
    ultimately show ?thesis using grows_trans by auto
  qed
qed simp


lemma rename_keeps:
  assumes "w_rename i n w = Ret (ret, w1)" and h: "holding L w" and "mfind (local_extent (w_ext w)) i \<noteq> None"
  shows "ret = e_OK \<and> holding L w1 \<and> view (w_ext w1) = view (w_ext w) \<and> grows (w_ext w) (w_ext w1)"
  using w_rename_ok [OF h assms(3), of n] assms(1) by auto

text \<open>\<^verbatim>\<open>create\<close> and \<^verbatim>\<open>mkdir\<close> differ in the file bit and in what they store.\<close>

lemma new_object_keeps:
  assumes r: "bind_res (lc_acquire n p w) (\<lambda>(r, w). if r = l_DISCONNECTED then Ret ((y_DISCONNECTED, ino0), w)
       else bind_res (w_get p w) (\<lambda>(ret, t, w). let ret = ext2yfs ret in
         if ret \<noteq> y_OK then release_return p (ret, ino0) w
         else bind_res (yfs_dir_new t) (\<lambda>d. if dir_exists name d then release_return p (y_EXIST, ino0) w
           else bind_res (pick_ino n fbit w) (\<lambda>(new_ino, w). bind_res (body new_ino d w) (\<lambda>(ret, w).
             bind_res (lc_release new_ino w) (\<lambda>(r, w). release_return p (ret, new_ino) w)))))) = Ret ((ret, x), w')"
    and h: "holding {} w"
    and body: "\<And>y d w. holding {y, p} w \<Longrightarrow> view (w_ext w) y = None \<Longrightarrow> mfind (local_extent (w_ext w)) p \<noteq> None \<Longrightarrow>
      \<exists>w'. body y d w = Ret (y_OK, w') \<and> holding {y, p} w' \<and> view (w_ext w') y \<noteq> None"
  shows "holding {} w' \<and> ret \<in> {y_OK, y_NOENT, y_EXIST} \<and> (ret = y_OK \<longrightarrow> view (w_ext w') x \<noteq> None)"
proof (rule open_keeps [OF h r])
  fix st t w2
  assume r: "(let ret = ext2yfs st in if ret \<noteq> y_OK then release_return p (ret, ino0) w2
      else bind_res (yfs_dir_new t) (\<lambda>d. if dir_exists name d then release_return p (y_EXIST, ino0) w2
        else bind_res (pick_ino n fbit w2) (\<lambda>(new_ino, w). bind_res (body new_ino d w) (\<lambda>(ret, w).
          bind_res (lc_release new_ino w) (\<lambda>(r, w). release_return p (ret, new_ino) w))))) = Ret ((ret, x), w')"
    and h2: "holding {p} w2" and c: "st = e_NOENT \<and> view (w_ext w) p = None \<or>
         st = e_OK \<and> view (w_ext w) p = Some t \<and> mfind (local_extent (w_ext w2)) p \<noteq> None"
  show ?thesis
  proof (cases "st = e_OK \<and> (\<exists>d. yfs_dir_new t = Ret d \<and> \<not> dir_exists name d)")
    case False
    then show ?thesis using r c h2 by (auto simp: Let_def y_status_defs dest!: release_return_keeps split: if_splits)
  next
    case True
    then obtain d where d: "yfs_dir_new t = Ret d" "\<not> dir_exists name d" by blast
    obtain y w3 where p3: "pick_ino n fbit w2 = Ret (y, w3)" using r True d by auto
    note k3 = pick_ino_keeps [OF p3 h2]
    have h3: "holding {y, p} w3" and v3: "view (w_ext w3) y = None" using k3 by auto
    have "mfind (local_extent (w_ext w3)) p \<noteq> None" using k3 c True by (auto simp: grows_def e_status_defs)
    from body [OF h3 v3 this, of d] obtain w4 where w4: "body y d w3 = Ret (y_OK, w4)"
        "holding {y, p} w4" "view (w_ext w4) y \<noteq> None" by blast
    obtain q w5 where w5: "lc_release y w4 = Ret (q, w5)" "release_return p (y_OK, y) w5 = Ret ((ret, x), w')"
      using r True d p3 w4(1) by auto
    have k5: "holding {p} w5" "w_ext w5 = w_ext w4"
      using release_keeps [OF w5(1) w4(2)] k3 by (auto simp: same_data_def insert_Diff_if split: if_splits)
    show ?thesis using release_return_keeps [OF w5(2) k5(1)] k5(2) w4(3) by (auto simp: same_data_def)
  qed
qed

lemma create_keeps:
  assumes "y_create n p name ino0 w = Ret ((ret, x), w')" and "holding {} w"
  shows "holding {} w' \<and> ret \<in> {y_OK, y_NOENT, y_EXIST} \<and> (ret = y_OK \<longrightarrow> view (w_ext w') x \<noteq> None)"
proof (rule new_object_keeps [OF assms(1) [unfolded y_create_def] assms(2)])
  fix y d v
  assume a: "holding {y, p} v" "view (w_ext v) y = None" "mfind (local_extent (w_ext v)) p \<noteq> None"
  show "\<exists>v'. create_body p name y d v = Ret (y_OK, v') \<and> holding {y, p} v' \<and> view (w_ext v') y \<noteq> None"
    using create_body_ok [OF a, of name d] by force
qed

lemma mkdir_keeps:
  assumes "y_mkdir n p name ino0 w = Ret ((ret, x), w')" and "holding {} w"
  shows "holding {} w' \<and> ret \<in> {y_OK, y_NOENT, y_EXIST} \<and> (ret = y_OK \<longrightarrow> view (w_ext w') x \<noteq> None)"
proof (rule new_object_keeps [OF assms(1) [unfolded y_mkdir_def] assms(2)])
  fix y d v
  assume a: "holding {y, p} v" "view (w_ext v) y = None" "mfind (local_extent (w_ext v)) p \<noteq> None"
  show "\<exists>v'. mkdir_body p name y d v = Ret (y_OK, v') \<and> holding {y, p} v' \<and> view (w_ext v') y \<noteq> None"
    using mkdir_body_ok [OF a, of name d] by force
qed

lemma remove_keeps:
  assumes "w_remove i w = Ret (ret, w1)" and h: "holding L w"
  shows "ret = e_OK \<and> holding L w1"
proof -
  let ?e = "(w_ext w)\<lparr>local_extent := merase i (local_extent (w_ext w))\<rparr>"
  have "cache_ok UNIV ?e" using holding_ok [OF h] by (auto simp: cache_ok_def synced_def split: if_splits)
  then have "holding L (w\<lparr>w_ext := ?e\<rparr>)" by (rule holding_ext [OF h])
  then show ?thesis using assms(1) by (auto simp: w_remove_def w_lift_def ec_remove_def)
qed

lemma unlink_keeps:
  assumes "y_unlink n p name w = Ret (ret, w')" and h: "holding {} w"
  shows "holding {} w'"
  using assms(1) unfolding y_unlink_def
proof (rule open_keeps [OF h])
  fix st t w2
  assume r: "(let ret = ext2yfs st in if ret \<noteq> y_OK then release_return p ret w2
      else bind_res (yfs_dir_new t) (\<lambda>p_dir. if \<not> dir_exists name p_dir then release_return p y_NOENT w2
        else (case dir_get name p_dir of (f_ino, p_dir) \<Rightarrow>
          if isdir f_ino then release_return p y_IOERR w2
          else bind_res (lc_acquire n f_ino w2) (\<lambda>(r, w).
            if r = l_DISCONNECTED then release_return p y_DISCONNECTED w
            else (let p_dir = dir_rem name p_dir in bind_res (w_put p (dir_to_string p_dir) w) (\<lambda>(ret, w).
              if ext2yfs ret \<noteq> y_OK then bind_res (lc_release f_ino w) (\<lambda>(r, w). release_return p (ext2yfs ret) w)
              else bind_res (lc_release f_ino w) (\<lambda>(r, w). bind_res (lc_release p w) (\<lambda>(r, w).
                bind_res (w_remove f_ino w) (\<lambda>(ret, w). Ret (ext2yfs ret, w)))))))))) = Ret (ret, w')"
    and h2: "holding {p} w2" and c: "st = e_NOENT \<and> view (w_ext w) p = None \<or>
         st = e_OK \<and> view (w_ext w) p = Some t \<and> mfind (local_extent (w_ext w2)) p \<noteq> None"
  show "holding {} w'"
  proof (cases "st = e_OK \<and> (\<exists>d. yfs_dir_new t = Ret d \<and> dir_exists name d \<and> isfile (fst (dir_get name d)))")
    case False
    then show ?thesis using r c h2
      by (auto simp: Let_def isdir_def dest!: release_return_keeps split: if_splits prod.splits)
  next
    case True
    then obtain d f d' where d: "yfs_dir_new t = Ret d" "dir_exists name d" "dir_get name d = (f, d')" "isfile f"
      by (metis prod.collapse)
    obtain r3 w3 where a: "lc_acquire n f w2 = Ret (r3, w3)" using r True d by (auto simp: isdir_def)
    have k3: "f \<noteq> p" "r3 = l_OK" "holding {f, p} w3" "w_ext w3 = w_ext w2"
      using acquire_keeps [OF a h2] by (auto simp: same_data_def)
    have cached: "mfind (local_extent (w_ext w3)) p \<noteq> None \<or> view (w_ext w3) p = None"
      using c True k3(4) by (auto simp: e_status_defs)
    obtain e where e: "w_put p (dir_to_string (dir_rem name d')) w3 = Ret (e_OK, w3\<lparr>w_ext := e\<rparr>)" "holding {f, p} (w3\<lparr>w_ext := e\<rparr>)"
      using w_put_ok [OF k3(3) cached, of "dir_to_string (dir_rem name d')"] by auto
    obtain q4 w4 q5 w5 q6 where s: "lc_release f (w3\<lparr>w_ext := e\<rparr>) = Ret (q4, w4)" "lc_release p w4 = Ret (q5, w5)"
        "w_remove f w5 = Ret (q6, w')"
      using r True d a k3(2) e(1) by (auto simp: isdir_def)
    have h4: "holding {p} w4" using release_keeps [OF s(1) e(2)] k3(1) by (simp add: insert_Diff_if)
    have "holding {} w5" using release_keeps [OF s(2) h4] by simp
    then show ?thesis using remove_keeps [OF s(3)] by blast
  qed
qed


section \<open>A session\<close>

text \<open>The requests of a session, one after another, with the replies to each.\<close>

definition fuse_serve ::
  "u32 \<Rightarrow> (nat \<Rightarrow> nat) \<Rightarrow> (string \<Rightarrow> u64 \<Rightarrow> nat \<Rightarrow> string) \<Rightarrow> nat \<Rightarrow> fuse_request \<Rightarrow>
   reply list list \<times> world \<Rightarrow> (reply list list \<times> world) res" where
  "fuse_serve size_bit dsize dbytes n q x =
     (case x of (log, w) \<Rightarrow>
        bind_res (fuseserver_oper size_bit dsize dbytes n q w) (\<lambda>(rs, w). Ret (log @ [rs], w)))"

text \<open>How many replies a request gets from a client whose extents are \<open>v\<close>.\<close>

definition replies_due :: "(u64 \<Rightarrow> string option) \<Rightarrow> fuse_request \<Rightarrow> nat" where
  "replies_due v q =
     (case q of
        FRead i sz off \<Rightarrow> 1 + (if isdir i then 1 else 0) + (if v i = None then 1 else 0)
      | FWrite i buf off \<Rightarrow> 1 + (if isdir i then 1 else 0) + (if v i = None then 1 else 0)
      | _ \<Rightarrow> 1)"

lemma y_codes [simp]: "y_NOENT \<noteq> y_DISCONNECTED" "y_OK \<noteq> y_DISCONNECTED" "y_OK \<noteq> y_EXIST" "y_NOENT \<noteq> y_EXIST"
  "y_EXIST \<noteq> y_OK" "y_EXIST \<noteq> y_DISCONNECTED" "y_DISCONNECTED \<noteq> y_OK"
  by (simp_all add: y_status_defs)

lemma serve_getattr:
  "fuseserver_getattr n i w = Ret (rs, w') \<Longrightarrow> holding {} w \<Longrightarrow> holding {} w' \<and> length rs = 1"
  by (auto simp: fuseserver_getattr_def dest!: fs_getattr_keeps)

lemma serve_setattr:
  assumes "fuseserver_setattr b n i sz ts w = Ret (rs, w')" and "holding {} w"
  shows "holding {} w' \<and> length rs = 1"
  using assms
  by (auto simp: fuseserver_setattr_def dest!: setattr_keeps fs_getattr_keeps split: if_splits)

lemma serve_read:
  assumes "fuseserver_read n i sz off w = Ret (rs, w')" and "holding {} w"
  shows "holding {} w' \<and> length rs = replies_due (view (w_ext w)) (FRead i sz off)"
  using assms by (auto simp: fuseserver_read_def replies_due_def Let_def dest!: read_keeps)

lemma serve_write:
  assumes "fuseserver_write n i buf sz off w = Ret (rs, w')" and "holding {} w"
  shows "holding {} w' \<and> length rs = replies_due (view (w_ext w)) (FWrite i buf off)"
  using assms by (auto simp: fuseserver_write_def replies_due_def Let_def dest!: write_keeps)

lemma helper_keeps:
  "fuseserver_createhelper n p name w = Ret ((ret, e), w') \<Longrightarrow> holding {} w \<Longrightarrow> holding {} w'"
  by (auto simp: fuseserver_createhelper_def dest!: create_keeps fs_getattr_keeps split: if_splits)

lemma create_reply_one: "length (create_reply ok ret e) = 1"
  by (simp add: create_reply_def split: option.splits)

lemma serve_create:
  "fuseserver_create n p name w = Ret (rs, w') \<Longrightarrow> holding {} w \<Longrightarrow> holding {} w' \<and> length rs = 1"
  "fuseserver_mknod n p name w = Ret (rs, w') \<Longrightarrow> holding {} w \<Longrightarrow> holding {} w' \<and> length rs = 1"
  using create_reply_one by (auto simp: fuseserver_create_def fuseserver_mknod_def dest!: helper_keeps)

lemma serve_lookup:
  assumes r: "fuseserver_lookup n p name w = Ret (rs, w')" and h: "holding {} w"
  shows "holding {} w' \<and> length rs = 1"
proof -
  obtain ret f w1 where l: "y_lookup n p name 0 w = Ret ((ret, f), w1)"
    using r by (auto simp: fuseserver_lookup_def)
  have h1: "holding {} w1" using lookup_keeps [OF l h] by blast
  show ?thesis
  proof (cases "ret = y_OK")
    case True
    then obtain ret' st where g: "fs_getattr n f w1 = Ret ((ret', st), w')"
      using r l by (auto simp: fuseserver_lookup_def)
    then show ?thesis using r l True fs_getattr_keeps [OF g h1] by (auto simp: fuseserver_lookup_def)
  next
    case False
    then show ?thesis using r l h1 by (auto simp: fuseserver_lookup_def)
  qed
qed

lemma serve_readdir:
  "fuseserver_readdir ds db n i sz off w = Ret (rs, w') \<Longrightarrow> holding {} w \<Longrightarrow> holding {} w' \<and> length rs = 1"
  by (auto simp: fuseserver_readdir_def reply_buf_limited_def Let_def dest!: contents_keeps split: if_splits)

lemma serve_mkdir:
  "fuseserver_mkdir n p name w = Ret (rs, w') \<Longrightarrow> holding {} w \<Longrightarrow> holding {} w' \<and> length rs = 1"
  by (auto simp: fuseserver_mkdir_def dest!: mkdir_keeps fs_getattr_keeps split: if_splits)

lemma serve_unlink:
  "fuseserver_unlink n p name w = Ret (rs, w') \<Longrightarrow> holding {} w \<Longrightarrow> holding {} w' \<and> length rs = 1"
  by (auto simp: fuseserver_unlink_def dest!: unlink_keeps split: if_splits)

lemmas serve_all = serve_getattr serve_setattr serve_read serve_write serve_create serve_lookup serve_readdir serve_mkdir
  serve_unlink

lemma oper_keeps:
  assumes "fuseserver_oper sb ds db n q w = Ret (rs, w')" and "holding {} w"
  shows "holding {} w' \<and> length rs = replies_due (view (w_ext w)) q"
  using assms
  by (cases q) (auto simp: replies_due_def fuseserver_open_def fuseserver_statfs_def dest: serve_all [unfolded replies_due_def])


interpretation session: op_machine "fuse_serve sb ds db n" "\<lambda>x. holding {} (snd x)" for sb ds db n
  by unfold_locales (auto simp: fuse_serve_def dest: oper_keeps)

lemma serve_log: "run_ops (fuse_serve sb ds db n) qs (log, w) = Ret (log', w') \<Longrightarrow> length log' = length log + length qs"
  by (induction qs arbitrary: log w) (auto simp: fuse_serve_def)

section \<open>The buffer of a directory\<close>

fun dir_bytes :: "(string \<Rightarrow> u64 \<Rightarrow> nat \<Rightarrow> string) \<Rightarrow> (nat \<Rightarrow> nat) \<Rightarrow> nat \<Rightarrow> yfs_dir \<Rightarrow> string" where
  "dir_bytes dbytes dsize k [] = []"
| "dir_bytes dbytes dsize k ((name, i) # d) =
     (let k' = k + dsize (length (c_str name)) in dbytes (c_str name) i k' @ dir_bytes dbytes dsize k' d)"

lemma fold_dirbuf:
  assumes "\<And>m i k. length (dbytes m i k) = dsize (length m)" and "length (db_p b) = db_size b"
  shows "db_p (fold (\<lambda>(name, i). dirbuf_add dsize dbytes name i) d b) = db_p b @ dir_bytes dbytes dsize (db_size b) d \<and>
    db_size (fold (\<lambda>(name, i). dirbuf_add dsize dbytes name i) d b) =
      length (db_p b @ dir_bytes dbytes dsize (db_size b) d)"
  using assms(2)
proof (induction d arbitrary: b)
  case (Cons p d)
  obtain name i where p: "p = (name, i)" by fastforce
  have "length (db_p (dirbuf_add dsize dbytes name i b)) = db_size (dirbuf_add dsize dbytes name i b)"
    using Cons.prems assms(1) by (simp add: dirbuf_add_def Let_def)
  from Cons.IH [OF this] show ?case using Cons.prems by (simp add: p dirbuf_add_def Let_def)
qed simp

lemma pages_concat:
  fixes b :: string
  assumes "0 < k"
  shows "concat (map (\<lambda>j. take k (drop (j * k) b)) [0..<m]) = take (m * k) b"
proof (induction m)
  case (Suc m)
  have "take (Suc m * k) b = take (m * k) b @ take k (drop (m * k) b)"
    by (metis add.commute mult_Suc take_add)
  then show ?case using Suc by simp
qed simp

definition reply_bytes :: "reply list \<Rightarrow> string" where
  "reply_bytes rs = concat (map (\<lambda>r. case r of ReplyBuf b \<Rightarrow> b | _ \<Rightarrow> []) rs)"

section \<open>Properties of the handlers\<close>



text \<open>
  The number of replies. On an undisturbed client every handler sends exactly one reply, as the FUSE
  library demands, except \<^verbatim>\<open>fuseserver_read\<close> and \<^verbatim>\<open>fuseserver_write\<close>: they do not return after an error
  reply, so a read or write of a directory is answered once more, and one of a missing file too.
\<close>

theorem replies_per_request:
  assumes "holding {} w" and "fuseserver_oper sb ds db n q w = Ret (rs, w')"
  shows "length rs = (case q of
      FRead i sz off \<Rightarrow> 1 + (if isdir i then 1 else 0) + (if view (w_ext w) i = None then 1 else 0)
    | FWrite i buf off \<Rightarrow> 1 + (if isdir i then 1 else 0) + (if view (w_ext w) i = None then 1 else 0)
    | _ \<Rightarrow> 1)"
  using oper_keeps [OF assms(2,1)] by (simp add: replies_due_def)

theorem replies_per_request_witness:
  "\<exists>rs w'. fuseserver_oper 8 (\<lambda>k. k) (\<lambda>m i k. m) 3 (FRead 1 5 0) yfs_example = Ret (rs, w') \<and> length rs = 2"
proof -
  obtain w' where "y_read 3 1 0 5 [] yfs_example = Ret ((y_OK, take 5 dir_example), w')"
    using y_read_spec [OF yfs_example_holding yfs_example_views(1), of 0 0 5] by (auto simp: numeral_3_eq_3)
  then have "\<exists>rs w'. fuseserver_oper 8 (\<lambda>k. k) (\<lambda>m i k. m) 3 (FRead 1 5 0) yfs_example = Ret (rs, w')"
    by (simp add: fuseserver_read_def)
  then show ?thesis using replies_per_request [OF yfs_example_holding] yfs_example_views(1)
    by (fastforce simp: isdir_def isfile_def)
qed

text \<open>
  Offsets are cut to 32 bits: a read or write at \<open>off + 2^32\<close> is one at \<open>off\<close>, so that writing beyond the
  first 4 GB of a file overwrites its beginning, and \<^verbatim>\<open>setattr\<close> to a length of \<open>2^32\<close> empties a file. The comment before
  each handler promises the offset or length asked for.
\<close>

theorem large_offsets_wrap:
  "fuseserver_write n i buf sz (off + 2 ^ 32) w = fuseserver_write n i buf sz off w \<and>
   fuseserver_read n i sz (off + 2 ^ 32) w = fuseserver_read n i sz off w \<and>
   fuseserver_setattr b n i (len + 2 ^ 32) ts w = fuseserver_setattr b n i len ts w"
proof -
  have "ucast (x + 2 ^ 32 :: u64) = (ucast x :: u32)" for x
    by transfer (simp add: take_bit_eq_mod mod_mod_cancel)
  then show ?thesis by (simp add: fuseserver_write_def fuseserver_read_def fuseserver_setattr_def)
qed


lemma unat_narrow: "unat x < 2 ^ 32 \<Longrightarrow> unat (ucast (x :: u64) :: u32) = unat x"
  by (simp add: unsigned_ucast_eq take_bit_nat_eq_self)

lemma unat_widen: "unat (ucast (x :: u32) :: u64) = unat x"
proof -
  have "unat x < 2 ^ 32" using unsigned_less [of x, where ?'a = nat] by simp
  then have "unat x < 2 ^ 64" by simp
  then show ?thesis by (simp add: unsigned_ucast_eq take_bit_nat_eq_self)
qed

lemma fs_getattr_file:
  assumes h: "holding {} w" and v: "view (w_ext w) i = Some b" and f: "isfile i"
  shows "\<exists>st w'. fs_getattr (Suc (Suc (Suc n))) i w = Ret ((y_OK, st), w') \<and> st_ino st = i \<and>
    st_mode st = S_IFREG OR 0x1B6 \<and> st_size st = ucast (of_nat (length b) :: u32) \<and> holding {} w' \<and>
    view (w_ext w') = view (w_ext w)"
proof -
  obtain w1 where a: "lc_acquire (Suc (Suc (Suc n))) i w = Ret (l_OK, w1)" "holding {i} w1" "w_ext w1 = w_ext w"
    using holding_acquire [OF h, of i n] by (auto simp: same_data_def)
  obtain at s' where g: "ec_getattr i (w_ext w1) = Ret (e_OK, at, s')" "cache_ok UNIV s'"
    using ec_getattr_size [OF holding_ok [OF h] v] a(3) by auto
  have h2: "holding {i} (w1\<lparr>w_ext := s'\<rparr>)" by (rule holding_ext [OF a(2) g(2)])
  obtain w3 where "lc_release i (w1\<lparr>w_ext := s'\<rparr>) = Ret (l_OK, w3)" using holding_release [OF h2, of i] by auto
  then have "\<exists>st. fs_getattr (Suc (Suc (Suc n))) i w = Ret ((y_OK, st), w3)"
    using a(1) g(1) f by (simp add: fs_getattr_def getfile_def getfile_helper_def w_getattr_def release_return_def Let_def)
  then obtain st where st: "fs_getattr (Suc (Suc (Suc n))) i w = Ret ((y_OK, st), w3)" by blast
  show ?thesis using fs_getattr_keeps [OF st h] st f v by auto
qed

text \<open>
  C21. A file written through FUSE is read back: for a file and a range below 4 GB, \<^verbatim>\<open>fuseserver_write\<close> replies once
  with the number of bytes, a read of the same range then replies once with the bytes written, and
  \<^verbatim>\<open>fuseserver_getattr\<close> reports a regular file of the right size.
\<close>

theorem file_roundtrip:
  assumes h: "holding {} w" and v: "view (w_ext w) i = Some old" and f: "isfile i"
    and len: "unat off + length buf < 2 ^ 32" and old: "length old < 2 ^ 32"
  shows "\<exists>w1 w2 w3 st. fuseserver_write (Suc (Suc (Suc n))) i buf (of_nat (length buf)) off w = Ret ([ReplyWrite (of_nat (length buf))], w1) \<and>
    fuseserver_read (Suc (Suc (Suc n))) i (of_nat (length buf)) off w1 = Ret ([ReplyBuf buf], w2) \<and>
    fuseserver_getattr (Suc (Suc (Suc n))) i w2 = Ret ([ReplyAttr st], w3) \<and> holding {} w3 \<and>
    st_mode st = S_IFREG OR 0x1B6 \<and> unat (st_size st) = max (length old) (unat off + length buf)"
proof -
  have o: "unat (ucast off :: u32) = unat off" using len by (simp add: unat_narrow)
  have l: "unat (ucast (of_nat (length buf) :: u64) :: u32) = length buf"
    using len by (simp add: unat_narrow unat_of_nat)
  let ?new = "overwrite old (ucast off) buf"
  obtain w1 where w1: "y_write (Suc (Suc (Suc n))) i buf (ucast off) (ucast (of_nat (length buf) :: u64)) w = Ret (y_OK, w1)"
      "holding {} w1" "view (w_ext w1) = (view (w_ext w))(i \<mapsto> ?new)"
    using y_write_spec [OF h v, of "ucast (of_nat (length buf) :: u64)" buf n "ucast off"] l by auto
  have v1: "view (w_ext w1) i = Some ?new" using w1(3) by simp
  have bytes: "take (length buf) (drop (unat off) ?new) = buf"
    by (rule nth_equalityI) (auto simp: length_overwrite nth_overwrite max_def o)
  obtain w2 where w2: "y_read (Suc (Suc (Suc n))) i (ucast off) (ucast (of_nat (length buf) :: u64)) [] w1 = Ret ((y_OK, buf), w2)"
      "holding {} w2" "view (w_ext w2) = view (w_ext w1)"
    using y_read_spec [OF w1(2) v1, of n "ucast off" "ucast (of_nat (length buf) :: u64)"] bytes l o by auto
  have v2: "view (w_ext w2) i = Some ?new" using w2(3) v1 by simp
  obtain st w3 where g: "fs_getattr (Suc (Suc (Suc n))) i w2 = Ret ((y_OK, st), w3)" "holding {} w3"
      "st_mode st = S_IFREG OR 0x1B6" "st_size st = ucast (of_nat (length ?new) :: u32)"
    using fs_getattr_file [OF w2(2) v2 f, of n] by blast
  have "unat (st_size st) = max (length old) (unat off + length buf)"
    using len old o by (simp add: g(4) length_overwrite unat_widen unat_of_nat max_def)
  then show ?thesis using w1(1) w2(1) g f
    by (simp add: fuseserver_write_def fuseserver_read_def fuseserver_getattr_def isdir_def)
qed

theorem file_roundtrip_witness:
  "\<exists>w1 w2. fuseserver_write 3 0x80000007 ''J'' 1 0 yfs_example = Ret ([ReplyWrite 1], w1) \<and>
     fuseserver_read 3 0x80000007 1 0 w1 = Ret ([ReplyBuf ''J''], w2)"
proof -
  have f: "isfile 0x80000007" by (simp add: isfile_def)
  have l: "unat (0 :: u64) + length ''J'' < 2 ^ 32" "length ''hello'' < 2 ^ 32" by simp_all
  from file_roundtrip [OF yfs_example_holding yfs_example_views(2) f l, of 0] show ?thesis
    by (auto simp: numeral_3_eq_3)
qed


lemma readdir_ok:
  assumes h: "holding {} w" and v: "view (w_ext w) i = Some t" "yfs_dir_new t = Ret d" and i: "isdir i"
    and laws: "\<And>m j k. length (dbytes m j k) = dsize (length m)"
  defines "B \<equiv> dir_bytes dbytes dsize 0 d"
  shows "\<exists>w'. fuseserver_readdir dsize dbytes (Suc (Suc (Suc n))) i sz off w = Ret (reply_buf_limited B (length B) off sz, w') \<and>
    holding {} w' \<and> view (w_ext w') = view (w_ext w)"
proof (rule open_present [OF h v(1), of n])
  fix w1 w2
  assume a: "lc_acquire (Suc (Suc (Suc n))) i w = Ret (l_OK, w1)" "w_get i w1 = Ret (e_OK, t, w2)" "holding {i} w2"
    "view (w_ext w2) = view (w_ext w)"
  show ?thesis
    by (rule close_file [OF a(3), of "(y_OK, Some d)"])
       (use a v(2) i fold_dirbuf [of dbytes dsize dirbuf_zero d, OF laws] in
         \<open>auto simp: fuseserver_readdir_def getdir_contents_def B_def dirbuf_zero_def Let_def\<close>)
qed

lemma readdir_session:
  assumes v: "yfs_dir_new t = Ret d" and i: "isdir i" and laws: "\<And>m j k. length (dbytes m j k) = dsize (length m)"
    and k: "0 < k" "m * k < 2 ^ 64" "k < 2 ^ 64"
    and h: "holding {} w" "view (w_ext w) i = Some t"
  defines "B \<equiv> dir_bytes dbytes dsize 0 d"
  shows "\<exists>log w'. run_ops (fuse_serve sb dsize dbytes (Suc (Suc (Suc n))))
      (map (\<lambda>j. FReaddir i (of_nat k) (of_nat (j * k))) [0..<m]) ([], w) = Ret (log, w') \<and>
    holding {} w' \<and> view (w_ext w') i = Some t \<and> concat (map reply_bytes log) = take (m * k) B"
  using k(2)
proof (induction m)
  case (Suc m)
  then obtain log w' where IH: "run_ops (fuse_serve sb dsize dbytes (Suc (Suc (Suc n))))
      (map (\<lambda>j. FReaddir i (of_nat k) (of_nat (j * k))) [0..<m]) ([], w) = Ret (log, w')"
    "holding {} w'" "view (w_ext w') i = Some t" "concat (map reply_bytes log) = take (m * k) B" by auto
  obtain w2 where r: "fuseserver_readdir dsize dbytes (Suc (Suc (Suc n))) i (of_nat k) (of_nat (m * k)) w' =
      Ret (reply_buf_limited B (length B) (of_nat (m * k)) (of_nat k), w2)" "holding {} w2" "view (w_ext w2) = view (w_ext w')"
    using readdir_ok [OF IH(2,3) v i, of dbytes dsize n "of_nat k" "of_nat (m * k)"] laws unfolding B_def by blast
  have u: "unat (of_nat (m * k) :: u64) = m * k" "unat (of_nat k :: u64) = k"
    using Suc.prems k(3) by (simp_all add: unat_of_nat del: of_nat_mult)
  have "reply_bytes (reply_buf_limited B (length B) (of_nat (m * k)) (of_nat k)) = take k (drop (m * k) B)"
    using u by (simp add: reply_buf_limited_def reply_bytes_def min_def del: of_nat_mult)
  then have "concat (map reply_bytes (log @ [reply_buf_limited B (length B) (of_nat (m * k)) (of_nat k)])) = take (Suc m * k) B"
    using IH(4) pages_concat [OF k(1), of B m] pages_concat [OF k(1), of B "Suc m"] by simp
  moreover have "fuse_serve sb dsize dbytes (Suc (Suc (Suc n))) (FReaddir i (of_nat k) (of_nat (m * k))) (log, w') =
      Ret (log @ [reply_buf_limited B (length B) (of_nat (m * k)) (of_nat k)], w2)"
    using r(1) by (simp add: fuse_serve_def)
  ultimately show ?case using IH(1,3) r(2,3)
    by (intro exI [of _ "log @ [reply_buf_limited B (length B) (of_nat (m * k)) (of_nat k)]"] exI [of _ w2])
       (simp add: run_ops_append del: of_nat_mult)
qed (use h in simp)

text \<open>
  C34. A directory read in pages is read completely: \<^verbatim>\<open>readdir\<close> requests for \<open>k\<close> bytes each at the offsets \<open>0, k, 2k\<close>, and so
  on deliver, put together, exactly the entries of the directory in name order, each followed by
  the offset of the next.
\<close>

theorem readdir_pages:
  assumes "holding {} w" and "view (w_ext w) i = Some t" and "yfs_dir_new t = Ret d" and "isdir i"
    and "\<And>m j k. length (dbytes m j k) = dsize (length m)"
    and "0 < k" and "k < 2 ^ 64" and "m * k < 2 ^ 64" and "length (dir_bytes dbytes dsize 0 d) \<le> m * k"
  shows "\<exists>log w'. run_ops (fuse_serve sb dsize dbytes (Suc (Suc (Suc n))))
      (map (\<lambda>j. FReaddir i (of_nat k) (of_nat (j * k))) [0..<m]) ([], w) = Ret (log, w') \<and>
    concat (map reply_bytes log) = dir_bytes dbytes dsize 0 d"
  using readdir_session [where dbytes = dbytes and dsize = dsize, OF assms(3,4) assms(5) assms(6,8,7,1,2), of sb n] assms(9) by auto

theorem readdir_pages_witness:
  "\<exists>log w'. run_ops (fuse_serve 8 (\<lambda>n. n + 2) (\<lambda>m j k. m @ ''##'') 3) (map (\<lambda>j. FReaddir 1 (of_nat 2) (of_nat (j * 2))) [0..<2]) ([], yfs_example) =
      Ret (log, w') \<and> concat (map reply_bytes log) = ''a##''"
proof -
  have d: "isdir 1" by (simp add: isdir_def isfile_def)
  have b: "dir_bytes (\<lambda>m j k. m @ ''##'') (\<lambda>n. n + 2) 0 [(''a'', 0x80000007)] = ''a##''" by (simp add: c_str_def)
  from readdir_pages [OF yfs_example_holding yfs_example_views(1) dir_example_parse d, of "\<lambda>m j k. m @ ''##''" "\<lambda>n. n + 2" 2 2 8 0]
  show ?thesis unfolding b by (simp add: numeral_3_eq_3)
qed

text \<open>
  A file created through FUSE is found through FUSE: \<^verbatim>\<open>fuseserver_create\<close> of a new name replies with the entry of an
  empty regular file under a fresh inode number, and \<^verbatim>\<open>fuseserver_lookup\<close> of the name then replies with the
  entry of the same number, mode and size.
\<close>

theorem create_then_lookup_replies:
  assumes h: "holding {} w" and v: "view (w_ext w) p = Some t" "yfs_dir_new t = Ret d" "\<not> dir_exists name d" "clean_name name"
    and x: "x = fst (get_rand_num w) OR 0x80000000" "view (w_ext w) x = None"
  shows "\<exists>e e' w1 w2. fuseserver_create (Suc (Suc (Suc (Suc n)))) p name w = Ret ([ReplyCreate e], w1) \<and>
    fuseserver_lookup (Suc (Suc (Suc n))) p name w1 = Ret ([ReplyEntry e'], w2) \<and> holding {} w2 \<and>
    fe_ino e = x \<and> fe_ino e' = x \<and> st_ino (fe_attr e') = x \<and>
    st_mode (fe_attr e) = S_IFREG OR 0x1B6 \<and> st_mode (fe_attr e') = S_IFREG OR 0x1B6 \<and>
    st_size (fe_attr e) = 0 \<and> st_size (fe_attr e') = 0"
proof -
  have f: "isfile x" using x(1) file_bit by simp
  obtain w1 where w1: "y_create (Suc (Suc (Suc (Suc n)))) p name 0 w = Ret ((y_OK, x), w1)" "holding {} w1"
      "view (w_ext w1) = (view (w_ext w))(x \<mapsto> [], p \<mapsto> dir_to_string (mput name x d))"
    using y_create_spec [OF h v(1-3) x, of n 0] by blast
  have "x \<noteq> p" using v(1) x(2) by auto
  then have v1: "view (w_ext w1) x = Some []" "view (w_ext w1) p = Some (dir_to_string (mput name x d))" using w1(3) by simp_all
  obtain st w2 where g: "fs_getattr (Suc (Suc (Suc (Suc n)))) x w1 = Ret ((y_OK, st), w2)" "st_mode st = S_IFREG OR 0x1B6"
      "st_size st = 0" "holding {} w2" "view (w_ext w2) = view (w_ext w1)"
    using fs_getattr_file [OF w1(2) v1(1) f, of "Suc n"] by auto
  have v2: "view (w_ext w2) x = Some []" "view (w_ext w2) p = Some (dir_to_string (mput name x d))" using g(5) v1 by simp_all
  have "dir_exists name (mput name x d)" by (simp add: dir_exists_def mcount_def)
  then obtain w3 where l: "y_lookup (Suc (Suc (Suc n))) p name 0 w2 = Ret ((y_OK, x), w3)" "holding {} w3"
      "view (w_ext w3) = view (w_ext w2)"
    using y_lookup_spec [OF g(4) v2(2) reparse_add [OF v(2,4)], of n name 0] by auto
  have v3: "view (w_ext w3) x = Some []" using l(3) v2(1) by simp
  obtain st' w4 where g': "fs_getattr (Suc (Suc (Suc n))) x w3 = Ret ((y_OK, st'), w4)" "st_ino st' = x" "st_mode st' = S_IFREG OR 0x1B6"
      "st_size st' = 0" "holding {} w4"
    using fs_getattr_file [OF l(2) v3 f, of n] by auto
  show ?thesis using w1(1) g(1-4) l(1) g'
    by (simp add: fuseserver_create_def fuseserver_createhelper_def fuseserver_lookup_def create_reply_def)
qed

theorem create_then_lookup_replies_witness:
  "\<exists>e e' w1 w2. fuseserver_create 4 1 ''new'' yfs_example = Ret ([ReplyCreate e], w1) \<and>
     fuseserver_lookup 3 1 ''new'' w1 = Ret ([ReplyEntry e'], w2) \<and> fe_ino e' = 0x80000005"
proof -
  have x: "0x80000005 = fst (get_rand_num yfs_example) OR 0x80000000"
    by (simp add: get_rand_num_def yfs_example_def world_new_def Let_def)
  have "\<not> dir_exists ''new'' [(''a'', 0x80000007)]" "clean_name ''new''"
    by (simp_all add: dir_exists_def mcount_def mfind_def clean_name_def)
  note c = create_then_lookup_replies [OF yfs_example_holding yfs_example_views(1) dir_example_parse this x yfs_example_views(3), of 0]
  have "Suc (Suc (Suc (Suc 0))) = 4" "Suc (Suc (Suc 0)) = 3" by simp_all
  then show ?thesis using c by metis
qed

end
