(* ===== verification/Lock_System.thy ===== *)
theory Lock_System
  imports Lock_Client_Cache
begin

text \<open>
  The locking protocol as a whole: any number of caching clients, the caching server, and the RPCs
  between them in flight, interleaved in every way. Each action is one stretch of code that runs
  under a mutex, taken from \<open>Lock_Client_Cache\<close> and \<open>Lock_Server\<close>; between two of them anything may happen,
  and replies, revocations and retries arrive in any order. (The server waits for its revoke RPC
  before it answers the acquire; the model also has the runs in which it does not.) Clients are
  connected throughout.

  The invariant says for each client and lock which combinations of the client's state, its threads'
  progress, the server's record and the messages in flight can occur. It gives mutual exclusion,
  that no \<^verbatim>\<open>VERIFY\<close> of the protocol fails, and that a thread waiting for a lock is never forgotten.
\<close>

section \<open>States and actions\<close>

text \<open>
  The thread of a client that is acquiring a lock: none, its request is on the way, the reply is on
  the way, or it sleeps on \<^verbatim>\<open>wait_retry_\<close>. Likewise a thread that releases it to the server.
\<close>

datatype acq_phase = AcqIdle | AcqSent | AcqGot u32 | AcqAsleep

datatype rel_phase = RelIdle | RelSent | RelDone

record lsys =
  sy_srv :: lock_server_cache
  sy_cl :: "string \<Rightarrow> lock_client_cache"
  sy_acq :: "string \<Rightarrow> u64 \<Rightarrow> acq_phase"
  sy_rel :: "string \<Rightarrow> u64 \<Rightarrow> rel_phase"
  sy_held :: "string \<Rightarrow> u64 \<Rightarrow> bool"
  sy_revoke :: "string \<Rightarrow> u64 \<Rightarrow> nat"
  sy_retry :: "string \<Rightarrow> u64 \<Rightarrow> nat"

datatype act_kind = Begin | ServeAcquire | GetReply | Wake | Release | ServeRelease | GetReleased | GetRevoke | GetRetry

definition upd2 :: "('a \<Rightarrow> 'b \<Rightarrow> 'v) \<Rightarrow> 'a \<Rightarrow> 'b \<Rightarrow> 'v \<Rightarrow> 'a \<Rightarrow> 'b \<Rightarrow> 'v" where
  "upd2 f a b v = f(a := (f a)(b := v))"

lemma upd2_apply [simp]: "upd2 f a b v x y = (if x = a \<and> y = b then v else f x y)"
  by (simp add: upd2_def)

text \<open>
  \<open>None\<close>: the action is not possible now. A thread calls \<^verbatim>\<open>release\<close> only for a lock that \<^verbatim>\<open>acquire\<close> gave it
  (\<open>sy_held\<close>).
\<close>

fun sys_do :: "act_kind \<Rightarrow> string \<Rightarrow> u64 \<Rightarrow> lsys \<Rightarrow> lsys res option" where
  "sys_do Begin c l s =
     (if sy_acq s c l \<noteq> AcqIdle then None
      else if \<not> acq_entry l (sy_cl s c) then Some (Fault Verify_failed)
      else (case acq_try l (sy_cl s c) of
              (ASend, k) \<Rightarrow> Some (Ret (s\<lparr>sy_cl := (sy_cl s)(c := k), sy_acq := upd2 (sy_acq s) c l AcqSent\<rparr>))
            | (AHave, k) \<Rightarrow> Some (Ret (s\<lparr>sy_cl := (sy_cl s)(c := k), sy_held := upd2 (sy_held s) c l True\<rparr>))
            | (_, k) \<Rightarrow> None))"
| "sys_do ServeAcquire c l s =
     (if sy_acq s c l \<noteq> AcqSent then None
      else (case acquire_cs l c (sy_srv s) of (r, rv, sv) \<Rightarrow>
        Some (Ret (s\<lparr>sy_srv := sv, sy_acq := upd2 (sy_acq s) c l (AcqGot r),
                     sy_revoke := (case rv of None \<Rightarrow> sy_revoke s
                                   | Some own \<Rightarrow> upd2 (sy_revoke s) own l (sy_revoke s own l + 1))\<rparr>))))"
| "sys_do GetReply c l s =
     (case sy_acq s c l of
        AcqGot r \<Rightarrow>
          (case acq_reply l r (sy_cl s c) of
             (RDone ret, k) \<Rightarrow> Some (Ret (s\<lparr>sy_cl := (sy_cl s)(c := k), sy_acq := upd2 (sy_acq s) c l AcqIdle,
                                            sy_held := upd2 (sy_held s) c l (ret = l_OK)\<rparr>))
           | (RAcquired, k) \<Rightarrow> Some (Ret (s\<lparr>sy_cl := (sy_cl s)(c := acquired_fresh l k), sy_acq := upd2 (sy_acq s) c l AcqIdle,
                                            sy_held := upd2 (sy_held s) c l True\<rparr>))
           | (RSleep, k) \<Rightarrow> Some (Ret (s\<lparr>sy_cl := (sy_cl s)(c := k), sy_acq := upd2 (sy_acq s) c l AcqAsleep\<rparr>))
           | (RResend, k) \<Rightarrow> Some (Ret (s\<lparr>sy_cl := (sy_cl s)(c := k), sy_acq := upd2 (sy_acq s) c l AcqSent\<rparr>)))
      | _ \<Rightarrow> None)"
| "sys_do Wake c l s =
     (if sy_acq s c l = AcqAsleep \<and> lk_state (lk (sy_cl s c) l) \<noteq> WAITING
      then Some (Ret (s\<lparr>sy_acq := upd2 (sy_acq s) c l AcqSent\<rparr>)) else None)"
| "sys_do Release c l s =
     (if \<not> sy_held s c l then None
      else Some (bind_res (rel_try l (sy_cl s c)) (\<lambda>(send, k).
             Ret (s\<lparr>sy_cl := (sy_cl s)(c := k), sy_held := upd2 (sy_held s) c l False,
                    sy_rel := (if send then upd2 (sy_rel s) c l RelSent else sy_rel s)\<rparr>))))"
| "sys_do ServeRelease c l s =
     (if sy_rel s c l \<noteq> RelSent then None
      else Some (bind_res (lsc_release l c (sy_srv s)) (\<lambda>((ret, r, info), sv).
             Ret (s\<lparr>sy_srv := sv, sy_rel := upd2 (sy_rel s) c l RelDone,
                    sy_retry := (\<lambda>d m. sy_retry s d m + (if m = l \<and> d \<in> set (ri_waiting info) then 1 else 0))\<rparr>))))"
| "sys_do GetReleased c l s =
     (if sy_rel s c l \<noteq> RelDone then None
      else Some (Ret (s\<lparr>sy_cl := (sy_cl s)(c := release_done l (sy_cl s c)), sy_rel := upd2 (sy_rel s) c l RelIdle\<rparr>)))"
| "sys_do GetRevoke c l s =
     (if sy_revoke s c l = 0 then None
      else (case revoke_try l (sy_cl s c) of
              (VRelease, k) \<Rightarrow> Some (Ret (s\<lparr>sy_cl := (sy_cl s)(c := k), sy_revoke := upd2 (sy_revoke s) c l (sy_revoke s c l - 1),
                                             sy_rel := upd2 (sy_rel s) c l RelSent\<rparr>))
            | (VDone, k) \<Rightarrow> Some (Ret (s\<lparr>sy_cl := (sy_cl s)(c := k), sy_revoke := upd2 (sy_revoke s) c l (sy_revoke s c l - 1)\<rparr>))
            | (VDisconnected, k) \<Rightarrow> Some (Fault Verify_failed)))"
| "sys_do GetRetry c l s =
     (if sy_retry s c l = 0 then None
      else (case retry_handler l (sy_cl s c) of (ret, r, k) \<Rightarrow>
        Some (verify (ret = l_OK \<and> r = rl_OK)
          (Ret (s\<lparr>sy_cl := (sy_cl s)(c := k), sy_retry := upd2 (sy_retry s) c l (sy_retry s c l - 1)\<rparr>)))))"

definition lsys_new :: lsys where
  "lsys_new = \<lparr>sy_srv = lock_server_cache_new, sy_cl = lock_client_cache_new, sy_acq = (\<lambda>_ _. AcqIdle), sy_rel = (\<lambda>_ _. RelIdle),
     sy_held = (\<lambda>_ _. False), sy_revoke = (\<lambda>_ _. 0), sy_retry = (\<lambda>_ _. 0)\<rparr>"

inductive lsys_reach :: "lsys \<Rightarrow> bool" where
  reach_new: "lsys_reach lsys_new"
| reach_do: "lsys_reach s \<Longrightarrow> sys_do a c l s = Some (Ret s') \<Longrightarrow> lsys_reach s'"

inductive_cases reach_doE: "lsys_reach s"

section \<open>The invariant\<close>

text \<open>
  What can be the case for one client and one lock: the client's state, its threads, whether an
  application thread holds the lock, whether the server has the client as owner, whether it is in the
  waiting set, whether that set is not empty, and the revokes and retries on their way to it.
\<close>

fun fits :: "lstate \<Rightarrow> acq_phase \<Rightarrow> rel_phase \<Rightarrow> bool \<Rightarrow> bool \<Rightarrow> bool \<Rightarrow> bool \<Rightarrow> nat \<Rightarrow> nat \<Rightarrow> bool" where
  "fits NONE a r h own wt wne rv rt \<longleftrightarrow>
     a = AcqIdle \<and> r = RelIdle \<and> \<not> h \<and> \<not> own \<and> \<not> wt \<and> rv = 0 \<and> rt = 0"
| "fits ACQUIRING a r h own wt wne rv rt \<longleftrightarrow> r = RelIdle \<and> \<not> h \<and>
     (a = AcqSent \<and> \<not> own \<and> \<not> wt \<and> rv = 0 \<and> rt = 0 \<or>
      a = AcqGot l_OK \<and> own \<and> \<not> wt \<and> rv = (if wne then 1 else 0) \<and> rt = 0 \<or>
      a = AcqGot l_RETRY \<and> \<not> own \<and> rv = 0 \<and> rt = (if wt then 0 else 1) \<or>
      a = AcqAsleep \<and> \<not> own \<and> \<not> wt \<and> rv = 0 \<and> rt = 0)"
| "fits WAITING a r h own wt wne rv rt \<longleftrightarrow> r = RelIdle \<and> \<not> h \<and> \<not> own \<and> rv = 0 \<and>
     (a = AcqGot l_RETRY \<and> \<not> wt \<and> rt = 0 \<or> a = AcqAsleep \<and> rt = (if wt then 0 else 1))"
| "fits FREE a r h own wt wne rv rt \<longleftrightarrow>
     a = AcqIdle \<and> r = RelIdle \<and> \<not> h \<and> own \<and> \<not> wt \<and> rv = (if wne then 1 else 0) \<and> rt = 0"
| "fits LOCKED a r h own wt wne rv rt \<longleftrightarrow>
     a = AcqIdle \<and> r = RelIdle \<and> h \<and> own \<and> \<not> wt \<and> rv = (if wne then 1 else 0) \<and> rt = 0"
| "fits RELEASING a r h own wt wne rv rt \<longleftrightarrow> \<not> wt \<and> rv = 0 \<and> rt = 0 \<and>
     (a = AcqGot l_OK \<and> r = RelIdle \<and> \<not> h \<and> own \<and> wne \<or>
      a = AcqIdle \<and> r = RelIdle \<and> h \<and> own \<and> wne \<or>
      a = AcqIdle \<and> r = RelSent \<and> \<not> h \<and> own \<and> wne \<or>
      a = AcqIdle \<and> r = RelDone \<and> \<not> h \<and> \<not> own)"
| "fits FREE_RLS a r h own wt wne rv rt \<longleftrightarrow> a = AcqIdle \<and> \<not> h \<and> \<not> wt \<and> rv = 0 \<and> rt = 0 \<and>
     (r = RelSent \<and> own \<and> wne \<or> r = RelDone \<and> \<not> own)"

definition owns :: "lsys \<Rightarrow> string \<Rightarrow> u64 \<Rightarrow> bool" where
  "owns s c l \<longleftrightarrow> locked (li (sy_srv s) l) \<and> owner (li (sy_srv s) l) = c"

definition waits :: "lsys \<Rightarrow> string \<Rightarrow> u64 \<Rightarrow> bool" where
  "waits s c l \<longleftrightarrow> c \<in> set (waiting_set (li (sy_srv s) l))"

definition wne :: "lsys \<Rightarrow> u64 \<Rightarrow> bool" where
  "wne s l \<longleftrightarrow> waiting_set (li (sy_srv s) l) \<noteq> []"

definition st_of :: "lsys \<Rightarrow> string \<Rightarrow> u64 \<Rightarrow> lstate" where
  "st_of s c l = lk_state (lk (sy_cl s c) l)"

definition pair_ok :: "lsys \<Rightarrow> string \<Rightarrow> u64 \<Rightarrow> bool" where
  "pair_ok s c l \<longleftrightarrow> \<not> lk_stale (lk (sy_cl s c) l) \<and>
     fits (st_of s c l) (sy_acq s c l) (sy_rel s c l) (sy_held s c l) (owns s c l) (waits s c l) (wne s l)
       (sy_revoke s c l) (sy_retry s c l)"

definition lsys_ok :: "lsys \<Rightarrow> bool" where
  "lsys_ok s \<longleftrightarrow> (\<forall>c l. pair_ok s c l) \<and> (\<forall>c. \<not> lc_disconnected (sy_cl s c)) \<and>
     (\<forall>l. \<not> locked (li (sy_srv s) l) \<longrightarrow> waiting_set (li (sy_srv s) l) = [])"

lemma lsys_ok_new: "lsys_ok lsys_new"
  by (auto simp: lsys_ok_def pair_ok_def lsys_new_def st_of_def owns_def waits_def wne_def lock_server_cache_new_def
      lock_client_cache_new_def)


section \<open>The invariant is kept\<close>

lemmas pair_defs = pair_ok_def owns_def waits_def wne_def st_of_def

text \<open>An action of a client touches its own record of one lock and leaves the server alone.\<close>

definition local_step :: "lsys \<Rightarrow> lsys \<Rightarrow> string \<Rightarrow> u64 \<Rightarrow> bool" where
  "local_step s s' c l \<longleftrightarrow> sy_srv s' = sy_srv s \<and> (\<forall>d. lc_disconnected (sy_cl s' d) = lc_disconnected (sy_cl s d)) \<and>
     (\<forall>d m. d \<noteq> c \<or> m \<noteq> l \<longrightarrow> lk (sy_cl s' d) m = lk (sy_cl s d) m \<and> sy_acq s' d m = sy_acq s d m \<and>
        sy_rel s' d m = sy_rel s d m \<and> sy_held s' d m = sy_held s d m \<and> sy_revoke s' d m = sy_revoke s d m \<and>
        sy_retry s' d m = sy_retry s d m)"

lemma local_ok:
  assumes "lsys_ok s" and "local_step s s' c l" and "pair_ok s' c l"
  shows "lsys_ok s'"
proof -
  have "pair_ok s' d m" for d m
  proof (cases "d = c \<and> m = l")
    case False
    then have "pair_ok s' d m = pair_ok s d m" using assms(2) by (auto simp: local_step_def pair_defs)
    then show ?thesis using assms(1) by (simp add: lsys_ok_def)
  qed (use assms in simp)
  then show ?thesis using assms(1,2) by (simp add: lsys_ok_def local_step_def)
qed

lemma okD: "lsys_ok s \<Longrightarrow> pair_ok s c l" "lsys_ok s \<Longrightarrow> \<not> lc_disconnected (sy_cl s c)"
  "lsys_ok s \<Longrightarrow> \<not> locked (li (sy_srv s) l) \<Longrightarrow> waiting_set (li (sy_srv s) l) = []"
  by (simp_all add: lsys_ok_def)

lemma l_codes [simp]: "l_OK \<noteq> l_RETRY" "l_RETRY \<noteq> l_OK" "l_OK \<noteq> l_DISCONNECTED" "l_RETRY \<noteq> l_DISCONNECTED"
  "l_DISCONNECTED \<noteq> l_OK" "l_DISCONNECTED \<noteq> l_RETRY"
  by (simp_all add: l_status_defs)

lemmas client_defs = acq_entry_def acq_try_def acq_reply_def acquired_fresh_def rel_try_def release_done_def
  revoke_try_def retry_handler_def verify_def Let_def

lemma local_kinds:
  assumes "sys_do a c l s = Some (Ret s')" and "a \<noteq> ServeAcquire" and "a \<noteq> ServeRelease"
  shows "local_step s s' c l"
  using assms
  by (cases a) (auto simp: local_step_def client_defs split: if_splits acq_phase.splits lstate.splits)


lemma pair_begin: "pair_ok s c l \<Longrightarrow> \<not> lc_disconnected (sy_cl s c) \<Longrightarrow> sys_do Begin c l s = Some (Ret s') \<Longrightarrow> pair_ok s' c l"
  by (cases "st_of s c l") (auto simp: pair_defs client_defs split: if_splits)

lemma pair_reply: "pair_ok s c l \<Longrightarrow> \<not> lc_disconnected (sy_cl s c) \<Longrightarrow> sys_do GetReply c l s = Some (Ret s') \<Longrightarrow> pair_ok s' c l"
  by (cases "st_of s c l") (auto simp: pair_defs client_defs split: if_splits acq_phase.splits)

lemma pair_wake: "pair_ok s c l \<Longrightarrow> sys_do Wake c l s = Some (Ret s') \<Longrightarrow> pair_ok s' c l"
  by (cases "st_of s c l") (auto simp: pair_defs split: if_splits)

lemma pair_release_cached:
  "pair_ok s c l \<Longrightarrow> st_of s c l = LOCKED \<Longrightarrow> sys_do Release c l s = Some (Ret s') \<Longrightarrow> pair_ok s' c l"
  by (auto simp: pair_defs client_defs split: if_splits)

lemma pair_release_send:
  assumes "pair_ok s c l" and "\<not> lc_disconnected (sy_cl s c)" and "st_of s c l = RELEASING"
    and "sys_do Release c l s = Some (Ret s')"
  shows "pair_ok s' c l"
proof -
  have "rel_try l (sy_cl s c) = Ret (True, sy_cl s c)" using assms by (simp add: pair_defs rel_try_def verify_def)
  moreover have "sy_held s c l" using assms(4) by (auto split: if_splits)
  ultimately show ?thesis using assms by (auto simp: pair_defs)
qed

lemma pair_release:
  assumes "pair_ok s c l" and "\<not> lc_disconnected (sy_cl s c)" and "sys_do Release c l s = Some (Ret s')"
  shows "pair_ok s' c l"
proof -
  have "sy_held s c l" using assms(3) by (auto split: if_splits)
  then have "st_of s c l = LOCKED \<or> st_of s c l = RELEASING"
    using assms(1) by (cases "st_of s c l") (auto simp: pair_ok_def)
  then show ?thesis using pair_release_cached pair_release_send assms by blast
qed

lemma pair_released: "pair_ok s c l \<Longrightarrow> sys_do GetReleased c l s = Some (Ret s') \<Longrightarrow> pair_ok s' c l"
  by (cases "st_of s c l") (auto simp: pair_defs client_defs split: if_splits)

lemma pair_revoke: "pair_ok s c l \<Longrightarrow> \<not> lc_disconnected (sy_cl s c) \<Longrightarrow> sys_do GetRevoke c l s = Some (Ret s') \<Longrightarrow> pair_ok s' c l"
  by (cases "st_of s c l") (auto simp: pair_defs client_defs split: if_splits)

lemma pair_retry: "pair_ok s c l \<Longrightarrow> \<not> lc_disconnected (sy_cl s c) \<Longrightarrow> sys_do GetRetry c l s = Some (Ret s') \<Longrightarrow> pair_ok s' c l"
  by (cases "st_of s c l") (auto simp: pair_defs client_defs split: if_splits)

lemma local_pair:
  assumes p: "pair_ok s c l" and d: "\<not> lc_disconnected (sy_cl s c)"
    and "sys_do a c l s = Some (Ret s')" and "a \<noteq> ServeAcquire" and "a \<noteq> ServeRelease"
  shows "pair_ok s' c l"
  using assms(3-5) pair_begin [OF p d] pair_reply [OF p d] pair_wake [OF p] pair_release [OF p d]
    pair_released [OF p] pair_revoke [OF p d] pair_retry [OF p d]
  by (cases a) (simp_all del: sys_do.simps)

text \<open>The two actions of the server, for the client that sent the request and for any other.\<close>

lemma serve_acquire_unfold:
  "sys_do ServeAcquire c l s = Some (Ret s') \<Longrightarrow> sy_acq s c l = AcqSent \<and>
     s' = (case acquire_cs l c (sy_srv s) of (r, rv, sv) \<Rightarrow>
        s\<lparr>sy_srv := sv, sy_acq := upd2 (sy_acq s) c l (AcqGot r),
          sy_revoke := (case rv of None \<Rightarrow> sy_revoke s
                        | Some own \<Rightarrow> upd2 (sy_revoke s) own l (sy_revoke s own l + 1))\<rparr>)"
  by (auto split: if_splits prod.splits)

lemma serve_acquire_pair:
  assumes pc: "pair_ok s c l" and pd: "pair_ok s d m" and free: "\<not> locked (li (sy_srv s) l) \<Longrightarrow> waiting_set (li (sy_srv s) l) = []"
    and a: "sys_do ServeAcquire c l s = Some (Ret s')"
  shows "pair_ok s' d m"
proof -
  note u = serve_acquire_unfold [OF a]
  show ?thesis
  proof (cases "m = l")
    case False
    then show ?thesis using pd u by (auto simp: pair_defs acquire_cs_def split: prod.splits option.splits if_splits)
  next
    case m: True
    have c: "st_of s c l = ACQUIRING" using pc u by (cases "st_of s c l") (auto simp: pair_defs)
    show ?thesis
    proof (cases "locked (li (sy_srv s) l)")
      case False
      then show ?thesis using free [OF False] pc pd u c m
        by (cases "d = c"; cases "st_of s d l") (auto simp: pair_defs acquire_cs_def)
    next
      case True
      then show ?thesis using pc pd u c m
        by (cases "d = c"; cases "st_of s d l") (auto simp: pair_defs acquire_cs_def)
    qed
  qed
qed

lemma serve_release_pair:
  assumes pc: "pair_ok s c l" and pd: "pair_ok s d m" and a: "sys_do ServeRelease c l s = Some (Ret s')"
  shows "pair_ok s' d m"
proof -
  have own: "owns s c l" using pc a by (cases "st_of s c l") (auto simp: pair_defs split: if_splits)
  show ?thesis
  proof (cases "m = l")
    case False
    then show ?thesis using pd a by (auto simp: pair_defs lsc_release_def verify_def split: if_splits)
  next
    case m: True
    then show ?thesis using pc pd a own
      by (cases "d = c"; cases "st_of s d l") (auto simp: pair_defs lsc_release_def verify_def split: if_splits)
  qed
qed

lemma serve_rest:
  assumes "lsys_ok s" and "sys_do a c l s = Some (Ret s')" and "a = ServeAcquire \<or> a = ServeRelease"
  shows "\<not> lc_disconnected (sy_cl s' d) \<and>
    (\<not> locked (li (sy_srv s') m) \<longrightarrow> waiting_set (li (sy_srv s') m) = [])"
  using assms by (auto simp: lsys_ok_def acquire_cs_def lsc_release_def verify_def split: if_splits)

lemma lsys_ok_step:
  assumes "lsys_ok s" and "sys_do a c l s = Some (Ret s')"
  shows "lsys_ok s'"
proof (cases "a = ServeAcquire \<or> a = ServeRelease")
  case True
  then have "pair_ok s' d m" for d m
    using serve_acquire_pair [OF okD(1,1) [OF assms(1)] okD(3) [OF assms(1)]] serve_release_pair [OF okD(1,1) [OF assms(1)]] assms(2) by blast
  then show ?thesis using serve_rest [OF assms True] by (simp add: lsys_ok_def)
qed (use assms local_ok local_kinds local_pair okD(1,2) in metis)

lemma reach_ok: "lsys_reach s \<Longrightarrow> lsys_ok s"
  by (induction rule: lsys_reach.induct) (use lsys_ok_new lsys_ok_step in blast)+


section \<open>Progress\<close>

text \<open>Runs, for concrete histories.\<close>

fun sys_run :: "(act_kind \<times> string \<times> u64) list \<Rightarrow> lsys \<Rightarrow> lsys option" where
  "sys_run [] s = Some s"
| "sys_run ((a, c, l) # es) s = (case sys_do a c l s of Some (Ret s') \<Rightarrow> sys_run es s' | _ \<Rightarrow> None)"

lemma run_keeps_reach: "sys_run es s = Some s' \<Longrightarrow> lsys_reach s \<Longrightarrow> lsys_reach s'"
  by (induction es s rule: sys_run.induct) (auto split: option.splits res.splits intro: reach_do)

lemma run_reach: "sys_run es lsys_new = Some s \<Longrightarrow> lsys_reach s"
  using run_keeps_reach reach_new by blast

lemma run_obtain:
  "(case sys_run es lsys_new of None \<Rightarrow> False | Some s \<Rightarrow> P s) \<Longrightarrow> \<exists>s. sys_run es lsys_new = Some s \<and> lsys_reach s \<and> P s"
  using run_reach by (auto split: option.splits)

lemma pair_held: "pair_ok s c l \<Longrightarrow> sy_held s c l \<Longrightarrow> owns s c l \<and> st_of s c l \<in> {LOCKED, RELEASING}"
  by (cases "st_of s c l") (auto simp: pair_ok_def)

lemma held_state: "lsys_ok s \<Longrightarrow> sy_held s c l \<Longrightarrow> owns s c l \<and> st_of s c l \<in> {LOCKED, RELEASING}"
  by (rule pair_held [OF okD(1)])

lemma pair_succeeds:
  assumes "pair_ok s c l" and "\<not> lc_disconnected (sy_cl s c)" and "sys_do a c l s \<noteq> None"
  shows "\<exists>s'. sys_do a c l s = Some (Ret s')"
  using assms
  by (cases a; cases "st_of s c l")
     (auto simp: pair_defs client_defs lsc_release_def l_OK_def rl_OK_def split: if_splits prod.splits acq_phase.splits)

lemma possible_succeeds: "lsys_ok s \<Longrightarrow> sys_do a c l s \<noteq> None \<Longrightarrow> \<exists>s'. sys_do a c l s = Some (Ret s')"
  by (rule pair_succeeds [OF okD(1,2)])

lemma owner_moves:
  assumes "lsys_ok s" and "owns s c l" and "wne s l" and "\<not> sy_held s c l"
  shows "\<exists>a. a \<noteq> Begin \<and> sys_do a c l s \<noteq> None"
proof -
  have "(\<exists>r. sy_acq s c l = AcqGot r) \<or> sy_revoke s c l = 1 \<or> sy_rel s c l = RelSent"
    using okD(1) [OF assms(1), of c l] assms(2-4) by (cases "st_of s c l") (auto simp: pair_ok_def)
  then have "sys_do GetReply c l s \<noteq> None \<or> sys_do GetRevoke c l s \<noteq> None \<or> sys_do ServeRelease c l s \<noteq> None"
    by (auto split: prod.splits reply_out.splits revoke_out.splits)
  then show ?thesis by blast
qed

lemma acquirer_moves:
  assumes "pair_ok s c l" and "sy_acq s c l \<noteq> AcqIdle" and "\<not> waits s c l"
  shows "\<exists>a. a \<noteq> Begin \<and> sys_do a c l s \<noteq> None"
proof -
  have "(\<exists>r. sy_acq s c l = AcqGot r) \<or> sy_acq s c l = AcqSent \<or>
      sy_acq s c l = AcqAsleep \<and> lk_state (lk (sy_cl s c) l) \<noteq> WAITING \<or> sy_retry s c l = 1"
    using assms by (cases "st_of s c l") (auto simp: pair_ok_def st_of_def split: if_splits)
  then have "sys_do GetReply c l s \<noteq> None \<or> sys_do ServeAcquire c l s \<noteq> None \<or>
      sys_do Wake c l s \<noteq> None \<or> sys_do GetRetry c l s \<noteq> None"
    by (auto split: prod.splits reply_out.splits)
  then show ?thesis by blast
qed

section \<open>Signals on a shared condition variable\<close>

text \<open>
  All threads of a client that wait for a retry, of whatever lock, sleep on the one condition
  variable \<^verbatim>\<open>wait_retry_\<close>, and \<^verbatim>\<open>retry_handler\<close> wakes one of them with \<^verbatim>\<open>pthread_cond_signal\<close>, which may be any.
  \<open>cv_asleep\<close> has the locks whose threads sleep, \<open>cv_woken\<close> those whose thread has been woken and will test
  its condition again.
\<close>

record cv_state =
  cv_client :: lock_client_cache
  cv_asleep :: "u64 list"
  cv_woken :: "u64 list"

datatype cv_act = CvRetry u64 u64 | CvRun u64

fun cv_do :: "cv_act \<Rightarrow> cv_state \<Rightarrow> cv_state option" where
  "cv_do (CvRetry lid pick) s =
     (case retry_handler lid (cv_client s) of (ret, r, c) \<Rightarrow>
        if lk_state (lk (cv_client s) lid) = WAITING \<and> cv_asleep s \<noteq> []
        then if pick \<in> set (cv_asleep s)
             then Some (s\<lparr>cv_client := c, cv_asleep := remove1 pick (cv_asleep s), cv_woken := pick # cv_woken s\<rparr>)
             else None
        else Some (s\<lparr>cv_client := c\<rparr>))"
| "cv_do (CvRun lid) s =
     (if lid \<notin> set (cv_woken s) then None
      else if lk_state (lk (cv_client s) lid) = WAITING
      then Some (s\<lparr>cv_asleep := cv_asleep s @ [lid], cv_woken := remove1 lid (cv_woken s)\<rparr>)
      else Some (s\<lparr>cv_woken := remove1 lid (cv_woken s)\<rparr>))"

fun cv_run :: "cv_act list \<Rightarrow> cv_state \<Rightarrow> cv_state option" where
  "cv_run [] s = Some s"
| "cv_run (a # as) s = (case cv_do a s of None \<Rightarrow> None | Some s' \<Rightarrow> cv_run as s')"

section \<open>Properties of the locking protocol\<close>







text \<open>
  A wake-up can be lost. Two threads of one client wait for retries of two locks; the retry
  of the second lock signals the shared condition variable and wakes the thread of the first, which
  finds its lock still waiting and sleeps again. The thread of the second lock sleeps on although
  its lock is no longer waiting, and a repeated retry of the lock does not wake it either: the
  handler signals only in state \<^verbatim>\<open>WAITING\<close>, and sets that state anew instead.
\<close>

theorem retry_signal_lost:
  assumes "lk_state (lk c x) = WAITING" and "lk_state (lk c y) = WAITING" and "x \<noteq> y" and "\<not> lc_disconnected c"
  shows "\<exists>s. cv_run [CvRetry y x, CvRun x] \<lparr>cv_client = c, cv_asleep = [x, y], cv_woken = []\<rparr> = Some s \<and>
     y \<in> set (cv_asleep s) \<and> lk_state (lk (cv_client s) y) = ACQUIRING \<and> cv_woken s = [] \<and>
     (\<forall>pick. \<exists>s'. cv_do (CvRetry y pick) s = Some s' \<and> cv_woken s' = [] \<and> lk_state (lk (cv_client s') y) = WAITING)"
  using assms by (auto simp: retry_handler_def Let_def)

theorem retry_signal_lost_witness:
  "\<exists>s. cv_run [CvRetry 4 3, CvRun 3]
       \<lparr>cv_client = set_state 3 WAITING (set_state 4 WAITING (lock_client_cache_new ''a'')),
        cv_asleep = [3, 4], cv_woken = []\<rparr> = Some s \<and>
     4 \<in> set (cv_asleep s) \<and> lk_state (lk (cv_client s) 4) = ACQUIRING"
  using retry_signal_lost [of "set_state 3 WAITING (set_state 4 WAITING (lock_client_cache_new ''a''))" 3 4]
  by (auto simp: lock_client_cache_new_def)

end
