(* ===== verification/Coherence.thy ===== *)
theory Coherence
  imports Lock_System
begin

text \<open>
  The locking protocol together with the extents it protects: any number of clients, each with its lock client and its
  write-back cache, the lock server and the extent server. It joins \<open>Lock_System\<close> with the caches of
  \<open>Extent_Client_Cache\<close>, which all talk to one extent server. When a lock client sends a lock back it first calls
  \<^verbatim>\<open>dorelease\<close>, under the mutex of the lock client, so the flush is part of the action; an operation of the cache
  holds the mutex of the cache from its beginning to its end and is one action.

  A thread works on an extent while it holds the lock of the same number. \<open>co_touched\<close> says that the extent has been
  read or written since the client was granted the lock, and a thread gives the lock up only then: the flush of
  an extent that was never looked at deletes it (\<open>flush_uncached_deletes\<close>). Extents are not removed here.
  \<open>co_log\<close> is the history of all writes of all clients, the latest first, which no code reads.
\<close>

section \<open>States and actions\<close>

record csys =
  co_lock :: lsys
  co_ext :: "string \<Rightarrow> ext_sys"
  co_srv :: extent_server
  co_touched :: "string \<Rightarrow> u64 \<Rightarrow> bool"
  co_log :: "(u64 \<times> string) list"

text \<open>The cache of a client in front of the common server, and the state after an operation on it.\<close>

definition ext_at :: "csys \<Rightarrow> string \<Rightarrow> ext_sys" where
  "ext_at s c = (co_ext s c)\<lparr>ex_srv := co_srv s\<rparr>"

definition set_ext :: "string \<Rightarrow> ext_sys \<Rightarrow> csys \<Rightarrow> csys" where
  "set_ext c x s = s\<lparr>co_ext := (co_ext s)(c := x), co_srv := ex_srv x\<rparr>"

definition touched :: "string \<Rightarrow> u64 \<Rightarrow> bool \<Rightarrow> csys \<Rightarrow> csys" where
  "touched c l b s = s\<lparr>co_touched := upd2 (co_touched s) c l b\<rparr>"

text \<open>Whether an action of the lock client ends in sending the lock to the server.\<close>

definition sends_back :: "act_kind \<Rightarrow> string \<Rightarrow> u64 \<Rightarrow> lsys \<Rightarrow> lsys \<Rightarrow> bool" where
  "sends_back a c l s k \<longleftrightarrow> (a = Release \<or> a = GetRevoke) \<and> sy_rel s c l \<noteq> RelSent \<and> sy_rel k c l = RelSent"

datatype co_act = CoLock act_kind | CoGet | CoGetattr | CoWrite string

fun co_do :: "co_act \<Rightarrow> string \<Rightarrow> u64 \<Rightarrow> csys \<Rightarrow> csys res option" where
  "co_do (CoLock a) c l s =
     (if a = Release \<and> \<not> co_touched s c l then None
      else map_option (\<lambda>r. bind_res r (\<lambda>k.
             if sends_back a c l (co_lock s) k
             then bind_res (eu_dorelease l (ext_at s c)) (\<lambda>x. Ret (touched c l False (set_ext c x (s\<lparr>co_lock := k\<rparr>))))
             else Ret (s\<lparr>co_lock := k\<rparr>))) (sys_do a c l (co_lock s)))"
| "co_do CoGet c l s =
     (if \<not> sy_held (co_lock s) c l then None
      else Some (bind_res (ec_get l (ext_at s c)) (\<lambda>(ret, b, x). Ret (touched c l True (set_ext c x s)))))"
| "co_do CoGetattr c l s =
     (if \<not> sy_held (co_lock s) c l then None
      else Some (bind_res (ec_getattr l (ext_at s c)) (\<lambda>(ret, a, x). Ret (touched c l True (set_ext c x s)))))"
| "co_do (CoWrite b) c l s =
     (if \<not> sy_held (co_lock s) c l then None
      else Some (bind_res (ec_write l b (ext_at s c)) (\<lambda>x.
             Ret (touched c l True (set_ext c x (s\<lparr>co_log := (l, b) # co_log s\<rparr>))))))"

definition csys_new :: "(string \<Rightarrow> nat \<Rightarrow> u32) \<Rightarrow> (string \<Rightarrow> u32) \<Rightarrow> csys" where
  "csys_new clk junk = \<lparr>co_lock = lsys_new, co_ext = (\<lambda>c. ext_new (clk c) (junk c)), co_srv = extent_server_new,
     co_touched = (\<lambda>_ _. False), co_log = []\<rparr>"

inductive co_reach :: "csys \<Rightarrow> bool" where
  co_new: "co_reach (csys_new clk junk)"
| co_step: "co_reach s \<Longrightarrow> co_do a c l s = Some (Ret s') \<Longrightarrow> co_reach s'"

fun co_run :: "(co_act \<times> string \<times> u64) list \<Rightarrow> csys \<Rightarrow> csys option" where
  "co_run [] s = Some s"
| "co_run ((a, c, l) # es) s = (case co_do a c l s of Some (Ret s') \<Rightarrow> co_run es s' | _ \<Rightarrow> None)"

section \<open>The invariant\<close>

abbreviation cached :: "csys \<Rightarrow> string \<Rightarrow> u64 \<Rightarrow> extent_entry option" where
  "cached s c l \<equiv> mfind (local_extent (co_ext s c)) l"

definition unlocked :: "lsys \<Rightarrow> u64 \<Rightarrow> bool" where
  "unlocked k l \<longleftrightarrow> \<not> locked (li (sy_srv k) l)"

text \<open>
  For one client and one extent: only the owner of the lock has the extent cached, and not once the lock is on its
  way back; the owner, and everybody while there is none, sees the last write; an extent that was looked at is cached
  or does not exist, and a lock that is kept for later has been used.
\<close>

definition coherent :: "csys \<Rightarrow> string \<Rightarrow> u64 \<Rightarrow> bool" where
  "coherent s c l \<longleftrightarrow>
     (cached s c l \<noteq> None \<longrightarrow> owns (co_lock s) c l \<and> sy_rel (co_lock s) c l \<noteq> RelSent) \<and>
     (owns (co_lock s) c l \<or> unlocked (co_lock s) l \<longrightarrow> view (ext_at s c) l = map_of (co_log s) l) \<and>
     (co_touched s c l \<longrightarrow> owns (co_lock s) c l \<and> sy_rel (co_lock s) c l \<noteq> RelSent \<and>
        (cached s c l \<noteq> None \<or> view (ext_at s c) l = None)) \<and>
     (st_of (co_lock s) c l = FREE \<longrightarrow> co_touched s c l)"

definition co_ok :: "csys \<Rightarrow> bool" where
  "co_ok s \<longleftrightarrow> lsys_ok (co_lock s) \<and> (\<forall>c. cache_ok UNIV (ext_at s c)) \<and> (\<forall>c l. coherent s c l)"

lemma co_okD:
  assumes "co_ok s"
  shows "lsys_ok (co_lock s)" "cache_ok UNIV (ext_at s c)" "coherent s c l"
  using assms by (simp_all add: co_ok_def)

lemma ext_at_sel [simp]:
  "local_extent (ext_at s c) = local_extent (co_ext s c)" "ex_srv (ext_at s c) = co_srv s"
  by (simp_all add: ext_at_def)

lemma co_ok_new: "co_ok (csys_new clk junk)"
proof -
  have x: "ext_at (csys_new clk junk) c = ext_new (clk c) (junk c)" for c
    by (simp add: ext_at_def csys_new_def ext_new_def)
  have n: "st_of lsys_new c l = NONE" for c l
    by (simp add: st_of_def lsys_new_def lock_client_cache_new_def)
  have e: "local_extent (ext_new u v) = []" for u v by (simp add: ext_new_def)
  show ?thesis
    unfolding co_ok_def coherent_def x ext_new_ok(2) using lsys_ok_new ext_new_ok(1) n
    by (simp add: csys_new_def e)
qed

lemma owns_unique: "owns k c l \<Longrightarrow> owns k d l \<Longrightarrow> c = d"
  by (simp add: owns_def)

lemma owns_locked: "owns k c l \<Longrightarrow> \<not> unlocked k l"
  by (simp add: owns_def unlocked_def)

section \<open>The invariant is kept\<close>

lemma ext_at_upd [simp]:
  "ext_at (touched c l b s) = ext_at s" "ext_at (s\<lparr>co_log := g\<rparr>) = ext_at s" "ext_at (s\<lparr>co_lock := k\<rparr>) = ext_at s"
  by (simp_all add: ext_at_def touched_def fun_eq_iff)

lemma ext_at_set: "ext_at (set_ext c x s) d = (if d = c then x else (ext_at s d)\<lparr>ex_srv := ex_srv x\<rparr>)"
  by (simp add: ext_at_def set_ext_def)

lemma set_ext_sel [simp]:
  "co_lock (set_ext c x s) = co_lock s" "co_log (set_ext c x s) = co_log s" "co_touched (set_ext c x s) = co_touched s"
  "co_ext (set_ext c x s) = (co_ext s)(c := x)"
  by (simp_all add: set_ext_def)

lemma touched_sel [simp]:
  "co_lock (touched c l b s) = co_lock s" "co_log (touched c l b s) = co_log s" "co_ext (touched c l b s) = co_ext s"
  "co_touched (touched c l b s) = upd2 (co_touched s) c l b"
  by (simp_all add: touched_def)

lemma only_at_view: "only_at i x y \<Longrightarrow> j \<noteq> i \<Longrightarrow> view y j = view x j"
  by (auto simp: only_at_def view_def split: option.split)

lemma held_not_sent: "lsys_ok k \<Longrightarrow> sy_held k c l \<Longrightarrow> owns k c l \<and> sy_rel k c l \<noteq> RelSent"
  using okD(1) [of k c l] by (cases "st_of k c l") (auto simp: pair_ok_def)

lemma held_free: "lsys_ok k \<Longrightarrow> sy_held k c l \<Longrightarrow> st_of k c l \<noteq> FREE"
  using okD(1) [of k c l] by (auto simp: pair_ok_def)

lemma sent_owned: "lsys_ok k \<Longrightarrow> sy_rel k c l = RelSent \<Longrightarrow> owns k c l \<and> st_of k c l \<noteq> FREE"
  using okD(1) [of k c l] by (cases "st_of k c l") (auto simp: pair_ok_def)

text \<open>An operation of a client on an extent whose lock it holds.\<close>

lemma co_ok_ext:
  assumes ok: "co_ok s" and h: "sy_held (co_lock s) c l" and x: "only_at l (ext_at s c) x"
    and g: "view x l = map_of g l" "\<And>j. j \<noteq> l \<Longrightarrow> map_of g j = map_of (co_log s) j"
    and set: "mfind (local_extent x) l \<noteq> None \<or> view x l = None"
  shows "co_ok (touched c l True (set_ext c x (s\<lparr>co_log := g\<rparr>)))" (is "co_ok ?s")
proof -
  have srv: "ex_srv x = co_srv s" using x by (simp add: only_at_def)
  then have at: "ext_at (set_ext c x (s\<lparr>co_log := g\<rparr>)) d = (if d = c then x else ext_at s d)" for d
    by (simp only: ext_at_set) (simp add: ext_at_def)
  note own = held_not_sent [OF co_okD(1) [OF ok] h]
  have "coherent ?s d m" for d m
  proof (cases "d = c")
    case True
    show ?thesis
    proof (cases "m = l")
      case True
      then show ?thesis using \<open>d = c\<close> own set g(1) held_free [OF co_okD(1) [OF ok] h] by (simp add: coherent_def at)
    next
      case False
      then have "mfind (local_extent x) m = cached s c m" "view x m = view (ext_at s c) m" "map_of g m = map_of (co_log s) m"
        using x only_at_view [OF x] g(2) by (simp_all add: only_at_def)
      then show ?thesis using \<open>d = c\<close> False co_okD(3) [OF ok, of c m] by (auto simp: coherent_def at)
    qed
  next
    case False
    then have "m = l \<Longrightarrow> \<not> owns (co_lock s) d m \<and> \<not> unlocked (co_lock s) m"
      using own owns_unique owns_locked by blast
    then show ?thesis using co_okD(3) [OF ok, of d m] False g(2) [of m]
      by (cases "m = l") (auto simp: coherent_def at)
  qed
  moreover have "cache_ok UNIV (ext_at ?s d)" for d
    using x co_okD(2) [OF ok] by (simp add: at only_at_def)
  ultimately show ?thesis using ok by (simp add: co_ok_def)
qed

lemma co_ok_read:
  assumes ok: "co_ok s" and h: "sy_held (co_lock s) c l" and x: "only_at l (ext_at s c) x" "view x = view (ext_at s c)"
    and set: "mfind (local_extent x) l \<noteq> None \<or> view x l = None"
  shows "co_ok (touched c l True (set_ext c x s))"
proof -
  have "view x l = map_of (co_log s) l"
    using x(2) co_okD(3) [OF ok, of c l] held_not_sent [OF co_okD(1) [OF ok] h] by (simp add: coherent_def)
  then show ?thesis using co_ok_ext [OF ok h x(1) _ _ set, of "co_log s"] by simp
qed

text \<open>An action of the locking protocol that keeps the extents where they are.\<close>

lemma becomes_sent:
  "sys_do a c l s = Some (Ret k) \<Longrightarrow> sy_rel k c l = RelSent \<Longrightarrow> sy_rel s c l = RelSent \<or> sends_back a c l s k"
  by (cases a) (auto simp: sends_back_def split: if_splits acq_phase.splits prod.splits acq_out.splits reply_out.splits)

lemma becomes_free: "sys_do a c l s = Some (Ret k) \<Longrightarrow> st_of k c l = FREE \<Longrightarrow> st_of s c l = FREE \<or> a = Release"
  by (cases a) (auto simp: st_of_def client_defs lsc_release_def acquire_cs_def split: if_splits acq_phase.splits lstate.splits)

lemma serve_acquire_owns:
  assumes "sys_do ServeAcquire c l s = Some (Ret k)"
  shows "owns s d m \<Longrightarrow> owns k d m" and "owns k d m \<or> unlocked k m \<Longrightarrow> owns s d m \<or> unlocked s m"
    and "sy_rel k = sy_rel s" and "sy_cl k = sy_cl s"
  using assms by (auto simp: owns_def unlocked_def acquire_cs_def split: if_splits)

lemma serve_release_owns:
  assumes "lsys_ok s" and "sys_do ServeRelease c l s = Some (Ret k)"
  shows "owns s c l" and "sy_rel s c l = RelSent" and "unlocked k l" and "\<not> owns k d l"
    and "m \<noteq> l \<Longrightarrow> owns k d m = owns s d m" and "m \<noteq> l \<Longrightarrow> unlocked k m = unlocked s m"
    and "d \<noteq> c \<or> m \<noteq> l \<Longrightarrow> sy_rel k d m = sy_rel s d m" and "sy_cl k = sy_cl s"
proof -
  show r: "sy_rel s c l = RelSent" using assms(2) by (auto split: if_splits)
  show "owns s c l" using sent_owned [OF assms(1) r] by blast
qed (use assms in \<open>auto simp: owns_def unlocked_def lsc_release_def verify_def split: if_splits\<close>)

lemma serve_acquire_coherent:
  assumes ok: "co_ok s" and a: "sys_do ServeAcquire c l (co_lock s) = Some (Ret k)"
  shows "coherent (s\<lparr>co_lock := k\<rparr>) d m"
  using co_okD(3) [OF ok, of d m] serve_acquire_owns [OF a] by (auto simp: coherent_def st_of_def)

lemma serve_release_coherent:
  assumes ok: "co_ok s" and a: "sys_do ServeRelease c l (co_lock s) = Some (Ret k)"
  shows "coherent (s\<lparr>co_lock := k\<rparr>) d m"
proof -
  note r = serve_release_owns [OF co_okD(1) [OF ok] a]
  show ?thesis
  proof (cases "m = l")
    case False
    then show ?thesis using co_okD(3) [OF ok, of d m] r by (auto simp: coherent_def st_of_def)
  next
    case True
    have nc: "cached s e l = None" for e
      using co_okD(3) [OF ok, of e l] r(1,2) owns_unique by (auto simp: coherent_def)
    then have "view (ext_at s d) l = view (ext_at s c) l" by (simp add: view_def)
    moreover have "view (ext_at s c) l = map_of (co_log s) l" using co_okD(3) [OF ok, of c l] r(1) by (simp add: coherent_def)
    moreover have "\<not> co_touched s d l"
      using co_okD(3) [OF ok, of d l] r(1,2) owns_unique by (auto simp: coherent_def)
    moreover have "st_of k d l \<noteq> FREE"
      using calculation(3) co_okD(3) [OF ok, of d l] r(8) by (auto simp: coherent_def st_of_def)
    ultimately show ?thesis using nc True by (simp add: coherent_def)
  qed
qed

lemma local_owns:
  assumes "local_step s k c l"
  shows "owns k d m = owns s d m" and "unlocked k m = unlocked s m"
    and "d \<noteq> c \<or> m \<noteq> l \<Longrightarrow> sy_rel k d m = sy_rel s d m \<and> st_of k d m = st_of s d m"
  using assms by (auto simp: local_step_def owns_def unlocked_def st_of_def)

lemma local_coherent:
  assumes ok: "co_ok s" and a: "sys_do a c l (co_lock s) = Some (Ret k)" and loc: "local_step (co_lock s) k c l"
    and "\<not> sends_back a c l (co_lock s) k" and "a = Release \<longrightarrow> co_touched s c l"
  shows "coherent (s\<lparr>co_lock := k\<rparr>) d m"
proof (cases "d = c \<and> m = l")
  case True
  then show ?thesis
    using co_okD(3) [OF ok, of c l] becomes_sent [OF a] becomes_free [OF a] local_owns(1,2) [OF loc] assms(4,5)
    by (auto simp: coherent_def)
qed (use co_okD(3) [OF ok, of d m] local_owns [OF loc] in \<open>auto simp: coherent_def\<close>)

lemma co_ok_lock:
  assumes ok: "co_ok s" and a: "sys_do a c l (co_lock s) = Some (Ret k)"
    and "\<not> sends_back a c l (co_lock s) k" and "a = Release \<longrightarrow> co_touched s c l"
  shows "co_ok (s\<lparr>co_lock := k\<rparr>)"
proof -
  have "coherent (s\<lparr>co_lock := k\<rparr>) d m" for d m
    using serve_acquire_coherent [OF ok] serve_release_coherent [OF ok] local_coherent [OF ok a local_kinds [OF a]] assms(2-4)
    by metis
  then show ?thesis using ok lsys_ok_step [OF co_okD(1) [OF ok] a] by (simp add: co_ok_def)
qed

text \<open>An action that sends a lock back after it has flushed the extent.\<close>

lemma sends_back_touched:
  assumes ok: "co_ok s" and a: "sys_do a c l (co_lock s) = Some (Ret k)"
    and b: "sends_back a c l (co_lock s) k" and t: "a = Release \<longrightarrow> co_touched s c l"
  shows "co_touched s c l"
proof (cases "a = Release")
  case False
  then have "a = GetRevoke" using b by (simp add: sends_back_def)
  then have "st_of (co_lock s) c l = FREE" using a b
    by (auto simp: sends_back_def st_of_def revoke_try_def Let_def split: if_splits lstate.splits)
  then show ?thesis using co_okD(3) [OF ok, of c l] by (simp add: coherent_def)
qed (use t in simp)

lemma cache_ok_other_server:
  assumes "cache_ok UNIV x" and "mwf (es_table v)" and "sized v"
    and "\<And>j. mfind (local_extent x) j \<noteq> None \<Longrightarrow> mfind (es_table v) j = mfind (es_table (ex_srv x)) j"
  shows "cache_ok UNIV (x\<lparr>ex_srv := v\<rparr>)"
  using assms by (force simp: cache_ok_def synced_def es_look_def)

lemma co_ok_flush:
  assumes ok: "co_ok s" and a: "sys_do a c l (co_lock s) = Some (Ret k)"
    and b: "sends_back a c l (co_lock s) k" and t: "a = Release \<longrightarrow> co_touched s c l"
  shows "\<exists>x. eu_dorelease l (ext_at s c) = Ret x \<and> co_ok (touched c l False (set_ext c x (s\<lparr>co_lock := k\<rparr>)))"
proof -
  have loc: "local_step (co_lock s) k c l" using local_kinds [OF a] b by (auto simp: sends_back_def)
  have k: "lsys_ok k" using lsys_ok_step [OF co_okD(1) [OF ok] a] .
  have own: "owns (co_lock s) c l" and set: "cached s c l \<noteq> None \<or> view (ext_at s c) l = None"
    using co_okD(3) [OF ok, of c l] sends_back_touched [OF assms] by (auto simp: coherent_def)
  obtain x where x: "eu_dorelease l (ext_at s c) = Ret x" "cache_ok UNIV x" "view x = view (ext_at s c)"
      "mfind (local_extent x) l = None" "\<And>j. j \<noteq> l \<Longrightarrow> mfind (local_extent x) j = cached s c j"
      "\<And>j. j \<noteq> l \<Longrightarrow> mfind (es_table (ex_srv x)) j = mfind (es_table (co_srv s)) j"
    using dorelease_settled [OF co_okD(2) [OF ok, of c], of l] set by auto
  let ?s = "set_ext c x (s\<lparr>co_lock := k\<rparr>)"
  have other: "\<not> owns (co_lock s) d l \<and> \<not> unlocked (co_lock s) l" if "d \<noteq> c" for d
    using own that owns_unique owns_locked by blast
  have "cache_ok UNIV (ext_at ?s d)" for d
  proof (cases "d = c")
    case False
    have "cache_ok UNIV ((ext_at s d)\<lparr>ex_srv := ex_srv x\<rparr>)"
    proof (rule cache_ok_other_server [OF co_okD(2) [OF ok]])
      show "mfind (es_table (ex_srv x)) j = mfind (es_table (ex_srv (ext_at s d))) j"
        if "mfind (local_extent (ext_at s d)) j \<noteq> None" for j
        using that x(6) [of j] co_okD(3) [OF ok, of d j] other [OF False] by (auto simp: coherent_def)
    qed (use x(2) in \<open>simp_all add: cache_ok_def\<close>)
    then show ?thesis using False by (simp add: ext_at_set)
  qed (use x(2) in \<open>simp add: ext_at_set\<close>)
  moreover have "coherent (touched c l False ?s) d m" for d m
  proof (cases "d = c \<and> m = l")
    case True
    then show ?thesis
      using x(3,4) co_okD(3) [OF ok, of c l] own sent_owned [OF k, of c l] b by (simp add: coherent_def ext_at_set sends_back_def)
  next
    case False
    have v: "view (ext_at ?s d) m = view (ext_at s d) m" if "d = c \<or> m \<noteq> l"
      using that x(3) x(6) [of m] by (cases "d = c") (auto simp: ext_at_set view_def es_look_def split: option.split)
    have e: "cached ?s d m = cached s d m" using False x(5) by auto
    show ?thesis
      using co_okD(3) [OF ok, of d m] False other [of d] v local_owns(1,3) [OF loc, of d m] local_owns(2) [OF loc, of m] e
      by (cases "m = l") (auto simp: coherent_def)
  qed
  ultimately have "co_ok (touched c l False ?s)" using k by (simp add: co_ok_def)
  then show ?thesis using x(1) by blast
qed

lemma co_ok_step:
  assumes ok: "co_ok s" and "co_do a c l s \<noteq> None"
  shows "\<exists>s'. co_do a c l s = Some (Ret s') \<and> co_ok s'"
proof (cases a)
  case (CoLock b)
  then have g: "b = Release \<longrightarrow> co_touched s c l" and "sys_do b c l (co_lock s) \<noteq> None"
    using assms(2) by (auto split: if_splits)
  then obtain k where k: "sys_do b c l (co_lock s) = Some (Ret k)"
    using possible_succeeds [OF co_okD(1) [OF ok]] by blast
  show ?thesis
  proof (cases "sends_back b c l (co_lock s) k")
    case True
    then show ?thesis using co_ok_flush [OF ok k True g] g k CoLock by auto
  qed (use co_ok_lock [OF ok k _ g] g k CoLock in auto)
next
  case CoGet
  then have h: "sy_held (co_lock s) c l" using assms(2) by (auto split: if_splits)
  obtain ret b x where x: "ec_get l (ext_at s c) = Ret (ret, b, x)" "only_at l (ext_at s c) x" "view x = view (ext_at s c)"
      "mfind (local_extent x) l \<noteq> None \<or> view x l = None"
    using ec_get_at [OF co_okD(2) [OF ok], of l c] by (cases "view (ext_at s c) l") auto
  then show ?thesis using co_ok_read [OF ok h x(2-4)] h CoGet by simp
next
  case CoGetattr
  then have h: "sy_held (co_lock s) c l" using assms(2) by (auto split: if_splits)
  obtain ret b x where x: "ec_getattr l (ext_at s c) = Ret (ret, b, x)" "only_at l (ext_at s c) x" "view x = view (ext_at s c)"
      "mfind (local_extent x) l \<noteq> None \<or> view x l = None"
    using ec_getattr_at [OF co_okD(2) [OF ok], of l c] by (cases "view (ext_at s c) l") auto
  then show ?thesis using co_ok_read [OF ok h x(2-4)] h CoGetattr by simp
next
  case (CoWrite b)
  then have h: "sy_held (co_lock s) c l" using assms(2) by (auto split: if_splits)
  obtain x where x: "ec_write l b (ext_at s c) = Ret x" "only_at l (ext_at s c) x" "view x = (view (ext_at s c))(l \<mapsto> b)"
      "mfind (local_extent x) l \<noteq> None"
    using ec_write_at [OF co_okD(2) [OF ok], of l b c] by blast
  then show ?thesis using co_ok_ext [OF ok h x(2), of "(l, b) # co_log s"] h CoWrite by simp
qed

lemma co_reach_ok: "co_reach s \<Longrightarrow> co_ok s"
proof (induction rule: co_reach.induct)
  case (co_step s a c l s')
  then show ?case using co_ok_step [of s a c l] by auto
qed (rule co_ok_new)

lemma co_run_keeps: "co_run es s = Some s' \<Longrightarrow> co_reach s \<Longrightarrow> co_reach s'"
  by (induction es s rule: co_run.induct) (auto split: option.splits res.splits simp del: co_do.simps intro: co_step)

definition zero_sys :: csys where
  "zero_sys = csys_new (\<lambda>_ _. 0) (\<lambda>_. 0)"

lemma co_run_obtain:
  "(case co_run es zero_sys of None \<Rightarrow> False | Some s \<Rightarrow> P s) \<Longrightarrow> \<exists>s. co_run es zero_sys = Some s \<and> co_reach s \<and> P s"
  using co_run_keeps co_new by (auto simp: zero_sys_def split: option.splits)

section \<open>Properties of the shared extents\<close>


text \<open>Client \<open>a\<close> writes and keeps the lock; \<open>b\<close> asks for it, \<open>a\<close> flushes and gives it up, and \<open>b\<close> reads what \<open>a\<close> wrote.\<close>

definition hand_over :: "(co_act \<times> string \<times> u64) list" where
  "hand_over =
     [(CoLock Begin, ''a'', 7), (CoLock ServeAcquire, ''a'', 7), (CoLock GetReply, ''a'', 7), (CoWrite ''hello'', ''a'', 7),
      (CoLock Release, ''a'', 7), (CoLock Begin, ''b'', 7), (CoLock ServeAcquire, ''b'', 7), (CoLock GetReply, ''b'', 7),
      (CoLock GetRevoke, ''a'', 7), (CoLock ServeRelease, ''a'', 7), (CoLock GetRetry, ''b'', 7), (CoLock Wake, ''b'', 7),
      (CoLock ServeAcquire, ''b'', 7), (CoLock GetReply, ''b'', 7)]"


text \<open>
  Nothing is lost on the way between clients: whenever no client has the lock of an extent, the server
  has what was written last, and no client has a copy left in its cache.
\<close>

theorem free_extent_on_server:
  assumes "co_reach s" and "lsc_holder (sy_srv (co_lock s)) l = None"
  shows "es_look (co_srv s) l = map_of (co_log s) l \<and> (\<forall>c. \<not> ec_exists l (ext_at s c))"
proof -
  have ok: "co_ok s" using co_reach_ok assms(1) by blast
  have u: "unlocked (co_lock s) l" using assms(2) by (auto simp: unlocked_def lsc_holder_def split: if_splits)
  have n: "cached s c l = None" for c using co_okD(3) [OF ok, of c l] owns_locked u by (auto simp: coherent_def)
  then show ?thesis using co_okD(3) [OF ok, of undefined l] u by (simp add: coherent_def view_def ec_exists_def mcount_def)
qed

theorem free_extent_on_server_witness:
  "\<exists>s. co_run (take 10 hand_over) zero_sys = Some s \<and> es_look (co_srv s) 7 = Some ''hello'' \<and> \<not> ec_exists 7 (ext_at s ''a'')"
proof -
  have "case co_run (take 10 hand_over) zero_sys of None \<Rightarrow> False
      | Some s \<Rightarrow> lsc_holder (sy_srv (co_lock s)) 7 = None \<and> map_of (co_log s) 7 = Some ''hello''"
    by code_simp
  then obtain s where "co_run (take 10 hand_over) zero_sys = Some s" "co_reach s"
      "lsc_holder (sy_srv (co_lock s)) 7 = None" "map_of (co_log s) 7 = Some ''hello''"
    using co_run_obtain by blast
  then show ?thesis using free_extent_on_server [of s 7] by auto
qed



end
