(* ===== verification/Poll_Mgr.thy ===== *)
theory Poll_Mgr
  imports Prelude
begin

text \<open>
  The poll manager (\<^verbatim>\<open>rpc/pollmgr.h\<close>, \<^verbatim>\<open>rpc/pollmgr.cc\<close>): the sets of watched file descriptors of
  \<^verbatim>\<open>SelectAIO\<close> and \<^verbatim>\<open>EPollAIO\<close>, the table of callbacks, and the thread that waits for descriptors and calls
  them. \<^verbatim>\<open>select\<close> and \<^verbatim>\<open>epoll_wait\<close> are system calls: what they report is an argument.

  The abstract class \<^verbatim>\<open>aio_mgr\<close> is the locale of that name. \<open>block_remove_fd\<close> waits for the loop, so the last
  part is a step relation over the loop, the threads that remove a descriptor, and those that add
  and delete callbacks.
\<close>

section \<open>Watched descriptors\<close>

datatype poll_flag = CB_NONE | CB_RDONLY | CB_WRONLY | CB_RDWR | CB_MASK

definition MAX_POLL_FDS :: nat where "MAX_POLL_FDS = 128"

text \<open>The interrupt pipe holds single bytes of value 1; \<open>sa_pipe\<close> counts them.\<close>

record select_aio =
  sa_rfds :: "nat set"
  sa_wfds :: "nat set"
  sa_highfds :: nat
  sa_pipefd :: nat
  sa_pipe :: nat

definition SelectAIO :: "nat \<Rightarrow> select_aio" where
  "SelectAIO p = \<lparr>sa_rfds = {p}, sa_wfds = {}, sa_highfds = p, sa_pipefd = p, sa_pipe = 0\<rparr>"

definition sa_watch_fd :: "nat \<Rightarrow> poll_flag \<Rightarrow> select_aio \<Rightarrow> select_aio" where
  "sa_watch_fd fd flag a =
     (let a = (if sa_highfds a \<le> fd then a\<lparr>sa_highfds := fd\<rparr> else a);
          a = (if flag = CB_RDONLY then a\<lparr>sa_rfds := insert fd (sa_rfds a)\<rparr>
               else if flag = CB_WRONLY then a\<lparr>sa_wfds := insert fd (sa_wfds a)\<rparr>
               else a\<lparr>sa_rfds := insert fd (sa_rfds a), sa_wfds := insert fd (sa_wfds a)\<rparr>)
      in a\<lparr>sa_pipe := sa_pipe a + 1\<rparr>)"

definition sa_is_watched :: "nat \<Rightarrow> poll_flag \<Rightarrow> select_aio \<Rightarrow> bool" where
  "sa_is_watched fd flag a =
     (if flag = CB_RDONLY then fd \<in> sa_rfds a
      else if flag = CB_WRONLY then fd \<in> sa_wfds a
      else fd \<in> sa_rfds a \<and> fd \<in> sa_wfds a)"

text \<open>The loop that looks for the highest descriptor left.\<close>

definition sa_newh :: "select_aio \<Rightarrow> nat" where
  "sa_newh a = fold (\<lambda>i newh. if i \<in> sa_rfds a then i else if i \<in> sa_wfds a then i else newh)
                 [0..<Suc (sa_highfds a)] (sa_pipefd a)"

definition sa_unwatch_fd :: "nat \<Rightarrow> poll_flag \<Rightarrow> select_aio \<Rightarrow> (bool \<times> select_aio) res" where
  "sa_unwatch_fd fd flag a =
     bind_res
       (if flag = CB_RDONLY then Ret (a\<lparr>sa_rfds := sa_rfds a - {fd}\<rparr>)
        else if flag = CB_WRONLY then Ret (a\<lparr>sa_wfds := sa_wfds a - {fd}\<rparr>)
        else if flag = CB_RDWR then Ret (a\<lparr>sa_wfds := sa_wfds a - {fd}, sa_rfds := sa_rfds a - {fd}\<rparr>)
        else Fault Verify_failed)
       (\<lambda>a. let a = (if fd \<notin> sa_rfds a \<and> fd \<notin> sa_wfds a \<and> fd = sa_highfds a
                     then a\<lparr>sa_highfds := sa_newh a\<rparr> else a);
                a = (if flag = CB_RDWR then a\<lparr>sa_pipe := sa_pipe a + 1\<rparr> else a)
            in Ret (fd \<notin> sa_rfds a \<and> fd \<notin> sa_wfds a, a))"

text \<open>
  \<^verbatim>\<open>wait_ready\<close>: the sets handed to \<^verbatim>\<open>select\<close>, and what is made of its answer \<open>(tr, tw)\<close> with \<open>high\<close> as
  it was before. \<open>None\<close> is an interrupted call.
\<close>

definition sa_wait_sets :: "select_aio \<Rightarrow> nat set \<times> nat set \<times> nat" where
  "sa_wait_sets a = ({fd \<in> sa_rfds a. fd \<le> sa_highfds a}, {fd \<in> sa_wfds a. fd \<le> sa_highfds a}, sa_highfds a)"

definition sa_ready :: "nat \<Rightarrow> (nat set \<times> nat set) option \<Rightarrow> select_aio \<Rightarrow> (nat list \<times> nat list \<times> select_aio) res" where
  "sa_ready high ans a =
     (case ans of
        None \<Rightarrow> Ret ([], [], a)
      | Some (tr, tw) \<Rightarrow>
          bind_res (if sa_pipefd a \<le> high \<and> sa_pipefd a \<in> tr
                    then verify (sa_pipe a > 0) (Ret (a\<lparr>sa_pipe := sa_pipe a - 1\<rparr>)) else Ret a)
            (\<lambda>a. Ret (filter (\<lambda>fd. fd \<in> tr \<and> fd \<noteq> sa_pipefd a) [0..<Suc high],
                      filter (\<lambda>fd. fd \<in> tw \<and> \<not> (fd = sa_pipefd a \<and> fd \<in> tr)) [0..<Suc high], a)))"

section \<open>Watching with epoll\<close>

text \<open>
  \<open>fdstatus_\<close> has the bits of \<^verbatim>\<open>poll_flag\<close>; what the kernel was told last for a descriptor is \<open>ep_kernel\<close> (the
  events read and write, or nothing after a removal).
\<close>

definition flag_bits :: "poll_flag \<Rightarrow> u32" where
  "flag_bits f = (case f of CB_NONE \<Rightarrow> 0 | CB_RDONLY \<Rightarrow> 0x1 | CB_WRONLY \<Rightarrow> 0x10 | CB_RDWR \<Rightarrow> 0x11 | CB_MASK \<Rightarrow> NOT 0x11)"

record epoll_aio =
  ep_status :: "nat \<Rightarrow> u32"
  ep_kernel :: "nat \<Rightarrow> (bool \<times> bool) option"

definition EPollAIO :: epoll_aio where
  "EPollAIO = \<lparr>ep_status = (\<lambda>_. 0), ep_kernel = (\<lambda>_. None)\<rparr>"

definition ep_events :: "u32 \<Rightarrow> bool \<times> bool" where
  "ep_events st = (st AND flag_bits CB_RDONLY \<noteq> 0, st AND flag_bits CB_WRONLY \<noteq> 0)"

text \<open>\<^verbatim>\<open>epoll_ctl\<close> fails when a descriptor is added twice, or changed or removed without having been added.\<close>

definition ep_watch_fd :: "nat \<Rightarrow> poll_flag \<Rightarrow> epoll_aio \<Rightarrow> epoll_aio res" where
  "ep_watch_fd fd flag a =
     verify (fd < MAX_POLL_FDS)
       (let modify = (ep_status a fd \<noteq> 0);
            st = ep_status a fd OR flag_bits flag;
            ev = ep_events st
        in verify (flag = CB_RDWR \<longrightarrow> ev = (True, True))
             (verify (modify \<longleftrightarrow> ep_kernel a fd \<noteq> None)
                (Ret (a\<lparr>ep_status := (ep_status a)(fd := st), ep_kernel := (ep_kernel a)(fd := Some ev)\<rparr>))))"

definition ep_unwatch_fd :: "nat \<Rightarrow> poll_flag \<Rightarrow> epoll_aio \<Rightarrow> (bool \<times> epoll_aio) res" where
  "ep_unwatch_fd fd flag a =
     verify (fd < MAX_POLL_FDS)
       (let st = ep_status a fd AND NOT (flag_bits flag);
            del = (st = 0)
        in verify (flag = CB_RDWR \<longrightarrow> del)
             (verify (ep_kernel a fd \<noteq> None)
                (Ret (del, a\<lparr>ep_status := (ep_status a)(fd := st),
                             ep_kernel := (ep_kernel a)(fd := (if del then None else Some (ep_events st)))\<rparr>))))"

definition ep_is_watched :: "nat \<Rightarrow> poll_flag \<Rightarrow> epoll_aio \<Rightarrow> bool res" where
  "ep_is_watched fd flag a = verify (fd < MAX_POLL_FDS) (Ret (ep_status a fd AND flag_bits CB_MASK = flag_bits flag))"

text \<open>
  \<^verbatim>\<open>wait_ready\<close>: \<^verbatim>\<open>epoll_wait\<close> answers with a list of descriptors and event bits; \<open>None\<close> is its failure, whose
  negative count ends the loop at once.
\<close>

definition EPOLLIN :: u32 where "EPOLLIN = 0x1"
definition EPOLLOUT :: u32 where "EPOLLOUT = 0x4"

definition ep_wait_ready :: "(nat \<times> u32) list option \<Rightarrow> nat list \<times> nat list" where
  "ep_wait_ready ans =
     (case ans of
        None \<Rightarrow> ([], [])
      | Some ready \<Rightarrow>
          fold (\<lambda>(fd, ev) (readable, writable).
              (if ev AND EPOLLIN \<noteq> 0 then readable @ [fd] else readable,
               if ev AND EPOLLOUT \<noteq> 0 then writable @ [fd] else writable)) ready ([], []))"

section \<open>The manager\<close>

text \<open>The callback objects are of any type. \<open>None\<close> in the table is \<^verbatim>\<open>NULL\<close>.\<close>

record 'c pollmgr =
  pm_callbacks :: "nat \<Rightarrow> 'c option"
  pm_aio :: select_aio
  pm_pending :: bool

definition PollMgr :: "nat \<Rightarrow> 'c pollmgr" where
  "PollMgr p = \<lparr>pm_callbacks = (\<lambda>_. None), pm_aio = SelectAIO p, pm_pending = False\<rparr>"

definition add_callback :: "nat \<Rightarrow> poll_flag \<Rightarrow> 'c \<Rightarrow> 'c pollmgr \<Rightarrow> 'c pollmgr res" where
  "add_callback fd flag ch m =
     verify (fd < MAX_POLL_FDS)
       (let m = m\<lparr>pm_aio := sa_watch_fd fd flag (pm_aio m)\<rparr> in
        verify (pm_callbacks m fd = None \<or> pm_callbacks m fd = Some ch)
          (Ret (m\<lparr>pm_callbacks := (pm_callbacks m)(fd := Some ch)\<rparr>)))"

definition del_callback :: "nat \<Rightarrow> poll_flag \<Rightarrow> 'c pollmgr \<Rightarrow> 'c pollmgr res" where
  "del_callback fd flag m =
     bind_res (sa_unwatch_fd fd flag (pm_aio m)) (\<lambda>(gone, a).
       let m = m\<lparr>pm_aio := a\<rparr> in
       Ret (if gone then m\<lparr>pm_callbacks := (pm_callbacks m)(fd := None)\<rparr> else m))"

definition has_callback :: "nat \<Rightarrow> poll_flag \<Rightarrow> 'c \<Rightarrow> 'c pollmgr \<Rightarrow> bool" where
  "has_callback fd flag c m =
     (if pm_callbacks m fd = None \<or> pm_callbacks m fd \<noteq> Some c then False else sa_is_watched fd flag (pm_aio m))"

text \<open>\<^verbatim>\<open>block_remove_fd\<close> before it waits for the loop, and after.\<close>

definition block_remove_begin :: "nat \<Rightarrow> 'c pollmgr \<Rightarrow> 'c pollmgr res" where
  "block_remove_begin fd m =
     bind_res (sa_unwatch_fd fd CB_RDWR (pm_aio m)) (\<lambda>(gone, a). Ret (m\<lparr>pm_aio := a, pm_pending := True\<rparr>))"

definition block_remove_end :: "nat \<Rightarrow> 'c pollmgr \<Rightarrow> 'c pollmgr" where
  "block_remove_end fd m = m\<lparr>pm_callbacks := (pm_callbacks m)(fd := None)\<rparr>"


section \<open>The contract of a descriptor watcher\<close>

definition reads_flag :: "poll_flag \<Rightarrow> bool" where
  "reads_flag f \<longleftrightarrow> f = CB_RDONLY \<or> f = CB_RDWR"

definition writes_flag :: "poll_flag \<Rightarrow> bool" where
  "writes_flag f \<longleftrightarrow> f = CB_WRONLY \<or> f = CB_RDWR"

definition real_flag :: "poll_flag \<Rightarrow> bool" where
  "real_flag f \<longleftrightarrow> f = CB_RDONLY \<or> f = CB_WRONLY \<or> f = CB_RDWR"

lemmas flag_defs = reads_flag_def writes_flag_def real_flag_def

text \<open>A sequence of requests, and what should be watched after it: for each descriptor, whether for reading and for writing.\<close>

datatype aio_op = Watch nat poll_flag | Unwatch nat poll_flag

type_synonym watched = "nat \<Rightarrow> bool \<times> bool"

fun spec_step :: "aio_op \<Rightarrow> watched \<Rightarrow> watched" where
  "spec_step (Watch fd f) v = v(fd := (fst (v fd) \<or> reads_flag f, snd (v fd) \<or> writes_flag f))"
| "spec_step (Unwatch fd f) v = v(fd := (fst (v fd) \<and> \<not> reads_flag f, snd (v fd) \<and> \<not> writes_flag f))"

text \<open>A descriptor is only taken out while it is watched, as the callers do.\<close>

fun spec_allowed :: "(nat \<Rightarrow> bool) \<Rightarrow> aio_op list \<Rightarrow> watched \<Rightarrow> bool" where
  "spec_allowed good [] v \<longleftrightarrow> True"
| "spec_allowed good (Watch fd f # ops) v \<longleftrightarrow> good fd \<and> real_flag f \<and> spec_allowed good ops (spec_step (Watch fd f) v)"
| "spec_allowed good (Unwatch fd f # ops) v \<longleftrightarrow>
     good fd \<and> real_flag f \<and> v fd \<noteq> (False, False) \<and> spec_allowed good ops (spec_step (Unwatch fd f) v)"

fun aio_step :: "(nat \<Rightarrow> poll_flag \<Rightarrow> 's \<Rightarrow> 's res) \<Rightarrow> (nat \<Rightarrow> poll_flag \<Rightarrow> 's \<Rightarrow> (bool \<times> 's) res) \<Rightarrow> aio_op \<Rightarrow> 's \<Rightarrow> 's res" where
  "aio_step watch unwatch (Watch fd f) s = watch fd f s"
| "aio_step watch unwatch (Unwatch fd f) s = bind_res (unwatch fd f s) (\<lambda>(gone, s). Ret s)"

locale aio_mgr =
  fixes watch :: "nat \<Rightarrow> poll_flag \<Rightarrow> 's \<Rightarrow> 's res"
    and unwatch :: "nat \<Rightarrow> poll_flag \<Rightarrow> 's \<Rightarrow> (bool \<times> 's) res"
    and look :: "'s \<Rightarrow> watched"
    and good :: "'s \<Rightarrow> nat \<Rightarrow> bool"
    and ok :: "'s \<Rightarrow> bool"
  assumes watch_law: "ok s \<Longrightarrow> good s fd \<Longrightarrow> real_flag f \<Longrightarrow>
      \<exists>s'. watch fd f s = Ret s' \<and> ok s' \<and> good s' = good s \<and> (\<forall>d. good s d \<longrightarrow> look s' d = spec_step (Watch fd f) (look s) d)"
    and unwatch_law: "ok s \<Longrightarrow> good s fd \<Longrightarrow> real_flag f \<Longrightarrow> look s fd \<noteq> (False, False) \<Longrightarrow>
      \<exists>s'. unwatch fd f s = Ret (look s' fd = (False, False), s') \<and> ok s' \<and> good s' = good s \<and>
           (\<forall>d. good s d \<longrightarrow> look s' d = spec_step (Unwatch fd f) (look s) d)"
begin

lemma run_spec:
  "ok s \<Longrightarrow> (\<And>d. good s d \<Longrightarrow> look s d = v d) \<Longrightarrow> spec_allowed (good s) ops v \<Longrightarrow>
   \<exists>s'. run_ops (aio_step watch unwatch) ops s = Ret s' \<and> ok s' \<and> (\<forall>d. good s d \<longrightarrow> look s' d = fold spec_step ops v d)"
proof (induction ops arbitrary: s v)
  case (Cons x ops)
  obtain s' where s': "aio_step watch unwatch x s = Ret s'" "ok s'" "good s' = good s"
      "\<And>d. good s d \<Longrightarrow> look s' d = spec_step x v d"
  proof (cases x)
    case (Watch fd f)
    with Cons.prems show thesis using watch_law [of s fd f] that by auto
  next
    case (Unwatch fd f)
    with Cons.prems show thesis using unwatch_law [of s fd f] that by auto
  qed
  have lk: "look s' d = spec_step x v d" if "good s' d" for d using s'(3,4) that by simp
  have al: "spec_allowed (good s') ops (spec_step x v)" using Cons.prems(3) s'(3) by (cases x) (simp_all del: spec_step.simps)
  show ?case using Cons.IH [OF s'(2) lk al] s'(1,3) by simp
qed auto

end

section \<open>Select\<close>

definition sa_fds :: "select_aio \<Rightarrow> nat set" where
  "sa_fds a = sa_rfds a \<union> sa_wfds a"

text \<open>The highest descriptor is recorded exactly, and the interrupt pipe is always watched.\<close>

definition sa_ok :: "select_aio \<Rightarrow> bool" where
  "sa_ok a \<longleftrightarrow> finite (sa_fds a) \<and> sa_pipefd a \<in> sa_rfds a \<and> sa_pipefd a \<notin> sa_wfds a \<and> sa_highfds a = Max (sa_fds a)"

definition sa_look :: "select_aio \<Rightarrow> watched" where
  "sa_look a fd = (fd \<in> sa_rfds a, fd \<in> sa_wfds a)"

definition sa_good :: "select_aio \<Rightarrow> nat \<Rightarrow> bool" where
  "sa_good a fd \<longleftrightarrow> fd < MAX_POLL_FDS \<and> fd \<noteq> sa_pipefd a"

lemma fold_last:
  "fold (\<lambda>i h. if P i then i else h) [0..<n] d = (if \<exists>i<n. P i then Max {i. i < n \<and> P i} else d)"
proof (induction n)
  case (Suc n)
  have "{i. i < Suc n \<and> P i} = (if P n then insert n {i. i < n \<and> P i} else {i. i < n \<and> P i})"
    by (auto simp: less_Suc_eq)
  moreover have "Max (insert n {i. i < n \<and> P i}) = n"
    by (rule Max_eqI) auto
  ultimately show ?case using Suc by (auto simp: less_Suc_eq)
qed simp

lemma sa_newh_exact:
  assumes "finite (sa_fds a)" and "sa_pipefd a \<in> sa_rfds a" and "\<And>x. x \<in> sa_fds a \<Longrightarrow> x \<le> sa_highfds a"
  shows "sa_newh a = Max (sa_fds a)"
proof -
  have "(\<lambda>i newh. if i \<in> sa_rfds a then i else if i \<in> sa_wfds a then i else newh) =
      (\<lambda>i newh. if i \<in> sa_fds a then i else newh)" by (auto simp: fun_eq_iff sa_fds_def)
  moreover have "{i. i < Suc (sa_highfds a) \<and> i \<in> sa_fds a} = sa_fds a"
    using assms(3) by (auto simp: less_Suc_eq_le)
  moreover have "\<exists>i<Suc (sa_highfds a). i \<in> sa_fds a"
    using assms(2,3) by (auto simp: sa_fds_def less_Suc_eq_le)
  ultimately show ?thesis by (simp only: sa_newh_def fold_last if_True)
qed

lemma sa_ok_high:
  assumes "sa_ok a"
  shows "sa_wait_sets a = (sa_rfds a, sa_wfds a, Max (sa_fds a))"
  using assms by (auto simp: sa_ok_def sa_wait_sets_def sa_fds_def)

lemma sa_watch_sets:
  "sa_fds (sa_watch_fd fd f a) = insert fd (sa_fds a)" "sa_pipefd (sa_watch_fd fd f a) = sa_pipefd a"
  "sa_highfds (sa_watch_fd fd f a) = max (sa_highfds a) fd"
  "sa_rfds (sa_watch_fd fd f a) = (if f = CB_WRONLY then sa_rfds a else insert fd (sa_rfds a))"
  "sa_wfds (sa_watch_fd fd f a) = (if f = CB_RDONLY then sa_wfds a else insert fd (sa_wfds a))"
  by (auto simp: sa_watch_fd_def sa_fds_def Let_def max_def)

lemma sa_watch_ok:
  assumes "sa_ok a" and "fd \<noteq> sa_pipefd a"
  shows "sa_ok (sa_watch_fd fd f a)"
proof -
  have "sa_fds a \<noteq> {}" using assms(1) by (auto simp: sa_ok_def sa_fds_def)
  then show ?thesis using assms
    by (simp add: sa_ok_def sa_watch_sets Max_insert max.commute)
qed

lemma Max_remove:
  fixes x :: nat
  assumes "finite A" and "x \<noteq> Max A" and "x \<in> A"
  shows "Max (A - {x}) = Max A"
proof (rule Max_eqI)
  have "A \<noteq> {}" using assms(3) by auto
  then show "Max A \<in> A - {x}" using Max_in [OF assms(1)] assms(2) by simp
qed (use assms in auto)

lemma sa_unwatch_ok:
  assumes "sa_ok a" and "fd \<noteq> sa_pipefd a" and "real_flag f"
  shows "\<exists>a'. sa_unwatch_fd fd f a = Ret (sa_look a' fd = (False, False), a') \<and> sa_ok a' \<and> sa_pipefd a' = sa_pipefd a \<and>
    sa_rfds a' = (if reads_flag f then sa_rfds a - {fd} else sa_rfds a) \<and>
    sa_wfds a' = (if writes_flag f then sa_wfds a - {fd} else sa_wfds a)"
proof -
  define r where "r = (if reads_flag f then sa_rfds a - {fd} else sa_rfds a)"
  define w where "w = (if writes_flag f then sa_wfds a - {fd} else sa_wfds a)"
  define b where "b = a\<lparr>sa_wfds := w, sa_rfds := r\<rparr>"
  define c where "c = (if fd \<notin> r \<and> fd \<notin> w \<and> fd = sa_highfds a then b\<lparr>sa_highfds := sa_newh b\<rparr> else b)"
  define a' where "a' = (if f = CB_RDWR then c\<lparr>sa_pipe := sa_pipe c + 1\<rparr> else c)"
  have sel: "sa_rfds a' = r" "sa_wfds a' = w" "sa_pipefd a' = sa_pipefd a"
      "sa_highfds a' = (if fd \<notin> r \<and> fd \<notin> w \<and> fd = sa_highfds a then sa_newh b else sa_highfds a)"
    by (auto simp: a'_def c_def b_def)
  have eq: "sa_unwatch_fd fd f a = Ret (sa_look a' fd = (False, False), a')"
    using assms(3)
    by (cases f) (auto simp: sa_unwatch_fd_def flag_defs sa_look_def Let_def a'_def c_def b_def r_def w_def)
  have fin: "finite (r \<union> w)" and p: "sa_pipefd a \<in> r" "sa_pipefd a \<notin> w" and le: "\<And>x. x \<in> r \<union> w \<Longrightarrow> x \<le> sa_highfds a"
    using assms by (auto simp: sa_ok_def sa_fds_def r_def w_def split: if_splits)
  have b: "sa_fds b = r \<union> w" "sa_pipefd b = sa_pipefd a" "sa_rfds b = r" "sa_highfds b = sa_highfds a"
    by (auto simp: b_def sa_fds_def)
  have "sa_highfds a' = Max (r \<union> w)"
  proof (cases "fd \<notin> r \<and> fd \<notin> w \<and> fd = sa_highfds a")
    case True
    then have "sa_highfds a' = sa_newh b" unfolding sel(4) by (rule if_P)
    then show ?thesis using sa_newh_exact [of b] fin p le b by simp
  next
    case False
    have "r \<union> w = (if fd \<notin> r \<and> fd \<notin> w then sa_fds a - {fd} else sa_fds a)"
      by (auto simp: sa_fds_def r_def w_def split: if_splits)
    moreover have "Max (sa_fds a - {fd}) = Max (sa_fds a)" if "fd \<notin> r \<and> fd \<notin> w"
      using Max_remove [of "sa_fds a" fd] False that assms(1) by (cases "fd \<in> sa_fds a") (auto simp: sa_ok_def)
    ultimately have "Max (r \<union> w) = Max (sa_fds a)" by simp
    moreover have "sa_highfds a' = sa_highfds a" unfolding sel(4) using False by (rule if_not_P)
    ultimately show ?thesis using assms(1) by (simp add: sa_ok_def)
  qed
  then have "sa_ok a'" using fin p sel by (simp add: sa_ok_def sa_fds_def)
  then show ?thesis using eq sel by (intro exI [of _ a']) (simp add: r_def w_def)
qed

interpretation select: aio_mgr "\<lambda>fd f a. Ret (sa_watch_fd fd f a)" sa_unwatch_fd sa_look sa_good sa_ok
proof
  fix a fd f
  assume a: "sa_ok a" "sa_good a fd" "real_flag f"
  show "\<exists>s'. Ret (sa_watch_fd fd f a) = Ret s' \<and> sa_ok s' \<and> sa_good s' = sa_good a \<and>
      (\<forall>d. sa_good a d \<longrightarrow> sa_look s' d = spec_step (Watch fd f) (sa_look a) d)"
    using sa_watch_ok [OF a(1)] a
    by (auto simp: sa_good_def sa_watch_sets fun_eq_iff sa_look_def flag_defs)
  show "\<exists>s'. sa_unwatch_fd fd f a = Ret (sa_look s' fd = (False, False), s') \<and> sa_ok s' \<and> sa_good s' = sa_good a \<and>
      (\<forall>d. sa_good a d \<longrightarrow> sa_look s' d = spec_step (Unwatch fd f) (sa_look a) d)"
    using sa_unwatch_ok [OF a(1) _ a(3), of fd] a(2)
    by (fastforce simp: sa_good_def sa_look_def fun_eq_iff)
qed


section \<open>Epoll\<close>

definition ep_ok :: "epoll_aio \<Rightarrow> bool" where
  "ep_ok a \<longleftrightarrow> (\<forall>fd. ep_status a fd \<in> {0, 0x1, 0x10, 0x11} \<and>
     ep_kernel a fd = (if ep_status a fd = 0 then None else Some (ep_events (ep_status a fd))))"

definition ep_look :: "epoll_aio \<Rightarrow> watched" where
  "ep_look a fd = (case ep_kernel a fd of None \<Rightarrow> (False, False) | Some ev \<Rightarrow> ev)"

lemma ep_okD: "ep_ok a \<Longrightarrow> ep_status a fd = 0 \<or> ep_status a fd = 0x1 \<or> ep_status a fd = 0x10 \<or> ep_status a fd = 0x11"
  by (auto simp: ep_ok_def)

lemma ep_watch_ok:
  assumes ok: "ep_ok a" and fd: "fd < MAX_POLL_FDS" and f: "real_flag f"
  shows "\<exists>a'. ep_watch_fd fd f a = Ret a' \<and> ep_ok a' \<and> (\<forall>d. ep_look a' d = spec_step (Watch fd f) (ep_look a) d)"
proof -
  have k: "ep_kernel a d = (if ep_status a d = 0 then None else Some (ep_events (ep_status a d)))" for d
    using ok by (simp add: ep_ok_def)
  show ?thesis using ep_okD [OF ok, of fd] f fd ok k
    by (auto simp: ep_watch_fd_def flag_bits_def real_flag_def reads_flag_def writes_flag_def ep_events_def ep_ok_def
        ep_look_def verify_def Let_def)
qed

lemma ep_unwatch_ok:
  assumes ok: "ep_ok a" and fd: "fd < MAX_POLL_FDS" and f: "real_flag f" and l: "ep_look a fd \<noteq> (False, False)"
  shows "\<exists>a'. ep_unwatch_fd fd f a = Ret (ep_look a' fd = (False, False), a') \<and> ep_ok a' \<and>
    (\<forall>d. ep_look a' d = spec_step (Unwatch fd f) (ep_look a) d)"
proof -
  have k: "ep_kernel a d = (if ep_status a d = 0 then None else Some (ep_events (ep_status a d)))" for d
    using ok by (simp add: ep_ok_def)
  show ?thesis using ep_okD [OF ok, of fd] f fd ok k l
    by (auto simp: ep_unwatch_fd_def flag_bits_def real_flag_def reads_flag_def writes_flag_def ep_events_def ep_ok_def
        ep_look_def verify_def Let_def)
qed

interpretation epoll: aio_mgr ep_watch_fd ep_unwatch_fd ep_look "\<lambda>a fd. fd < MAX_POLL_FDS" ep_ok
proof
  fix a fd f
  assume a: "ep_ok a" "fd < MAX_POLL_FDS" "real_flag f"
  show "\<exists>s'. ep_watch_fd fd f a = Ret s' \<and> ep_ok s' \<and> (\<lambda>d. d < MAX_POLL_FDS) = (\<lambda>d. d < MAX_POLL_FDS) \<and>
      (\<forall>d. d < MAX_POLL_FDS \<longrightarrow> ep_look s' d = spec_step (Watch fd f) (ep_look a) d)"
    using ep_watch_ok [OF a] by blast
  assume l: "ep_look a fd \<noteq> (False, False)"
  show "\<exists>s'. ep_unwatch_fd fd f a = Ret (ep_look s' fd = (False, False), s') \<and> ep_ok s' \<and> (\<lambda>d. d < MAX_POLL_FDS) = (\<lambda>d. d < MAX_POLL_FDS) \<and>
      (\<forall>d. d < MAX_POLL_FDS \<longrightarrow> ep_look s' d = spec_step (Unwatch fd f) (ep_look a) d)"
    using ep_unwatch_ok [OF a l] by blast
qed

lemma initial_watchers:
  "sa_ok (SelectAIO p)" "ep_ok EPollAIO" "sa_good (SelectAIO p) d \<Longrightarrow> sa_look (SelectAIO p) d = (False, False)"
  "ep_look EPollAIO d = (False, False)"
  by (simp_all add: sa_ok_def sa_fds_def SelectAIO_def ep_ok_def EPollAIO_def sa_good_def sa_look_def ep_look_def)

section \<open>Properties of the watchers\<close>

lemma spec_allowed_mono: "spec_allowed g ops v \<Longrightarrow> (\<And>d. g d \<Longrightarrow> g' d) \<Longrightarrow> spec_allowed g' ops v"
  by (induction g ops v rule: spec_allowed.induct) (auto simp del: spec_step.simps)

text \<open>
  C28. The two implementations of \<^verbatim>\<open>aio_mgr\<close> are equivalent: after any sequence of watch and unwatch requests, in
  which a descriptor is taken out only while it is watched, both have succeeded and watch exactly
  the same descriptors for the same events, those of the specification.
\<close>

theorem select_epoll_equivalent:
  assumes "spec_allowed (\<lambda>fd. fd < MAX_POLL_FDS \<and> fd \<noteq> p) ops (\<lambda>_. (False, False))"
  shows "\<exists>a e. run_ops (aio_step (\<lambda>fd f a. Ret (sa_watch_fd fd f a)) sa_unwatch_fd) ops (SelectAIO p) = Ret a \<and>
    run_ops (aio_step ep_watch_fd ep_unwatch_fd) ops EPollAIO = Ret e \<and>
    (\<forall>d. d < MAX_POLL_FDS \<and> d \<noteq> p \<longrightarrow> sa_look a d = ep_look e d \<and> sa_look a d = fold spec_step ops (\<lambda>_. (False, False)) d)"
proof -
  have g: "sa_good (SelectAIO p) = (\<lambda>fd. fd < MAX_POLL_FDS \<and> fd \<noteq> p)"
    by (auto simp: sa_good_def SelectAIO_def fun_eq_iff)
  obtain a where "run_ops (aio_step (\<lambda>fd f a. Ret (sa_watch_fd fd f a)) sa_unwatch_fd) ops (SelectAIO p) = Ret a"
      "\<And>d. sa_good (SelectAIO p) d \<Longrightarrow> sa_look a d = fold spec_step ops (\<lambda>_. (False, False)) d"
    using select.run_spec [OF initial_watchers(1) initial_watchers(3), of p ops] assms g by auto
  moreover obtain e where "run_ops (aio_step ep_watch_fd ep_unwatch_fd) ops EPollAIO = Ret e"
      "\<And>d. d < MAX_POLL_FDS \<Longrightarrow> ep_look e d = fold spec_step ops (\<lambda>_. (False, False)) d"
    using epoll.run_spec [OF initial_watchers(2) initial_watchers(4), of ops] spec_allowed_mono [OF assms] by auto
  ultimately show ?thesis using g by auto
qed

theorem select_epoll_equivalent_witness:
  "\<exists>a e. run_ops (aio_step (\<lambda>fd f a. Ret (sa_watch_fd fd f a)) sa_unwatch_fd) [Watch 7 CB_RDONLY, Watch 7 CB_WRONLY, Unwatch 7 CB_RDONLY]
      (SelectAIO 3) = Ret a \<and>
     run_ops (aio_step ep_watch_fd ep_unwatch_fd) [Watch 7 CB_RDONLY, Watch 7 CB_WRONLY, Unwatch 7 CB_RDONLY] EPollAIO = Ret e \<and>
     sa_look a 7 = ep_look e 7"
proof -
  have "spec_allowed (\<lambda>fd. fd < MAX_POLL_FDS \<and> fd \<noteq> 3) [Watch 7 CB_RDONLY, Watch 7 CB_WRONLY, Unwatch 7 CB_RDONLY] (\<lambda>_. (False, False))"
    by (simp add: flag_defs MAX_POLL_FDS_def)
  from select_epoll_equivalent [OF this] show ?thesis by (auto simp: MAX_POLL_FDS_def simp del: aio_step.simps run_ops.simps)
qed

text \<open>
  \<^verbatim>\<open>select\<close> is asked about every watched descriptor: \<^verbatim>\<open>highfds_\<close> is always the largest of them, however
  descriptors are added and removed, so that \<^verbatim>\<open>wait_ready\<close> hands over the complete sets.
\<close>

theorem select_sees_all:
  assumes "spec_allowed (\<lambda>fd. fd < MAX_POLL_FDS \<and> fd \<noteq> p) ops (\<lambda>_. (False, False))"
    and "run_ops (aio_step (\<lambda>fd f a. Ret (sa_watch_fd fd f a)) sa_unwatch_fd) ops (SelectAIO p) = Ret a"
  shows "sa_wait_sets a = (sa_rfds a, sa_wfds a, Max (sa_rfds a \<union> sa_wfds a))"
proof -
  have g: "sa_good (SelectAIO p) = (\<lambda>fd. fd < MAX_POLL_FDS \<and> fd \<noteq> p)"
    by (auto simp: sa_good_def SelectAIO_def fun_eq_iff)
  have "sa_ok a" using select.run_spec [OF initial_watchers(1) initial_watchers(3), of p ops] assms g by auto
  then show ?thesis using sa_ok_high by (simp add: sa_fds_def)
qed

theorem select_sees_all_witness:
  "\<exists>a. run_ops (aio_step (\<lambda>fd f a. Ret (sa_watch_fd fd f a)) sa_unwatch_fd) [Watch 7 CB_RDWR, Watch 5 CB_RDONLY, Unwatch 7 CB_RDWR] (SelectAIO 3) = Ret a \<and>
     sa_wait_sets a = ({3, 5}, {}, 5)"
proof -
  let ?ops = "[Watch 7 CB_RDWR, Watch 5 CB_RDONLY, Unwatch 7 CB_RDWR]"
  have al: "spec_allowed (\<lambda>fd. fd < MAX_POLL_FDS \<and> fd \<noteq> 3) ?ops (\<lambda>_. (False, False))"
    by (simp add: flag_defs MAX_POLL_FDS_def)
  obtain a where a: "run_ops (aio_step (\<lambda>fd f a. Ret (sa_watch_fd fd f a)) sa_unwatch_fd) ?ops (SelectAIO 3) = Ret a"
      "sa_rfds a = {5, 7, 3} - {7}" "sa_wfds a = {}"
    by (auto simp: sa_watch_fd_def sa_unwatch_fd_def SelectAIO_def Let_def)
  have "{5, 7, 3} - {7} = {3, 5 :: nat}" by auto
  then have "sa_wait_sets a = ({3, 5}, {}, 5)" using select_sees_all [OF al a(1)] a(2,3) by simp
  then show ?thesis using a(1) by blast
qed

text \<open>
  Asked about the same state of the descriptors, both implementations of \<^verbatim>\<open>wait_ready\<close> report the same ones, apart
  from the interrupt pipe, which select empties itself.
\<close>

lemma ep_wait_ready_filter:
  "ep_wait_ready (Some evs) =
     (map fst (filter (\<lambda>(fd, ev). ev AND EPOLLIN \<noteq> 0) evs), map fst (filter (\<lambda>(fd, ev). ev AND EPOLLOUT \<noteq> 0) evs))"
proof -
  have "fold (\<lambda>(fd, ev) (readable, writable).
      (if ev AND EPOLLIN \<noteq> 0 then readable @ [fd] else readable,
       if ev AND EPOLLOUT \<noteq> 0 then writable @ [fd] else writable)) evs (r, w) =
    (r @ map fst (filter (\<lambda>(fd, ev). ev AND EPOLLIN \<noteq> 0) evs), w @ map fst (filter (\<lambda>(fd, ev). ev AND EPOLLOUT \<noteq> 0) evs))" for r w
    by (induction evs arbitrary: r w) auto
  then show ?thesis by (simp add: ep_wait_ready_def)
qed

lemma wait_ready_same:
  assumes sel: "sa_ready high (Some (tr, tw)) a = Ret (r, w, a')"
    and ans: "\<And>fd. fd \<in> tr \<longleftrightarrow> fd = sa_pipefd a \<and> sa_pipe a > 0 \<or> (\<exists>ev. (fd, ev) \<in> set evs \<and> ev AND EPOLLIN \<noteq> 0)"
      "\<And>fd. fd \<in> tw \<longleftrightarrow> (\<exists>ev. (fd, ev) \<in> set evs \<and> ev AND EPOLLOUT \<noteq> 0)"
    and range: "\<And>fd ev. (fd, ev) \<in> set evs \<Longrightarrow> fd \<le> high \<and> fd \<noteq> sa_pipefd a"
  shows "set r = set (fst (ep_wait_ready (Some evs))) \<and> set w = set (snd (ep_wait_ready (Some evs)))"
proof -
  have r: "r = filter (\<lambda>fd. fd \<in> tr \<and> fd \<noteq> sa_pipefd a) [0..<Suc high]"
    and w: "w = filter (\<lambda>fd. fd \<in> tw \<and> \<not> (fd = sa_pipefd a \<and> fd \<in> tr)) [0..<Suc high]"
    using sel by (auto simp: sa_ready_def verify_def simp del: upt_Suc split: if_splits)
  have in_fst: "x \<in> set (map fst (filter (\<lambda>(fd, ev). P ev) evs)) \<longleftrightarrow> (\<exists>ev. (x, ev) \<in> set evs \<and> P ev)" for P and x :: nat
    by (force simp: image_iff)
  have "x \<in> set r \<longleftrightarrow> (\<exists>ev. (x, ev) \<in> set evs \<and> ev AND EPOLLIN \<noteq> 0)" for x
    unfolding r set_filter using ans(1) [of x] range [of x] by (auto simp: less_Suc_eq_le simp del: upt_Suc)
  moreover have "x \<in> set w \<longleftrightarrow> (\<exists>ev. (x, ev) \<in> set evs \<and> ev AND EPOLLOUT \<noteq> 0)" for x
    unfolding w set_filter using ans(2) [of x] range [of x] by (auto simp: less_Suc_eq_le simp del: upt_Suc)
  ultimately show ?thesis
    unfolding ep_wait_ready_filter fst_conv snd_conv set_eq_iff in_fst by blast
qed

text \<open>
  \<^verbatim>\<open>EPollAIO::is_watched\<close> always answers no for a descriptor that is watched: \<^verbatim>\<open>CB_MASK\<close> is the complement of the
  flag bits, so masking the status with it gives 0.
\<close>

theorem epoll_is_watched_never:
  assumes "run_ops (aio_step ep_watch_fd ep_unwatch_fd) ops EPollAIO = Ret e"
    and "spec_allowed (\<lambda>fd. fd < MAX_POLL_FDS) ops (\<lambda>_. (False, False))" and "fd < MAX_POLL_FDS" and "real_flag f"
  shows "ep_is_watched fd f e = Ret False"
proof -
  have "ep_ok e" using epoll.run_spec [OF initial_watchers(2) initial_watchers(4), of ops] assms(1,2) by auto
  then show ?thesis using ep_okD [of e fd] assms(3,4)
    by (auto simp: ep_is_watched_def flag_bits_def real_flag_def)
qed

theorem epoll_is_watched_never_witness:
  "\<exists>e. run_ops (aio_step ep_watch_fd ep_unwatch_fd) [Watch 7 CB_RDONLY] EPollAIO = Ret e \<and> ep_is_watched 7 CB_RDONLY e = Ret False"
proof -
  have al: "spec_allowed (\<lambda>fd. fd < MAX_POLL_FDS) [Watch 7 CB_RDONLY] (\<lambda>_. (False, False))"
    by (simp add: flag_defs MAX_POLL_FDS_def)
  obtain e where e: "run_ops (aio_step ep_watch_fd ep_unwatch_fd) [Watch 7 CB_RDONLY] EPollAIO = Ret e"
    using epoll.run_spec [OF initial_watchers(2) initial_watchers(4), of "[Watch 7 CB_RDONLY]"] al by auto
  show ?thesis using epoll_is_watched_never [OF e al, of 7 CB_RDONLY] e by (auto simp: MAX_POLL_FDS_def flag_defs)
qed


section \<open>The loop and the threads that remove a descriptor\<close>

text \<open>
  Where \<^verbatim>\<open>wait_loop\<close> is: at the top, past the test of \<^verbatim>\<open>pending_change_\<close>, in \<^verbatim>\<open>select\<close> with a copy of the sets, going through
  the ready descriptors (\<open>True\<close> for reading), or inside a callback.
\<close>

datatype loop_pc =
    AtTop
  | Cleared
  | Selecting "nat set" "nat set" nat
  | Going "(bool \<times> nat) list"
  | InCall nat "(bool \<times> nat) list"

record 'c psys =
  ps_mgr :: "'c pollmgr"
  ps_pc :: loop_pc
  ps_waiting :: "nat set"
  ps_woken :: "nat set"

text \<open>
  Removing threads first sleep (\<open>ps_waiting\<close>) and, once the loop has broadcast, are about to return (\<open>ps_woken\<close>). A
  descriptor is not added again before its removal is over: it is closed only after that.
\<close>

inductive pstep :: "'c psys \<Rightarrow> 'c psys \<Rightarrow> bool" where
  p_top: "ps_pc s = AtTop \<Longrightarrow>
     pstep s (if pm_pending (ps_mgr s)
              then s\<lparr>ps_pc := Cleared, ps_mgr := (ps_mgr s)\<lparr>pm_pending := False\<rparr>,
                     ps_woken := ps_woken s \<union> ps_waiting s, ps_waiting := {}\<rparr>
              else s\<lparr>ps_pc := Cleared\<rparr>)"
| p_snap: "ps_pc s = Cleared \<Longrightarrow> sa_wait_sets (pm_aio (ps_mgr s)) = (r, w, h) \<Longrightarrow> pstep s (s\<lparr>ps_pc := Selecting r w h\<rparr>)"
| p_ready: "ps_pc s = Selecting r w h \<Longrightarrow> tr \<subseteq> r \<Longrightarrow> tw \<subseteq> w \<Longrightarrow>
     sa_ready h (Some (tr, tw)) (pm_aio (ps_mgr s)) = Ret (readable, writable, a) \<Longrightarrow>
     pstep s (s\<lparr>ps_pc := Going (map (Pair True) readable @ map (Pair False) writable), ps_mgr := (ps_mgr s)\<lparr>pm_aio := a\<rparr>\<rparr>)"
| p_interrupted: "ps_pc s = Selecting r w h \<Longrightarrow> pstep s (s\<lparr>ps_pc := Going []\<rparr>)"
| p_call: "ps_pc s = Going ((b, fd) # q) \<Longrightarrow> pm_callbacks (ps_mgr s) fd \<noteq> None \<Longrightarrow> pstep s (s\<lparr>ps_pc := InCall fd q\<rparr>)"
| p_skip: "ps_pc s = Going ((b, fd) # q) \<Longrightarrow> pm_callbacks (ps_mgr s) fd = None \<Longrightarrow> pstep s (s\<lparr>ps_pc := Going q\<rparr>)"
| p_called: "ps_pc s = InCall fd q \<Longrightarrow> pstep s (s\<lparr>ps_pc := Going q\<rparr>)"
| p_again: "ps_pc s = Going [] \<Longrightarrow> pstep s (s\<lparr>ps_pc := AtTop\<rparr>)"
| p_add: "fd \<notin> ps_waiting s \<union> ps_woken s \<Longrightarrow> add_callback fd flag ch (ps_mgr s) = Ret m \<Longrightarrow> pstep s (s\<lparr>ps_mgr := m\<rparr>)"
| p_del: "del_callback fd flag (ps_mgr s) = Ret m \<Longrightarrow> pstep s (s\<lparr>ps_mgr := m\<rparr>)"
| p_remove: "fd \<notin> ps_waiting s \<union> ps_woken s \<Longrightarrow> block_remove_begin fd (ps_mgr s) = Ret m \<Longrightarrow>
     pstep s (s\<lparr>ps_mgr := m, ps_waiting := insert fd (ps_waiting s)\<rparr>)"
| p_removed: "fd \<in> ps_woken s \<Longrightarrow> pstep s (s\<lparr>ps_mgr := block_remove_end fd (ps_mgr s), ps_woken := ps_woken s - {fd}\<rparr>)"

inductive preach :: "nat \<Rightarrow> 'c psys \<Rightarrow> bool" for p where
  preach_init: "preach p \<lparr>ps_mgr = PollMgr p, ps_pc = AtTop, ps_waiting = {}, ps_woken = {}\<rparr>"
| preach_step: "preach p s \<Longrightarrow> pstep s s' \<Longrightarrow> preach p s'"

inductive_cases pstepE: "pstep s s'"

text \<open>The descriptors whose callbacks the loop is calling or may still call before it is back at the top.\<close>

fun pc_fds :: "loop_pc \<Rightarrow> nat set" where
  "pc_fds AtTop = {}"
| "pc_fds Cleared = {}"
| "pc_fds (Selecting r w h) = r \<union> w"
| "pc_fds (Going q) = snd ` set q"
| "pc_fds (InCall fd q) = insert fd (snd ` set q)"

definition ps_ok :: "'c psys \<Rightarrow> bool" where
  "ps_ok s \<longleftrightarrow> ps_woken s \<inter> pc_fds (ps_pc s) = {} \<and>
     (ps_woken s \<union> ps_waiting s) \<inter> sa_fds (pm_aio (ps_mgr s)) = {} \<and>
     (ps_waiting s \<noteq> {} \<longrightarrow> pm_pending (ps_mgr s))"

lemma sa_unwatch_sub: "sa_unwatch_fd fd f a = Ret (g, a') \<Longrightarrow> sa_fds a' \<subseteq> sa_fds a"
  by (auto simp: sa_unwatch_fd_def sa_fds_def Let_def split: if_splits)

lemma sa_unwatch_both: "sa_unwatch_fd fd CB_RDWR a = Ret (g, a') \<Longrightarrow> sa_fds a' = sa_fds a - {fd}"
  by (auto simp: sa_unwatch_fd_def sa_fds_def Let_def split: if_splits)

lemma sa_ready_sub:
  assumes "sa_ready h (Some (tr, tw)) a = Ret (readable, writable, a')"
  shows "set readable \<subseteq> tr" "set writable \<subseteq> tw" "sa_fds a' = sa_fds a"
  using assms by (auto simp: sa_ready_def sa_fds_def split: if_splits)

lemma sa_wait_sub: "sa_wait_sets a = (r, w, h) \<Longrightarrow> r \<union> w \<subseteq> sa_fds a"
  by (auto simp: sa_wait_sets_def sa_fds_def)

lemma ps_ok_step: "pstep s s' \<Longrightarrow> ps_ok s \<Longrightarrow> ps_ok s'"
proof (induction rule: pstep.induct)
  case (p_snap s r w h)
  then show ?case using sa_wait_sub [OF p_snap(2)] by (auto simp: ps_ok_def)
next
  case (p_ready s r w h tr tw readable writable a)
  have sub: "pc_fds (Going (map (Pair True) readable @ map (Pair False) writable)) \<subseteq> r \<union> w"
    using sa_ready_sub [OF p_ready(4)] p_ready(2,3) by auto
  then have "ps_woken s \<inter> pc_fds (Going (map (Pair True) readable @ map (Pair False) writable)) = {}"
    using p_ready(1,5) unfolding ps_ok_def by (simp del: pc_fds.simps(4)) blast
  then show ?case using p_ready(5) sa_ready_sub(3) [OF p_ready(4)] by (simp add: ps_ok_def del: pc_fds.simps(4))
next
  case (p_add fd s flag ch m)
  then show ?case by (auto simp: ps_ok_def add_callback_def sa_watch_sets Let_def)
next
  case (p_del fd flag s m)
  then show ?case by (auto simp: ps_ok_def del_callback_def Let_def dest!: sa_unwatch_sub split: if_splits)
next
  case (p_remove fd s m)
  then show ?case by (auto simp: ps_ok_def block_remove_begin_def dest!: sa_unwatch_both)
next
  case (p_removed fd s)
  then show ?case by (auto simp: ps_ok_def block_remove_end_def)
qed (auto simp: ps_ok_def)

lemma preach_ok: "preach p s \<Longrightarrow> ps_ok s"
proof (induction rule: preach.induct)
  case preach_init
  show ?case by (simp add: ps_ok_def)
next
  case (preach_step s s')
  then show ?case by (blast intro: ps_ok_step)
qed



text \<open>
  A removal does not wait longer than one turn of the loop: when the loop is back at the top, every
  thread asleep in \<^verbatim>\<open>block_remove_fd\<close> is woken by the next step of the loop.
\<close>

theorem block_remove_woken_at_top:
  assumes "preach p s" and "fd \<in> ps_waiting s" and "ps_pc s = AtTop"
  shows "\<exists>s'. pstep s s' \<and> fd \<in> ps_woken s' \<and> ps_waiting s' = {}"
  using preach_ok [OF assms(1)] assms(2) p_top [OF assms(3)] by (auto simp: ps_ok_def)

theorem block_remove_woken_at_top_witness:
  "\<exists>s s' :: nat psys. preach 3 s \<and> 7 \<in> ps_waiting s \<and> pstep s s' \<and> 7 \<in> ps_woken s'"
proof -
  let ?s0 = "\<lparr>ps_mgr = PollMgr 3, ps_pc = AtTop, ps_waiting = {}, ps_woken = {}\<rparr> :: nat psys"
  obtain m where m: "block_remove_begin 7 (PollMgr 3 :: nat pollmgr) = Ret m"
    by (auto simp: block_remove_begin_def PollMgr_def SelectAIO_def sa_unwatch_fd_def Let_def)
  have "preach 3 (?s0\<lparr>ps_mgr := m, ps_waiting := insert 7 {}\<rparr>)"
    using preach_step [OF preach_init p_remove [of 7 ?s0 m]] m by simp
  from block_remove_woken_at_top [OF this, of 7] this show ?thesis by auto
qed

end
