(* ===== verification/Thr_Pool.thy ===== *)
theory Thr_Pool
  imports Prelude "HOL-Library.Multiset"
begin

text \<open>
  The bounded queue (\<^verbatim>\<open>rpc/fifo.h\<close>), the pool of worker threads built on it (\<^verbatim>\<open>rpc/thr_pool.h\<close>,
  \<^verbatim>\<open>rpc/thr_pool.cc\<close>) and \<^verbatim>\<open>rpcs::got_pdu\<close>, which hands a received PDU to the pool.

  A queue operation whose caller goes to sleep is \<open>Stuck\<close>. The pool is a system of threads: the workers
  running \<^verbatim>\<open>do_worker\<close>, the threads that add jobs, and the one that runs the destructor. \<open>pool_do\<close> is one
  step of one of them, up to the next point where it gives up the mutex of the queue.
\<close>

section \<open>The queue\<close>

record 'a fifo =
  ff_q :: "'a list"
  ff_max :: nat

definition fifo_new :: "nat \<Rightarrow> 'a fifo" where
  "fifo_new limit = \<lparr>ff_q = [], ff_max = limit\<rparr>"

text \<open>\<^verbatim>\<open>size\<close> is declared with the result type \<^verbatim>\<open>bool\<close>.\<close>

definition ff_size :: "'a fifo \<Rightarrow> bool" where
  "ff_size f \<longleftrightarrow> length (ff_q f) \<noteq> 0"

text \<open>\<open>Stuck\<close>: the caller sleeps on \<^verbatim>\<open>has_space_c_\<close>. A return of true has signalled \<^verbatim>\<open>non_empty_c_\<close>.\<close>

definition ff_enq :: "'a \<Rightarrow> bool \<Rightarrow> 'a fifo \<Rightarrow> (bool \<times> 'a fifo) res" where
  "ff_enq e blocking f =
     (if ff_max f = 0 \<or> length (ff_q f) < ff_max f then Ret (True, f\<lparr>ff_q := ff_q f @ [e]\<rparr>)
      else if blocking then Stuck else Ret (False, f))"

text \<open>\<open>Stuck\<close>: the caller sleeps on \<^verbatim>\<open>non_empty_c_\<close>. The boolean says that \<^verbatim>\<open>has_space_c_\<close> is signalled.\<close>

definition ff_deq :: "'a fifo \<Rightarrow> ('a \<times> bool \<times> 'a fifo) res" where
  "ff_deq f =
     (case ff_q f of
        [] \<Rightarrow> Stuck
      | e # q \<Rightarrow> Ret (e, ff_max f \<noteq> 0 \<and> length q < ff_max f, f\<lparr>ff_q := q\<rparr>))"

section \<open>The pool\<close>

text \<open>
  What a worker does: it is awake and about to look at the queue, asleep on \<^verbatim>\<open>non_empty_c_\<close>, inside a job, or
  gone.
\<close>

datatype 'j worker = Awake | Asleep | Running 'j | Exited

text \<open>
  A queue element is a job, or \<open>None\<close> for the poison pill, whose function pointer is \<^verbatim>\<open>NULL\<close>. \<open>tp_pills\<close> is the number of
  pills the destructor has still to put, \<open>None\<close> before it runs; \<open>tp_dasleep\<close> says that it sleeps on
  \<^verbatim>\<open>has_space_c_\<close>. The last three fields record the jobs that were accepted, started and finished.
\<close>

record 'j pool =
  tp_nthreads :: nat
  tp_blockadd :: bool
  tp_jobq :: "'j option fifo"
  tp_th :: "'j worker list"
  tp_pills :: "nat option"
  tp_dasleep :: bool
  tp_added :: "'j list"
  tp_begun :: "'j list"
  tp_ended :: "'j list"

definition ThrPool :: "nat \<Rightarrow> bool \<Rightarrow> 'j pool" where
  "ThrPool sz blocking =
     \<lparr>tp_nthreads = sz, tp_blockadd = blocking, tp_jobq = fifo_new (100 * sz), tp_th = replicate sz Awake,
      tp_pills = None, tp_dasleep = False, tp_added = [], tp_begun = [], tp_ended = []\<rparr>"

text \<open>\<^verbatim>\<open>pthread_cond_signal\<close> on \<^verbatim>\<open>non_empty_c_\<close> wakes one sleeping worker; \<open>k\<close> is the one the scheduler picks.\<close>

definition may_wake :: "nat \<Rightarrow> 'j worker list \<Rightarrow> bool" where
  "may_wake k ths \<longleftrightarrow> (Asleep \<in> set ths \<longrightarrow> k < length ths \<and> ths ! k = Asleep)"

definition wake :: "nat \<Rightarrow> 'j worker list \<Rightarrow> 'j worker list" where
  "wake k ths = (if Asleep \<in> set ths then ths[k := Awake] else ths)"

definition addJob :: "nat \<Rightarrow> 'j \<Rightarrow> 'j pool \<Rightarrow> (bool \<times> 'j pool) res" where
  "addJob k j p =
     bind_res (ff_enq (Some j) (tp_blockadd p) (tp_jobq p)) (\<lambda>(succ, q).
       if succ then Ret (True, p\<lparr>tp_jobq := q, tp_th := wake k (tp_th p), tp_added := tp_added p @ [j]\<rparr>)
       else Ret (False, p))"

text \<open>\<^verbatim>\<open>takeJob\<close> by worker \<open>i\<close>, and what \<^verbatim>\<open>do_worker\<close> makes of its answer.\<close>

definition takeJob :: "nat \<Rightarrow> 'j pool \<Rightarrow> 'j pool" where
  "takeJob i p =
     (case ff_deq (tp_jobq p) of
        Ret (x, space, q) \<Rightarrow>
          (let p = p\<lparr>tp_jobq := q, tp_dasleep := (tp_dasleep p \<and> \<not> space)\<rparr> in
           case x of
             None \<Rightarrow> p\<lparr>tp_th := (tp_th p)[i := Exited]\<rparr>
           | Some j \<Rightarrow> p\<lparr>tp_th := (tp_th p)[i := Running j], tp_begun := tp_begun p @ [j]\<rparr>)
      | _ \<Rightarrow> p\<lparr>tp_th := (tp_th p)[i := Asleep]\<rparr>)"

text \<open>One pill of the destructor.\<close>

definition put_pill :: "nat \<Rightarrow> 'j pool \<Rightarrow> 'j pool" where
  "put_pill k p =
     (case ff_enq None True (tp_jobq p) of
        Ret (_, q) \<Rightarrow> p\<lparr>tp_jobq := q, tp_th := wake k (tp_th p), tp_pills := map_option (\<lambda>r. r - 1) (tp_pills p)\<rparr>
      | _ \<Rightarrow> p\<lparr>tp_dasleep := True\<rparr>)"

datatype 'j pool_act = Add nat 'j | Destroy | Take nat | Finish nat | Pill nat

text \<open>
  One step, \<open>None\<close> if the thread concerned cannot take it now. The pool may be destroyed only when no other
  thread will use it again: no job is added once the destructor runs.
\<close>

fun pool_do :: "'j pool_act \<Rightarrow> 'j pool \<Rightarrow> 'j pool option" where
  "pool_do (Add k j) p =
     (if tp_pills p = None \<and> may_wake k (tp_th p)
      then (case addJob k j p of Ret (_, p') \<Rightarrow> Some p' | _ \<Rightarrow> None) else None)"
| "pool_do Destroy p = (if tp_pills p = None then Some (p\<lparr>tp_pills := Some (tp_nthreads p)\<rparr>) else None)"
| "pool_do (Take i) p = (if i < length (tp_th p) \<and> tp_th p ! i = Awake then Some (takeJob i p) else None)"
| "pool_do (Finish i) p =
     (if i < length (tp_th p)
      then (case tp_th p ! i of
              Running j \<Rightarrow> Some (p\<lparr>tp_th := (tp_th p)[i := Awake], tp_ended := tp_ended p @ [j]\<rparr>)
            | _ \<Rightarrow> None)
      else None)"
| "pool_do (Pill k) p =
     (case tp_pills p of
        Some (Suc r) \<Rightarrow> if \<not> tp_dasleep p \<and> may_wake k (tp_th p) then Some (put_pill k p) else None
      | _ \<Rightarrow> None)"

fun pool_run :: "'j pool_act list \<Rightarrow> 'j pool \<Rightarrow> 'j pool option" where
  "pool_run [] p = Some p"
| "pool_run (a # acts) p = (case pool_do a p of Some p' \<Rightarrow> pool_run acts p' | None \<Rightarrow> None)"

section \<open>The invariant of the pool\<close>

text \<open>The jobs of the queue, and those being run.\<close>

definition queued :: "'j pool \<Rightarrow> 'j list" where
  "queued p = List.map_filter id (ff_q (tp_jobq p))"

definition running :: "'j worker list \<Rightarrow> 'j list" where
  "running ths = List.map_filter (\<lambda>w. case w of Running j \<Rightarrow> Some j | _ \<Rightarrow> None) ths"

definition pills_in :: "'j pool \<Rightarrow> nat" where
  "pills_in p = count_list (ff_q (tp_jobq p)) None"

text \<open>
  In turn: the pills come last, and no job is left once a worker has gone; every accepted job was started, in
  order, or is queued; every started job is running or has ended; the pills add up; no wake-up is lost; the
  destructor sleeps only while the queue is full.
\<close>

definition pool_ok :: "'j pool \<Rightarrow> bool" where
  "pool_ok p \<longleftrightarrow>
     length (tp_th p) = tp_nthreads p \<and> ff_max (tp_jobq p) = 100 * tp_nthreads p \<and>
     ff_q (tp_jobq p) = map Some (queued p) @ replicate (pills_in p) None \<and>
     (Exited \<in> set (tp_th p) \<longrightarrow> queued p = []) \<and>
     tp_begun p @ queued p = tp_added p \<and>
     mset (tp_begun p) = mset (tp_ended p) + mset (running (tp_th p)) \<and>
     (case tp_pills p of
        None \<Rightarrow> pills_in p = 0 \<and> Exited \<notin> set (tp_th p)
      | Some r \<Rightarrow> r + pills_in p + count_list (tp_th p) Exited = tp_nthreads p) \<and>
     (Asleep \<in> set (tp_th p) \<longrightarrow> length (ff_q (tp_jobq p)) \<le> count_list (tp_th p) Awake) \<and>
     (tp_dasleep p \<longrightarrow> tp_nthreads p > 0 \<and> ff_max (tp_jobq p) \<le> length (ff_q (tp_jobq p)))"

inductive pool_reach :: "nat \<Rightarrow> bool \<Rightarrow> 'j pool \<Rightarrow> bool" for sz blocking where
  pool_reach_new: "pool_reach sz blocking (ThrPool sz blocking)"
| pool_reach_do: "pool_reach sz blocking p \<Longrightarrow> pool_do a p = Some p' \<Longrightarrow> pool_reach sz blocking p'"


lemma queue_shape:
  assumes "ff_q (tp_jobq p) = map Some js @ replicate n None"
  shows "queued p = js" and "pills_in p = n"
proof -
  have "List.map_filter id (map Some js @ replicate n None) = js"
    by (induction js) (auto simp: List.map_filter_simps map_filter_def)
  then show "queued p = js" using assms by (simp add: queued_def)
  have "count_list (replicate n (None :: 'a option)) None = n" by (induction n) auto
  moreover have "count_list (map Some js) None = 0" by (induction js) auto
  ultimately show "pills_in p = n" using assms by (simp add: pills_in_def)
qed

lemma at_index:
  assumes "i < length xs"
  obtains ys zs where "xs = ys @ xs ! i # zs" and "\<And>y. xs[i := y] = ys @ y # zs"
  using id_take_nth_drop [OF assms] upd_conv_take_nth_drop [OF assms] by blast

lemma running_simps [simp]:
  "running [] = []"
  "running (Running j # ths) = j # running ths"
  "running (Awake # ths) = running ths"
  "running (Asleep # ths) = running ths"
  "running (Exited # ths) = running ths"
  "running (ths @ ths') = running ths @ running ths'"
  by (auto simp: running_def List.map_filter_simps map_filter_def)

lemma wake_cases:
  assumes "may_wake k ths"
  obtains "Asleep \<notin> set ths" and "wake k ths = ths"
  | ys zs where "ths = ys @ Asleep # zs" and "wake k ths = ys @ Awake # zs"
proof (cases "Asleep \<in> set ths")
  case True
  then have "k < length ths" "ths ! k = Asleep" using assms by (auto simp: may_wake_def)
  then show thesis using that(2) True by (metis at_index wake_def)
qed (use that in \<open>simp add: wake_def\<close>)

text \<open>What one element more in the queue, with one worker woken for it, does to the workers.\<close>

lemma wake_keeps:
  assumes "may_wake k ths"
  shows "length (wake k ths) = length ths" and "running (wake k ths) = running ths"
    and "Exited \<in> set (wake k ths) \<longleftrightarrow> Exited \<in> set ths"
    and "count_list (wake k ths) Exited = count_list ths Exited"
    and "(Asleep \<in> set ths \<longrightarrow> n \<le> count_list ths Awake) \<Longrightarrow>
         Asleep \<in> set (wake k ths) \<longrightarrow> Suc n \<le> count_list (wake k ths) Awake"
  using assms by (cases rule: wake_cases; auto)+

lemma pool_ok_new: "pool_ok (ThrPool sz b)"
proof -
  have "count_list (replicate sz Awake) Exited = 0" "running (replicate sz Awake) = []" for sz
    by (induction sz) auto
  then show ?thesis
    by (auto simp: pool_ok_def ThrPool_def fifo_new_def queued_def pills_in_def List.map_filter_simps)
qed

lemma pool_okD:
  assumes "pool_ok p"
  shows "tp_begun p @ queued p = tp_added p"
    and "mset (tp_begun p) = mset (tp_ended p) + mset (running (tp_th p))"
    and "Exited \<in> set (tp_th p) \<Longrightarrow> queued p = []"
    and "Asleep \<in> set (tp_th p) \<Longrightarrow> length (ff_q (tp_jobq p)) \<le> count_list (tp_th p) Awake"
  using assms unfolding pool_ok_def by blast+

lemma pool_ok_add:
  assumes "pool_ok p" and "tp_pills p = None" and "may_wake k (tp_th p)" and "addJob k j p = Ret (r, p')"
  shows "pool_ok p'"
proof (cases r)
  case True
  then have p': "p' = p\<lparr>tp_jobq := (tp_jobq p)\<lparr>ff_q := ff_q (tp_jobq p) @ [Some j]\<rparr>, tp_th := wake k (tp_th p), tp_added := tp_added p @ [j]\<rparr>"
    using assms(4) by (auto simp: addJob_def ff_enq_def split: if_splits)
  have "ff_q (tp_jobq p') = map Some (queued p @ [j]) @ replicate 0 None"
    using assms(1,2) p' by (simp add: pool_ok_def)
  note q = queue_shape [OF this]
  show ?thesis using assms(1,2) wake_keeps [OF assms(3)] q unfolding pool_ok_def p' by auto
next
  case False
  then show ?thesis using assms(1,4) by (auto simp: addJob_def split: if_splits)
qed


lemma pool_ok_take:
  assumes ok: "pool_ok p" and i: "i < length (tp_th p)" "tp_th p ! i = Awake"
  shows "pool_ok (takeJob i p)"
proof -
  obtain ys zs where th: "tp_th p = ys @ Awake # zs" and upd: "\<And>y. (tp_th p)[i := y] = ys @ y # zs"
    using at_index [OF i(1)] i(2) by metis
  have q: "ff_q (tp_jobq p) = map Some (queued p) @ replicate (pills_in p) None"
    using ok by (simp add: pool_ok_def)
  consider (empty) "queued p = []" "pills_in p = 0"
    | (pill) n where "queued p = []" "pills_in p = Suc n"
    | (job) j js where "queued p = j # js"
    by (cases "queued p"; cases "pills_in p") auto
  then show ?thesis
  proof cases
    case empty
    then have t: "takeJob i p = p\<lparr>tp_th := ys @ Asleep # zs\<rparr>" using q upd by (simp add: takeJob_def ff_deq_def)
    have "ff_q (tp_jobq (takeJob i p)) = map Some [] @ replicate 0 None" using empty q by (simp add: t)
    note q' = queue_shape [OF this]
    show ?thesis using ok th empty q q' unfolding pool_ok_def t by (auto split: option.splits)
  next
    case pill
    then have t: "takeJob i p = p\<lparr>tp_jobq := (tp_jobq p)\<lparr>ff_q := replicate n None\<rparr>,
        tp_dasleep := (tp_dasleep p \<and> \<not> (ff_max (tp_jobq p) \<noteq> 0 \<and> n < ff_max (tp_jobq p))), tp_th := ys @ Exited # zs\<rparr>"
      using q upd by (simp add: takeJob_def ff_deq_def Let_def)
    have "ff_q (tp_jobq (takeJob i p)) = map Some [] @ replicate n None" by (simp add: t)
    note q' = queue_shape [OF this]
    show ?thesis using ok th pill q q' unfolding pool_ok_def t by (auto split: option.splits)
  next
    case job
    then have t: "takeJob i p = p\<lparr>tp_jobq := (tp_jobq p)\<lparr>ff_q := map Some js @ replicate (pills_in p) None\<rparr>,
        tp_dasleep := (tp_dasleep p \<and> \<not> (ff_max (tp_jobq p) \<noteq> 0 \<and> length js + pills_in p < ff_max (tp_jobq p))),
        tp_th := ys @ Running j # zs, tp_begun := tp_begun p @ [j]\<rparr>"
      using q upd by (simp add: takeJob_def ff_deq_def Let_def)
    have "ff_q (tp_jobq (takeJob i p)) = map Some js @ replicate (pills_in p) None" by (simp add: t)
    note q' = queue_shape [OF this]
    show ?thesis using ok th job q q' unfolding pool_ok_def t by (auto split: option.splits)
  qed
qed

lemma pool_ok_finish:
  assumes ok: "pool_ok p" and i: "i < length (tp_th p)" "tp_th p ! i = Running j"
  shows "pool_ok (p\<lparr>tp_th := (tp_th p)[i := Awake], tp_ended := tp_ended p @ [j]\<rparr>)"
proof -
  obtain ys zs where "tp_th p = ys @ Running j # zs" "(tp_th p)[i := Awake] = ys @ Awake # zs"
    using at_index [OF i(1)] i(2) by metis
  then show ?thesis using ok by (auto simp: pool_ok_def queued_def pills_in_def split: option.splits)
qed

lemma pool_ok_pill:
  assumes ok: "pool_ok p" and r: "tp_pills p = Some (Suc r)" and k: "may_wake k (tp_th p)"
  shows "pool_ok (put_pill k p)"
proof (cases "ff_max (tp_jobq p) = 0 \<or> length (ff_q (tp_jobq p)) < ff_max (tp_jobq p)")
  case True
  then have t: "put_pill k p = p\<lparr>tp_jobq := (tp_jobq p)\<lparr>ff_q := ff_q (tp_jobq p) @ [None]\<rparr>, tp_th := wake k (tp_th p), tp_pills := Some r\<rparr>"
    by (simp add: put_pill_def ff_enq_def r)
  have "ff_q (tp_jobq (put_pill k p)) = map Some (queued p) @ replicate (Suc (pills_in p)) None"
    using ok by (simp add: t pool_ok_def replicate_append_same)
  note q = queue_shape [OF this]
  show ?thesis using ok r wake_keeps [OF k] q unfolding pool_ok_def t
    by (auto simp: replicate_append_same split: option.splits)
next
  case False
  then have "put_pill k p = p\<lparr>tp_dasleep := True\<rparr>" by (simp add: put_pill_def ff_enq_def)
  then show ?thesis using ok r False by (auto simp: pool_ok_def queued_def pills_in_def)
qed

lemma pool_ok_do: "pool_ok p \<Longrightarrow> pool_do a p = Some p' \<Longrightarrow> pool_ok p'"
proof (cases a)
  case Destroy
  assume "pool_ok p" "pool_do a p = Some p'"
  then show ?thesis using Destroy
    by (auto simp: pool_ok_def queued_def pills_in_def count_list_0_iff split: if_splits)
qed (auto intro: pool_ok_take pool_ok_finish pool_ok_pill pool_ok_add
      split: if_splits res.splits worker.splits option.splits nat.splits)

lemma pool_do_nthreads: "pool_do a p = Some p' \<Longrightarrow> tp_nthreads p' = tp_nthreads p"
  by (cases a)
     (auto simp: addJob_def takeJob_def put_pill_def Let_def
        split: if_splits res.splits worker.splits option.splits nat.splits)

lemma pool_reach_ok: "pool_reach sz b p \<Longrightarrow> pool_ok p \<and> tp_nthreads p = sz"
  by (induction rule: pool_reach.induct)
     (auto simp: pool_ok_new pool_do_nthreads intro: pool_ok_do, auto simp: ThrPool_def)


lemma pool_reach_blockadd: "pool_reach sz b p \<Longrightarrow> tp_blockadd p = b"
proof (induction rule: pool_reach.induct)
  case (pool_reach_do p a p')
  then show ?case
    by (cases a)
       (auto simp: addJob_def takeJob_def put_pill_def Let_def
          split: if_splits res.splits worker.splits option.splits nat.splits)
qed (simp add: ThrPool_def)

lemma pool_run_reach: "pool_reach sz b p \<Longrightarrow> pool_run acts p = Some p' \<Longrightarrow> pool_reach sz b p'"
  by (induction acts arbitrary: p) (auto split: option.splits intro: pool_reach_do)

section \<open>Shutting down\<close>

text \<open>
  The steps that are left once the destructor runs, and a bound on how many there can be: a worker ends its job and
  looks at the queue again, goes to sleep, or leaves; a pill wakes at most one worker.
\<close>

fun internal :: "'j pool_act \<Rightarrow> bool" where
  "internal (Take i) = True"
| "internal (Finish i) = True"
| "internal (Pill k) = True"
| "internal _ = False"

fun worker_cost :: "'j worker \<Rightarrow> nat" where
  "worker_cost (Running j) = 2"
| "worker_cost Awake = 1"
| "worker_cost _ = 0"

definition steps_left :: "'j pool \<Rightarrow> nat" where
  "steps_left p = 5 * (case tp_pills p of None \<Rightarrow> 0 | Some r \<Rightarrow> r) + 3 * length (ff_q (tp_jobq p)) +
     sum_list (map worker_cost (tp_th p)) + (if tp_dasleep p then 0 else 1)"

lemma wake_cost: "may_wake k ths \<Longrightarrow> sum_list (map worker_cost (wake k ths)) \<le> Suc (sum_list (map worker_cost ths))"
  by (erule wake_cases) auto

lemma takeJob_cost:
  assumes "i < length (tp_th p)" and "tp_th p ! i = Awake"
  shows "steps_left (takeJob i p) < steps_left p"
proof -
  obtain ys zs where "tp_th p = ys @ Awake # zs" "\<And>y. (tp_th p)[i := y] = ys @ y # zs"
    using at_index [OF assms(1)] assms(2) by metis
  then show ?thesis
    by (auto simp: steps_left_def takeJob_def ff_deq_def Let_def split: list.splits option.splits)
qed

lemma finish_cost:
  assumes "i < length (tp_th p)" and "tp_th p ! i = Running j"
  shows "steps_left (p\<lparr>tp_th := (tp_th p)[i := Awake], tp_ended := e\<rparr>) < steps_left p"
proof -
  obtain ys zs where "tp_th p = ys @ Running j # zs" "(tp_th p)[i := Awake] = ys @ Awake # zs"
    using at_index [OF assms(1)] assms(2) by metis
  then show ?thesis by (simp add: steps_left_def)
qed

lemma pill_cost:
  assumes "tp_pills p = Some (Suc r)" and "\<not> tp_dasleep p" and "may_wake k (tp_th p)"
  shows "steps_left (put_pill k p) < steps_left p"
  using assms wake_cost [OF assms(3)] by (auto simp: steps_left_def put_pill_def ff_enq_def)

lemma internal_cost: "internal a \<Longrightarrow> pool_do a p = Some p' \<Longrightarrow> steps_left p' < steps_left p"
  by (cases a)
     (auto intro: takeJob_cost finish_cost pill_cost split: if_splits worker.splits option.splits nat.splits)

lemma internal_keeps: "internal a \<Longrightarrow> pool_do a p = Some p' \<Longrightarrow>
    tp_added p' = tp_added p \<and> (tp_pills p \<noteq> None \<longrightarrow> tp_pills p' \<noteq> None)"
  by (cases a)
     (auto simp: takeJob_def put_pill_def Let_def split: if_splits res.splits worker.splits option.splits nat.splits)

lemma internal_run:
  assumes "pool_run acts p = Some p'" and "\<forall>a \<in> set acts. internal a" and "pool_ok p" and "tp_pills p \<noteq> None"
  shows "pool_ok p' \<and> tp_pills p' \<noteq> None \<and> tp_added p' = tp_added p \<and> tp_nthreads p' = tp_nthreads p \<and>
    length acts + steps_left p' \<le> steps_left p"
  using assms
proof (induction acts arbitrary: p)
  case (Cons a acts)
  then obtain p1 where p1: "pool_do a p = Some p1" "pool_run acts p1 = Some p'" "internal a"
    by (auto split: option.splits)
  then show ?case
    using Cons.IH [of p1] Cons.prems internal_cost [of a p p1] internal_keeps [of a p p1] pool_ok_do [of p a p1]
      pool_do_nthreads [of a p p1] by fastforce
qed simp

text \<open>When no thread of the pool can move, every worker has gone and nothing is left to do.\<close>

lemma quiet_no_awake:
  assumes "\<And>a. internal a \<Longrightarrow> pool_do a p = None"
  shows "w \<in> set (tp_th p) \<Longrightarrow> w = Asleep \<or> w = Exited"
proof -
  assume "w \<in> set (tp_th p)"
  then obtain i where i: "i < length (tp_th p)" "tp_th p ! i = w" by (meson in_set_conv_nth)
  then show ?thesis using assms [of "Take i"] assms [of "Finish i"]
    by (cases w) auto
qed

lemma only_exited: "set ths \<subseteq> {Exited} \<Longrightarrow> running ths = []"
  by (induction ths) auto

lemma all_exited: "count_list ths Exited = length ths \<Longrightarrow> set ths \<subseteq> {Exited}"
proof (induction ths)
  case (Cons a ths)
  then show ?case using count_le_length [of ths Exited] by (auto split: if_splits)
qed simp

lemma quiet_pool:
  assumes ok: "pool_ok p" and d: "tp_pills p = Some r" and n: "0 < tp_nthreads p"
    and quiet: "\<And>a. internal a \<Longrightarrow> pool_do a p = None"
  shows "set (tp_th p) = {Exited} \<and> queued p = [] \<and> mset (tp_ended p) = mset (tp_added p)"
proof -
  note w = quiet_no_awake [of p, OF quiet]
  obtain k where k: "may_wake k (tp_th p)" by (metis in_set_conv_nth may_wake_def)
  have r: "r = 0 \<or> tp_dasleep p" using quiet [of "Pill k"] d k by (cases r) (auto split: if_splits)
  have "Asleep \<notin> set (tp_th p)"
  proof
    assume a: "Asleep \<in> set (tp_th p)"
    have "count_list (tp_th p) Awake = 0" using w by (auto simp: count_list_0_iff)
    then have q: "ff_q (tp_jobq p) = []" using pool_okD(4) [OF ok a] by simp
    then have "\<not> tp_dasleep p" "pills_in p = 0" using ok n by (auto simp: pool_ok_def pills_in_def)
    then have "count_list (tp_th p) Exited = length (tp_th p)" using ok d r by (simp add: pool_ok_def)
    then show False using a all_exited by fastforce
  qed
  then have x: "set (tp_th p) \<subseteq> {Exited}" using w by blast
  moreover have "tp_th p \<noteq> []" using ok n by (auto simp: pool_ok_def)
  ultimately have s: "set (tp_th p) = {Exited}" by (metis set_empty subset_singletonD)
  then show ?thesis using pool_okD [OF ok] only_exited [OF x] by simp
qed


section \<open>Handing a PDU to the pool\<close>

text \<open>
  \<^verbatim>\<open>rpcs::got_pdu\<close>. \<open>gs_jobs\<close> has the \<^verbatim>\<open>djob_t\<close> objects that exist, by address: the connection and the PDU; a job of the
  pool is such an address. \<open>gs_ref\<close> is the reference count of each connection.
\<close>

record gsys =
  gs_pool :: "nat pool"
  gs_jobs :: "nat \<rightharpoonup> nat \<times> byte list"
  gs_ref :: "nat \<Rightarrow> int"

text \<open>
  \<^verbatim>\<open>reachable_\<close> is read twice without a lock, as \<open>r1\<close> and \<open>r2\<close>; \<open>j\<close> is the address of the new object, \<open>k\<close> the worker that a
  signal wakes.
\<close>

definition rpcs_got_pdu :: "bool \<Rightarrow> bool \<Rightarrow> nat \<Rightarrow> nat \<Rightarrow> nat \<Rightarrow> byte list \<Rightarrow> gsys \<Rightarrow> (bool \<times> gsys) res" where
  "rpcs_got_pdu r1 r2 j k c b g =
     (if \<not> r1 then Ret (True, g)
      else (let g = g\<lparr>gs_jobs := (gs_jobs g)(j \<mapsto> (c, b)), gs_ref := (gs_ref g)(c := gs_ref g c + 1)\<rparr> in
        bind_res (addJob k j (gs_pool g)) (\<lambda>(succ, p).
          let g = g\<lparr>gs_pool := p\<rparr> in
          if \<not> succ \<or> \<not> r2
          then Ret (succ, g\<lparr>gs_ref := (gs_ref g)(c := gs_ref g c - 1), gs_jobs := (gs_jobs g)(j := None)\<rparr>)
          else Ret (succ, g))))"

text \<open>The start of \<^verbatim>\<open>rpcs::dispatch\<close>: the worker reads the object and deletes it.\<close>

definition take_djob :: "nat \<Rightarrow> gsys \<Rightarrow> ((nat \<times> byte list) \<times> gsys) res" where
  "take_djob j g =
     (case gs_jobs g j of
        None \<Rightarrow> Fault Bad_access
      | Some d \<Rightarrow> Ret (d, g\<lparr>gs_jobs := (gs_jobs g)(j := None)\<rparr>))"

section \<open>Properties\<close>

text \<open>
  A pool starts the jobs it accepts in the order in which they were accepted and none of them twice: those
  started, followed by those queued, are those accepted; and each started job is being run or has ended.
\<close>
theorem pool_starts_jobs_in_order:
  assumes "pool_reach sz b p"
  shows "tp_begun p @ queued p = tp_added p \<and> mset (tp_begun p) = mset (tp_ended p) + mset (running (tp_th p))"
  using pool_reach_ok [OF assms] by (simp add: pool_okD)

text \<open>Two workers: one sleeps, one runs the first job, a second job is queued, its worker woken.\<close>

definition pool_example :: "nat pool" where
  "pool_example = the (pool_run [Take 0, Take 1, Add 0 7, Take 0, Add 1 8] (ThrPool 2 False))"

lemmas pool_eval = pool_example_def ThrPool_def fifo_new_def addJob_def takeJob_def put_pill_def ff_enq_def ff_deq_def
  wake_def may_wake_def Let_def numeral_2_eq_2 numeral_3_eq_3

definition pool_waiting :: "nat pool" where
  "pool_waiting = the (pool_run [Take 0, Take 1, Add 0 7] (ThrPool 2 False))"

lemma pool_waiting_reach: "pool_reach 2 False pool_waiting"
proof -
  have "pool_run [Take 0, Take 1, Add 0 7] (ThrPool 2 False) = Some pool_waiting"
    by (simp add: pool_waiting_def pool_eval)
  then show ?thesis by (rule pool_run_reach [OF pool_reach_new])
qed

lemma pool_example_reach: "pool_reach 2 False pool_example"
proof -
  have "pool_run [Take 0, Take 1, Add 0 7, Take 0, Add 1 8] (ThrPool 2 False) = Some pool_example"
    by (simp add: pool_eval)
  then show ?thesis by (rule pool_run_reach [OF pool_reach_new])
qed

theorem pool_starts_jobs_in_order_witness:
  "tp_begun pool_example = [7] \<and> tp_begun pool_example @ queued pool_example = [7, 8]"
  using pool_starts_jobs_in_order [OF pool_example_reach] by (simp add: pool_eval)

text \<open>
  No wake-up is lost in the queue: while a worker sleeps, there are at least as many workers awake and about to
  look at the queue as there are elements in it.
\<close>
theorem pool_no_lost_wakeup:
  assumes "pool_reach sz b p" and "Asleep \<in> set (tp_th p)"
  shows "length (ff_q (tp_jobq p)) \<le> count_list (tp_th p) Awake"
  using pool_reach_ok [OF assms(1)] assms(2) by (simp add: pool_okD(4))

theorem pool_no_lost_wakeup_witness:
  "length (ff_q (tp_jobq pool_waiting)) = 1 \<and> 1 \<le> count_list (tp_th pool_waiting) Awake"
  using pool_no_lost_wakeup [OF pool_waiting_reach] by (simp add: pool_waiting_def pool_eval)

text \<open>
  C19. Once the destructor runs, the threads of the pool take at most \<open>steps_left\<close> steps, however they are scheduled; and
  when none of them can move any more, all workers have left and every job that was ever accepted has been run
  to its end, exactly once.
\<close>
theorem pool_shutdown_completes:
  assumes "pool_reach sz b p" and "0 < sz" and "tp_pills p \<noteq> None"
    and "pool_run acts p = Some p'" and "\<forall>a \<in> set acts. internal a"
  shows "length acts \<le> steps_left p \<and>
    ((\<forall>a. internal a \<longrightarrow> pool_do a p' = None) \<longrightarrow>
       set (tp_th p') = {Exited} \<and> queued p' = [] \<and> mset (tp_ended p') = mset (tp_added p))"
proof -
  have ok: "pool_ok p" "tp_nthreads p = sz" using pool_reach_ok [OF assms(1)] by auto
  note run = internal_run [OF assms(4,5) ok(1) assms(3)]
  then obtain r where "tp_pills p' = Some r" by auto
  then show ?thesis using run quiet_pool [of p' r] assms(2) ok(2) by auto
qed

definition pool_closing :: "nat pool" where
  "pool_closing = the (pool_run [Add 0 7, Take 0, Destroy] (ThrPool 1 False))"

theorem pool_shutdown_completes_witness:
  "\<exists>p'. pool_run [Finish 0, Take 0, Pill 0, Take 0] pool_closing = Some p' \<and> set (tp_th p') = {Exited} \<and> tp_ended p' = [7]"
proof -
  define p' where "p' = the (pool_run [Finish 0, Take 0, Pill 0, Take 0] pool_closing)"
  have reach: "pool_reach 1 False pool_closing"
  proof -
    have "pool_run [Add 0 7, Take 0, Destroy] (ThrPool 1 False) = Some pool_closing"
      by (simp add: pool_closing_def pool_eval)
    then show ?thesis by (rule pool_run_reach [OF pool_reach_new])
  qed
  have run: "pool_run [Finish 0, Take 0, Pill 0, Take 0] pool_closing = Some p'"
    by (simp add: p'_def pool_closing_def pool_eval)
  have quiet: "\<forall>a. internal a \<longrightarrow> pool_do a p' = None"
  proof (intro allI impI)
    fix a :: "nat pool_act"
    assume "internal a"
    then show "pool_do a p' = None" by (cases a) (auto simp: p'_def pool_closing_def pool_eval nth_Cons split: nat.splits)
  qed
  show ?thesis using pool_shutdown_completes [OF reach _ _ run] quiet run
    by (simp add: pool_closing_def pool_eval p'_def)
qed


text \<open>
  As long as the server stays reachable, \<^verbatim>\<open>got_pdu\<close> hands the PDU over exactly when fewer than one hundred jobs per
  worker are queued: then a reference to the connection is held for a job at the end of the queue that holds the
  PDU; otherwise the references, the objects and the queue are as before and the PDU stays with the
  connection.
\<close>
theorem got_pdu_hands_over:
  assumes reach: "pool_reach (Suc n) False (gs_pool g)" and fresh: "gs_jobs g j = None"
  shows "\<exists>succ g'. rpcs_got_pdu True True j k c b g = Ret (succ, g') \<and>
    (succ \<longleftrightarrow> length (ff_q (tp_jobq (gs_pool g))) < 100 * Suc n) \<and>
    (succ \<longrightarrow> queued (gs_pool g') = queued (gs_pool g) @ [j] \<and> gs_ref g' = (gs_ref g)(c := gs_ref g c + 1) \<and>
       (\<exists>g''. take_djob j g' = Ret ((c, b), g'') \<and> gs_jobs g'' = gs_jobs g)) \<and>
    (\<not> succ \<longrightarrow> g' = g)"
proof -
  have ok: "ff_max (tp_jobq (gs_pool g)) = 100 * Suc n" "tp_blockadd (gs_pool g) = False"
    using pool_reach_ok [OF reach] pool_reach_blockadd [OF reach] by (simp_all add: pool_ok_def)
  show ?thesis
  proof (cases "length (ff_q (tp_jobq (gs_pool g))) < 100 * Suc n")
    case True
    then show ?thesis using ok fresh
      by (intro exI [of _ True]) (simp add: rpcs_got_pdu_def addJob_def ff_enq_def take_djob_def queued_def List.map_filter_simps fun_upd_idem
            Let_def map_filter_def)
  next
    case False
    then show ?thesis using ok fresh
      by (intro exI [of _ False]) (simp add: rpcs_got_pdu_def addJob_def ff_enq_def Let_def fun_upd_idem)
  qed
qed

text \<open>
  If another thread makes the server unreachable while \<^verbatim>\<open>got_pdu\<close> runs, the object of a job that is already queued is
  deleted, and so is the reference it stands for: the worker that takes the job reads freed memory.
\<close>
theorem got_pdu_unreachable_race:
  assumes "length (ff_q (tp_jobq (gs_pool g))) < ff_max (tp_jobq (gs_pool g))"
  shows "\<exists>g'. rpcs_got_pdu True False j k c b g = Ret (True, g') \<and> last (ff_q (tp_jobq (gs_pool g'))) = Some j \<and>
    gs_ref g' = gs_ref g \<and> take_djob j g' = Fault Bad_access"
  using assms by (simp add: rpcs_got_pdu_def addJob_def ff_enq_def take_djob_def Let_def)

definition gsys_new :: "nat \<Rightarrow> gsys" where
  "gsys_new n = \<lparr>gs_pool = ThrPool n False, gs_jobs = (\<lambda>_. None), gs_ref = (\<lambda>_. 1)\<rparr>"

theorem got_pdu_hands_over_witness:
  "\<exists>g'. rpcs_got_pdu True True 4 0 9 [1, 2] (gsys_new 6) = Ret (True, g') \<and> queued (gs_pool g') = [4] \<and> gs_ref g' 9 = 2"
proof -
  have "pool_reach (Suc 5) False (gs_pool (gsys_new 6))" using pool_reach_new [of 6 False] by (simp add: gsys_new_def)
  moreover have "gs_jobs (gsys_new 6) 4 = None" "length (ff_q (tp_jobq (gs_pool (gsys_new 6)))) = 0"
    "queued (gs_pool (gsys_new 6)) = []" "gs_ref (gsys_new 6) 9 = 1"
    by (simp_all add: gsys_new_def ThrPool_def fifo_new_def queued_def List.map_filter_simps)
  ultimately show ?thesis using got_pdu_hands_over [of 5 "gsys_new 6" 4 0 9 "[1, 2]"] by auto
qed

theorem got_pdu_unreachable_race_witness:
  "\<exists>g'. rpcs_got_pdu True False 4 0 9 [1, 2] (gsys_new 6) = Ret (True, g') \<and> take_djob 4 g' = Fault Bad_access"
  using got_pdu_unreachable_race [of "gsys_new 6" 4 0 9 "[1, 2]"]
  by (auto simp: gsys_new_def ThrPool_def fifo_new_def)

end
