(* ===== verification/Handle.thy ===== *)
theory Handle
  imports Prelude "HOL-Library.Multiset"
begin

text \<open>
  The cache of RPC clients by server address (\<^verbatim>\<open>handle.h\<close>, \<^verbatim>\<open>handle.cc\<close>), through which the lock server reaches its
  clients. \<^verbatim>\<open>hinfo\<close> and \<^verbatim>\<open>rpcc\<close> objects are allocated and freed by hand, so the model has an explicit heap: an
  access to an object that was freed is \<open>Bad_access\<close>.
\<close>

section \<open>State\<close>

record hinfo =
  hi_cl :: "nat option"
  hi_refcnt :: int
  hi_del :: bool
  hi_m :: string

text \<open>
  \<open>hm_heap\<close> has the \<^verbatim>\<open>hinfo\<close> objects by address, \<open>hm_rpcc\<close> the addresses of the \<^verbatim>\<open>rpcc\<close> objects that exist.
\<close>

record handle_mgr =
  hm_hmap :: "(string, nat) smap"
  hm_heap :: "nat \<rightharpoonup> hinfo"
  hm_rpcc :: "nat set"

definition handle_mgr_new :: handle_mgr where
  "handle_mgr_new = \<lparr>hm_hmap = [], hm_heap = (\<lambda>_. None), hm_rpcc = {}\<rparr>"

definition with_hinfo :: "nat \<Rightarrow> handle_mgr \<Rightarrow> (hinfo \<Rightarrow> 'a res) \<Rightarrow> 'a res" where
  "with_hinfo h g f = (case hm_heap g h of None \<Rightarrow> Fault Bad_access | Some i \<Rightarrow> f i)"

definition set_hinfo :: "nat \<Rightarrow> hinfo \<Rightarrow> handle_mgr \<Rightarrow> handle_mgr" where
  "set_hinfo h i g = g\<lparr>hm_heap := (hm_heap g)(h \<mapsto> i)\<rparr>"

section \<open>Operations\<close>

text \<open>\<open>a\<close> is the address of the object allocated for a server seen for the first time.\<close>

definition get_handle :: "string \<Rightarrow> nat \<Rightarrow> handle_mgr \<Rightarrow> (nat option \<times> handle_mgr) res" where
  "get_handle m a g =
     (case mfind (hm_hmap g) m of
        None \<Rightarrow>
          Ret (Some a, (set_hinfo a \<lparr>hi_cl = None, hi_refcnt = 1, hi_del = False, hi_m = m\<rparr> g)\<lparr>hm_hmap := mput m a (hm_hmap g)\<rparr>)
      | Some h \<Rightarrow>
          with_hinfo h g (\<lambda>i.
            if \<not> hi_del i then Ret (Some h, set_hinfo h (i\<lparr>hi_refcnt := hi_refcnt i + 1\<rparr>) g)
            else Ret (None, g)))"

text \<open>
  \<open>h\<close> is the pointer in the handle, \<open>c\<close> the address of a new \<^verbatim>\<open>rpcc\<close> object, \<open>ret\<close> what its \<^verbatim>\<open>bind\<close> returns.
\<close>

definition safebind :: "nat option \<Rightarrow> nat \<Rightarrow> int \<Rightarrow> handle_mgr \<Rightarrow> (nat option \<times> handle_mgr) res" where
  "safebind hp c ret g =
     (case hp of
        None \<Rightarrow> Ret (None, g)
      | Some h \<Rightarrow>
          with_hinfo h g (\<lambda>i.
            if hi_del i then Ret (None, g)
            else if hi_cl i \<noteq> None then Ret (hi_cl i, g)
            else if ret < 0 then Ret (None, set_hinfo h (i\<lparr>hi_del := True\<rparr>) g)
            else Ret (Some c, (set_hinfo h (i\<lparr>hi_cl := Some c\<rparr>) g)\<lparr>hm_rpcc := insert c (hm_rpcc g)\<rparr>)))"

definition delete_handle_wo :: "string \<Rightarrow> handle_mgr \<Rightarrow> handle_mgr res" where
  "delete_handle_wo m g =
     (case mfind (hm_hmap g) m of
        None \<Rightarrow> Ret g
      | Some h \<Rightarrow>
          with_hinfo h g (\<lambda>i.
            if hi_refcnt i = 0
            then bind_res
              (case hi_cl i of
                 None \<Rightarrow> Ret g
               | Some c \<Rightarrow> if c \<in> hm_rpcc g then Ret (g\<lparr>hm_rpcc := hm_rpcc g - {c}\<rparr>) else Fault Bad_access)
              (\<lambda>g. Ret (g\<lparr>hm_hmap := merase m (hm_hmap g), hm_heap := (hm_heap g)(h := None)\<rparr>))
            else Ret (set_hinfo h (i\<lparr>hi_del := True\<rparr>) g)))"

definition delete_handle :: "string \<Rightarrow> handle_mgr \<Rightarrow> handle_mgr res" where
  "delete_handle m g = delete_handle_wo m g"

definition done_handle :: "nat \<Rightarrow> handle_mgr \<Rightarrow> handle_mgr res" where
  "done_handle h g =
     with_hinfo h g (\<lambda>i.
       let i = i\<lparr>hi_refcnt := hi_refcnt i - 1\<rparr>;
           g = set_hinfo h i g
       in if hi_refcnt i = 0 \<and> hi_del i then delete_handle_wo (hi_m i) g else Ret g)"

text \<open>The constructor and the destructor of \<^verbatim>\<open>handle\<close>; the value is the pointer the object holds.\<close>

definition handle_new :: "string \<Rightarrow> nat \<Rightarrow> handle_mgr \<Rightarrow> (nat option \<times> handle_mgr) res" where
  "handle_new m a g = get_handle m a g"

definition handle_end :: "nat option \<Rightarrow> handle_mgr \<Rightarrow> handle_mgr res" where
  "handle_end hp g = (case hp of None \<Rightarrow> Ret g | Some h \<Rightarrow> done_handle h g)"

section \<open>A program that uses handles\<close>

text \<open>
  \<open>hs_refs\<close> are the non-null pointers of the \<^verbatim>\<open>handle\<close> objects that exist. A step is \<open>None\<close> when the program cannot take
  it: it uses only handles it has, and the allocator returns addresses that are not in use.
\<close>

record hsys =
  hs_mgr :: handle_mgr
  hs_refs :: "nat multiset"

datatype hop = NewHandle string nat | Safebind nat nat int | EndHandle nat | DeleteHandle string

fun hdo :: "hop \<Rightarrow> hsys \<Rightarrow> hsys res option" where
  "hdo (NewHandle m a) s =
     (if hm_heap (hs_mgr s) a = None
      then Some (bind_res (handle_new m a (hs_mgr s)) (\<lambda>(hp, g).
        Ret \<lparr>hs_mgr = g, hs_refs = (case hp of None \<Rightarrow> hs_refs s | Some h \<Rightarrow> add_mset h (hs_refs s))\<rparr>))
      else None)"
| "hdo (Safebind h c ret) s =
     (if h \<in># hs_refs s \<and> c \<notin> hm_rpcc (hs_mgr s)
      then Some (bind_res (safebind (Some h) c ret (hs_mgr s)) (\<lambda>(_, g). Ret (s\<lparr>hs_mgr := g\<rparr>)))
      else None)"
| "hdo (EndHandle h) s =
     (if h \<in># hs_refs s
      then Some (bind_res (handle_end (Some h) (hs_mgr s)) (\<lambda>g. Ret \<lparr>hs_mgr = g, hs_refs = hs_refs s - {#h#}\<rparr>))
      else None)"
| "hdo (DeleteHandle m) s =
     Some (bind_res (delete_handle m (hs_mgr s)) (\<lambda>g. Ret (s\<lparr>hs_mgr := g\<rparr>)))"

definition hsys_new :: hsys where
  "hsys_new = \<lparr>hs_mgr = handle_mgr_new, hs_refs = {#}\<rparr>"

inductive hreach :: "hsys \<Rightarrow> bool" where
  hreach_new: "hreach hsys_new"
| hreach_do: "hreach s \<Longrightarrow> hdo x s = Some (Ret s') \<Longrightarrow> hreach s'"

text \<open>
  The table and the heap name each other; a reference count is the number of handles that point to the object; the
  \<^verbatim>\<open>rpcc\<close> objects are those the table refers to, each once.
\<close>

definition table_ok :: "(nat \<Rightarrow> nat) \<Rightarrow> (string, nat) smap \<Rightarrow> (nat \<rightharpoonup> hinfo) \<Rightarrow> bool" where
  "table_ok refs t heap \<longleftrightarrow>
     mwf t \<and>
     (\<forall>m h. mfind t m = Some h \<longrightarrow> (\<exists>i. heap h = Some i \<and> hi_m i = m)) \<and>
     (\<forall>h i. heap h = Some i \<longrightarrow> mfind t (hi_m i) = Some h \<and> hi_refcnt i = int (refs h)) \<and>
     (\<forall>h. refs h > 0 \<longrightarrow> heap h \<noteq> None)"

definition rpcc_ok :: "nat set \<Rightarrow> (nat \<rightharpoonup> hinfo) \<Rightarrow> bool" where
  "rpcc_ok cs heap \<longleftrightarrow>
     (\<forall>c. c \<in> cs \<longleftrightarrow> (\<exists>h i. heap h = Some i \<and> hi_cl i = Some c)) \<and>
     (\<forall>h i h' i' c. heap h = Some i \<longrightarrow> heap h' = Some i' \<longrightarrow> hi_cl i = Some c \<longrightarrow> hi_cl i' = Some c \<longrightarrow> h = h')"

definition mgr_ok :: "(nat \<Rightarrow> nat) \<Rightarrow> handle_mgr \<Rightarrow> bool" where
  "mgr_ok refs g \<longleftrightarrow> table_ok refs (hm_hmap g) (hm_heap g) \<and> rpcc_ok (hm_rpcc g) (hm_heap g)"

lemma mgr_ok_new: "mgr_ok (\<lambda>_. 0) handle_mgr_new"
  by (auto simp: mgr_ok_def table_ok_def rpcc_ok_def handle_mgr_new_def)

lemma table_okD:
  assumes "table_ok refs t heap"
  shows "mwf t"
    and "mfind t m = Some h \<Longrightarrow> \<exists>i. heap h = Some i \<and> hi_m i = m"
    and "heap h = Some i \<Longrightarrow> mfind t (hi_m i) = Some h"
    and "heap h = Some i \<Longrightarrow> hi_refcnt i = int (refs h)"
    and "refs h > 0 \<Longrightarrow> \<exists>i. heap h = Some i"
  using assms unfolding table_ok_def by blast+

lemma table_ok_set:
  assumes "table_ok refs t heap" and "heap h = Some i" and "hi_m i' = hi_m i" and "hi_refcnt i' = int n"
  shows "table_ok (refs(h := n)) t (heap(h \<mapsto> i'))"
  using table_okD [OF assms(1)] assms(2-4) unfolding table_ok_def
  by (auto split: if_splits) (metis option.inject)

lemma table_ok_alloc:
  assumes "table_ok refs t heap" and "mfind t (hi_m i) = None" and "heap a = None" and "hi_refcnt i = 1"
  shows "table_ok (refs(a := 1)) (mput (hi_m i) a t) (heap(a \<mapsto> i))"
  using table_okD [OF assms(1)] assms(2-4) unfolding table_ok_def
  by (auto simp: map_simps split: if_splits) (metis option.distinct(1))+

lemma table_ok_free:
  assumes "table_ok refs t heap" and "heap h = Some i" and "refs h = 0"
  shows "table_ok refs (merase (hi_m i) t) (heap(h := None))"
  using table_okD [OF assms(1)] assms(2-3) unfolding table_ok_def
  by (auto simp: map_simps split: if_splits) (metis option.inject)+

lemma rpcc_ok_set:
  assumes "rpcc_ok cs heap" and "heap h = None \<and> hi_cl i' = None \<or> (\<exists>i. heap h = Some i \<and> hi_cl i' = hi_cl i)"
  shows "rpcc_ok cs (heap(h \<mapsto> i'))"
  using assms unfolding rpcc_ok_def by (auto split: if_splits) (metis option.distinct(1) option.inject)+

lemma rpcc_ok_bind:
  assumes "rpcc_ok cs heap" and "heap h = Some i" and "hi_cl i = None" and "c \<notin> cs"
  shows "rpcc_ok (insert c cs) (heap(h \<mapsto> i\<lparr>hi_cl := Some c\<rparr>))"
  using assms unfolding rpcc_ok_def by (auto split: if_splits) (metis option.distinct(1) option.inject)+

lemma rpcc_ok_free:
  assumes "rpcc_ok cs heap" and "heap h = Some i"
  shows "rpcc_ok (case hi_cl i of None \<Rightarrow> cs | Some c \<Rightarrow> cs - {c}) (heap(h := None))"
  using assms unfolding rpcc_ok_def by (auto split: if_splits option.splits) (metis option.distinct(1) option.inject)+

section \<open>Every operation keeps the invariant and never uses a freed object\<close>

lemma get_handle_ok:
  assumes "mgr_ok refs g" and "hm_heap g a = None"
  shows "\<exists>hp g'. get_handle m a g = Ret (hp, g') \<and>
    mgr_ok (case hp of None \<Rightarrow> refs | Some h \<Rightarrow> refs(h := refs h + 1)) g'"
proof (cases "mfind (hm_hmap g) m")
  case None
  have "refs a = 0" using assms table_okD(5) [of refs "hm_hmap g" "hm_heap g" a] by (auto simp: mgr_ok_def)
  then show ?thesis
    using assms None table_ok_alloc [of refs "hm_hmap g" "hm_heap g" "\<lparr>hi_cl = None, hi_refcnt = 1, hi_del = False, hi_m = m\<rparr>" a]
    by (auto simp: get_handle_def mgr_ok_def set_hinfo_def intro: rpcc_ok_set)
next
  case (Some h)
  then obtain i where i: "hm_heap g h = Some i" using assms(1) table_okD(2) by (metis mgr_ok_def)
  moreover have "hi_refcnt i = int (refs h)" using assms(1) i table_okD(4) by (metis mgr_ok_def)
  ultimately show ?thesis
    using assms Some table_ok_set [of refs "hm_hmap g" "hm_heap g" h i "i\<lparr>hi_refcnt := hi_refcnt i + 1\<rparr>" "refs h + 1"]
    by (auto simp: get_handle_def with_hinfo_def mgr_ok_def set_hinfo_def intro: rpcc_ok_set)
qed


lemma mgr_ok_find:
  assumes "mgr_ok refs g" and "mfind (hm_hmap g) m = Some h"
  obtains i where "hm_heap g h = Some i" and "hi_m i = m" and "hi_refcnt i = int (refs h)"
  using assms table_okD(2,4) by (metis mgr_ok_def)

lemma mgr_ok_held:
  assumes "mgr_ok refs g" and "refs h > 0"
  obtains i where "hm_heap g h = Some i" and "hi_refcnt i = int (refs h)" and "mfind (hm_hmap g) (hi_m i) = Some h"
  using assms table_okD(3,4,5) by (metis mgr_ok_def)

lemma set_del_ok:
  assumes "mgr_ok refs g" and "hm_heap g h = Some i"
  shows "mgr_ok refs (set_hinfo h (i\<lparr>hi_del := True\<rparr>) g)"
  using assms table_ok_set [of refs "hm_hmap g" "hm_heap g" h i "i\<lparr>hi_del := True\<rparr>" "refs h"]
    table_okD(4) [of refs "hm_hmap g" "hm_heap g" h i]
  by (auto simp: mgr_ok_def set_hinfo_def intro: rpcc_ok_set)

lemma safebind_ok:
  assumes ok: "mgr_ok refs g" and h: "refs h > 0" and c: "c \<notin> hm_rpcc g"
  shows "\<exists>r g'. safebind (Some h) c ret g = Ret (r, g') \<and> mgr_ok refs g'"
proof -
  obtain i where i: "hm_heap g h = Some i" "hi_refcnt i = int (refs h)" by (rule mgr_ok_held [OF ok h])
  have "hi_cl i = None \<Longrightarrow> mgr_ok refs ((set_hinfo h (i\<lparr>hi_cl := Some c\<rparr>) g)\<lparr>hm_rpcc := insert c (hm_rpcc g)\<rparr>)"
    using ok i c table_ok_set [of refs "hm_hmap g" "hm_heap g" h i "i\<lparr>hi_cl := Some c\<rparr>" "refs h"]
    by (auto simp: mgr_ok_def set_hinfo_def intro: rpcc_ok_bind)
  then show ?thesis using ok i set_del_ok [OF ok i(1)] by (auto simp: safebind_def with_hinfo_def)
qed

lemma delete_handle_ok:
  assumes ok: "mgr_ok refs g"
  shows "\<exists>g'. delete_handle_wo m g = Ret g' \<and> mgr_ok refs g'"
proof (cases "mfind (hm_hmap g) m")
  case None
  then show ?thesis using ok by (simp add: delete_handle_wo_def)
next
  case (Some h)
  then obtain i where i: "hm_heap g h = Some i" "hi_m i = m" "hi_refcnt i = int (refs h)"
    by (rule mgr_ok_find [OF ok])
  show ?thesis
  proof (cases "refs h = 0")
    case True
    have "hi_cl i = Some c \<Longrightarrow> c \<in> hm_rpcc g" for c using ok i by (auto simp: mgr_ok_def rpcc_ok_def)
    moreover have "table_ok refs (merase m (hm_hmap g)) ((hm_heap g)(h := None))"
      "rpcc_ok (case hi_cl i of None \<Rightarrow> hm_rpcc g | Some c \<Rightarrow> hm_rpcc g - {c}) ((hm_heap g)(h := None))"
      using ok True i(2) table_ok_free [of refs "hm_hmap g" "hm_heap g" h i] rpcc_ok_free [of "hm_rpcc g" "hm_heap g" h i] i(1)
      by (simp_all add: mgr_ok_def)
    ultimately show ?thesis using Some i True
      by (cases "hi_cl i") (auto simp: delete_handle_wo_def with_hinfo_def mgr_ok_def)
  next
    case False
    then show ?thesis using Some i set_del_ok [OF ok i(1)] by (simp add: delete_handle_wo_def with_hinfo_def)
  qed
qed

lemma done_handle_ok:
  assumes ok: "mgr_ok refs g" and h: "refs h > 0"
  shows "\<exists>g'. done_handle h g = Ret g' \<and> mgr_ok (refs(h := refs h - 1)) g'"
proof -
  obtain i where i: "hm_heap g h = Some i" "hi_refcnt i = int (refs h)" by (rule mgr_ok_held [OF ok h])
  define i' where "i' = i\<lparr>hi_refcnt := hi_refcnt i - 1\<rparr>"
  have "hi_refcnt i' = int (refs h - 1)" using i(2) h by (simp add: i'_def)
  moreover have "hi_m i' = hi_m i" "hi_cl i' = hi_cl i" by (simp_all add: i'_def)
  ultimately have "mgr_ok (refs(h := refs h - 1)) (set_hinfo h i' g)"
    using ok i table_ok_set [of refs "hm_hmap g" "hm_heap g" h i i' "refs h - 1"] rpcc_ok_set [of "hm_rpcc g" "hm_heap g" h i']
    by (simp add: mgr_ok_def set_hinfo_def)
  then show ?thesis using i delete_handle_ok [of _ "set_hinfo h i' g" "hi_m i'"]
    by (auto simp: done_handle_def with_hinfo_def Let_def i'_def)
qed

lemma hdo_ok:
  assumes ok: "mgr_ok (count (hs_refs s)) (hs_mgr s)" and x: "hdo x s = Some r"
  shows "\<exists>s'. r = Ret s' \<and> mgr_ok (count (hs_refs s')) (hs_mgr s')"
proof (cases x)
  case (NewHandle m a)
  moreover have "count (add_mset h (hs_refs s)) = (count (hs_refs s))(h := count (hs_refs s) h + 1)" for h by auto
  ultimately show ?thesis using x get_handle_ok [OF ok, of a m]
    by (auto simp: handle_new_def split: if_splits option.splits)
next
  case (Safebind h c ret)
  then show ?thesis using x safebind_ok [OF ok, of h c ret] by (auto split: if_splits)
next
  case (EndHandle h)
  moreover have "count (hs_refs s - {#h#}) = (count (hs_refs s))(h := count (hs_refs s) h - 1)" by auto
  ultimately show ?thesis using x done_handle_ok [OF ok, of h] by (auto simp: handle_end_def split: if_splits)
next
  case (DeleteHandle m)
  then show ?thesis using x delete_handle_ok [OF ok, of m] by (auto simp: delete_handle_def)
qed

lemma hreach_ok: "hreach s \<Longrightarrow> mgr_ok (count (hs_refs s)) (hs_mgr s)"
  by (induction rule: hreach.induct) (auto simp: hsys_new_def mgr_ok_new dest: hdo_ok)

section \<open>Properties\<close>

text \<open>
  C31. Whatever handles a program makes, binds, destroys and deletes, no operation ever touches a freed object: each
  returns.
\<close>
theorem handles_never_dangle:
  assumes "hreach s" and "hdo x s = Some r"
  shows "\<exists>s'. r = Ret s'"
  using hdo_ok [OF hreach_ok [OF assms(1)] assms(2)] by blast

text \<open>
  An entry of the cache exists exactly as long as it is in the table or used; its reference count is the number of handles
  that point to it; the \<^verbatim>\<open>rpcc\<close> objects that exist are exactly those of the entries: none leaks and none
  is freed twice.
\<close>
theorem handle_refcounts_exact:
  assumes "hreach s"
  shows "\<forall>h i. hm_heap (hs_mgr s) h = Some i \<longrightarrow>
           mfind (hm_hmap (hs_mgr s)) (hi_m i) = Some h \<and> hi_refcnt i = int (count (hs_refs s) h)"
    and "\<forall>h \<in># hs_refs s. hm_heap (hs_mgr s) h \<noteq> None"
    and "hm_rpcc (hs_mgr s) = {c. \<exists>h i. hm_heap (hs_mgr s) h = Some i \<and> hi_cl i = Some c}"
  using hreach_ok [OF assms] by (auto simp: mgr_ok_def table_ok_def rpcc_ok_def)

text \<open>
  A server that could not be bound is not tried again while a handle for it is left: the entry is marked, every
  \<^verbatim>\<open>safebind\<close> on it gives null whatever \<^verbatim>\<open>bind\<close> would return now, and a new handle for the name is null.
  When the last handle goes the entry goes with it, so that the next handle for the name starts afresh.
\<close>
theorem failed_bind_remembered:
  assumes "mgr_ok refs g" and "refs h > 0" and "hm_heap g h = Some i" and "\<not> hi_del i" and "hi_cl i = None" and "ret < 0"
  shows "\<exists>g'. safebind (Some h) c ret g = Ret (None, g') \<and>
    (\<forall>c' ret'. safebind (Some h) c' ret' g' = Ret (None, g')) \<and>
    (\<forall>a. get_handle (hi_m i) a g' = Ret (None, g')) \<and>
    (refs h = 1 \<longrightarrow> (\<exists>g''. done_handle h g' = Ret g'' \<and> mfind (hm_hmap g'') (hi_m i) = None \<and> hm_heap g'' h = None))"
proof -
  have t: "mfind (hm_hmap g) (hi_m i) = Some h" "hi_refcnt i = int (refs h)" "mwf (hm_hmap g)"
    using assms(1,3) table_okD(1,3,4) by (metis mgr_ok_def)+
  show ?thesis using assms(3-6) t
    by (auto simp: safebind_def get_handle_def done_handle_def delete_handle_wo_def with_hinfo_def set_hinfo_def Let_def
          map_simps)
qed

text \<open>
  The comment on \<^verbatim>\<open>safebind\<close> promises that once it has succeeded all later calls return the client. After
  \<^verbatim>\<open>delete_handle\<close> on the name they return null, though the handle and its client still exist.
\<close>
theorem deleted_handle_unbinds:
  assumes "mgr_ok refs g" and "refs h > 0" and "hm_heap g h = Some i" and "hi_cl i = Some c0"
  shows "\<exists>g'. delete_handle (hi_m i) g = Ret g' \<and> c0 \<in> hm_rpcc g' \<and> safebind (Some h) c ret g' = Ret (None, g')"
proof -
  have t: "mfind (hm_hmap g) (hi_m i) = Some h" "hi_refcnt i = int (refs h)" "c0 \<in> hm_rpcc g"
    using assms(1,3,4) table_okD(3,4) by (metis mgr_ok_def, metis mgr_ok_def, auto simp: mgr_ok_def rpcc_ok_def)
  then show ?thesis using assms(2,3)
    by (auto simp: delete_handle_def delete_handle_wo_def safebind_def with_hinfo_def set_hinfo_def)
qed


text \<open>One handle, not yet bound, then bound.\<close>

definition handle_one :: hsys where
  "handle_one = \<lparr>hs_mgr = \<lparr>hm_hmap = [(''h:1'', 3)], hm_heap = [3 \<mapsto> \<lparr>hi_cl = None, hi_refcnt = 1, hi_del = False, hi_m = ''h:1''\<rparr>],
     hm_rpcc = {}\<rparr>, hs_refs = {#3#}\<rparr>"

definition handle_bound :: hsys where
  "handle_bound = \<lparr>hs_mgr = \<lparr>hm_hmap = [(''h:1'', 3)], hm_heap = [3 \<mapsto> \<lparr>hi_cl = Some 5, hi_refcnt = 1, hi_del = False, hi_m = ''h:1''\<rparr>],
     hm_rpcc = {5}\<rparr>, hs_refs = {#3#}\<rparr>"

lemma handle_one_reach: "hreach handle_one"
proof (rule hreach_do [OF hreach_new])
  show "hdo (NewHandle ''h:1'' 3) hsys_new = Some (Ret handle_one)"
    by (simp add: hsys_new_def handle_mgr_new_def handle_one_def handle_new_def get_handle_def set_hinfo_def)
qed

lemma handle_bound_reach: "hreach handle_bound"
proof (rule hreach_do [OF handle_one_reach])
  show "hdo (Safebind 3 5 0) handle_one = Some (Ret handle_bound)"
    by (simp add: handle_one_def handle_bound_def safebind_def with_hinfo_def set_hinfo_def)
qed

theorem handles_never_dangle_witness: "\<exists>s'. hdo (EndHandle 3) handle_bound = Some (Ret s')"
proof -
  obtain r where "hdo (EndHandle 3) handle_bound = Some r" by (simp add: handle_bound_def)
  then show ?thesis using handles_never_dangle [OF handle_bound_reach] by blast
qed

theorem handle_refcounts_exact_witness:
  "hm_heap (hs_mgr handle_bound) 3 \<noteq> None \<and> hm_rpcc (hs_mgr handle_bound) = {5} \<and>
   {c. \<exists>h i. hm_heap (hs_mgr handle_bound) h = Some i \<and> hi_cl i = Some c} = {5}"
  using handle_refcounts_exact(2,3) [OF handle_bound_reach] by (simp add: handle_bound_def)

theorem failed_bind_remembered_witness:
  "\<exists>g'. safebind (Some 3) 6 (-1) (hs_mgr handle_one) = Ret (None, g') \<and> get_handle ''h:1'' 4 g' = Ret (None, g')"
  using failed_bind_remembered [OF hreach_ok [OF handle_one_reach], of 3 _ "-1" 6]
  by (auto simp: handle_one_def)

theorem deleted_handle_unbinds_witness:
  "\<exists>g'. delete_handle ''h:1'' (hs_mgr handle_bound) = Ret g' \<and> 5 \<in> hm_rpcc g' \<and> safebind (Some 3) 6 0 g' = Ret (None, g')"
  using deleted_handle_unbinds [OF hreach_ok [OF handle_bound_reach], of 3 _ 5 6 0]
  by (auto simp: handle_bound_def)

end
