(* ===== verification/Connection.thy ===== *)
theory Connection
  imports Marshall "HOL-Library.Sublist"
begin

text \<open>
  The transport of PDUs over a TCP connection (\<^verbatim>\<open>rpc/connection.h\<close>, \<^verbatim>\<open>rpc/connection.cc\<close>): each PDU starts with its
  length in network byte order; \<^verbatim>\<open>send\<close>, \<^verbatim>\<open>write_cb\<close> and \<^verbatim>\<open>writepdu\<close> write it in as many pieces as the socket takes,
  \<^verbatim>\<open>read_cb\<close> and \<^verbatim>\<open>readpdu\<close> put the pieces together again. What a system call returns is an argument.

  A method that gives up the mutex is split there: \<open>send_begin\<close> runs until the thread sleeps on
  \<^verbatim>\<open>send_complete_\<close> or has the result, \<open>send_finish\<close> is the rest. The last part connects a sender and a
  receiver by a byte stream.
\<close>

section \<open>State\<close>

definition MAX_PDU :: int where "MAX_PDU = 10485760"

text \<open>\<open>cb_buf\<close> is the memory that \<^verbatim>\<open>buf\<close> points to, \<open>None\<close> for \<^verbatim>\<open>NULL\<close>.\<close>

record charbuf =
  cb_buf :: "byte list option"
  cb_sz :: int
  cb_solong :: int

definition charbuf_new :: charbuf where
  "charbuf_new = \<lparr>cb_buf = None, cb_sz = 0, cb_solong = 0\<rparr>"

text \<open>
  \<open>cn_again\<close> tells whether \<^verbatim>\<open>errno\<close> is \<^verbatim>\<open>EAGAIN\<close>, \<open>cn_rd\<close> and \<open>cn_wr\<close> which callbacks are registered with the poll
  manager, \<open>cn_junk\<close> is what fresh memory contains.
\<close>

record connection =
  cn_dead :: bool
  cn_wpdu :: charbuf
  cn_rpdu :: charbuf
  cn_again :: bool
  cn_rd :: bool
  cn_wr :: bool
  cn_refno :: int
  cn_junk :: byte

definition connection_new :: "byte \<Rightarrow> connection" where
  "connection_new g = \<lparr>cn_dead = False, cn_wpdu = charbuf_new, cn_rpdu = charbuf_new, cn_again = False, cn_rd = True,
     cn_wr = False, cn_refno = 1, cn_junk = g\<rparr>"

text \<open>Results of \<^verbatim>\<open>write\<close> and \<^verbatim>\<open>read\<close>; the flag of an error is whether it is \<^verbatim>\<open>EAGAIN\<close>.\<close>

datatype wr_res = WrOk nat | WrErr bool

datatype rd_res = RdGot "byte list" | RdZero | RdErr bool

section \<open>Writing\<close>

definition writepdu :: "wr_res \<Rightarrow> connection \<Rightarrow> (bool \<times> byte list \<times> connection) res" where
  "writepdu out c =
     (let p = cn_wpdu c in
      verify (cb_solong p \<ge> 0)
        (if cb_solong p = cb_sz p then Ret (True, [], c)
         else (case cb_buf p of
             None \<Rightarrow> Fault Bad_access
           | Some buf \<Rightarrow>
               if length buf < 4 \<or> int (length buf) < cb_sz p \<or> cb_sz p < cb_solong p then Fault Bad_access
               else (let buf = (if cb_solong p = 0 then be32 (of_int (cb_sz p)) @ drop 4 buf else buf);
                         p = p\<lparr>cb_buf := Some buf\<rparr>
                     in case out of
                          WrErr again \<Rightarrow>
                            Ret (again, [], c\<lparr>cn_wpdu := (if again then p else p\<lparr>cb_solong := -1, cb_sz := 0\<rparr>), cn_again := again\<rparr>)
                        | WrOk n \<Rightarrow>
                            Ret (True, take n (drop (nat (cb_solong p)) buf),
                                 c\<lparr>cn_wpdu := p\<lparr>cb_solong := cb_solong p + int n\<rparr>\<rparr>)))))"

text \<open>
  \<^verbatim>\<open>send\<close> up to where the thread sleeps or has its result; the boolean says that it sleeps. A thread that finds
  another PDU on its way sleeps on \<^verbatim>\<open>send_wait_\<close> (\<open>Stuck\<close>). The random shutdown of the lossy test shows in
  the result of the write.
\<close>

definition send_begin :: "byte list \<Rightarrow> int \<Rightarrow> wr_res \<Rightarrow> connection \<Rightarrow> (bool \<times> byte list \<times> connection) res" where
  "send_begin b sz out c =
     (if \<not> cn_dead c \<and> cb_buf (cn_wpdu c) \<noteq> None then Stuck
      else if cn_dead c then Ret (False, [], c)
      else bind_res (writepdu out (c\<lparr>cn_wpdu := \<lparr>cb_buf = Some b, cb_sz = sz, cb_solong = 0\<rparr>\<rparr>)) (\<lambda>(succ, bs, c).
        if \<not> succ then Ret (False, bs, c\<lparr>cn_dead := True, cn_rd := False, cn_wr := False\<rparr>)
        else if cb_solong (cn_wpdu c) = cb_sz (cn_wpdu c) then Ret (False, bs, c)
        else Ret (True, bs, c\<lparr>cn_wr := True\<rparr>)))"

text \<open>The condition of the loop on \<^verbatim>\<open>send_complete_\<close>, and what follows it.\<close>

definition send_waits :: "connection \<Rightarrow> bool" where
  "send_waits c \<longleftrightarrow> \<not> cn_dead c \<and> cb_solong (cn_wpdu c) \<ge> 0 \<and> cb_solong (cn_wpdu c) < cb_sz (cn_wpdu c)"

definition send_finish :: "connection \<Rightarrow> bool \<times> connection" where
  "send_finish c =
     (\<not> cn_dead c \<and> cb_solong (cn_wpdu c) = cb_sz (cn_wpdu c), c\<lparr>cn_wpdu := charbuf_new\<rparr>)"

definition write_cb :: "wr_res \<Rightarrow> connection \<Rightarrow> (byte list \<times> connection) res" where
  "write_cb out c =
     verify (\<not> cn_dead c)
       (if cb_sz (cn_wpdu c) = 0 then Ret ([], c\<lparr>cn_wr := False\<rparr>)
        else bind_res (writepdu out c) (\<lambda>(succ, bs, c).
          if \<not> succ then Ret (bs, c\<lparr>cn_rd := False, cn_wr := False, cn_dead := True\<rparr>)
          else verify (cb_solong (cn_wpdu c) \<ge> 0) (Ret (bs, c))))"

section \<open>Reading\<close>

definition ntohl :: "byte list \<Rightarrow> u32" where
  "ntohl bs = push_bit 24 (ucast (bs ! 0)) OR push_bit 16 (ucast (bs ! 1)) OR push_bit 8 (ucast (bs ! 2)) OR ucast (bs ! 3)"

text \<open>
  The first part of \<^verbatim>\<open>readpdu\<close>, the header: \<open>Some b\<close> is a return. \<^verbatim>\<open>malloc(sz+sizeof(sz))\<close> with a negative \<open>sz\<close> is
  either too small for the four bytes copied into it or far too large.
\<close>

definition read_header :: "rd_res \<Rightarrow> connection \<Rightarrow> (bool option \<times> connection) res" where
  "read_header h c =
     (if cb_sz (cn_rpdu c) \<noteq> 0 then Ret (None, c)
      else (case h of
          RdZero \<Rightarrow> Ret (Some False, c)
        | RdErr again \<Rightarrow> verify (\<not> again) (Ret (Some False, c\<lparr>cn_again := again\<rparr>))
        | RdGot bs \<Rightarrow>
            if length bs \<noteq> 4 then Ret (Some False, c)
            else (let sz = sint (ntohl bs) in
              if sz > MAX_PDU then Ret (Some False, c)
              else verify (cb_buf (cn_rpdu c) = None)
                (if sz < -4 then Fault Verify_failed
                 else if sz < 0 then Fault Bad_access
                 else Ret (None, c\<lparr>cn_rpdu := \<lparr>cb_buf = Some (bs @ replicate (nat sz) (cn_junk c)), cb_sz = sz, cb_solong = 4\<rparr>\<rparr>)))))"

text \<open>
  The rest of it. The count \<^verbatim>\<open>sz - solong\<close> is converted to \<^verbatim>\<open>size_t\<close>: the system call stores whatever it returns,
  and \<open>Bad_access\<close> is a store past the allocated memory. \<^verbatim>\<open>errno\<close> is looked at also when the call returned 0
  and did not set it.
\<close>

definition read_body :: "rd_res \<Rightarrow> connection \<Rightarrow> (bool \<times> connection) res" where
  "read_body b c =
     (let p = cn_rpdu c in
      case b of
        RdGot bs \<Rightarrow>
          (case cb_buf p of
             None \<Rightarrow> Fault Bad_access
           | Some m \<Rightarrow>
               let k = nat (cb_solong p) in
               if k + length bs > length m then Fault Bad_access
               else Ret (True, c\<lparr>cn_rpdu := p\<lparr>cb_buf := Some (take k m @ bs @ drop (k + length bs) m),
                                              cb_solong := cb_solong p + int (length bs)\<rparr>\<rparr>))
      | _ \<Rightarrow>
          let c = (case b of RdErr again \<Rightarrow> c\<lparr>cn_again := again\<rparr> | _ \<Rightarrow> c)
          in if cn_again c then Ret (True, c)
             else Ret (False, c\<lparr>cn_rpdu := charbuf_new\<rparr>))"

definition readpdu :: "rd_res \<Rightarrow> rd_res \<Rightarrow> connection \<Rightarrow> (bool \<times> connection) res" where
  "readpdu h b c =
     bind_res (read_header h c) (\<lambda>(r, c). case r of Some x \<Rightarrow> Ret (x, c) | None \<Rightarrow> read_body b c)"

text \<open>
  \<^verbatim>\<open>read_cb\<close>, with the PDU handed to \<^verbatim>\<open>got_pdu\<close>, if any; \<open>taken\<close> is the answer of \<^verbatim>\<open>got_pdu\<close>.
\<close>

definition read_cb :: "bool \<Rightarrow> rd_res \<Rightarrow> rd_res \<Rightarrow> connection \<Rightarrow> (byte list option \<times> connection) res" where
  "read_cb taken h b c =
     (if cn_dead c then Ret (None, c)
      else bind_res (if cb_buf (cn_rpdu c) = None \<or> cb_solong (cn_rpdu c) < cb_sz (cn_rpdu c) then readpdu h b c else Ret (True, c))
        (\<lambda>(succ, c).
          let c = (if \<not> succ then c\<lparr>cn_rd := False, cn_wr := False, cn_dead := True\<rparr> else c) in
          (case cb_buf (cn_rpdu c) of
             Some m \<Rightarrow>
               if cb_sz (cn_rpdu c) = cb_solong (cn_rpdu c)
               then Ret (Some (take (nat (cb_sz (cn_rpdu c))) m), if taken then c\<lparr>cn_rpdu := charbuf_new\<rparr> else c)
               else Ret (None, c)
           | None \<Rightarrow> Ret (None, c))))"

section \<open>Life time\<close>

text \<open>\<^verbatim>\<open>closeconn\<close>; the boolean says that \<^verbatim>\<open>block_remove_fd\<close> follows.\<close>

definition closeconn :: "connection \<Rightarrow> bool \<times> connection" where
  "closeconn c = (if \<not> cn_dead c then (True, c\<lparr>cn_dead := True\<rparr>) else (False, c))"

definition cn_incref :: "connection \<Rightarrow> connection" where
  "cn_incref c = c\<lparr>cn_refno := cn_refno c + 1\<rparr>"

text \<open>\<open>None\<close>: the object is deleted, which its destructor allows only when no PDU is being written.\<close>

definition cn_decref :: "connection \<Rightarrow> connection option res" where
  "cn_decref c =
     (let c = c\<lparr>cn_refno := cn_refno c - 1\<rparr> in
      verify (cn_refno c \<ge> 0)
        (if cn_refno c = 0 \<and> cn_dead c
         then verify (cb_buf (cn_wpdu c) = None) (Ret None)
         else Ret (Some c)))"

text \<open>
  The garbage collection of \<^verbatim>\<open>tcpsconn::process_accept\<close>, and the entry of the new connection \<open>ch\<close> under its
  descriptor.
\<close>

fun gc_conns :: "(nat, connection) smap \<Rightarrow> (nat, connection) smap res" where
  "gc_conns [] = Ret []"
| "gc_conns ((fd, c) # m) =
     (if cn_dead c \<and> cn_refno c = 1
      then bind_res (cn_decref c) (\<lambda>_. gc_conns m)
      else bind_res (gc_conns m) (\<lambda>m. Ret ((fd, c) # m)))"

definition process_accept :: "nat \<Rightarrow> connection \<Rightarrow> (nat, connection) smap \<Rightarrow> (nat, connection) smap res" where
  "process_accept fd ch m = bind_res (gc_conns m) (\<lambda>m. Ret (mput fd ch m))"


section \<open>A sender, a byte stream and a receiver\<close>

text \<open>
  \<open>ln_pipe\<close> has the bytes written and not yet read, \<open>ln_wire\<close> all bytes ever written, \<open>ln_sent\<close> the PDUs given to
  \<^verbatim>\<open>send\<close> as they should arrive, \<open>ln_got\<close> those that \<^verbatim>\<open>got_pdu\<close> has taken.
\<close>

record link =
  ln_snd :: connection
  ln_rcv :: connection
  ln_pipe :: "byte list"
  ln_wire :: "byte list"
  ln_sent :: "byte list list"
  ln_got :: "byte list list"

definition frame :: "byte list \<Rightarrow> byte list" where
  "frame b = be32 (of_nat (length b)) @ drop 4 b"

text \<open>
  A \<^verbatim>\<open>read\<close> of at most \<open>n\<close> bytes when the kernel has \<open>p\<close> and gives at most \<open>k\<close>: the result and what is left.
\<close>

definition kread :: "nat \<Rightarrow> nat \<Rightarrow> byte list \<Rightarrow> rd_res \<times> byte list" where
  "kread k n p =
     (if n = 0 then (RdZero, p)
      else if p = [] then (RdErr True, p)
      else (RdGot (take (min k n) p), drop (min k n) p))"

text \<open>The number of bytes the second \<^verbatim>\<open>read\<close> of \<^verbatim>\<open>readpdu\<close> asks for.\<close>

definition body_count :: "rd_res \<Rightarrow> connection \<Rightarrow> nat" where
  "body_count h c =
     (case read_header h c of Ret (None, c') \<Rightarrow> nat (cb_sz (cn_rpdu c') - cb_solong (cn_rpdu c')) | _ \<Rightarrow> 0)"

text \<open>
  A call of \<^verbatim>\<open>read_cb\<close> on a readable socket. The header is asked for when no PDU is under way; the body is asked
  for at once when the header has been read. At least one byte is delivered per call of \<^verbatim>\<open>read\<close>.
\<close>

definition recv_step :: "bool \<Rightarrow> nat \<Rightarrow> nat \<Rightarrow> link \<Rightarrow> link res" where
  "recv_step taken k1 k2 s =
     (let c = ln_rcv s;
          reading = (\<not> cn_dead c \<and> (cb_buf (cn_rpdu c) = None \<or> cb_solong (cn_rpdu c) < cb_sz (cn_rpdu c)));
          (h, p1) = (if reading \<and> cb_sz (cn_rpdu c) = 0 then kread k1 4 (ln_pipe s) else (RdZero, ln_pipe s));
          (b, p2) = (if reading \<and> (\<exists>c'. read_header h c = Ret (None, c')) then kread k2 (body_count h c) p1 else (RdZero, p1))
      in bind_res (read_cb taken h b c) (\<lambda>(pdu, c).
           Ret (s\<lparr>ln_rcv := c, ln_pipe := p2,
                  ln_got := (case pdu of Some f \<Rightarrow> if taken then ln_got s @ [f] else ln_got s | None \<Rightarrow> ln_got s)\<rparr>)))"

definition written :: "byte list \<Rightarrow> connection \<Rightarrow> link \<Rightarrow> link" where
  "written bs c s = s\<lparr>ln_snd := c, ln_pipe := ln_pipe s @ bs, ln_wire := ln_wire s @ bs\<rparr>"

text \<open>What the kernel may answer to a write: an error, or that it took at most what was left.\<close>

definition wr_fits :: "wr_res \<Rightarrow> nat \<Rightarrow> bool" where
  "wr_fits out n \<longleftrightarrow> (case out of WrOk k \<Rightarrow> k \<le> n | WrErr again \<Rightarrow> True)"

text \<open>The callers of \<^verbatim>\<open>send\<close> hand over buffers with an RPC header, so of more than four bytes.\<close>

inductive lstep :: "link \<Rightarrow> link \<Rightarrow> bool" where
  l_send: "4 < length b \<Longrightarrow> int (length b) \<le> MAX_PDU \<Longrightarrow> wr_fits out (length b) \<Longrightarrow> \<not> cn_dead (ln_snd s) \<Longrightarrow>
     send_begin b (int (length b)) out (ln_snd s) = Ret (waits, bs, c) \<Longrightarrow>
     lstep s ((written bs c s)\<lparr>ln_sent := ln_sent s @ [frame b]\<rparr>)"
| l_write: "cn_wr (ln_snd s) \<Longrightarrow> \<not> cn_dead (ln_snd s) \<Longrightarrow>
     wr_fits out (nat (cb_sz (cn_wpdu (ln_snd s)) - cb_solong (cn_wpdu (ln_snd s)))) \<Longrightarrow>
     write_cb out (ln_snd s) = Ret (bs, c) \<Longrightarrow> lstep s (written bs c s)"
| l_finish: "cb_buf (cn_wpdu (ln_snd s)) \<noteq> None \<Longrightarrow> \<not> send_waits (ln_snd s) \<Longrightarrow>
     lstep s (s\<lparr>ln_snd := snd (send_finish (ln_snd s))\<rparr>)"
| l_close_snd: "lstep s (s\<lparr>ln_snd := snd (closeconn (ln_snd s))\<rparr>)"
| l_recv: "0 < k1 \<Longrightarrow> 0 < k2 \<Longrightarrow> ln_pipe s \<noteq> [] \<Longrightarrow> recv_step taken k1 k2 s = Ret s' \<Longrightarrow> lstep s s'"
| l_close_rcv: "lstep s (s\<lparr>ln_rcv := snd (closeconn (ln_rcv s))\<rparr>)"

definition link_new :: "byte \<Rightarrow> byte \<Rightarrow> link" where
  "link_new g h = \<lparr>ln_snd = connection_new g, ln_rcv = connection_new h, ln_pipe = [], ln_wire = [], ln_sent = [], ln_got = []\<rparr>"

inductive lreach :: "link \<Rightarrow> bool" where
  lreach_new: "lreach (link_new g h)"
| lreach_step: "lreach s \<Longrightarrow> lstep s s' \<Longrightarrow> lreach s'"

section \<open>The invariant of the stream\<close>

text \<open>
  The sender: while it lives, the bytes written are all PDUs but the last one and of that one as much
  as \<^verbatim>\<open>solong\<close> says; when it has died, still a prefix of what should have been written.
\<close>

definition snd_ok :: "link \<Rightarrow> bool" where
  "snd_ok s \<longleftrightarrow>
     (let p = cn_wpdu (ln_snd s) in
      prefix (ln_wire s) (concat (ln_sent s)) \<and>
      (\<not> cn_dead (ln_snd s) \<longrightarrow>
        (case cb_buf p of
           None \<Rightarrow> p = charbuf_new \<and> ln_wire s = concat (ln_sent s)
         | Some b \<Rightarrow> 0 \<le> cb_solong p \<and> cb_solong p \<le> cb_sz p \<and> cb_sz p = int (length b) \<and> 4 < length b \<and>
             ln_sent s \<noteq> [] \<and> last (ln_sent s) = frame b \<and> (0 < cb_solong p \<longrightarrow> b = frame b) \<and>
             ln_wire s = concat (butlast (ln_sent s)) @ take (nat (cb_solong p)) (frame b))))"

definition frames_ok :: "link \<Rightarrow> bool" where
  "frames_ok s \<longleftrightarrow> (\<forall>f \<in> set (ln_sent s). 4 < length f \<and> int (length f) \<le> MAX_PDU \<and> take 4 f = be32 (of_nat (length f)))"

text \<open>
  The receiver: what it took are the first PDUs sent; the bytes of the wire after those are what it
  has of the next PDU and what is still in the pipe.
\<close>

definition rcv_live :: "connection \<Rightarrow> byte list \<Rightarrow> byte list list \<Rightarrow> byte list \<Rightarrow> byte list list \<Rightarrow> bool" where
  "rcv_live c pipe got wire sent \<longleftrightarrow>
     (let p = cn_rpdu c; n = length got in
      case cb_buf p of
        None \<Rightarrow> p = charbuf_new \<and> wire = concat got @ pipe
      | Some m \<Rightarrow> n < length sent \<and> cb_sz p = int (length (sent ! n)) \<and> 4 \<le> cb_solong p \<and> cb_solong p \<le> cb_sz p \<and>
          int (length m) = cb_sz p + 4 \<and> wire = concat got @ take (nat (cb_solong p)) m @ pipe)"

definition rcv_ok :: "link \<Rightarrow> bool" where
  "rcv_ok s \<longleftrightarrow> prefix (ln_got s) (ln_sent s) \<and>
     (\<not> cn_dead (ln_rcv s) \<longrightarrow> rcv_live (ln_rcv s) (ln_pipe s) (ln_got s) (ln_wire s) (ln_sent s))"

definition link_ok :: "link \<Rightarrow> bool" where
  "link_ok s \<longleftrightarrow> snd_ok s \<and> frames_ok s \<and> rcv_ok s"


section \<open>The invariant is kept\<close>

lemma ntohl_be32 [simp]: "ntohl (be32 x) = x"
  unfolding ntohl_def be32_def mask_ff
proof (rule bit_word_eqI)
  fix n assume "n < LENGTH(32)"
  then consider "n < 8" | "8 \<le> n" "n < 16" | "16 \<le> n" "n < 24" | "24 \<le> n" "n < 32"
    by fastforce
  then show "bit (push_bit 24 (ucast ([ucast (take_bit 8 (drop_bit 24 x)), ucast (take_bit 8 (drop_bit 16 x)),
        ucast (take_bit 8 (drop_bit 8 x)), ucast (take_bit 8 x)] ! 0 :: byte) :: u32)
     OR push_bit 16 (ucast ([ucast (take_bit 8 (drop_bit 24 x)), ucast (take_bit 8 (drop_bit 16 x)),
        ucast (take_bit 8 (drop_bit 8 x)), ucast (take_bit 8 x)] ! 1 :: byte))
     OR push_bit 8 (ucast ([ucast (take_bit 8 (drop_bit 24 x)), ucast (take_bit 8 (drop_bit 16 x)),
        ucast (take_bit 8 (drop_bit 8 x)), ucast (take_bit 8 x)] ! 2 :: byte))
     OR ucast ([ucast (take_bit 8 (drop_bit 24 x)), ucast (take_bit 8 (drop_bit 16 x)),
        ucast (take_bit 8 (drop_bit 8 x)), ucast (take_bit 8 x)] ! 3 :: byte)) n = bit x n"
    by cases (auto simp: bit_simps numeral_2_eq_2 numeral_3_eq_3)
qed

lemma sint_pdu_size: "int n \<le> MAX_PDU \<Longrightarrow> sint (of_nat n :: u32) = int n"
  by (simp add: MAX_PDU_def sint_uint unsigned_of_nat signed_take_bit_int_eq_self take_bit_nat_eq_self)

lemma frame_facts [simp]:
  "4 \<le> length b \<Longrightarrow> length (frame b) = length b" "4 \<le> length b \<Longrightarrow> frame (frame b) = frame b"
  "take 4 (frame b) = be32 (of_nat (length b))"
  by (simp_all add: frame_def)

lemma writepdu_live:
  assumes "cb_buf (cn_wpdu c) = Some b" and "cb_sz (cn_wpdu c) = int (length b)" and "4 < length b"
    and "0 \<le> cb_solong (cn_wpdu c)" and "cb_solong (cn_wpdu c) < int (length b)" and "0 < cb_solong (cn_wpdu c) \<longrightarrow> b = frame b"
  shows "writepdu out c = (case out of
      WrErr again \<Rightarrow> Ret (again, [], c\<lparr>cn_wpdu := (if again then (cn_wpdu c)\<lparr>cb_buf := Some (frame b)\<rparr>
          else (cn_wpdu c)\<lparr>cb_buf := Some (frame b), cb_solong := -1, cb_sz := 0\<rparr>), cn_again := again\<rparr>)
    | WrOk n \<Rightarrow> Ret (True, take n (drop (nat (cb_solong (cn_wpdu c))) (frame b)),
        c\<lparr>cn_wpdu := (cn_wpdu c)\<lparr>cb_buf := Some (frame b), cb_solong := cb_solong (cn_wpdu c) + int n\<rparr>\<rparr>))"
  using assms by (auto simp: writepdu_def Let_def frame_def split: wr_res.splits)

lemma snd_ok_send:
  assumes ok: "snd_ok s" and b: "4 < length b" and fits: "wr_fits out (length b)" and alive: "\<not> cn_dead (ln_snd s)"
    and r: "send_begin b (int (length b)) out (ln_snd s) = Ret (waits, bs, c)"
  shows "snd_ok ((written bs c s)\<lparr>ln_sent := ln_sent s @ [frame b]\<rparr>)"
proof -
  have none: "cb_buf (cn_wpdu (ln_snd s)) = None" using r alive by (auto simp: send_begin_def split: if_splits)
  then have w: "ln_wire s = concat (ln_sent s)" using ok alive by (simp add: snd_ok_def)
  let ?c = "(ln_snd s)\<lparr>cn_wpdu := \<lparr>cb_buf = Some b, cb_sz = int (length b), cb_solong = 0\<rparr>\<rparr>"
  have wp: "writepdu out ?c = (case out of
      WrErr again \<Rightarrow> Ret (again, [], ?c\<lparr>cn_wpdu := (if again then (cn_wpdu ?c)\<lparr>cb_buf := Some (frame b)\<rparr>
          else (cn_wpdu ?c)\<lparr>cb_buf := Some (frame b), cb_solong := -1, cb_sz := 0\<rparr>), cn_again := again\<rparr>)
    | WrOk n \<Rightarrow> Ret (True, take n (drop (nat (cb_solong (cn_wpdu ?c))) (frame b)),
        ?c\<lparr>cn_wpdu := (cn_wpdu ?c)\<lparr>cb_buf := Some (frame b), cb_solong := cb_solong (cn_wpdu ?c) + int n\<rparr>\<rparr>))"
    by (rule writepdu_live) (use b in auto)
  show ?thesis
  proof (cases out)
    case (WrOk n)
    then have "bs = take n (frame b)" "cb_buf (cn_wpdu c) = Some (frame b)" "cb_sz (cn_wpdu c) = int (length b)"
        "cb_solong (cn_wpdu c) = int n" "n \<le> length b"
      using r alive none wp fits by (auto simp: send_begin_def wr_fits_def split: if_splits)
    then show ?thesis using w b by (auto simp: snd_ok_def written_def take_is_prefix Let_def)
  next
    case (WrErr again)
    then show ?thesis using r alive none wp w b
      by (auto simp: send_begin_def snd_ok_def written_def Let_def split: if_splits)
  qed
qed

lemma snd_ok_write:
  assumes ok: "snd_ok s" and alive: "\<not> cn_dead (ln_snd s)"
    and fits: "wr_fits out (nat (cb_sz (cn_wpdu (ln_snd s)) - cb_solong (cn_wpdu (ln_snd s))))"
    and r: "write_cb out (ln_snd s) = Ret (bs, c)"
  shows "snd_ok (written bs c s)"
proof (cases "cb_buf (cn_wpdu (ln_snd s))")
  case None
  then show ?thesis using ok alive r by (auto simp: snd_ok_def write_cb_def written_def charbuf_new_def Let_def)
next
  case (Some b)
  let ?p = "cn_wpdu (ln_snd s)"
  have a: "0 \<le> cb_solong ?p" "cb_solong ?p \<le> cb_sz ?p" "cb_sz ?p = int (length b)" "4 < length b" "ln_sent s \<noteq> []"
      "last (ln_sent s) = frame b" "0 < cb_solong ?p \<longrightarrow> b = frame b"
      "ln_wire s = concat (butlast (ln_sent s)) @ take (nat (cb_solong ?p)) (frame b)"
    using ok alive Some by (auto simp: snd_ok_def Let_def)
  have sent: "concat (ln_sent s) = concat (butlast (ln_sent s)) @ frame b"
    using a(5,6) by (metis append_butlast_last_id concat.simps(2) concat_append concat_eq_Nil_conv self_append_conv concat.simps(1))
  show ?thesis
  proof (cases "cb_solong ?p = cb_sz ?p")
    case True
    then have "write_cb out (ln_snd s) = Ret ([], ln_snd s)"
      using alive a(1-4) by (auto simp: write_cb_def writepdu_def)
    then have "written bs c s = s" using r by (simp add: written_def)
    then show ?thesis using ok by simp
  next
    case False
    then have lt: "cb_solong ?p < int (length b)" using a by simp
    note wp = writepdu_live [OF Some a(3,4,1) lt a(7)]
    show ?thesis
    proof (cases out)
      case (WrOk n)
      then have c: "bs = take n (drop (nat (cb_solong ?p)) (frame b))" "cb_buf (cn_wpdu c) = Some (frame b)"
          "cb_sz (cn_wpdu c) = int (length b)" "cb_solong (cn_wpdu c) = cb_solong ?p + int n" "cb_solong ?p + int n \<le> int (length b)"
          "cn_dead c = cn_dead (ln_snd s)"
        using r alive wp fits a by (auto simp: write_cb_def wr_fits_def split: if_splits)
      have "nat (cb_solong ?p + int n) = nat (cb_solong ?p) + n" using a(1) by simp
      then have w: "ln_wire s @ bs = concat (butlast (ln_sent s)) @ take (nat (cb_solong ?p + int n)) (frame b)"
        using a(8) c(1) by (simp add: take_add)
      then have "prefix (ln_wire s @ bs) (concat (ln_sent s))" unfolding w sent by (simp add: take_is_prefix)
      then show ?thesis using w c a by (simp add: snd_ok_def written_def Let_def)
    next
      case (WrErr again)
      then show ?thesis using r alive wp a ok Some
        by (auto simp: write_cb_def snd_ok_def written_def Let_def split: if_splits)
    qed
  qed
qed


text \<open>The next PDU on the wire is the next one sent.\<close>

lemma next_frame:
  assumes "prefix got sent" and "prefix wire (concat sent)" and "wire = concat got @ x" and "x \<noteq> []"
  shows "length got < length sent \<and> prefix x (sent ! length got @ concat (drop (Suc (length got)) sent))"
proof -
  obtain rest where r: "sent = got @ rest" using assms(1) by (auto simp: prefix_def)
  have p: "prefix x (concat rest)" using assms(2,3) r by simp
  then have "rest \<noteq> []" using assms(4) by auto
  then obtain f fs where "rest = f # fs" by (cases rest) auto
  then show ?thesis using p r by simp
qed

lemma prefix_take: "prefix x (f @ g) \<Longrightarrow> n \<le> length x \<Longrightarrow> n \<le> length f \<Longrightarrow> take n x = take n f"
proof -
  assume "prefix x (f @ g)" and n: "n \<le> length x" "n \<le> length f"
  then obtain zs where "f @ g = x @ zs" by (auto simp: prefix_def)
  then have "take n (f @ g) = take n (x @ zs)" by simp
  then show ?thesis using n by simp
qed

lemma live_header:
  assumes live: "rcv_live c pipe got wire sent" "cb_buf (cn_rpdu c) = None" and len: "4 \<le> length pipe"
    and g: "prefix got sent" "prefix wire (concat sent)"
    and fr: "\<forall>f \<in> set sent. 4 < length f \<and> int (length f) \<le> MAX_PDU \<and> take 4 f = be32 (of_nat (length f))"
  shows "length got < length sent \<and> take 4 pipe = be32 (of_nat (length (sent ! length got)))"
proof -
  have w: "wire = concat got @ pipe" using live by (simp add: rcv_live_def)
  have n: "length got < length sent" "prefix pipe (sent ! length got @ concat (drop (Suc (length got)) sent))"
    using next_frame [OF g w] len by force+
  have f: "4 < length (sent ! length got)" "take 4 (sent ! length got) = be32 (of_nat (length (sent ! length got)))"
    using fr n(1) by auto
  show ?thesis using prefix_take [OF n(2) len] n(1) f by simp
qed

lemma live_body:
  assumes live: "rcv_live c pipe got wire sent" "cb_buf (cn_rpdu c) = Some m" "cb_solong (cn_rpdu c) < cb_sz (cn_rpdu c)"
    and k: "kread k (nat (cb_sz (cn_rpdu c) - cb_solong (cn_rpdu c))) pipe = (b, p2)"
  shows "\<exists>c' m'. read_body b c = Ret (True, c') \<and> rcv_live c' p2 got wire sent \<and> cb_buf (cn_rpdu c') = Some m' \<and> cn_dead c' = cn_dead c"
proof -
  let ?p = "cn_rpdu c"
  let ?n = "nat (cb_sz ?p - cb_solong ?p)"
  have a: "length got < length sent" "cb_sz ?p = int (length (sent ! length got))" "4 \<le> cb_solong ?p" "cb_solong ?p \<le> cb_sz ?p"
      "int (length m) = cb_sz ?p + 4" "wire = concat got @ take (nat (cb_solong ?p)) m @ pipe"
    using live by (auto simp: rcv_live_def Let_def)
  have n0: "?n \<noteq> 0" using live(3) by simp
  show ?thesis
  proof (cases "pipe = []")
    case True
    then have "b = RdErr True" "p2 = []" using k n0 by (auto simp: kread_def)
    then show ?thesis using live True by (simp add: read_body_def rcv_live_def Let_def)
  next
    case False
    then obtain bs where b: "b = RdGot bs" "pipe = bs @ p2" and lb: "length bs \<le> ?n"
      using k n0 by (auto simp: kread_def)
    have l: "nat (cb_solong ?p) + length bs \<le> nat (cb_sz ?p)" using a(3,4) lb by simp
    then have le: "nat (cb_solong ?p) + length bs \<le> length m" using a(5) by simp
    let ?m = "take (nat (cb_solong ?p)) m @ bs @ drop (nat (cb_solong ?p) + length bs) m"
    have "take (nat (cb_solong ?p + int (length bs))) ?m = take (nat (cb_solong ?p)) m @ bs"
      using le a(3) by (simp add: nat_add_distrib)
    moreover have "length ?m = length m" using le by simp
    ultimately show ?thesis using b le l a live(2)
      by (simp add: read_body_def rcv_live_def Let_def)
  qed
qed

lemma live_complete:
  assumes live: "rcv_live c pipe got wire sent" "cb_buf (cn_rpdu c) = Some m" "cb_sz (cn_rpdu c) = cb_solong (cn_rpdu c)"
    and g: "prefix got sent" "prefix wire (concat sent)"
  shows "take (nat (cb_sz (cn_rpdu c))) m = sent ! length got" "length got < length sent"
    "rcv_live (c\<lparr>cn_rpdu := charbuf_new\<rparr>) pipe (got @ [sent ! length got]) wire sent" "prefix (got @ [sent ! length got]) sent"
proof -
  let ?p = "cn_rpdu c" and ?f = "sent ! length got"
  have a: "length got < length sent" "cb_sz ?p = int (length ?f)" "4 \<le> cb_solong ?p"
      "int (length m) = cb_sz ?p + 4" "wire = concat got @ take (nat (cb_solong ?p)) m @ pipe"
    using live by (auto simp: rcv_live_def Let_def)
  have l: "length (take (length ?f) m) = length ?f" using a(2,4) by simp
  have ne: "take (nat (cb_solong ?p)) m @ pipe \<noteq> []" using a live(3) by auto
  have pre: "prefix (take (length ?f) m @ pipe) (?f @ concat (drop (Suc (length got)) sent))"
    using next_frame [OF g a(5) ne] a(2) live(3) by simp
  have "take (length ?f) m = ?f"
    using prefix_take [OF pre, of "length ?f"] l by simp
  then show f: "take (nat (cb_sz ?p)) m = ?f" using a(2) by simp
  show "length got < length sent" by (rule a(1))
  have "take (nat (cb_solong ?p)) m = ?f" using f live(3) by simp
  then show "rcv_live (c\<lparr>cn_rpdu := charbuf_new\<rparr>) pipe (got @ [?f]) wire sent"
    using a(5) by (simp add: rcv_live_def charbuf_new_def)
  have "got = take (length got) sent" using g(1) by (auto simp: prefix_def)
  then have "got @ [?f] = take (Suc (length got)) sent" using take_Suc_conv_app_nth [OF a(1)] by simp
  then show "prefix (got @ [?f]) sent" by (metis take_is_prefix)
qed


text \<open>The last part of \<^verbatim>\<open>read_cb\<close>: hand over a complete PDU.\<close>

definition hand_over :: "bool \<Rightarrow> connection \<Rightarrow> byte list option \<times> connection" where
  "hand_over taken c =
     (case cb_buf (cn_rpdu c) of
        Some m \<Rightarrow>
          if cb_sz (cn_rpdu c) = cb_solong (cn_rpdu c)
          then (Some (take (nat (cb_sz (cn_rpdu c))) m), if taken then c\<lparr>cn_rpdu := charbuf_new\<rparr> else c)
          else (None, c)
      | None \<Rightarrow> (None, c))"

lemma read_cb_hand_over:
  "read_cb taken h b c =
     (if cn_dead c then Ret (None, c)
      else bind_res (if cb_buf (cn_rpdu c) = None \<or> cb_solong (cn_rpdu c) < cb_sz (cn_rpdu c) then readpdu h b c else Ret (True, c))
        (\<lambda>(succ, c). Ret (hand_over taken (if \<not> succ then c\<lparr>cn_rd := False, cn_wr := False, cn_dead := True\<rparr> else c))))"
  by (auto simp: read_cb_def hand_over_def Let_def intro!: bind_res_cong split: option.splits)

definition got_after :: "bool \<Rightarrow> byte list option \<Rightarrow> byte list list \<Rightarrow> byte list list" where
  "got_after taken pdu got = (case pdu of Some f \<Rightarrow> if taken then got @ [f] else got | None \<Rightarrow> got)"

lemma hand_over_live:
  assumes "rcv_live c pipe got wire sent" and "prefix got sent" and "prefix wire (concat sent)" and "hand_over taken c = (pdu, c')"
  shows "rcv_live c' pipe (got_after taken pdu got) wire sent \<and> prefix (got_after taken pdu got) sent \<and> cn_dead c' = cn_dead c"
proof (cases "cb_buf (cn_rpdu c)")
  case None
  then show ?thesis using assms by (auto simp: hand_over_def got_after_def)
next
  case (Some m)
  show ?thesis
  proof (cases "cb_sz (cn_rpdu c) = cb_solong (cn_rpdu c)")
    case True
    then show ?thesis using live_complete [OF assms(1) Some True assms(2,3)] assms Some
      by (cases taken) (auto simp: hand_over_def got_after_def)
  next
    case False
    then show ?thesis using assms Some by (auto simp: hand_over_def got_after_def)
  qed
qed

definition same_but_rcv :: "link \<Rightarrow> link \<Rightarrow> bool" where
  "same_but_rcv s s' \<longleftrightarrow> ln_snd s' = ln_snd s \<and> ln_wire s' = ln_wire s \<and> ln_sent s' = ln_sent s"

lemma recv_step_eq:
  assumes "(h, p1) = (if (\<not> cn_dead (ln_rcv s) \<and> (cb_buf (cn_rpdu (ln_rcv s)) = None \<or> cb_solong (cn_rpdu (ln_rcv s)) < cb_sz (cn_rpdu (ln_rcv s)))) \<and>
        cb_sz (cn_rpdu (ln_rcv s)) = 0 then kread k1 4 (ln_pipe s) else (RdZero, ln_pipe s))"
    and "(b, p2) = (if (\<not> cn_dead (ln_rcv s) \<and> (cb_buf (cn_rpdu (ln_rcv s)) = None \<or> cb_solong (cn_rpdu (ln_rcv s)) < cb_sz (cn_rpdu (ln_rcv s)))) \<and>
        (\<exists>c'. read_header h (ln_rcv s) = Ret (None, c')) then kread k2 (body_count h (ln_rcv s)) p1 else (RdZero, p1))"
    and "read_cb taken h b (ln_rcv s) = Ret (pdu, c')"
  shows "recv_step taken k1 k2 s = Ret (s\<lparr>ln_rcv := c', ln_pipe := p2, ln_got := got_after taken pdu (ln_got s)\<rparr>)"
  using assms(3) unfolding recv_step_def Let_def assms(1) [symmetric] prod.case assms(2) [symmetric]
  by (simp add: got_after_def)

lemma live_facts:
  assumes "link_ok s" and "\<not> cn_dead (ln_rcv s)"
  shows "rcv_live (ln_rcv s) (ln_pipe s) (ln_got s) (ln_wire s) (ln_sent s)" "prefix (ln_got s) (ln_sent s)"
    "prefix (ln_wire s) (concat (ln_sent s))"
    "\<forall>f \<in> set (ln_sent s). 4 < length f \<and> int (length f) \<le> MAX_PDU \<and> take 4 f = be32 (of_nat (length f))"
  using assms by (auto simp: link_ok_def rcv_ok_def snd_ok_def frames_ok_def Let_def)

lemma recv_finish:
  assumes "recv_step taken k1 k2 s = Ret (s\<lparr>ln_rcv := c', ln_pipe := p2, ln_got := got_after taken pdu (ln_got s)\<rparr>)"
    and "hand_over taken c1 = (pdu, c')" and "rcv_live c1 p2 (ln_got s) (ln_wire s) (ln_sent s)"
    and "prefix (ln_got s) (ln_sent s)" and "prefix (ln_wire s) (concat (ln_sent s))"
  shows "\<exists>s'. recv_step taken k1 k2 s = Ret s' \<and> rcv_ok s' \<and> same_but_rcv s s'"
  using hand_over_live [OF assms(3-5,2)] assms(1) by (simp add: rcv_ok_def same_but_rcv_def)

text \<open>A call that starts with the header, and one that goes on with the body or hands over a PDU again.\<close>

lemma recv_first:
  assumes ok: "link_ok s" and alive: "\<not> cn_dead (ln_rcv s)" and pipe: "ln_pipe s \<noteq> []"
    and None: "cb_buf (cn_rpdu (ln_rcv s)) = None"
  shows "\<exists>s'. recv_step taken k1 k2 s = Ret s' \<and> rcv_ok s' \<and> same_but_rcv s s'"
proof -
  let ?c = "ln_rcv s" and ?p = "cn_rpdu (ln_rcv s)" and ?f = "ln_sent s ! length (ln_got s)"
  note facts = live_facts [OF ok alive]
  note live = facts(1) and g = facts(2) and w = facts(3) and fr = facts(4)
  have p: "?p = charbuf_new" using live None by (simp add: rcv_live_def)
  let ?bs = "take (min k1 4) (ln_pipe s)" and ?p1 = "drop (min k1 4) (ln_pipe s)"
  have kr: "kread k1 4 (ln_pipe s) = (RdGot ?bs, ?p1)" using pipe by (simp add: kread_def)
  show ?thesis
  proof (cases "length ?bs = 4")
    case False
    then have h: "read_header (RdGot ?bs) ?c = Ret (Some False, ?c)" using p by (simp add: read_header_def charbuf_new_def)
    then have "read_cb taken (RdGot ?bs) RdZero ?c = Ret (None, ?c\<lparr>cn_rd := False, cn_wr := False, cn_dead := True\<rparr>)"
      using alive None by (simp add: read_cb_hand_over readpdu_def hand_over_def)
    from recv_step_eq [OF _ _ this, of ?p1 k1 ?p1 k2] show ?thesis
      using kr h p alive g by (simp add: charbuf_new_def got_after_def rcv_ok_def same_but_rcv_def)
  next
    case True
    then have four: "4 \<le> length (ln_pipe s)" "?bs = take 4 (ln_pipe s)" "?p1 = drop 4 (ln_pipe s)" by (auto simp: min_def split: if_splits)
    have hd: "length (ln_got s) < length (ln_sent s)" "?bs = be32 (of_nat (length ?f))"
      using live_header [OF live None four(1) g w fr] four(2) by simp_all
    have len: "4 < length ?f" "int (length ?f) \<le> MAX_PDU" using fr hd(1) by auto
    let ?c1 = "?c\<lparr>cn_rpdu := \<lparr>cb_buf = Some (?bs @ replicate (length ?f) (cn_junk ?c)), cb_sz = int (length ?f), cb_solong = 4\<rparr>\<rparr>"
    have h: "read_header (RdGot ?bs) ?c = Ret (None, ?c1)"
      using p len True hd(2) sint_pdu_size [OF len(2)] by (simp add: read_header_def charbuf_new_def Let_def)
    have live1: "rcv_live ?c1 ?p1 (ln_got s) (ln_wire s) (ln_sent s)"
      using live None hd(1) len True by (auto simp: rcv_live_def)
    have bc: "body_count (RdGot ?bs) ?c = nat (cb_sz (cn_rpdu ?c1) - cb_solong (cn_rpdu ?c1))" using h by (simp add: body_count_def)
    obtain b p2 where kb: "kread k2 (nat (cb_sz (cn_rpdu ?c1) - cb_solong (cn_rpdu ?c1))) ?p1 = (b, p2)" by fastforce
    have lt: "cb_solong (cn_rpdu ?c1) < cb_sz (cn_rpdu ?c1)" using len by simp
    obtain c2 where c2: "read_body b ?c1 = Ret (True, c2)" "rcv_live c2 p2 (ln_got s) (ln_wire s) (ln_sent s)"
      using live_body [OF live1 _ lt kb] by auto
    obtain pdu c' where ho: "hand_over taken c2 = (pdu, c')" by fastforce
    have "read_cb taken (RdGot ?bs) b ?c = Ret (pdu, c')"
      using alive None h c2(1) ho by (simp add: read_cb_hand_over readpdu_def)
    from recv_step_eq [OF _ _ this, of ?p1 k1 p2 k2]
    have "recv_step taken k1 k2 s = Ret (s\<lparr>ln_rcv := c', ln_pipe := p2, ln_got := got_after taken pdu (ln_got s)\<rparr>)"
      using kr h p alive kb bc by (simp add: charbuf_new_def)
    then show ?thesis by (rule recv_finish [OF _ ho c2(2) g w])
  qed
qed

lemma recv_more:
  assumes ok: "link_ok s" and alive: "\<not> cn_dead (ln_rcv s)" and Some: "cb_buf (cn_rpdu (ln_rcv s)) = Some m"
  shows "\<exists>s'. recv_step taken k1 k2 s = Ret s' \<and> rcv_ok s' \<and> same_but_rcv s s'"
proof -
  let ?c = "ln_rcv s" and ?p = "cn_rpdu (ln_rcv s)" and ?f = "ln_sent s ! length (ln_got s)"
  note facts = live_facts [OF ok alive]
  note live = facts(1) and g = facts(2) and w = facts(3) and fr = facts(4)
  have sz: "cb_sz ?p \<noteq> 0" "cb_solong ?p \<le> cb_sz ?p" using live Some by (auto simp: rcv_live_def Let_def)
  have h: "read_header RdZero ?c = Ret (None, ?c)" using sz by (simp add: read_header_def)
  show ?thesis
  proof (cases "cb_solong ?p < cb_sz ?p")
    case True
    have bc: "body_count RdZero ?c = nat (cb_sz ?p - cb_solong ?p)" using h by (simp add: body_count_def)
    obtain b p2 where kb: "kread k2 (nat (cb_sz ?p - cb_solong ?p)) (ln_pipe s) = (b, p2)" by fastforce
    obtain c2 where c2: "read_body b ?c = Ret (True, c2)" "rcv_live c2 p2 (ln_got s) (ln_wire s) (ln_sent s)"
      using live_body [OF live Some True kb] by auto
    obtain pdu c' where ho: "hand_over taken c2 = (pdu, c')" by fastforce
    have "read_cb taken RdZero b ?c = Ret (pdu, c')"
      using alive True h c2(1) ho by (simp add: read_cb_hand_over readpdu_def)
    from recv_step_eq [OF _ _ this, of "ln_pipe s" k1 p2 k2]
    have "recv_step taken k1 k2 s = Ret (s\<lparr>ln_rcv := c', ln_pipe := p2, ln_got := got_after taken pdu (ln_got s)\<rparr>)"
      using h sz alive kb bc True by simp
    then show ?thesis by (rule recv_finish [OF _ ho c2(2) g w])
  next
    case False
    obtain pdu c' where ho: "hand_over taken ?c = (pdu, c')" by fastforce
    have "read_cb taken RdZero RdZero ?c = Ret (pdu, c')"
      using alive Some False ho by (simp add: read_cb_hand_over)
    from recv_step_eq [OF _ _ this, of "ln_pipe s" k1 "ln_pipe s" k2]
    have "recv_step taken k1 k2 s = Ret (s\<lparr>ln_rcv := c', ln_pipe := ln_pipe s, ln_got := got_after taken pdu (ln_got s)\<rparr>)"
      using Some False by simp
    then show ?thesis by (rule recv_finish [OF _ ho live g w])
  qed
qed

lemma recv_live_step:
  assumes "link_ok s" and "\<not> cn_dead (ln_rcv s)" and "ln_pipe s \<noteq> []"
  shows "\<exists>s'. recv_step taken k1 k2 s = Ret s' \<and> rcv_ok s' \<and> same_but_rcv s s'"
  using recv_first [OF assms] recv_more [OF assms(1,2)] by (cases "cb_buf (cn_rpdu (ln_rcv s))") blast+

lemma recv_dead: "cn_dead (ln_rcv s) \<Longrightarrow> recv_step taken k1 k2 s = Ret s"
  by (simp add: recv_step_def read_cb_def)

lemma link_ok_new: "link_ok (link_new g h)"
  by (simp add: link_ok_def link_new_def snd_ok_def frames_ok_def rcv_ok_def rcv_live_def connection_new_def charbuf_new_def)

lemma rcv_ok_written:
  assumes "rcv_ok s"
  shows "rcv_ok ((written bs c s)\<lparr>ln_sent := ln_sent s @ fs\<rparr>)"
  using assms by (auto simp: rcv_ok_def rcv_live_def written_def nth_append prefix_def Let_def split: option.splits)

lemma rcv_ok_written': "rcv_ok s \<Longrightarrow> rcv_ok (written bs c s)"
  using rcv_ok_written [where fs = "[]"] by (simp add: written_def)

lemma link_ok_step: "lstep s s' \<Longrightarrow> link_ok s \<Longrightarrow> link_ok s'"
proof (induction rule: lstep.induct)
  case (l_send b out s waits bs c)
  then have "frames_ok ((written bs c s)\<lparr>ln_sent := ln_sent s @ [frame b]\<rparr>)" by (simp add: link_ok_def frames_ok_def written_def)
  then show ?case using snd_ok_send [OF _ l_send(1,3-5)] rcv_ok_written l_send(6) by (simp add: link_ok_def)
next
  case (l_write s out bs c)
  then have "frames_ok (written bs c s)" by (simp add: link_ok_def frames_ok_def written_def)
  then show ?case using snd_ok_write [OF _ l_write(2-4)] rcv_ok_written' l_write(5) by (simp add: link_ok_def)
next
  case (l_finish s)
  have "snd_ok (s\<lparr>ln_snd := snd (send_finish (ln_snd s))\<rparr>)"
  proof (cases "cn_dead (ln_snd s)")
    case True
    then show ?thesis using l_finish(3) by (simp add: link_ok_def snd_ok_def send_finish_def Let_def)
  next
    case False
    then obtain b where b: "cb_solong (cn_wpdu (ln_snd s)) = int (length b)" "4 < length b" "ln_sent s \<noteq> []"
        "last (ln_sent s) = frame b" "ln_wire s = concat (butlast (ln_sent s)) @ take (length b) (frame b)"
      using l_finish by (auto simp: link_ok_def snd_ok_def send_waits_def Let_def)
    have "concat (ln_sent s) = concat (butlast (ln_sent s) @ [last (ln_sent s)])" using b(3) by simp
    then have "ln_wire s = concat (ln_sent s)" using b by (simp add: concat_append)
    then show ?thesis by (simp add: snd_ok_def send_finish_def charbuf_new_def)
  qed
  then show ?case using l_finish(3) by (simp add: link_ok_def frames_ok_def rcv_ok_def)
next
  case (l_close_snd s)
  then show ?case
    by (auto simp: link_ok_def snd_ok_def frames_ok_def rcv_ok_def closeconn_def Let_def split: option.splits)
next
  case (l_recv k1 k2 s taken s')
  show ?case
  proof (cases "cn_dead (ln_rcv s)")
    case True
    then show ?thesis using l_recv recv_dead by simp
  next
    case False
    then have "rcv_ok s' \<and> same_but_rcv s s'" using recv_live_step [OF l_recv(5) False l_recv(3), of taken k1 k2] l_recv(4) by auto
    then show ?thesis using l_recv(5)
      by (auto simp: link_ok_def snd_ok_def frames_ok_def same_but_rcv_def Let_def split: option.splits)
  qed
next
  case (l_close_rcv s)
  then show ?case
    by (auto simp: link_ok_def snd_ok_def frames_ok_def rcv_ok_def closeconn_def Let_def split: option.splits)
qed

lemma lreach_ok: "lreach s \<Longrightarrow> link_ok s"
  by (induction rule: lreach.induct) (use link_ok_new link_ok_step in blast)+


section \<open>Properties of the transport\<close>

lemma concat_cancel:
  assumes "prefix xs ys" and "concat xs = concat ys" and "\<forall>y \<in> set ys. y \<noteq> []"
  shows "xs = ys"
proof -
  obtain zs where z: "ys = xs @ zs" using assms(1) by (auto simp: prefix_def)
  then have "concat zs = []" using assms(2) by simp
  then have "zs = []" using assms(3) z by (cases zs) auto
  then show ?thesis using z by simp
qed

text \<open>
  C15. Framing. However the socket cuts the byte stream into pieces on the way out and on the way in, whatever
  fails and whenever either side closes the connection, the PDUs that the receiver takes are the
  first of those sent, in order, unchanged and complete; and when both sides are alive, nothing is
  being written and nothing is left in the pipe or half read, they are all of them.
\<close>

theorem stream_delivers_frames:
  assumes "lreach s"
  shows "prefix (ln_got s) (ln_sent s) \<and>
    (\<not> cn_dead (ln_snd s) \<and> \<not> cn_dead (ln_rcv s) \<and> cb_buf (cn_wpdu (ln_snd s)) = None \<and> cb_buf (cn_rpdu (ln_rcv s)) = None \<and>
     ln_pipe s = [] \<longrightarrow> ln_got s = ln_sent s)"
proof -
  have ok: "link_ok s" using lreach_ok assms by blast
  then have g: "prefix (ln_got s) (ln_sent s)" and ne: "\<forall>f \<in> set (ln_sent s). f \<noteq> []"
    by (auto simp: link_ok_def rcv_ok_def frames_ok_def)
  have "ln_got s = ln_sent s"
    if "\<not> cn_dead (ln_snd s)" "\<not> cn_dead (ln_rcv s)" "cb_buf (cn_wpdu (ln_snd s)) = None" "cb_buf (cn_rpdu (ln_rcv s)) = None" "ln_pipe s = []"
  proof -
    have "ln_wire s = concat (ln_sent s)" using that(1,3) ok by (simp add: link_ok_def snd_ok_def)
    moreover have "ln_wire s = concat (ln_got s)" using that(2,4,5) ok by (simp add: link_ok_def rcv_ok_def rcv_live_def)
    ultimately show ?thesis using concat_cancel [OF g _ ne] by simp
  qed
  then show ?thesis using g by blast
qed

text \<open>
  Reading is safe against a well-behaved peer: in every reachable state a call of \<^verbatim>\<open>read_cb\<close> on a readable socket returns; no
  \<^verbatim>\<open>VERIFY\<close> of \<^verbatim>\<open>readpdu\<close> fails and nothing is stored outside the allocated memory, however many bytes the
  kernel delivers.
\<close>

theorem read_cb_safe:
  assumes "lreach s" and "ln_pipe s \<noteq> []"
  shows "\<exists>s'. recv_step taken k1 k2 s = Ret s'"
  using recv_live_step [OF lreach_ok [OF assms(1)] _ assms(2)] recv_dead by (cases "cn_dead (ln_rcv s)") blast+

text \<open>The example of the witnesses: a PDU of five bytes is sent in one write.\<close>

definition link_example :: link where
  "link_example = (written (frame [0, 0, 0, 0, 9]) ((connection_new 0)\<lparr>cn_wpdu := \<lparr>cb_buf = Some (frame [0, 0, 0, 0, 9]), cb_sz = 5, cb_solong = 5\<rparr>\<rparr>)
     (link_new 0 0))\<lparr>ln_sent := [frame [0, 0, 0, 0, 9]]\<rparr>"

lemma link_example_reach: "lreach link_example"
proof -
  have "send_begin [0, 0, 0, 0, 9] (int (length [0, 0, 0, 0, 9 :: byte])) (WrOk 5) (ln_snd (link_new 0 0)) =
      Ret (False, frame [0, 0, 0, 0, 9], (connection_new 0)\<lparr>cn_wpdu := \<lparr>cb_buf = Some (frame [0, 0, 0, 0, 9]), cb_sz = 5, cb_solong = 5\<rparr>\<rparr>)"
    by (simp add: send_begin_def writepdu_def link_new_def connection_new_def charbuf_new_def frame_def be32_def Let_def)
  from l_send [OF _ _ _ _ this] have "lstep (link_new 0 0) ((written (frame [0, 0, 0, 0, 9])
      ((connection_new 0)\<lparr>cn_wpdu := \<lparr>cb_buf = Some (frame [0, 0, 0, 0, 9]), cb_sz = 5, cb_solong = 5\<rparr>\<rparr>) (link_new 0 0))
      \<lparr>ln_sent := ln_sent (link_new 0 0) @ [frame [0, 0, 0, 0, 9]]\<rparr>)"
    by (simp add: MAX_PDU_def wr_fits_def link_new_def connection_new_def)
  then have "lstep (link_new 0 0) link_example" by (simp add: link_example_def link_new_def)
  then show ?thesis using lreach_step [OF lreach_new] by blast
qed

lemma link_example_pipe: "ln_pipe link_example = frame [0, 0, 0, 0, 9]" "ln_pipe link_example \<noteq> []"
  by (simp_all add: link_example_def written_def link_new_def frame_def be32_def)

theorem read_cb_safe_witness: "\<exists>s'. recv_step True 4 1 link_example = Ret s'"
  using read_cb_safe [OF link_example_reach link_example_pipe(2)] by blast

theorem stream_delivers_frames_witness:
  "\<exists>s. recv_step True 4 1 link_example = Ret s \<and> ln_got s = [frame [0, 0, 0, 0, 9]] \<and> prefix (ln_got s) (ln_sent s)"
proof -
  have "\<exists>s. recv_step True 4 1 link_example = Ret s \<and> ln_got s = [frame [0, 0, 0, 0, 9]]"
    by (simp add: recv_step_def link_example_def written_def link_new_def connection_new_def charbuf_new_def kread_def frame_def be32_def
        body_count_def read_header_def read_cb_def readpdu_def read_body_def ntohl_def MAX_PDU_def Let_def)
  then obtain s where s: "recv_step True 4 1 link_example = Ret s" "ln_got s = [frame [0, 0, 0, 0, 9]]" by blast
  have "lreach s" by (rule lreach_step [OF link_example_reach l_recv [OF _ _ link_example_pipe(2) s(1)]]) simp_all
  then show ?thesis using stream_delivers_frames s by blast
qed


text \<open>
  A forged length ends the process or overwrites its memory. When a fresh connection receives a header whose length is negative,
  \<^verbatim>\<open>readpdu\<close> aborts or writes past the memory it has just allocated; for a length from 0 to 3 the count of the following
  \<^verbatim>\<open>read\<close> is negative and converted to \<^verbatim>\<open>size_t\<close>, so that any further bytes of the peer beyond that length are stored
  past the end. Only lengths above \<^verbatim>\<open>MAX_PDU\<close> are refused.
\<close>

theorem forged_length_corrupts:
  assumes "\<not> cn_dead c" and "cn_rpdu c = charbuf_new" and "length bs = 4" and "sint (ntohl bs) < 4"
    and "sint (ntohl bs) < int (length extra)"
  shows "\<exists>f. read_cb taken (RdGot bs) (RdGot extra) c = Fault f"
proof (cases "sint (ntohl bs) < 0")
  case True
  then show ?thesis using assms
    by (simp add: read_cb_def readpdu_def read_header_def charbuf_new_def MAX_PDU_def Let_def)
next
  case False
  then have "4 + length extra > length (bs @ replicate (nat (sint (ntohl bs))) (cn_junk c))"
    using assms(3,5) by simp
  then show ?thesis using assms False
    by (simp add: read_cb_def readpdu_def read_header_def read_body_def charbuf_new_def MAX_PDU_def Let_def)
qed

theorem forged_length_corrupts_witness:
  "(\<exists>f. read_cb True (RdGot [0, 0, 0, 1]) (RdGot [7, 7]) (connection_new 0) = Fault f) \<and>
   (\<exists>f. read_cb True (RdGot [255, 255, 255, 255]) (RdGot []) (connection_new 0) = Fault f)"
proof
  have "sint (ntohl [0, 0, 0, 1]) = 1" by (simp add: ntohl_def)
  then show "\<exists>f. read_cb True (RdGot [0, 0, 0, 1]) (RdGot [7, 7]) (connection_new 0) = Fault f"
    by (intro forged_length_corrupts) (simp_all add: connection_new_def)
  have "sint (ntohl [255, 255, 255, 255]) = - 1" by (simp add: ntohl_def)
  then show "\<exists>f. read_cb True (RdGot [255, 255, 255, 255]) (RdGot []) (connection_new 0) = Fault f"
    by (intro forged_length_corrupts) (simp_all add: connection_new_def)
qed

text \<open>
  Closing a connection while the poll manager is about to report it writable ends the process: \<^verbatim>\<open>write_cb\<close> insists that the connection is
  not dead, where \<^verbatim>\<open>read_cb\<close> just returns.
\<close>

theorem write_cb_after_close_aborts:
  "write_cb out (snd (closeconn c)) = Fault Verify_failed \<and>
   read_cb taken h b (snd (closeconn c)) = Ret (None, snd (closeconn c))"
  by (auto simp: write_cb_def read_cb_def closeconn_def)

text \<open>
  A header that arrives in two pieces closes the connection, although the stream is in order: a read of fewer than four
  bytes is treated as an error.
\<close>

theorem split_header_closes:
  assumes "\<not> cn_dead c" and "cn_rpdu c = charbuf_new" and "length bs < 4"
  shows "\<exists>c'. read_cb taken (RdGot bs) b c = Ret (None, c') \<and> cn_dead c'"
  using assms by (simp add: read_cb_def readpdu_def read_header_def charbuf_new_def)

text \<open>
  The end of the stream in the middle of a PDU is not noticed when \<^verbatim>\<open>errno\<close> is still \<^verbatim>\<open>EAGAIN\<close> from an earlier call: \<^verbatim>\<open>read\<close> returns 0
  without setting it, the connection stays alive, and the poll manager reports it readable for ever.
\<close>

theorem stale_errno_hides_eof:
  assumes "\<not> cn_dead c" and "cb_buf (cn_rpdu c) = Some m" and "cb_solong (cn_rpdu c) < cb_sz (cn_rpdu c)" and "cb_sz (cn_rpdu c) \<noteq> 0" and "cn_again c"
  shows "read_cb taken h RdZero c = Ret (None, c)"
  using assms by (simp add: read_cb_def readpdu_def read_header_def read_body_def Let_def)

end
