(* ===== verification/Rpc_Channel.thy ===== *)
theory Rpc_Channel
  imports Connection "HOL-Library.Multiset"
begin

text \<open>
  How RPC end points get their connections: the address of a server (\<^verbatim>\<open>make_sockaddr\<close> of \<^verbatim>\<open>rpc/rpc.cc\<close>), the connection of
  a client that its calls share (\<^verbatim>\<open>rpcc::get_refconn\<close>), and the listening side (\<^verbatim>\<open>tcpsconn\<close> of
  \<^verbatim>\<open>rpc/connection.cc\<close>). Connection objects are counted by hand and freed, so both sides have an explicit heap
  or table of them.
\<close>

section \<open>Addresses\<close>

record sockaddr =
  sin_addr :: u32
  sin_port :: "16 word"

text \<open>\<^verbatim>\<open>atoi\<close>: blanks, a sign, digits; what follows is ignored.\<close>

definition atoi :: "string \<Rightarrow> int" where
  "atoi s =
     (case dropWhile is_space s of
        [] \<Rightarrow> 0
      | c # t \<Rightarrow>
          if c = CHR ''-'' then - int (digits_val (takeWhile is_digit t))
          else if c = CHR ''+'' then int (digits_val (takeWhile is_digit t))
          else int (digits_val (takeWhile is_digit (c # t))))"

text \<open>The port is cut to 16 bits and its bytes are swapped.\<close>

definition htons :: "int \<Rightarrow> 16 word" where
  "htons n = push_bit 8 (of_int n) OR drop_bit 8 (of_int n)"

definition INADDR_NONE :: u32 where "INADDR_NONE = 0xffffffff"

text \<open>
  \<open>inet_addr\<close> and \<open>gethostbyname\<close> are the resolver; \<open>None\<close> of the latter is an unknown name or one without a four-byte
  address. The result \<open>None\<close> is \<^verbatim>\<open>exit(1)\<close>.
\<close>

definition make_sockaddr2 :: "(string \<Rightarrow> u32) \<Rightarrow> (string \<Rightarrow> u32 option) \<Rightarrow> string \<Rightarrow> string \<Rightarrow> sockaddr option" where
  "make_sockaddr2 inet_addr gethostbyname host port =
     (let a = inet_addr host in
      if a \<noteq> INADDR_NONE then Some \<lparr>sin_addr = a, sin_port = htons (atoi port)\<rparr>
      else (case gethostbyname host of
              None \<Rightarrow> None
            | Some b \<Rightarrow> Some \<lparr>sin_addr = b, sin_port = htons (atoi port)\<rparr>))"

text \<open>The host name goes to a local array of 200 bytes.\<close>

definition make_sockaddr :: "(string \<Rightarrow> u32) \<Rightarrow> (string \<Rightarrow> u32 option) \<Rightarrow> string \<Rightarrow> sockaddr option res" where
  "make_sockaddr inet_addr gethostbyname hostandport =
     (if CHR '':'' \<notin> set hostandport
      then Ret (make_sockaddr2 inet_addr gethostbyname ''127.0.0.1'' hostandport)
      else (let host = takeWhile (\<lambda>c. c \<noteq> CHR '':'') hostandport;
                port = tl (dropWhile (\<lambda>c. c \<noteq> CHR '':'') hostandport)
            in if length host < 200 then Ret (make_sockaddr2 inet_addr gethostbyname host port) else Fault Bad_access))"

definition sockaddr_less :: "sockaddr \<Rightarrow> sockaddr \<Rightarrow> bool" where
  "sockaddr_less a b \<longleftrightarrow> sin_addr a < sin_addr b \<or> sin_addr a = sin_addr b \<and> sin_port a < sin_port b"

section \<open>The connection of a client\<close>

text \<open>\<open>ch_heap\<close> has the connection objects by address, \<open>ch_chan\<close> is \<^verbatim>\<open>chan_\<close>.\<close>

record chan =
  ch_heap :: "nat \<rightharpoonup> connection"
  ch_chan :: "nat option"

definition chan_new :: chan where
  "chan_new = \<lparr>ch_heap = (\<lambda>_. None), ch_chan = None\<rparr>"

definition decref_at :: "nat \<Rightarrow> chan \<Rightarrow> chan res" where
  "decref_at p s =
     (case ch_heap s p of
        None \<Rightarrow> Fault Bad_access
      | Some c \<Rightarrow> bind_res (cn_decref c) (\<lambda>r. Ret (s\<lparr>ch_heap := (ch_heap s)(p := r)\<rparr>)))"

definition isdead_at :: "nat \<Rightarrow> chan \<Rightarrow> bool res" where
  "isdead_at p s = (case ch_heap s p of None \<Rightarrow> Fault Bad_access | Some c \<Rightarrow> Ret (cn_dead c))"

text \<open>\<open>new\<close> is the address of the new object, \<open>None\<close> if the connection is refused.\<close>

definition connect_to_dst :: "nat option \<Rightarrow> byte \<Rightarrow> chan \<Rightarrow> nat option \<times> chan" where
  "connect_to_dst new g s =
     (case new of
        None \<Rightarrow> (None, s)
      | Some p \<Rightarrow> (Some p, s\<lparr>ch_heap := (ch_heap s)(p \<mapsto> connection_new g)\<rparr>))"

text \<open>\<open>ch\<close> is the connection that the call holds already, if any; the value is the one it holds afterwards.\<close>

definition get_refconn :: "nat option \<Rightarrow> byte \<Rightarrow> nat option \<Rightarrow> chan \<Rightarrow> (nat option \<times> chan) res" where
  "get_refconn new g ch s =
     bind_res
       (case ch_chan s of
          None \<Rightarrow> Ret (True, s)
        | Some p \<Rightarrow> bind_res (isdead_at p s) (\<lambda>dead.
            if dead then bind_res (decref_at p s) (\<lambda>s. Ret (True, s)) else Ret (False, s)))
     (\<lambda>(fresh, s).
       let s = (if fresh then (let (c, s) = connect_to_dst new g s in s\<lparr>ch_chan := c\<rparr>) else s) in
       case ch_chan s of
         None \<Rightarrow> Ret (ch, s)
       | Some p \<Rightarrow>
           bind_res (case ch of None \<Rightarrow> Ret s | Some q \<Rightarrow> decref_at q s) (\<lambda>s.
             case ch_heap s p of
               None \<Rightarrow> Fault Bad_access
             | Some c \<Rightarrow> Ret (Some p, s\<lparr>ch_heap := (ch_heap s)(p \<mapsto> cn_incref c)\<rparr>)))"

text \<open>The destructor of \<^verbatim>\<open>rpcc\<close>.\<close>

definition rpcc_end :: "chan \<Rightarrow> chan res" where
  "rpcc_end s =
     (case ch_chan s of
        None \<Rightarrow> Ret s
      | Some p \<Rightarrow>
          (case ch_heap s p of
             None \<Rightarrow> Fault Bad_access
           | Some c \<Rightarrow> decref_at p (s\<lparr>ch_heap := (ch_heap s)(p \<mapsto> snd (closeconn c))\<rparr>)))"

section \<open>The listening side\<close>

text \<open>Answers of \<^verbatim>\<open>select\<close>: interrupted, failed, or which of the pipe and the listening socket is ready.\<close>

datatype sel_ans = SelIntr | SelFail | SelReady bool bool

text \<open>
  \<^verbatim>\<open>accept_conn\<close>: each answer of \<^verbatim>\<open>select\<close> comes with what \<^verbatim>\<open>accept\<close> would return then, a descriptor and its connection object;
  after the last answer the thread waits. \<open>Ret\<close> is the end of the thread.
\<close>

fun accept_conn :: "(sel_ans \<times> (nat \<times> connection) option) list \<Rightarrow> (nat, connection) smap \<Rightarrow> (nat, connection) smap res" where
  "accept_conn [] m = Stuck"
| "accept_conn ((SelIntr, a) # evs) m = accept_conn evs m"
| "accept_conn ((SelFail, a) # evs) m = Fault Verify_failed"
| "accept_conn ((SelReady pipe tcp, a) # evs) m =
     (if pipe then Ret m
      else if tcp
      then (case a of
              None \<Rightarrow> Ret m
            | Some (fd, ch) \<Rightarrow> bind_res (process_accept fd ch m) (accept_conn evs))
      else Fault Verify_failed)"

text \<open>The destructor of \<^verbatim>\<open>tcpsconn\<close>, once the thread has ended: the connections that others still hold are left.\<close>

fun tcpsconn_end :: "(nat, connection) smap \<Rightarrow> (nat, connection) smap res" where
  "tcpsconn_end [] = Ret []"
| "tcpsconn_end ((fd, c) # m) =
     bind_res (cn_decref (snd (closeconn c))) (\<lambda>r.
     bind_res (tcpsconn_end m) (\<lambda>m. Ret (case r of None \<Rightarrow> m | Some c \<Rightarrow> (fd, c) # m)))"


section \<open>Addresses: lemmas\<close>

definition ntohs :: "16 word \<Rightarrow> 16 word" where
  "ntohs w = push_bit 8 w OR drop_bit 8 w"

lemma ntohs_htons: "ntohs (htons n) = of_int n"
proof (rule bit_word_eqI)
  fix i assume "i < LENGTH(16)"
  then show "bit (ntohs (htons n)) i \<longleftrightarrow> bit (of_int n :: 16 word) i"
    by (auto simp: ntohs_def htons_def bit_simps)
qed

lemma atoi_show: "atoi (show_nat n) = int n"
proof -
  obtain c cs where c: "show_nat n = c # cs" using show_nat_digits [of n] by (cases "show_nat n") auto
  then have "is_digit c" "\<forall>x \<in> set cs. is_digit x" using show_nat_digits [of n] by auto
  then show ?thesis using digit_not [of c] digits_val_show [of n]
    by (simp add: atoi_def c takeWhile_eq_all_conv [THEN iffD2])
qed

section \<open>The connection of a client: invariant\<close>

text \<open>
  \<open>refs p\<close> is the number of calls that hold connection \<open>p\<close>. An object exists exactly while it is owned, by a call or as the
  current connection, and its counter says by how many; one that is not current any more is dead. No
  PDU is being written when a reference is dropped: a thread inside \<^verbatim>\<open>send\<close> holds one.
\<close>

definition owners :: "(nat \<Rightarrow> nat) \<Rightarrow> nat option \<Rightarrow> nat \<Rightarrow> nat" where
  "owners refs ch p = refs p + (if ch = Some p then 1 else 0)"

definition counted :: "(nat \<Rightarrow> nat) \<Rightarrow> (nat \<rightharpoonup> connection) \<Rightarrow> bool" where
  "counted own h \<longleftrightarrow> (\<forall>p. case h p of
      None \<Rightarrow> own p = 0
    | Some c \<Rightarrow> 0 < own p \<and> cn_refno c = int (own p) \<and> cb_buf (cn_wpdu c) = None)"

definition chan_ok :: "(nat \<Rightarrow> nat) \<Rightarrow> chan \<Rightarrow> bool" where
  "chan_ok refs s \<longleftrightarrow> counted (owners refs (ch_chan s)) (ch_heap s) \<and>
     (\<forall>p c. ch_heap s p = Some c \<longrightarrow> ch_chan s \<noteq> Some p \<longrightarrow> cn_dead c)"

lemma countedD:
  assumes "counted own h"
  shows "h p = Some c \<Longrightarrow> 0 < own p \<and> cn_refno c = int (own p) \<and> cb_buf (cn_wpdu c) = None"
    and "h p = None \<Longrightarrow> own p = 0"
    and "0 < own p \<Longrightarrow> \<exists>c. h p = Some c"
  using assms [unfolded counted_def, rule_format, of p] by (auto split: option.splits)

definition fits_count :: "nat \<Rightarrow> connection option \<Rightarrow> bool" where
  "fits_count n r \<longleftrightarrow> (case r of
      None \<Rightarrow> n = 0
    | Some c \<Rightarrow> 0 < n \<and> cn_refno c = int n \<and> cb_buf (cn_wpdu c) = None)"

lemma counted_iff: "counted own h \<longleftrightarrow> (\<forall>p. fits_count (own p) (h p))"
  by (simp add: counted_def fits_count_def)

lemma counted_upd: "counted own h \<Longrightarrow> fits_count n r \<Longrightarrow> counted (own(p := n)) (h(p := r))"
  by (simp add: counted_iff)

lemma fits_count_simps [simp]:
  "fits_count n None \<longleftrightarrow> n = 0"
  "fits_count n (Some c) \<longleftrightarrow> 0 < n \<and> cn_refno c = int n \<and> cb_buf (cn_wpdu c) = None"
  by (simp_all add: fits_count_def)

lemma decref_at_ok:
  assumes ok: "counted own (ch_heap s)" and own: "0 < own p"
    and dead: "\<And>c. ch_heap s p = Some c \<Longrightarrow> own p = 1 \<Longrightarrow> cn_dead c"
  shows "\<exists>r. decref_at p s = Ret (s\<lparr>ch_heap := (ch_heap s)(p := r)\<rparr>) \<and> counted (own(p := own p - 1)) ((ch_heap s)(p := r)) \<and>
    (\<forall>c'. r = Some c' \<longrightarrow> (\<exists>c. ch_heap s p = Some c \<and> cn_dead c' = cn_dead c))"
proof -
  obtain c where c: "ch_heap s p = Some c" using countedD(3) [OF ok own] by blast
  note cd = countedD(1) [OF ok c]
  show ?thesis
  proof (cases "own p = 1")
    case True
    then have "cn_decref c = Ret None" using cd dead [OF c True] by (simp add: cn_decref_def Let_def)
    then show ?thesis using c True ok by (auto simp: decref_at_def intro!: counted_upd)
  next
    case False
    then have "cn_decref c = Ret (Some (c\<lparr>cn_refno := cn_refno c - 1\<rparr>))" using cd by (simp add: cn_decref_def Let_def)
    then show ?thesis using c False cd ok own
      by (intro exI [of _ "Some (c\<lparr>cn_refno := cn_refno c - 1\<rparr>)"]) (auto simp: decref_at_def intro!: counted_upd)
  qed
qed


text \<open>The first half of \<^verbatim>\<open>get_refconn\<close>: the current connection is alive, or there is a new one or none.\<close>

definition renew :: "nat option \<Rightarrow> byte \<Rightarrow> chan \<Rightarrow> chan res" where
  "renew new g s =
     bind_res
       (case ch_chan s of
          None \<Rightarrow> Ret (True, s)
        | Some p \<Rightarrow> bind_res (isdead_at p s) (\<lambda>dead.
            if dead then bind_res (decref_at p s) (\<lambda>s. Ret (True, s)) else Ret (False, s)))
     (\<lambda>(fresh, s). Ret (if fresh then (let (c, s) = connect_to_dst new g s in s\<lparr>ch_chan := c\<rparr>) else s))"

lemma get_refconn_eq:
  "get_refconn new g ch s = bind_res (renew new g s) (\<lambda>s.
     case ch_chan s of
         None \<Rightarrow> Ret (ch, s)
       | Some p \<Rightarrow>
           bind_res (case ch of None \<Rightarrow> Ret s | Some q \<Rightarrow> decref_at q s) (\<lambda>s.
             case ch_heap s p of
               None \<Rightarrow> Fault Bad_access
             | Some c \<Rightarrow> Ret (Some p, s\<lparr>ch_heap := (ch_heap s)(p \<mapsto> cn_incref c)\<rparr>)))"
  by (simp add: get_refconn_def renew_def split_def Let_def)

lemma connect_ok:
  assumes ok: "counted refs (ch_heap s)" and dead: "\<And>p c. ch_heap s p = Some c \<Longrightarrow> cn_dead c"
    and fresh: "\<And>p. new = Some p \<Longrightarrow> ch_heap s p = None"
  shows "chan_ok refs (let (c, s) = connect_to_dst new g s in s\<lparr>ch_chan := c\<rparr>)"
proof (cases new)
  case None
  moreover have "owners refs None = refs" by (auto simp: owners_def)
  ultimately show ?thesis using ok dead by (auto simp: connect_to_dst_def chan_ok_def)
next
  case (Some p)
  have "owners refs (Some p) = refs(p := 1)" using countedD(2) [OF ok, of p] fresh Some by (auto simp: owners_def)
  then show ?thesis using Some dead ok counted_upd [OF ok, of 1 "Some (connection_new g)" p]
    by (auto simp: connect_to_dst_def chan_ok_def connection_new_def charbuf_new_def split: if_splits)
qed

lemma renew_ok:
  assumes ok: "chan_ok refs s" and fresh: "\<And>p. new = Some p \<Longrightarrow> ch_heap s p = None"
  shows "\<exists>s'. renew new g s = Ret s' \<and> chan_ok refs s'"
proof (cases "ch_chan s")
  case None
  moreover have "owners refs None = refs" by (auto simp: owners_def)
  ultimately show ?thesis using ok connect_ok [of refs s new g] fresh by (auto simp: renew_def chan_ok_def)
next
  case (Some p)
  have own: "counted (owners refs (Some p)) (ch_heap s)" "0 < owners refs (Some p) p"
    using ok Some by (auto simp: chan_ok_def owners_def)
  then obtain c where c: "ch_heap s p = Some c" using countedD(3) by blast
  show ?thesis
  proof (cases "cn_dead c")
    case False
    then show ?thesis using ok Some c by (auto simp: renew_def isdead_at_def)
  next
    case True
    obtain r where r: "decref_at p s = Ret (s\<lparr>ch_heap := (ch_heap s)(p := r)\<rparr>)"
        "counted ((owners refs (Some p))(p := owners refs (Some p) p - 1)) ((ch_heap s)(p := r))"
        "\<forall>c'. r = Some c' \<longrightarrow> cn_dead c'"
      using decref_at_ok [OF own] c True by auto
    have "(owners refs (Some p))(p := owners refs (Some p) p - 1) = refs" by (auto simp: owners_def)
    then have "chan_ok refs (let (c, s) = connect_to_dst new g (s\<lparr>ch_heap := (ch_heap s)(p := r)\<rparr>) in s\<lparr>ch_chan := c\<rparr>)"
      using r ok Some fresh c by (intro connect_ok) (auto simp: chan_ok_def split: if_splits)
    then show ?thesis using Some c True r(1) by (auto simp: renew_def isdead_at_def)
  qed
qed


lemma owners_upd: "owners (refs(p := n)) ch = (owners refs ch)(p := n + (if ch = Some p then 1 else 0))"
  by (auto simp: owners_def)

lemma drop_ok:
  assumes ok: "chan_ok refs s" and p: "0 < refs p"
  shows "\<exists>s'. decref_at p s = Ret s' \<and> chan_ok (refs(p := refs p - 1)) s' \<and> ch_chan s' = ch_chan s"
proof -
  have own: "counted (owners refs (ch_chan s)) (ch_heap s)" "0 < owners refs (ch_chan s) p"
    using ok p by (auto simp: chan_ok_def owners_def)
  have "cn_dead c" if "ch_heap s p = Some c" "owners refs (ch_chan s) p = 1" for c
    using that ok p by (auto simp: chan_ok_def owners_def split: if_splits)
  then obtain r where r: "decref_at p s = Ret (s\<lparr>ch_heap := (ch_heap s)(p := r)\<rparr>)"
      "counted ((owners refs (ch_chan s))(p := owners refs (ch_chan s) p - 1)) ((ch_heap s)(p := r))"
      "\<forall>c'. r = Some c' \<longrightarrow> (\<exists>c. ch_heap s p = Some c \<and> cn_dead c' = cn_dead c)"
    using decref_at_ok [OF own] by blast
  have "owners (refs(p := refs p - 1)) (ch_chan s) = (owners refs (ch_chan s))(p := owners refs (ch_chan s) p - 1)"
    using p by (auto simp: owners_def)
  then have "chan_ok (refs(p := refs p - 1)) (s\<lparr>ch_heap := (ch_heap s)(p := r)\<rparr>)"
    using ok r(2,3) by (auto simp: chan_ok_def split: if_splits)
  then show ?thesis using r(1) by auto
qed

lemma incref_ok:
  assumes ok: "chan_ok refs s" and p: "ch_chan s = Some p"
  shows "\<exists>c. ch_heap s p = Some c \<and> chan_ok (refs(p := refs p + 1)) (s\<lparr>ch_heap := (ch_heap s)(p \<mapsto> cn_incref c)\<rparr>)"
proof -
  have own: "counted (owners refs (Some p)) (ch_heap s)" "0 < owners refs (Some p) p"
    using ok p by (auto simp: chan_ok_def owners_def)
  then obtain c where c: "ch_heap s p = Some c" using countedD(3) by blast
  have "fits_count (owners refs (Some p) p + 1) (Some (cn_incref c))"
    using countedD(1) [OF own(1) c] by (simp add: cn_incref_def)
  from counted_upd [OF own(1) this, of p] show ?thesis
    using c p ok by (auto simp: chan_ok_def owners_upd owners_def split: if_splits)
qed

text \<open>What a call holds after \<^verbatim>\<open>get_refconn\<close>, in terms of what it held before.\<close>

lemma get_refconn_ok:
  assumes ok: "chan_ok refs s" and fresh: "\<And>p. new = Some p \<Longrightarrow> ch_heap s p = None"
    and ch: "\<And>q. ch = Some q \<Longrightarrow> 0 < refs q"
  shows "\<exists>ch' s'. get_refconn new g ch s = Ret (ch', s') \<and>
    (ch' = ch \<and> chan_ok refs s' \<and> ch_chan s' = None \<or>
     (\<exists>p refs'. ch' = Some p \<and> ch_chan s' = Some p \<and> refs' = (case ch of None \<Rightarrow> refs | Some q \<Rightarrow> refs(q := refs q - 1)) \<and>
        chan_ok (refs'(p := refs' p + 1)) s'))"
proof -
  obtain s1 where s1: "renew new g s = Ret s1" "chan_ok refs s1" using renew_ok [OF ok fresh] by blast
  show ?thesis
  proof (cases "ch_chan s1")
    case None
    then show ?thesis using s1 by (simp add: get_refconn_eq)
  next
    case (Some p)
    define refs' where "refs' = (case ch of None \<Rightarrow> refs | Some q \<Rightarrow> refs(q := refs q - 1))"
    obtain s2 where s2: "(case ch of None \<Rightarrow> Ret s1 | Some q \<Rightarrow> decref_at q s1) = Ret s2" "chan_ok refs' s2" "ch_chan s2 = Some p"
      using drop_ok [OF s1(2)] s1(2) Some ch by (cases ch) (auto simp: refs'_def)
    then show ?thesis using s1(1) Some incref_ok [OF s2(2,3)]
      by (auto simp: get_refconn_eq refs'_def)
  qed
qed

section \<open>The calls of a client\<close>

text \<open>
  \<open>cs_refs\<close> are the connections that calls hold. A call starts, transmits again, or ends; a connection fails at any
  time. A step is \<open>None\<close> where it is not possible; a new object has an unused address.
\<close>

record csys =
  cs_chan :: chan
  cs_refs :: "nat multiset"

datatype cact = FirstSend "nat option" byte | Resend nat "nat option" byte | EndCall nat | Fail nat

fun cdo :: "cact \<Rightarrow> csys \<Rightarrow> csys res option" where
  "cdo (FirstSend new g) s =
     (if (\<forall>p. new = Some p \<longrightarrow> ch_heap (cs_chan s) p = None)
      then Some (bind_res (get_refconn new g None (cs_chan s)) (\<lambda>(ch, c).
             Ret \<lparr>cs_chan = c, cs_refs = cs_refs s + (case ch of None \<Rightarrow> {#} | Some p \<Rightarrow> {#p#})\<rparr>))
      else None)"
| "cdo (Resend q new g) s =
     (if q \<in># cs_refs s \<and> (\<forall>p. new = Some p \<longrightarrow> ch_heap (cs_chan s) p = None)
      then Some (bind_res (get_refconn new g (Some q) (cs_chan s)) (\<lambda>(ch, c).
             Ret \<lparr>cs_chan = c, cs_refs = cs_refs s - {#q#} + (case ch of None \<Rightarrow> {#} | Some p \<Rightarrow> {#p#})\<rparr>))
      else None)"
| "cdo (EndCall q) s =
     (if q \<in># cs_refs s
      then Some (bind_res (decref_at q (cs_chan s)) (\<lambda>c. Ret \<lparr>cs_chan = c, cs_refs = cs_refs s - {#q#}\<rparr>))
      else None)"
| "cdo (Fail p) s =
     (case ch_heap (cs_chan s) p of
        None \<Rightarrow> None
      | Some c \<Rightarrow> Some (Ret (s\<lparr>cs_chan := (cs_chan s)\<lparr>ch_heap := (ch_heap (cs_chan s))(p \<mapsto> c\<lparr>cn_dead := True\<rparr>)\<rparr>\<rparr>)))"

definition csys_new :: csys where
  "csys_new = \<lparr>cs_chan = chan_new, cs_refs = {#}\<rparr>"

inductive creach :: "csys \<Rightarrow> bool" where
  creach_new: "creach csys_new"
| creach_do: "creach s \<Longrightarrow> cdo x s = Some (Ret s') \<Longrightarrow> creach s'"

definition csys_ok :: "csys \<Rightarrow> bool" where
  "csys_ok s \<longleftrightarrow> chan_ok (count (cs_refs s)) (cs_chan s)"

lemma count_add1: "count (M + {#p#}) = (count M)(p := count M p + 1)" by auto
lemma count_sub1: "count (M - {#p#}) = (count M)(p := count M p - 1)" by auto

lemma fail_ok: "chan_ok refs s \<Longrightarrow> ch_heap s p = Some c \<Longrightarrow> chan_ok refs (s\<lparr>ch_heap := (ch_heap s)(p \<mapsto> c\<lparr>cn_dead := True\<rparr>)\<rparr>)"
  using counted_upd [of "owners refs (ch_chan s)" "ch_heap s" "owners refs (ch_chan s) p" "Some (c\<lparr>cn_dead := True\<rparr>)" p]
    countedD(1) [of "owners refs (ch_chan s)" "ch_heap s" p c]
  by (auto simp: chan_ok_def split: if_splits)

lemma cdo_ok:
  assumes ok: "csys_ok s" and x: "cdo x s = Some r"
  shows "\<exists>s'. r = Ret s' \<and> csys_ok s'"
proof (cases x)
  case (FirstSend new g)
  then show ?thesis using x get_refconn_ok [OF ok [unfolded csys_ok_def], of new None g]
    by (auto simp: csys_ok_def count_add1 [simplified] split: if_splits)
next
  case (Resend q new g)
  then show ?thesis using x get_refconn_ok [OF ok [unfolded csys_ok_def], of new "Some q" g]
    by (auto simp: csys_ok_def count_add1 [simplified] count_sub1 split: if_splits)
next
  case (EndCall q)
  then show ?thesis using x drop_ok [OF ok [unfolded csys_ok_def], of q]
    by (auto simp: csys_ok_def count_sub1 split: if_splits)
next
  case (Fail p)
  then show ?thesis using x ok fail_ok [of "count (cs_refs s)" "cs_chan s" p] by (auto simp: csys_ok_def split: option.splits)
qed

lemma creach_ok: "creach s \<Longrightarrow> csys_ok s"
proof (induction rule: creach.induct)
  case creach_new
  then show ?case by (auto simp: csys_ok_def csys_new_def chan_new_def chan_ok_def counted_iff owners_def)
qed (auto dest: cdo_ok)


section \<open>The listening side: lemmas\<close>

definition in_use :: "connection \<Rightarrow> bool" where
  "in_use c \<longleftrightarrow> \<not> (cn_dead c \<and> cn_refno c = 1)"

text \<open>No PDU is being written on a connection that nobody but the table holds.\<close>

definition idle_ok :: "connection \<Rightarrow> bool" where
  "idle_ok c \<longleftrightarrow> 1 \<le> cn_refno c \<and> (cn_refno c = 1 \<longrightarrow> cb_buf (cn_wpdu c) = None)"

lemma gc_conns_spec:
  "(\<And>fd c. (fd, c) \<in> set m \<Longrightarrow> idle_ok c) \<Longrightarrow> gc_conns m = Ret (filter (\<lambda>(fd, c). in_use c) m)"
proof (induction m)
  case (Cons x m)
  obtain fd c where x: "x = (fd, c)" by force
  have "idle_ok c" using Cons.prems [of fd c] x by simp
  then show ?case using Cons by (auto simp: x in_use_def idle_ok_def cn_decref_def Let_def)
qed simp

lemma mfind_filter:
  "mwf m \<Longrightarrow> mfind (filter (\<lambda>(k, v). P v) m) k = (case mfind m k of None \<Rightarrow> None | Some v \<Rightarrow> if P v then Some v else None)"
proof (induction m)
  case (Cons x m)
  obtain k' v where x: "x = (k', v)" by force
  have "mfind m k' = None" using Cons.prems x by (auto simp: mfind_None_iff mwf_def mkeys_def)
  then show ?case using Cons x by (auto split: option.splits)
qed simp

lemma mwf_filter: "mwf m \<Longrightarrow> mwf (filter P m)"
  by (induction m) (auto simp: mwf_def)

definition new_conns :: "(sel_ans \<times> (nat \<times> connection) option) list \<Rightarrow> (nat \<times> connection) list" where
  "new_conns evs = List.map_filter snd evs"

lemma new_conns_simps [simp]:
  "new_conns [] = []"
  "new_conns ((a, None) # evs) = new_conns evs"
  "new_conns ((a, Some x) # evs) = x # new_conns evs"
  by (auto simp: new_conns_def List.map_filter_simps)

lemma set_mput_sub: "set (mput k v m) \<subseteq> insert (k, v) (set m)"
  by (induction k v m rule: mput.induct) auto

lemma process_accept_spec:
  assumes "mwf m" and "\<forall>(fd, c) \<in> set m. idle_ok c" and "idle_ok ch"
  shows "\<exists>m'. process_accept fd ch m = Ret m' \<and> mwf m' \<and> (\<forall>(fd, c) \<in> set m'. idle_ok c) \<and>
    (\<forall>fd'. mfind m' fd' = (if fd' = fd then Some ch else
       case mfind m fd' of None \<Rightarrow> None | Some c \<Rightarrow> if in_use c then Some c else None))"
proof -
  let ?m' = "mput fd ch (filter (\<lambda>(fd, c). in_use c) m)"
  have "process_accept fd ch m = Ret ?m'" using gc_conns_spec [of m] assms(2) by (auto simp: process_accept_def)
  moreover have "mwf ?m'" using assms(1) by (simp add: mwf_mput mwf_filter)
  moreover have "\<forall>(fd, c) \<in> set ?m'. idle_ok c"
    using assms(2,3) set_mput_sub [of fd ch "filter (\<lambda>(fd, c). in_use c) m"] by auto
  ultimately show ?thesis using mfind_filter [OF assms(1)] by auto
qed

lemma chan_end:
  assumes "cs_refs s = {#}" and "counted (owners (count (cs_refs s)) (ch_chan (cs_chan s))) (ch_heap (cs_chan s))"
  shows "\<exists>t. rpcc_end (cs_chan s) = Ret t \<and> ch_heap t = (\<lambda>_. None)"
proof (cases "ch_chan (cs_chan s)")
  case None
  then have "ch_heap (cs_chan s) p = None" for p
    using countedD(1) [OF assms(2), of p] assms(1) by (cases "ch_heap (cs_chan s) p") (auto simp: owners_def)
  then show ?thesis using None by (auto simp: rpcc_end_def)
next
  case (Some p)
  have other: "ch_heap (cs_chan s) q = None" if "q \<noteq> p" for q
    using countedD(1) [OF assms(2), of q] assms(1) Some that by (cases "ch_heap (cs_chan s) q") (auto simp: owners_def)
  obtain c where c: "ch_heap (cs_chan s) p = Some c" using countedD(3) [OF assms(2), of p] Some by (auto simp: owners_def)
  moreover have "cn_refno c = 1" "cb_buf (cn_wpdu c) = None"
    using countedD(1) [OF assms(2) c] Some assms(1) by (auto simp: owners_def)
  ultimately show ?thesis using Some other
    by (auto simp: rpcc_end_def decref_at_def cn_decref_def closeconn_def Let_def fun_eq_iff)
qed

section \<open>Properties\<close>

text \<open>
  However the calls of a client start, retransmit and end, and whenever connections fail, no call ever uses a connection
  object that was freed and no check of a reference count fails.
\<close>
theorem channel_calls_safe:
  assumes "creach s" and "cdo x s = Some r"
  shows "\<exists>s'. r = Ret s'"
  using cdo_ok [OF creach_ok [OF assms(1)] assms(2)] by blast

text \<open>
  C30. A connection object exists exactly as long as it is the current connection of the client or some call holds it, and its counter is
  the number of those who do: none leaks. Destroying the client, when no calls are left, frees the
  last one.
\<close>
theorem channel_objects_exact:
  assumes "creach s"
  shows "(\<forall>p. ch_heap (cs_chan s) p \<noteq> None \<longleftrightarrow> ch_chan (cs_chan s) = Some p \<or> p \<in># cs_refs s) \<and>
    (\<forall>p c. ch_heap (cs_chan s) p = Some c \<longrightarrow>
       cn_refno c = int (count (cs_refs s) p) + (if ch_chan (cs_chan s) = Some p then 1 else 0)) \<and>
    (cs_refs s = {#} \<longrightarrow> (\<exists>t. rpcc_end (cs_chan s) = Ret t \<and> ch_heap t = (\<lambda>_. None)))"
proof -
  let ?own = "owners (count (cs_refs s)) (ch_chan (cs_chan s))"
  have ok: "counted ?own (ch_heap (cs_chan s))"
    using creach_ok [OF assms] by (auto simp: csys_ok_def chan_ok_def)
  have "ch_heap (cs_chan s) p \<noteq> None \<longleftrightarrow> 0 < ?own p" for p
    using countedD [OF ok, of p] by (cases "ch_heap (cs_chan s) p") auto
  then have "\<forall>p. ch_heap (cs_chan s) p \<noteq> None \<longleftrightarrow> ch_chan (cs_chan s) = Some p \<or> p \<in># cs_refs s"
    by (auto simp: owners_def)
  moreover have "\<forall>p c. ch_heap (cs_chan s) p = Some c \<longrightarrow>
      cn_refno c = int (count (cs_refs s) p) + (if ch_chan (cs_chan s) = Some p then 1 else 0)"
    using countedD(1) [OF ok] by (auto simp: owners_def)
  ultimately show ?thesis using chan_end [OF _ ok] by blast
qed

text \<open>
  An address \<^verbatim>\<open>host:port\<close> is taken apart at the colon; the host is resolved and the port, read back in host byte order, is
  the number that was written. A string without a colon is a port of this machine.
\<close>
theorem make_sockaddr_reads_address:
  assumes "CHR '':'' \<notin> set host" and "length host < 200" and "inet_addr host \<noteq> INADDR_NONE" and "port < 2 ^ 16"
  shows "\<exists>a. make_sockaddr inet_addr gethostbyname (host @ '':'' @ show_nat port) = Ret (Some a) \<and>
      sin_addr a = inet_addr host \<and> unat (ntohs (sin_port a)) = port"
    and "make_sockaddr inet_addr gethostbyname (show_nat port) =
      make_sockaddr inet_addr gethostbyname (''127.0.0.1:'' @ show_nat port)"
proof -
  have p: "unat (ntohs (htons (atoi (show_nat port)))) = port"
    using assms(4) by (simp add: atoi_show ntohs_htons unat_of_nat)
  have t: "takeWhile (\<lambda>c. c \<noteq> CHR '':'') (host @ '':'' @ show_nat port) = host"
    "dropWhile (\<lambda>c. c \<noteq> CHR '':'') (host @ '':'' @ show_nat port) = '':'' @ show_nat port"
    using assms(1) by (simp_all add: takeWhile_append dropWhile_append)
  then show "\<exists>a. make_sockaddr inet_addr gethostbyname (host @ '':'' @ show_nat port) = Ret (Some a) \<and>
      sin_addr a = inet_addr host \<and> unat (ntohs (sin_port a)) = port"
    using assms(2,3) p by (simp add: make_sockaddr_def make_sockaddr2_def Let_def)
  have "CHR '':'' \<notin> set (show_nat port)" using show_nat_digits [of port] by (auto simp: is_digit_def)
  then show "make_sockaddr inet_addr gethostbyname (show_nat port) =
      make_sockaddr inet_addr gethostbyname (''127.0.0.1:'' @ show_nat port)"
    by (simp add: make_sockaddr_def Let_def)
qed

text \<open>A host name of 200 characters or more is copied past the end of a local array.\<close>
theorem long_host_overflows:
  assumes "CHR '':'' \<notin> set host" and "200 \<le> length host"
  shows "make_sockaddr inet_addr gethostbyname (host @ '':'' @ port) = Fault Bad_access"
  using assms by (simp add: make_sockaddr_def takeWhile_append Let_def)

text \<open>The comparison of addresses is a strict total order, as the maps keyed by addresses need.\<close>
theorem sockaddr_order:
  "\<not> sockaddr_less a a \<and> (sockaddr_less a b \<and> sockaddr_less b c \<longrightarrow> sockaddr_less a c) \<and>
   (sockaddr_less a b \<or> sockaddr_less b a \<or> a = b)"
  by (cases a; cases b; cases c) (auto simp: sockaddr_less_def)

text \<open>
  The thread that accepts connections collects only connections that are dead and held by nobody else: every other one in
  its table stays until the thread ends, as long as the descriptor is not handed out a second time.
\<close>
theorem accept_keeps_connections:
  assumes "mwf m" and "\<forall>(fd, c) \<in> set m. idle_ok c" and "\<forall>(fd, c) \<in> set (new_conns evs). idle_ok c"
    and "accept_conn evs m = Ret m'" and "mfind m fd = Some c" and "in_use c" and "fd \<notin> fst ` set (new_conns evs)"
  shows "mfind m' fd = Some c"
  using assms
proof (induction evs m rule: accept_conn.induct)
  case (2 a evs m)
  then show ?case by (cases a) auto
next
  case (4 pipe tcp a evs m)
  show ?case
  proof (cases "pipe \<or> \<not> tcp \<or> a = None")
    case True
    then show ?thesis using 4 by (auto split: if_splits)
  next
    case False
    then obtain nfd ch where a: "a = Some (nfd, ch)" and b: "\<not> pipe" "tcp" by auto
    have "idle_ok ch" using 4(4) a by auto
    then obtain m1 where m1: "process_accept nfd ch m = Ret m1" "mwf m1" "\<forall>(fd, c) \<in> set m1. idle_ok c"
        "\<forall>fd'. mfind m1 fd' = (if fd' = nfd then Some ch else
           case mfind m fd' of None \<Rightarrow> None | Some c \<Rightarrow> if in_use c then Some c else None)"
      using process_accept_spec [OF 4(2,3)] by blast
    then show ?thesis using 4 a b by (auto split: if_splits)
  qed
qed (auto split: option.splits)


text \<open>A client with one connection, held by one call; then the connection fails.\<close>

definition csys_one :: csys where
  "csys_one = \<lparr>cs_chan = \<lparr>ch_heap = [3 \<mapsto> (connection_new 0)\<lparr>cn_refno := 2\<rparr>], ch_chan = Some 3\<rparr>, cs_refs = {#3#}\<rparr>"

lemma csys_one_reach: "creach csys_one"
proof (rule creach_do [OF creach_new])
  show "cdo (FirstSend (Some 3) 0) csys_new = Some (Ret csys_one)"
    by (simp add: csys_new_def chan_new_def csys_one_def get_refconn_def connect_to_dst_def cn_incref_def connection_new_def Let_def)
qed

theorem channel_calls_safe_witness: "\<exists>s'. cdo (Resend 3 (Some 4) 0) csys_one = Some (Ret s')"
proof -
  obtain r where "cdo (Resend 3 (Some 4) 0) csys_one = Some r" by (simp add: csys_one_def)
  then show ?thesis using channel_calls_safe [OF csys_one_reach] by blast
qed

theorem channel_objects_exact_witness:
  "ch_heap (cs_chan csys_one) 4 = None \<and> (\<exists>t. rpcc_end (cs_chan csys_new) = Ret t \<and> ch_heap t = (\<lambda>_. None))"
  using channel_objects_exact [OF csys_one_reach] channel_objects_exact [OF creach_new]
  by (auto simp: csys_one_def csys_new_def)

theorem make_sockaddr_reads_address_witness:
  "\<exists>a. make_sockaddr (\<lambda>_. 0x0100007f) (\<lambda>_. None) (''127.0.0.1'' @ '':'' @ show_nat 3772) = Ret (Some a) \<and>
      sin_addr a = 0x0100007f \<and> unat (ntohs (sin_port a)) = 3772"
  using make_sockaddr_reads_address(1) [of "''127.0.0.1''" "\<lambda>_. 0x0100007f" 3772 "\<lambda>_. None"] by (simp add: INADDR_NONE_def)

theorem long_host_overflows_witness:
  "make_sockaddr (\<lambda>_. 0) (\<lambda>_. None) (replicate 200 CHR ''a'' @ '':'' @ ''1'') = Fault Bad_access"
  by (rule long_host_overflows) simp_all

theorem sockaddr_order_witness:
  "sockaddr_less \<lparr>sin_addr = 1, sin_port = 2\<rparr> \<lparr>sin_addr = 2, sin_port = 1\<rparr> \<and> \<not> sockaddr_less \<lparr>sin_addr = 1, sin_port = 2\<rparr> \<lparr>sin_addr = 1, sin_port = 2\<rparr>"
  using sockaddr_order [of "\<lparr>sin_addr = 1, sin_port = 2\<rparr>"] by (simp add: sockaddr_less_def)

theorem accept_keeps_connections_witness:
  "\<exists>m'. accept_conn [(SelReady False True, Some (7, connection_new 0)), (SelReady True False, None)] [(5, connection_new 0)] = Ret m' \<and>
     mfind m' 5 = Some (connection_new 0)"
proof -
  let ?evs = "[(SelReady False True, Some (7, connection_new 0)), (SelReady True False, None)]"
  obtain m' where m': "accept_conn ?evs [(5, connection_new 0)] = Ret m'"
    by (simp add: process_accept_def connection_new_def)
  have "mfind m' 5 = Some (connection_new 0)"
    by (rule accept_keeps_connections [of "[(5, connection_new 0)]" ?evs, OF _ _ _ m'])
       (auto simp: idle_ok_def in_use_def connection_new_def charbuf_new_def)
  then show ?thesis using m' by blast
qed

end
