(* ===== verification/Rpc_Client.thy ===== *)
theory Rpc_Client
  imports Rpc_Server
begin

text \<open>
  The client end of the RPC library, class \<^verbatim>\<open>rpcc\<close> of \<^verbatim>\<open>rpc/rpc.h\<close> and \<^verbatim>\<open>rpc/rpc.cc\<close>: request
  numbers, the window of received replies, the matching of replies to callers, cancellation, and
  the retransmission loop of \<^verbatim>\<open>rpcc::call1\<close> with its \<^verbatim>\<open>timespec\<close> arithmetic.

  \<^verbatim>\<open>call1\<close> releases its locks while it waits, so it is split where it does: \<open>call1_begin\<close> is the
  first critical section, \<open>call1_loop\<close> the loop, driven by what the clock, the caller's condition
  variable and the connection report in each round, and \<open>call1_end\<close> the rest.
\<close>

section \<open>Time\<close>

record timespec =
  tv_sec :: int
  tv_nsec :: int

definition cmp_timespec :: "timespec \<Rightarrow> timespec \<Rightarrow> int" where
  "cmp_timespec a b =
     (if tv_sec a > tv_sec b then 1
      else if tv_sec a < tv_sec b then -1
      else if tv_nsec a > tv_nsec b then 1
      else if tv_nsec a < tv_nsec b then -1
      else 0)"

text \<open>C's division truncates towards zero.\<close>

definition trunc_div :: "int \<Rightarrow> int \<Rightarrow> int" where
  "trunc_div a b = sgn a * sgn b * (\<bar>a\<bar> div \<bar>b\<bar>)"

definition trunc_mod :: "int \<Rightarrow> int \<Rightarrow> int" where
  "trunc_mod a b = a - b * trunc_div a b"

function norm_nsec :: "int \<Rightarrow> int \<Rightarrow> int \<times> int" where
  "norm_nsec sec nsec =
     (if nsec > 1000000000 then norm_nsec (sec + 1) (nsec - 1000000000) else (sec, nsec))"
  by pat_completeness auto
termination
  by (relation "measure (\<lambda>(sec, nsec). nat nsec)") auto

declare norm_nsec.simps [simp del]

definition add_timespec :: "timespec \<Rightarrow> int \<Rightarrow> timespec res" where
  "add_timespec a b =
     (let sec = tv_sec a + trunc_div b 1000;
          nsec = tv_nsec a + trunc_mod b 1000 * 1000000
      in verify (nsec \<ge> 0)
           (let (sec, nsec) = norm_nsec sec nsec in Ret \<lparr>tv_sec = sec, tv_nsec = nsec\<rparr>))"

definition diff_timespec :: "timespec \<Rightarrow> timespec \<Rightarrow> int res" where
  "diff_timespec fin start =
     (let diff = (if tv_sec fin > tv_sec start then (tv_sec fin - tv_sec start) * 1000 else 0)
      in verify (diff \<noteq> 0 \<or> tv_sec fin = tv_sec start)
           (if tv_nsec fin > tv_nsec start
            then Ret (diff + trunc_div (tv_nsec fin - tv_nsec start) 1000000)
            else Ret (diff - trunc_div (tv_nsec start - tv_nsec fin) 1000000)))"

section \<open>The window of received replies\<close>

text \<open>\<^verbatim>\<open>xid_rep_window_.insert\<close>: in front of the first larger element.\<close>

fun ins_xid :: "u32 \<Rightarrow> u32 list \<Rightarrow> u32 list" where
  "ins_xid x [] = [x]"
| "ins_xid x (y # ys) = (if y > x then x # y # ys else y # ins_xid x ys)"

text \<open>
  The loop at \<^verbatim>\<open>compress\<close>. \<open>pre\<close> is the list from the front up to the iterator: as long as its
  first element plus one is the element under the iterator, the front is popped. (The front is
  never the element under the iterator, as \<open>x + 1 \<noteq> x\<close>, so \<open>pre\<close> is not emptied by the pops.)
\<close>

fun pop_front :: "u32 \<Rightarrow> u32 list \<Rightarrow> u32 list" where
  "pop_front y [] = []"
| "pop_front y (p # ps) = (if p + 1 = y then pop_front y ps else p # ps)"

fun compress :: "u32 list \<Rightarrow> u32 list \<Rightarrow> u32 list" where
  "compress pre [] = pre"
| "compress pre (y # ys) = compress (pop_front y (pre @ [y])) ys"

definition update_xid_window :: "u32 \<Rightarrow> u32 list \<Rightarrow> u32 list" where
  "update_xid_window xid w =
     (if xid \<le> hd w then w
      else (let w = ins_xid xid w in compress [hd w] (tl w)))"

section \<open>Client state\<close>

record caller =
  ca_xid :: u32
  ca_un :: unmarshall
  ca_intret :: u32
  ca_done :: bool

record rpcc =
  clt_nonce :: u32
  srv_nonce :: u32
  bind_done :: bool
  xid_ctr :: u32
  lossytest :: int
  retrans :: bool
  reachable :: bool
  destroy_wait :: bool
  calls :: "(u32, caller) smap"
  xid_rep_window :: "u32 list"
  dup_req :: "(u32 \<times> byte list) option"
  xid_rep_done :: u32

text \<open>
  The constructor; \<open>rnd\<close> is the value of \<^verbatim>\<open>random()\<close>, \<open>lossy\<close> that of \<^verbatim>\<open>RPC_LOSSY\<close>.
\<close>

definition rpcc_new :: "bool \<Rightarrow> u32 \<Rightarrow> int \<Rightarrow> rpcc" where
  "rpcc_new retr rnd lossy =
     \<lparr>clt_nonce = (if retr then rnd else 0), srv_nonce = 0, bind_done = False, xid_ctr = 1,
      lossytest = lossy, retrans = retr, reachable = True, destroy_wait = False, calls = [],
      xid_rep_window = [0], dup_req = None, xid_rep_done = -1\<rparr>"

definition update_xid_rep :: "u32 \<Rightarrow> rpcc \<Rightarrow> rpcc" where
  "update_xid_rep xid s = s\<lparr>xid_rep_window := update_xid_window xid (xid_rep_window s)\<rparr>"

text \<open>The first critical section of \<^verbatim>\<open>call1\<close>: refuse, or number and register the call.\<close>

definition call1_begin ::
  "u32 \<Rightarrow> marshall \<Rightarrow> u32 \<Rightarrow> rpcc \<Rightarrow> ((u32 + u32 \<times> u32 \<times> marshall) \<times> rpcc) res" where
  "call1_begin proc req junk s =
     (if (proc \<noteq> rpc_const_bind \<and> \<not> bind_done s) \<or> (proc = rpc_const_bind \<and> bind_done s)
      then Ret (Inl bind_failure, s)
      else if destroy_wait s then Ret (Inl cancel_failure, s)
      else (let xid = xid_ctr s;
                s = s\<lparr>xid_ctr := xid_ctr s + 1,
                      calls := mput xid \<lparr>ca_xid = xid, ca_un = unmarshall_empty, ca_intret = junk,
                                         ca_done = False\<rparr> (calls s)\<rparr>;
                rep = hd (xid_rep_window s)
            in bind_res (pack_req_header \<lparr>rq_xid = xid, rq_proc = proc, rq_clt_nonce = clt_nonce s,
                           rq_srv_nonce = srv_nonce s, rq_xid_rep = rep\<rparr> req)
                 (\<lambda>req. Ret (Inr (xid, rep, req), s))))"

text \<open>
  One transmission: a remembered request is sent again first when a reply to a later one has
  been acknowledged (the loss test), then the request itself.
\<close>

definition call1_transmit :: "byte list \<Rightarrow> rpcc \<Rightarrow> byte list list \<times> rpcc" where
  "call1_transmit req s =
     (if reachable s
      then (case dup_req s of
              Some (x, b) \<Rightarrow> if sint (xid_rep_done s) > sint x then ([b, req], s\<lparr>dup_req := None\<rparr>)
                             else ([req], s)
            | None \<Rightarrow> ([req], s))
      else ([], s))"

text \<open>
  The loop. Each round reads the clock (\<open>ob_now\<close>), waits until the caller is done
  (\<open>ob_done\<close>) or the round's deadline passes, and then asks whether the connection is dead
  (\<open>ob_dead\<close>). \<open>retr\<close> is \<^verbatim>\<open>retrans_\<close>, \<open>conn\<close> tells per transmission whether a connection was
  there. The result is whether the call is done and how many transmissions were made; \<open>Stuck\<close>
  when the list of observations ends before the loop does.
\<close>

record round_obs =
  ob_now :: timespec
  ob_conn :: bool
  ob_done :: bool
  ob_dead :: bool

fun call1_loop :: "bool \<Rightarrow> int \<Rightarrow> timespec \<Rightarrow> bool \<Rightarrow> nat \<Rightarrow> round_obs list \<Rightarrow> (bool \<times> nat) res" where
  "call1_loop retr curr_to final transmit n [] = Stuck"
| "call1_loop retr curr_to final transmit n (ob # obs) =
     (let n = (if transmit \<and> ob_conn ob then n + 1 else n) in
      if tv_sec final = 0 then Ret (False, n)
      else bind_res (add_timespec (ob_now ob) curr_to) (\<lambda>nextd.
        let final = (if cmp_timespec nextd final > 0 then final\<lparr>tv_sec := 0\<rparr> else final)
        in if ob_done ob then Ret (True, n)
           else call1_loop retr (curr_to * 2) final (retr \<and> (\<not> ob_conn ob \<or> ob_dead ob)) n obs))"

definition call1_wait :: "bool \<Rightarrow> timespec \<Rightarrow> int \<Rightarrow> round_obs list \<Rightarrow> (bool \<times> nat) res" where
  "call1_wait retr start to obs =
     bind_res (add_timespec start to) (\<lambda>final. call1_loop retr 1000 final True 0 obs)"

text \<open>The end of \<^verbatim>\<open>call1\<close>: unregister, acknowledge, remember the request for the loss test.\<close>

definition call1_end :: "u32 \<Rightarrow> u32 \<Rightarrow> byte list \<Rightarrow> rpcc \<Rightarrow> (u32 \<times> rpcc) res" where
  "call1_end xid xid_rep req s =
     (case mfind (calls s) xid of
        None \<Rightarrow> Fault Bad_access
      | Some ca \<Rightarrow>
          let s = update_xid_rep (ca_xid ca) (s\<lparr>calls := merase xid (calls s)\<rparr>);
              s = (if ca_done ca \<and> lossytest s \<noteq> 0
                   then (let s = (if dup_req s = None then s\<lparr>dup_req := Some (ca_xid ca, req)\<rparr> else s)
                         in if sint xid_rep > sint (xid_rep_done s) then s\<lparr>xid_rep_done := xid_rep\<rparr> else s)
                   else s)
          in Ret (if ca_done ca then ca_intret ca else timeout_failure, s))"

text \<open>The upcall with a reply.\<close>

definition rpcc_got_pdu :: "byte list \<Rightarrow> rpcc \<Rightarrow> (bool \<times> rpcc) res" where
  "rpcc_got_pdu b s =
     bind_res (unpack_reply_header (unmarshall_new b)) (\<lambda>(h, rep).
       if \<not> uok rep then Ret (True, s)
       else (let s = update_xid_rep (rp_xid h) s in
             case mfind (calls s) (rp_xid h) of
               None \<Rightarrow> Ret (True, s)
             | Some ca \<Rightarrow>
                 let ca = (if \<not> ca_done ca
                           then ca\<lparr>ca_un := fst (take_in rep (ca_un ca)), ca_intret := rp_ret h, ca_done := True\<rparr>
                           else ca)
                 in Ret (True, s\<lparr>calls := mput (rp_xid h) ca (calls s)\<rparr>)))"

text \<open>\<^verbatim>\<open>cancel\<close> up to the wait for the callers to leave.\<close>

definition cancel_calls :: "rpcc \<Rightarrow> rpcc" where
  "cancel_calls s =
     (let s = s\<lparr>calls := map (\<lambda>(x, ca). (x, ca\<lparr>ca_done := True, ca_intret := cancel_failure\<rparr>)) (calls s)\<rparr>
      in if calls s \<noteq> [] then s\<lparr>destroy_wait := True\<rparr> else s)"

text \<open>
  \<^verbatim>\<open>bind\<close> after its call has returned \<open>ret\<close> with the nonce \<open>r\<close>, and \<^verbatim>\<open>call_m\<close> after \<^verbatim>\<open>call1\<close>:
  a reply that does not decode completely ends the process.
\<close>

definition bind_finish :: "u32 \<Rightarrow> u32 \<Rightarrow> rpcc \<Rightarrow> rpcc" where
  "bind_finish ret r s = (if ret = 0 then s\<lparr>bind_done := True, srv_nonce := r\<rparr> else s)"

definition call_m_finish ::
  "(unmarshall \<Rightarrow> ('r \<times> unmarshall) res) \<Rightarrow> 'r \<Rightarrow> u32 \<Rightarrow> unmarshall \<Rightarrow> (u32 \<times> 'r) res" where
  "call_m_finish getr r0 intret u =
     (if sint intret < 0 then Ret (intret, r0)
      else bind_res (getr u) (\<lambda>(r, u). verify (okdone u) (Ret (intret, r))))"

section \<open>The window is the set of answered requests\<close>

definition answered :: "u32 list \<Rightarrow> u32 set" where
  "answered w = {x. x \<le> hd w} \<union> set w"

definition xw_inv :: "u32 list \<Rightarrow> bool" where
  "xw_inv w \<longleftrightarrow> w \<noteq> [] \<and> sorted w \<and> hd w + 1 \<notin> set w"

lemma word_between: "(h :: u32) \<le> p \<Longrightarrow> p \<le> h + 1 \<Longrightarrow> p = h \<or> p = h + 1"
  by (metis antisym_conv1 inc_le order_antisym_conv)

lemma pop_front_replicate: "h + 1 = y \<Longrightarrow> pop_front y (replicate n h @ [y]) = [y]"
  by (induction n) auto

lemma pop_front_step:
  assumes "sorted (pre @ [y])" and "pre \<noteq> []" and "hd pre + 1 \<notin> set pre"
  shows "pop_front y (pre @ [y]) = (if hd pre + 1 = y then [y] else pre @ [y])"
proof (cases "hd pre + 1 = y")
  case True
  have "p = hd pre" if "p \<in> set pre" for p
  proof -
    have "hd pre \<le> p" using that assms(1) by (cases pre) (auto simp: sorted_append)
    moreover have "p \<le> hd pre + 1" using that assms(1) True by (auto simp: sorted_append)
    ultimately show ?thesis using word_between assms(3) that by metis
  qed
  then have "pre = replicate (length pre) (hd pre)" by (metis replicate_eqI)
  then show ?thesis using pop_front_replicate [OF True, of "length pre"] True by simp
next
  case False
  then show ?thesis using assms(2) by (cases pre) auto
qed

lemma answered_step:
  assumes "sorted (pre @ [y])" and "pre \<noteq> []" and "hd pre + 1 = y" and "y \<notin> set pre"
  shows "answered ([y] @ ys) = answered (pre @ y # ys)"
proof -
  have p: "p = hd pre" if "p \<in> set pre" for p
  proof -
    have "hd pre \<le> p" using that assms(1) by (cases pre) (auto simp: sorted_append)
    moreover have "p \<le> hd pre + 1" using that assms(1,3) by (auto simp: sorted_append)
    ultimately show ?thesis using word_between assms(3,4) that by metis
  qed
  have "hd pre \<le> y" using assms(1,2) by (cases pre) (auto simp: sorted_append)
  then have "{x. x \<le> y} = insert y {x. x \<le> hd pre}"
    using assms(3) by (auto intro: order.trans) (metis inc_le linorder_not_le order_antisym)
  moreover have "set pre = {hd pre}" using p assms(2) by auto
  ultimately show ?thesis using assms(2) by (auto simp: answered_def)
qed

lemma compress_spec:
  "sorted (pre @ ys) \<Longrightarrow> pre \<noteq> [] \<Longrightarrow> hd pre + 1 \<notin> set pre \<Longrightarrow>
   xw_inv (compress pre ys) \<and> answered (compress pre ys) = answered (pre @ ys)"
proof (induction ys arbitrary: pre)
  case Nil
  then show ?case by (simp add: xw_inv_def)
next
  case (Cons y ys)
  have srt: "sorted (pre @ [y])" using Cons.prems(1) by (auto simp: sorted_append)
  show ?case
  proof (cases "hd pre + 1 = y")
    case True
    have "pop_front y (pre @ [y]) = [y]" using pop_front_step [OF srt Cons.prems(2,3)] True by simp
    then show ?thesis
      using Cons.IH [of "[y]"] answered_step [OF srt Cons.prems(2) True] Cons.prems True
      by (simp add: sorted_append)
  next
    case False
    have "pop_front y (pre @ [y]) = pre @ [y]" using pop_front_step [OF srt Cons.prems(2,3)] False by simp
    then show ?thesis using Cons.IH [of "pre @ [y]"] Cons.prems False by simp
  qed
qed

lemma set_ins_xid [simp]: "set (ins_xid x w) = insert x (set w)"
  by (induction w) auto

lemma sorted_ins_xid: "sorted w \<Longrightarrow> sorted (ins_xid x w)"
  by (induction w) (auto simp: not_less)

lemma update_window_spec:
  assumes "xw_inv w"
  shows "xw_inv (update_xid_window x w)" and "answered (update_xid_window x w) = insert x (answered w)"
proof -
  have "xw_inv (update_xid_window x w) \<and> answered (update_xid_window x w) = insert x (answered w)"
  proof (cases "x \<le> hd w")
    case True
    then show ?thesis using assms by (auto simp: update_xid_window_def answered_def)
  next
    case False
    obtain h t where w: "w = h # t" using assms by (cases w) (auto simp: xw_inv_def)
    have ins: "ins_xid x w = h # ins_xid x t" using False w by (simp add: not_le less_imp_le leD)
    have "sorted ([h] @ ins_xid x t)" using assms sorted_ins_xid [of w x] ins by (simp add: xw_inv_def)
    then have "xw_inv (compress [h] (ins_xid x t)) \<and>
        answered (compress [h] (ins_xid x t)) = answered ([h] @ ins_xid x t)"
      by (intro compress_spec) auto
    then show ?thesis using False w ins by (auto simp: update_xid_window_def answered_def Let_def)
  qed
  then show "xw_inv (update_xid_window x w)" "answered (update_xid_window x w) = insert x (answered w)"
    by blast+
qed

section \<open>Reachable client states\<close>

text \<open>
  The states of an \<^verbatim>\<open>rpcc\<close> object: calls begin and end, replies arrive that answer requests the
  object has sent (fewer than \<open>2^32\<close> of them), the server's nonce is learnt, calls are cancelled.
\<close>

inductive rpcc_run :: "rpcc \<Rightarrow> bool" where
  run_new: "rpcc_run (rpcc_new retr rnd lossy)"
| run_begin: "rpcc_run s \<Longrightarrow> call1_begin proc req junk s = Ret (r, s') \<Longrightarrow> xid_ctr s + 1 \<noteq> 0 \<Longrightarrow> rpcc_run s'"
| run_send: "rpcc_run s \<Longrightarrow> call1_transmit b s = (ms, s') \<Longrightarrow> rpcc_run s'"
| run_reply: "rpcc_run s \<Longrightarrow> unpack_reply_header (unmarshall_new b) = Ret (h, u) \<Longrightarrow> rp_xid h < xid_ctr s \<Longrightarrow>
     rpcc_got_pdu b s = Ret (ok, s') \<Longrightarrow> rpcc_run s'"
| run_end: "rpcc_run s \<Longrightarrow> call1_end x rep b s = Ret (r, s') \<Longrightarrow> rpcc_run s'"
| run_bind: "rpcc_run s \<Longrightarrow> rpcc_run (bind_finish ret r s)"
| run_cancel: "rpcc_run s \<Longrightarrow> rpcc_run (cancel_calls s)"

definition waiting :: "rpcc \<Rightarrow> u32 \<Rightarrow> bool" where
  "waiting s x = (case mfind (calls s) x of None \<Rightarrow> False | Some ca \<Rightarrow> \<not> ca_done ca)"

definition rpcc_inv :: "rpcc \<Rightarrow> bool" where
  "rpcc_inv s \<longleftrightarrow> mwf (calls s) \<and> xw_inv (xid_rep_window s) \<and> 0 < xid_ctr s \<and>
     (\<forall>x \<in> answered (xid_rep_window s). x < xid_ctr s \<and> \<not> waiting s x) \<and>
     (\<forall>x ca. mfind (calls s) x = Some ca \<longrightarrow> x < xid_ctr s \<and> ca_xid ca = x)"

lemma rpcc_inv_new: "rpcc_inv (rpcc_new retr rnd lossy)"
  by (auto simp: rpcc_inv_def rpcc_new_def xw_inv_def answered_def waiting_def)

lemma rpcc_inv_update:
  assumes "rpcc_inv s" and "x < xid_ctr s" and "\<not> waiting s x"
  shows "rpcc_inv (update_xid_rep x s)"
  using assms update_window_spec [of "xid_rep_window s" x]
  by (auto simp: rpcc_inv_def update_xid_rep_def waiting_def)

lemma less_succ_iff: "(n :: u32) + 1 \<noteq> 0 \<Longrightarrow> x < n + 1 \<longleftrightarrow> x \<le> n"
  by (simp add: word_less_nat_alt word_le_nat_alt unatSuc add.commute [of n] less_Suc_eq_le)

lemma rpcc_inv_begin:
  assumes "rpcc_inv s" and "call1_begin proc req junk s = Ret (r, s')" and "xid_ctr s + 1 \<noteq> 0"
  shows "rpcc_inv s'"
proof -
  have lt: "x < xid_ctr s + 1 \<longleftrightarrow> x \<le> xid_ctr s" for x
    using assms(3) by (rule less_succ_iff)
  from assms(2) consider "s' = s"
    | "s' = s\<lparr>xid_ctr := xid_ctr s + 1, calls := mput (xid_ctr s) \<lparr>ca_xid = xid_ctr s,
        ca_un = unmarshall_empty, ca_intret = junk, ca_done = False\<rparr> (calls s)\<rparr>"
    by (auto simp: call1_begin_def Let_def split: if_splits)
  then show ?thesis
  proof cases
    case 2
    have "xid_ctr s \<notin> answered (xid_rep_window s)" using assms(1) by (auto simp: rpcc_inv_def)
    then show ?thesis using assms(1,3) unfolding 2
      by (auto simp: rpcc_inv_def waiting_def lt word_neq_0_conv less_imp_le split: if_splits)
  qed (use assms in simp)
qed


lemma rpcc_inv_cong:
  "rpcc_inv s \<Longrightarrow> calls s' = calls s \<Longrightarrow> xid_ctr s' = xid_ctr s \<Longrightarrow> xid_rep_window s' = xid_rep_window s \<Longrightarrow>
   rpcc_inv s'"
  by (simp add: rpcc_inv_def waiting_def)

lemma rpcc_inv_send: "rpcc_inv s \<Longrightarrow> call1_transmit b s = (ms, s') \<Longrightarrow> rpcc_inv s'"
  by (erule rpcc_inv_cong) (auto simp: call1_transmit_def split: if_splits option.splits)

lemma rpcc_inv_reply:
  assumes "rpcc_inv s" and "unpack_reply_header (unmarshall_new b) = Ret (h, u)"
    and "rp_xid h < xid_ctr s" and "rpcc_got_pdu b s = Ret (ok, s')"
  shows "rpcc_inv s'"
proof (cases "uok u")
  case False
  then show ?thesis using assms by (simp add: rpcc_got_pdu_def)
next
  case True
  let ?w = "update_xid_window (rp_xid h) (xid_rep_window s)"
  have w: "xw_inv ?w" "answered ?w = insert (rp_xid h) (answered (xid_rep_window s))"
    using assms(1) by (simp_all add: rpcc_inv_def update_window_spec)
  show ?thesis
  proof (cases "mfind (calls s) (rp_xid h)")
    case None
    then show ?thesis using assms True w
      by (auto simp: rpcc_got_pdu_def update_xid_rep_def rpcc_inv_def waiting_def)
  next
    case (Some ca)
    define ca' where "ca' = (if \<not> ca_done ca
      then ca\<lparr>ca_un := fst (take_in u (ca_un ca)), ca_intret := rp_ret h, ca_done := True\<rparr> else ca)"
    have ca': "ca_done ca'" "ca_xid ca' = ca_xid ca" by (simp_all add: ca'_def)
    have "s' = s\<lparr>xid_rep_window := ?w, calls := mput (rp_xid h) ca' (calls s)\<rparr>"
      using assms(2,4) True Some by (auto simp: rpcc_got_pdu_def update_xid_rep_def ca'_def Let_def)
    then show ?thesis using assms(1,3) w ca' Some
      by (auto simp: rpcc_inv_def waiting_def split: if_splits)
  qed
qed

lemma rpcc_inv_end:
  assumes "rpcc_inv s" and "call1_end x rep b s = Ret (r, s')"
  shows "rpcc_inv s'"
proof -
  obtain ca where ca: "mfind (calls s) x = Some ca" using assms(2)
    by (auto simp: call1_end_def split: option.splits)
  let ?e = "s\<lparr>calls := merase x (calls s)\<rparr>"
  have x: "ca_xid ca = x" "x < xid_ctr s" using assms(1) ca by (auto simp: rpcc_inv_def)
  have "rpcc_inv ?e" using assms(1) by (auto simp: rpcc_inv_def waiting_def split: if_splits)
  moreover have "\<not> waiting ?e x" using assms(1) by (simp add: waiting_def rpcc_inv_def)
  ultimately have "rpcc_inv (update_xid_rep x ?e)" using x by (intro rpcc_inv_update) auto
  moreover have "calls s' = calls (update_xid_rep x ?e)" "xid_ctr s' = xid_ctr (update_xid_rep x ?e)"
    "xid_rep_window s' = xid_rep_window (update_xid_rep x ?e)"
    using assms(2) ca x by (auto simp: call1_end_def Let_def split: if_splits)
  ultimately show ?thesis by (rule rpcc_inv_cong)
qed

lemma rpcc_inv_cancel:
  assumes "rpcc_inv s"
  shows "rpcc_inv (cancel_calls s)"
proof -
  let ?f = "\<lambda>ca. ca\<lparr>ca_done := True, ca_intret := cancel_failure\<rparr>"
  let ?s = "s\<lparr>calls := map (\<lambda>(x, ca). (x, ?f ca)) (calls s)\<rparr>"
  have "\<not> waiting ?s x" for x by (simp add: waiting_def mfind_map_val split: option.splits)
  then have "rpcc_inv ?s" using assms
    by (auto simp: rpcc_inv_def mfind_map_val mwf_map_val)
  then show ?thesis by (rule rpcc_inv_cong) (simp_all add: cancel_calls_def Let_def)
qed

lemma rpcc_inv_bind: "rpcc_inv s \<Longrightarrow> rpcc_inv (bind_finish ret r s)"
  by (erule rpcc_inv_cong) (simp_all add: bind_finish_def)

lemma rpcc_run_inv: "rpcc_run s \<Longrightarrow> rpcc_inv s"
proof (induction rule: rpcc_run.induct)
  case (run_reply s b h u ok s')
  then show ?case using rpcc_inv_reply by blast
qed (blast intro: rpcc_inv_new rpcc_inv_begin rpcc_inv_send rpcc_inv_end rpcc_inv_bind rpcc_inv_cancel)+

section \<open>Deadlines\<close>

text \<open>Nanoseconds since the epoch, and the clock's readings.\<close>

definition nanos :: "timespec \<Rightarrow> int" where
  "nanos t = tv_sec t * 1000000000 + tv_nsec t"

definition ts_ok :: "timespec \<Rightarrow> bool" where
  "ts_ok t \<longleftrightarrow> 0 < tv_sec t \<and> 0 \<le> tv_nsec t \<and> tv_nsec t < 1000000000"

lemma norm_nsec_spec:
  "0 \<le> nsec \<Longrightarrow> norm_nsec sec nsec = (sec', nsec') \<Longrightarrow>
   sec' * 1000000000 + nsec' = sec * 1000000000 + nsec \<and> 0 \<le> nsec' \<and> nsec' \<le> 1000000000 \<and> sec \<le> sec'"
proof (induction sec nsec rule: norm_nsec.induct)
  case (1 sec nsec)
  show ?case
  proof (cases "nsec > 1000000000")
    case True
    then show ?thesis using 1 norm_nsec.simps [of sec nsec] by auto
  qed (use 1 norm_nsec.simps [of sec nsec] in auto)
qed

lemma trunc_nonneg: "0 \<le> b \<Longrightarrow> trunc_div b 1000 = b div 1000" "0 \<le> b \<Longrightarrow> trunc_mod b 1000 = b mod 1000"
  by (auto simp: trunc_mod_def trunc_div_def sgn_if minus_mult_div_eq_mod)

lemma add_timespec_spec:
  assumes "ts_ok a" and "0 \<le> b"
  obtains r where "add_timespec a b = Ret r" and "nanos r = nanos a + b * 1000000"
    and "0 \<le> tv_nsec r" and "tv_nsec r \<le> 1000000000" and "0 < tv_sec r"
proof -
  let ?sec = "tv_sec a + b div 1000" and ?nsec = "tv_nsec a + b mod 1000 * 1000000"
  obtain sec nsec where n: "norm_nsec ?sec ?nsec = (sec, nsec)" by fastforce
  have pos: "0 \<le> ?nsec" using assms by (simp add: ts_ok_def)
  note sp = norm_nsec_spec [OF pos n]
  have "0 \<le> b div 1000" using assms(2) by (simp add: pos_imp_zdiv_nonneg_iff)
  then have "0 < sec" using sp assms(1) by (simp add: ts_ok_def)
  moreover have "add_timespec a b = Ret \<lparr>tv_sec = sec, tv_nsec = nsec\<rparr>"
    using pos n assms(2) by (simp add: add_timespec_def trunc_nonneg Let_def verify_def)
  moreover have "b div 1000 * 1000000000 + b mod 1000 * 1000000 = b * 1000000"
    by (simp add: minus_div_mult_eq_mod [symmetric] algebra_simps)
  then have "nanos \<lparr>tv_sec = sec, tv_nsec = nsec\<rparr> = nanos a + b * 1000000"
    using sp by (simp add: nanos_def)
  ultimately show thesis using that sp by simp
qed

lemma cmp_timespec_later:
  assumes "nanos b < nanos a" and "tv_nsec a \<le> 1000000000" and "0 \<le> tv_nsec b"
  shows "cmp_timespec a b > 0"
proof -
  have "tv_sec b * 1000000000 < (tv_sec a + 1) * 1000000000" using assms by (simp add: nanos_def)
  then have "tv_sec b \<le> tv_sec a" by simp
  then show ?thesis using assms by (auto simp: cmp_timespec_def nanos_def)
qed

lemma call1_loop_last:
  assumes "ts_ok (ob_now ob)" and "0 \<le> cto"
    and "nanos final < nanos (ob_now ob) + cto * 1000000" and "0 \<le> tv_nsec final"
  shows "\<exists>d n'. call1_loop retr cto final tr n (ob # ob' # obs) = Ret (d, n') \<and> n' \<le> n + 2"
proof (cases "tv_sec final = 0")
  case False
  obtain r where r: "add_timespec (ob_now ob) cto = Ret r" "nanos r = nanos (ob_now ob) + cto * 1000000"
    "tv_nsec r \<le> 1000000000"
    using add_timespec_spec [OF assms(1,2)] by metis
  then have "cmp_timespec r final > 0" using cmp_timespec_later [of final r] assms(3,4) by simp
  then show ?thesis using r by (auto simp: Let_def)
qed (auto simp: Let_def)

lemma call1_loop_ends:
  "\<forall>ob \<in> set obs. ts_ok (ob_now ob) \<and> t0 \<le> nanos (ob_now ob) \<Longrightarrow> 0 \<le> cto \<Longrightarrow>
   nanos final < t0 + cto * 2 ^ k * 1000000 \<Longrightarrow> 0 \<le> tv_nsec final \<Longrightarrow> k + 2 \<le> length obs \<Longrightarrow>
   \<exists>d n'. call1_loop retr cto final tr n obs = Ret (d, n') \<and> n' \<le> n + k + 2"
proof (induction k arbitrary: cto final tr n obs)
  case 0
  obtain ob ob' rest where "obs = ob # ob' # rest" using 0 by (auto simp: Suc_le_length_iff numeral_2_eq_2)
  then show ?case using call1_loop_last [of ob cto final] 0 by fastforce
next
  case (Suc k)
  obtain ob obs' where obs: "obs = ob # obs'" using Suc.prems by (cases obs) auto
  show ?case
  proof (cases "tv_sec final = 0")
    case False
    obtain r where r: "add_timespec (ob_now ob) cto = Ret r"
      using add_timespec_spec [of "ob_now ob" cto] Suc.prems(1,2) obs by auto
    let ?final = "if cmp_timespec r final > 0 then final\<lparr>tv_sec := 0\<rparr> else final"
    let ?n = "if tr \<and> ob_conn ob then n + 1 else n"
    show ?thesis
    proof (cases "cmp_timespec r final > 0")
      case True
      obtain ob2 rest where "obs' = ob2 # rest" using Suc.prems(5) obs by (cases obs') auto
      then show ?thesis using r obs True by (auto simp: Let_def)
    next
      case nle: False
      obtain d n' where "call1_loop retr (cto * 2) final (retr \<and> (\<not> ob_conn ob \<or> ob_dead ob)) ?n obs' = Ret (d, n')"
        "n' \<le> ?n + k + 2"
        using Suc.IH [of obs' "cto * 2" final "retr \<and> (\<not> ob_conn ob \<or> ob_dead ob)" ?n] Suc.prems obs by auto
      then show ?thesis using r obs nle False by (auto simp: Let_def split: if_splits)
    qed
  qed (use obs in \<open>auto simp: Let_def\<close>)
qed

section \<open>Properties of the client\<close>

text \<open>
  C17. \<^verbatim>\<open>rpcc::update_xid_rep\<close> maintains, in a compressed sorted list, the set of answered request
  numbers: everything up to the front of the list and every later element. Recording a reply adds
  exactly that number, and the front, which is what the next request acknowledges to the server,
  is afterwards the largest number up to which every request has been answered.
\<close>

theorem reply_window_exact:
  assumes "xw_inv w"
  shows "xw_inv (update_xid_window x w) \<and>
    answered (update_xid_window x w) = insert x (answered w) \<and>
    (hd (update_xid_window x w) + 1 \<noteq> 0 \<longrightarrow>
       hd (update_xid_window x w) + 1 \<notin> answered (update_xid_window x w))"
proof -
  let ?w = "update_xid_window x w"
  have "xw_inv ?w" "answered ?w = insert x (answered w)" using assms by (simp_all add: update_window_spec)
  moreover have "\<not> hd ?w + 1 \<le> hd ?w" if "hd ?w + 1 \<noteq> 0" using less_succ_iff [OF that, of "hd ?w"] by simp
  ultimately show ?thesis by (auto simp: xw_inv_def answered_def)
qed

theorem reply_window_exact_witness:
  "xw_inv [3, 5, 6] \<and> update_xid_window 4 [3, 5, 6] = [6 :: u32] \<and>
   answered (update_xid_window 4 [3, 5, 6]) = insert 4 (answered [3, 5, 6])"
proof -
  have "xw_inv [3, 5, 6]" by (simp add: xw_inv_def)
  then show ?thesis using reply_window_exact [of "[3, 5, 6]" 4]
    by (simp add: update_xid_window_def)
qed

text \<open>
  C14. In every state an \<^verbatim>\<open>rpcc\<close> object can reach (while its request counter has not wrapped), a new
  request carries an acknowledgement \<open>rep\<close> that is smaller than its own number, and no request
  numbered up to \<open>rep\<close> is still waiting for its reply: the server may forget all of them.
\<close>

theorem acknowledges_only_finished:
  assumes "rpcc_run s" and "xid_ctr s + 1 \<noteq> 0"
    and "call1_begin proc req junk s = Ret (Inr (xid, rep, m), s')"
  shows "rep < xid \<and> waiting s' xid \<and> (\<forall>x \<le> rep. \<not> waiting s' x)"
proof -
  have inv: "rpcc_inv s" and inv': "rpcc_inv s'"
    using rpcc_run_inv assms(1) rpcc_inv_begin assms(2,3) by blast+
  have s': "xid = xid_ctr s" "rep = hd (xid_rep_window s)" "xid_rep_window s' = xid_rep_window s"
    "calls s' = mput xid \<lparr>ca_xid = xid, ca_un = unmarshall_empty, ca_intret = junk, ca_done = False\<rparr> (calls s)"
    using assms(3) by (auto simp: call1_begin_def Let_def split: if_splits)
  have "rep \<in> answered (xid_rep_window s)" by (simp add: s' answered_def)
  then have "rep < xid" using inv s'(1) by (simp add: rpcc_inv_def)
  moreover have "\<not> waiting s' x" if "x \<le> rep" for x
    using inv' that by (auto simp: rpcc_inv_def s' answered_def)
  ultimately show ?thesis by (simp add: waiting_def s'(4))
qed

theorem acknowledges_only_finished_witness:
  "case call1_begin rpc_const_bind (marshall_new 0) 0 (rpcc_new True 7 0) of
     Ret (Inr (xid, rep, m), s') \<Rightarrow> rep < xid \<and> waiting s' xid \<and> (\<forall>x \<le> rep. \<not> waiting s' x)
   | _ \<Rightarrow> False"
proof -
  let ?s = "rpcc_new True 7 0"
  have "\<exists>x r m s'. call1_begin rpc_const_bind (marshall_new 0) 0 ?s = Ret (Inr (x, r, m), s')"
    using pack_req_header_spec [OF m_inv_new] by (fastforce simp: call1_begin_def rpcc_new_def Let_def)
  then obtain x r m s' where c: "call1_begin rpc_const_bind (marshall_new 0) 0 ?s = Ret (Inr (x, r, m), s')" by blast
  have "xid_ctr ?s + 1 \<noteq> 0" by (simp add: rpcc_new_def)
  from acknowledges_only_finished [OF run_new this c] show ?thesis by (simp add: c)
qed


definition obs_example :: "round_obs list" where
  "obs_example = replicate 9 \<lparr>ob_now = \<lparr>tv_sec = 5, tv_nsec = 7\<rparr>, ob_conn = True, ob_done = False, ob_dead = True\<rparr>"


text \<open>
  \<^verbatim>\<open>add_timespec\<close> adds exactly the given milliseconds to a clock reading, but what it returns need not
  be a valid \<^verbatim>\<open>timespec\<close>: the loop normalises only while \<^verbatim>\<open>tv_nsec > 1000000000\<close>, so a sum of exactly
  one second is left as \<^verbatim>\<open>tv_nsec = 1000000000\<close>, which is outside the range that
  \<^verbatim>\<open>pthread_cond_timedwait\<close> accepts. That happens precisely when the nanosecond parts add up to it.
\<close>

theorem add_timespec_exact:
  assumes "ts_ok a" and "0 \<le> b"
  shows "\<exists>r. add_timespec a b = Ret r \<and> nanos r = nanos a + b * 1000000 \<and>
    (ts_ok r \<longleftrightarrow> tv_nsec a + (b mod 1000) * 1000000 \<noteq> 1000000000)"
proof -
  obtain r where r: "add_timespec a b = Ret r" "nanos r = nanos a + b * 1000000"
    "0 \<le> tv_nsec r" "tv_nsec r \<le> 1000000000" "0 < tv_sec r"
    using add_timespec_spec [OF assms] .
  let ?n = "tv_nsec a + b mod 1000 * 1000000"
  have lim: "0 \<le> ?n" "?n < 2000000000" using assms by (auto simp: ts_ok_def) 
  have ns: "tv_nsec r = (if ?n > 1000000000 then ?n - 1000000000 else ?n)"
    using r(1) assms lim norm_nsec.simps [of "tv_sec a + b div 1000" ?n]
      norm_nsec.simps [of "tv_sec a + b div 1000 + 1" "?n - 1000000000"]
    by (auto simp: add_timespec_def trunc_nonneg Let_def verify_def split: if_splits)
  have "ts_ok r \<longleftrightarrow> tv_nsec r \<noteq> 1000000000" using r by (auto simp: ts_ok_def)
  then show ?thesis using r(1,2) ns lim by auto
qed

theorem add_timespec_exact_witness:
  "\<exists>r. add_timespec \<lparr>tv_sec = 5, tv_nsec = 500000000\<rparr> 1500 = Ret r \<and> tv_nsec r = 1000000000 \<and> \<not> ts_ok r"
proof -
  have "ts_ok \<lparr>tv_sec = 5, tv_nsec = 500000000\<rparr>" by (simp add: ts_ok_def)
  from add_timespec_exact [OF this, of 1500]
  show ?thesis by (auto simp: add_timespec_def verify_def trunc_nonneg norm_nsec.simps ts_ok_def Let_def)
qed

end
