(* ===== verification/Rpc_Call.thy ===== *)
theory Rpc_Call
  imports Rpc_Server Rpc_Client
begin

text \<open>
  The typed ends of an RPC (\<^verbatim>\<open>rpc/rpc.h\<close>): the templates \<^verbatim>\<open>rpcc::call\<close> with up to seven arguments and \<^verbatim>\<open>rpcs::reg\<close> with
  four to seven (those with up to three are with the server). The operators of each argument type are
  arguments of the definitions.

  The theorems join both ends: what a client passes to \<^verbatim>\<open>call\<close> is what the registered method gets, and what the method
  returns is what the caller gets.
\<close>

section \<open>Handlers with four to seven arguments\<close>

definition reg_fn4 ::
  "(unmarshall \<Rightarrow> ('a \<times> unmarshall) res) \<Rightarrow> (unmarshall \<Rightarrow> ('b \<times> unmarshall) res) \<Rightarrow>
   (unmarshall \<Rightarrow> ('c \<times> unmarshall) res) \<Rightarrow> (unmarshall \<Rightarrow> ('d \<times> unmarshall) res) \<Rightarrow>
   ('r \<Rightarrow> marshall \<Rightarrow> marshall res) \<Rightarrow> ('a \<Rightarrow> 'b \<Rightarrow> 'c \<Rightarrow> 'd \<Rightarrow> 'st \<Rightarrow> (u32 \<times> 'r \<times> 'st) res) \<Rightarrow>
   unmarshall \<Rightarrow> marshall \<Rightarrow> 'st \<Rightarrow> (u32 \<times> marshall \<times> 'st) res" where
  "reg_fn4 get1 get2 get3 get4 putr meth args ret s =
     bind_res (get1 args) (\<lambda>(a1, args).
     bind_res (get2 args) (\<lambda>(a2, args).
     bind_res (get3 args) (\<lambda>(a3, args).
     bind_res (get4 args) (\<lambda>(a4, args).
       if \<not> okdone args then Ret (unmarshal_args_failure, ret, s)
       else bind_res (meth a1 a2 a3 a4 s) (\<lambda>(b, r, s).
            bind_res (putr r ret) (\<lambda>ret. Ret (b, ret, s)))))))"

definition reg_fn5 ::
  "(unmarshall \<Rightarrow> ('a \<times> unmarshall) res) \<Rightarrow> (unmarshall \<Rightarrow> ('b \<times> unmarshall) res) \<Rightarrow>
   (unmarshall \<Rightarrow> ('c \<times> unmarshall) res) \<Rightarrow> (unmarshall \<Rightarrow> ('d \<times> unmarshall) res) \<Rightarrow>
   (unmarshall \<Rightarrow> ('e \<times> unmarshall) res) \<Rightarrow>
   ('r \<Rightarrow> marshall \<Rightarrow> marshall res) \<Rightarrow> ('a \<Rightarrow> 'b \<Rightarrow> 'c \<Rightarrow> 'd \<Rightarrow> 'e \<Rightarrow> 'st \<Rightarrow> (u32 \<times> 'r \<times> 'st) res) \<Rightarrow>
   unmarshall \<Rightarrow> marshall \<Rightarrow> 'st \<Rightarrow> (u32 \<times> marshall \<times> 'st) res" where
  "reg_fn5 get1 get2 get3 get4 get5 putr meth args ret s =
     bind_res (get1 args) (\<lambda>(a1, args).
     bind_res (get2 args) (\<lambda>(a2, args).
     bind_res (get3 args) (\<lambda>(a3, args).
     bind_res (get4 args) (\<lambda>(a4, args).
     bind_res (get5 args) (\<lambda>(a5, args).
       if \<not> okdone args then Ret (unmarshal_args_failure, ret, s)
       else bind_res (meth a1 a2 a3 a4 a5 s) (\<lambda>(b, r, s).
            bind_res (putr r ret) (\<lambda>ret. Ret (b, ret, s))))))))"

definition reg_fn6 ::
  "(unmarshall \<Rightarrow> ('a \<times> unmarshall) res) \<Rightarrow> (unmarshall \<Rightarrow> ('b \<times> unmarshall) res) \<Rightarrow>
   (unmarshall \<Rightarrow> ('c \<times> unmarshall) res) \<Rightarrow> (unmarshall \<Rightarrow> ('d \<times> unmarshall) res) \<Rightarrow>
   (unmarshall \<Rightarrow> ('e \<times> unmarshall) res) \<Rightarrow> (unmarshall \<Rightarrow> ('f \<times> unmarshall) res) \<Rightarrow>
   ('r \<Rightarrow> marshall \<Rightarrow> marshall res) \<Rightarrow> ('a \<Rightarrow> 'b \<Rightarrow> 'c \<Rightarrow> 'd \<Rightarrow> 'e \<Rightarrow> 'f \<Rightarrow> 'st \<Rightarrow> (u32 \<times> 'r \<times> 'st) res) \<Rightarrow>
   unmarshall \<Rightarrow> marshall \<Rightarrow> 'st \<Rightarrow> (u32 \<times> marshall \<times> 'st) res" where
  "reg_fn6 get1 get2 get3 get4 get5 get6 putr meth args ret s =
     bind_res (get1 args) (\<lambda>(a1, args).
     bind_res (get2 args) (\<lambda>(a2, args).
     bind_res (get3 args) (\<lambda>(a3, args).
     bind_res (get4 args) (\<lambda>(a4, args).
     bind_res (get5 args) (\<lambda>(a5, args).
     bind_res (get6 args) (\<lambda>(a6, args).
       if \<not> okdone args then Ret (unmarshal_args_failure, ret, s)
       else bind_res (meth a1 a2 a3 a4 a5 a6 s) (\<lambda>(b, r, s).
            bind_res (putr r ret) (\<lambda>ret. Ret (b, ret, s)))))))))"

definition reg_fn7 ::
  "(unmarshall \<Rightarrow> ('a \<times> unmarshall) res) \<Rightarrow> (unmarshall \<Rightarrow> ('b \<times> unmarshall) res) \<Rightarrow>
   (unmarshall \<Rightarrow> ('c \<times> unmarshall) res) \<Rightarrow> (unmarshall \<Rightarrow> ('d \<times> unmarshall) res) \<Rightarrow>
   (unmarshall \<Rightarrow> ('e \<times> unmarshall) res) \<Rightarrow> (unmarshall \<Rightarrow> ('f \<times> unmarshall) res) \<Rightarrow>
   (unmarshall \<Rightarrow> ('g \<times> unmarshall) res) \<Rightarrow>
   ('r \<Rightarrow> marshall \<Rightarrow> marshall res) \<Rightarrow> ('a \<Rightarrow> 'b \<Rightarrow> 'c \<Rightarrow> 'd \<Rightarrow> 'e \<Rightarrow> 'f \<Rightarrow> 'g \<Rightarrow> 'st \<Rightarrow> (u32 \<times> 'r \<times> 'st) res) \<Rightarrow>
   unmarshall \<Rightarrow> marshall \<Rightarrow> 'st \<Rightarrow> (u32 \<times> marshall \<times> 'st) res" where
  "reg_fn7 get1 get2 get3 get4 get5 get6 get7 putr meth args ret s =
     bind_res (get1 args) (\<lambda>(a1, args).
     bind_res (get2 args) (\<lambda>(a2, args).
     bind_res (get3 args) (\<lambda>(a3, args).
     bind_res (get4 args) (\<lambda>(a4, args).
     bind_res (get5 args) (\<lambda>(a5, args).
     bind_res (get6 args) (\<lambda>(a6, args).
     bind_res (get7 args) (\<lambda>(a7, args).
       if \<not> okdone args then Ret (unmarshal_args_failure, ret, s)
       else bind_res (meth a1 a2 a3 a4 a5 a6 a7 s) (\<lambda>(b, r, s).
            bind_res (putr r ret) (\<lambda>ret. Ret (b, ret, s))))))))))"

section \<open>Calls\<close>

text \<open>\<open>call1\<close> stands for the exchange of the request for a return value and a reply.\<close>

definition call_m ::
  "(marshall \<Rightarrow> (u32 \<times> unmarshall) res) \<Rightarrow> (unmarshall \<Rightarrow> ('r \<times> unmarshall) res) \<Rightarrow> 'r \<Rightarrow> marshall \<Rightarrow> (u32 \<times> 'r) res" where
  "call_m call1 getr r0 req = bind_res (call1 req) (\<lambda>(intret, u). call_m_finish getr r0 intret u)"

text \<open>The templates differ in the number of arguments; each ends with \<^verbatim>\<open>call_m\<close>. \<open>g\<close> fills fresh memory.\<close>

definition rpc_call0 ::
  "(marshall \<Rightarrow> 'x res) \<Rightarrow> byte \<Rightarrow> 'x res" where
  "rpc_call0 k g = k (marshall_new g)"

definition rpc_call1 ::
  "('a \<Rightarrow> marshall \<Rightarrow> marshall res) \<Rightarrow>
   (marshall \<Rightarrow> 'x res) \<Rightarrow> 'a \<Rightarrow> byte \<Rightarrow> 'x res" where
  "rpc_call1 put1 k a1 g =
     bind_res (put1 a1 (marshall_new g)) (\<lambda>m.
       k m)"

definition rpc_call2 ::
  "('a \<Rightarrow> marshall \<Rightarrow> marshall res) \<Rightarrow> ('b \<Rightarrow> marshall \<Rightarrow> marshall res) \<Rightarrow>
   (marshall \<Rightarrow> 'x res) \<Rightarrow> 'a \<Rightarrow> 'b \<Rightarrow> byte \<Rightarrow> 'x res" where
  "rpc_call2 put1 put2 k a1 a2 g =
     bind_res (put1 a1 (marshall_new g)) (\<lambda>m.
     bind_res (put2 a2 m) (\<lambda>m.
       k m))"

definition rpc_call3 ::
  "('a \<Rightarrow> marshall \<Rightarrow> marshall res) \<Rightarrow> ('b \<Rightarrow> marshall \<Rightarrow> marshall res) \<Rightarrow> ('c \<Rightarrow> marshall \<Rightarrow> marshall res) \<Rightarrow>
   (marshall \<Rightarrow> 'x res) \<Rightarrow> 'a \<Rightarrow> 'b \<Rightarrow> 'c \<Rightarrow> byte \<Rightarrow> 'x res" where
  "rpc_call3 put1 put2 put3 k a1 a2 a3 g =
     bind_res (put1 a1 (marshall_new g)) (\<lambda>m.
     bind_res (put2 a2 m) (\<lambda>m.
     bind_res (put3 a3 m) (\<lambda>m.
       k m)))"

definition rpc_call4 ::
  "('a \<Rightarrow> marshall \<Rightarrow> marshall res) \<Rightarrow> ('b \<Rightarrow> marshall \<Rightarrow> marshall res) \<Rightarrow> ('c \<Rightarrow> marshall \<Rightarrow> marshall res) \<Rightarrow>
   ('d \<Rightarrow> marshall \<Rightarrow> marshall res) \<Rightarrow>
   (marshall \<Rightarrow> 'x res) \<Rightarrow> 'a \<Rightarrow> 'b \<Rightarrow> 'c \<Rightarrow> 'd \<Rightarrow> byte \<Rightarrow> 'x res" where
  "rpc_call4 put1 put2 put3 put4 k a1 a2 a3 a4 g =
     bind_res (put1 a1 (marshall_new g)) (\<lambda>m.
     bind_res (put2 a2 m) (\<lambda>m.
     bind_res (put3 a3 m) (\<lambda>m.
     bind_res (put4 a4 m) (\<lambda>m.
       k m))))"

definition rpc_call5 ::
  "('a \<Rightarrow> marshall \<Rightarrow> marshall res) \<Rightarrow> ('b \<Rightarrow> marshall \<Rightarrow> marshall res) \<Rightarrow> ('c \<Rightarrow> marshall \<Rightarrow> marshall res) \<Rightarrow>
   ('d \<Rightarrow> marshall \<Rightarrow> marshall res) \<Rightarrow> ('e \<Rightarrow> marshall \<Rightarrow> marshall res) \<Rightarrow>
   (marshall \<Rightarrow> 'x res) \<Rightarrow> 'a \<Rightarrow> 'b \<Rightarrow> 'c \<Rightarrow> 'd \<Rightarrow> 'e \<Rightarrow> byte \<Rightarrow> 'x res" where
  "rpc_call5 put1 put2 put3 put4 put5 k a1 a2 a3 a4 a5 g =
     bind_res (put1 a1 (marshall_new g)) (\<lambda>m.
     bind_res (put2 a2 m) (\<lambda>m.
     bind_res (put3 a3 m) (\<lambda>m.
     bind_res (put4 a4 m) (\<lambda>m.
     bind_res (put5 a5 m) (\<lambda>m.
       k m)))))"

definition rpc_call6 ::
  "('a \<Rightarrow> marshall \<Rightarrow> marshall res) \<Rightarrow> ('b \<Rightarrow> marshall \<Rightarrow> marshall res) \<Rightarrow> ('c \<Rightarrow> marshall \<Rightarrow> marshall res) \<Rightarrow>
   ('d \<Rightarrow> marshall \<Rightarrow> marshall res) \<Rightarrow> ('e \<Rightarrow> marshall \<Rightarrow> marshall res) \<Rightarrow> ('f \<Rightarrow> marshall \<Rightarrow> marshall res) \<Rightarrow>
   (marshall \<Rightarrow> 'x res) \<Rightarrow> 'a \<Rightarrow> 'b \<Rightarrow> 'c \<Rightarrow> 'd \<Rightarrow> 'e \<Rightarrow> 'f \<Rightarrow> byte \<Rightarrow> 'x res" where
  "rpc_call6 put1 put2 put3 put4 put5 put6 k a1 a2 a3 a4 a5 a6 g =
     bind_res (put1 a1 (marshall_new g)) (\<lambda>m.
     bind_res (put2 a2 m) (\<lambda>m.
     bind_res (put3 a3 m) (\<lambda>m.
     bind_res (put4 a4 m) (\<lambda>m.
     bind_res (put5 a5 m) (\<lambda>m.
     bind_res (put6 a6 m) (\<lambda>m.
       k m))))))"

definition rpc_call7 ::
  "('a \<Rightarrow> marshall \<Rightarrow> marshall res) \<Rightarrow> ('b \<Rightarrow> marshall \<Rightarrow> marshall res) \<Rightarrow> ('c \<Rightarrow> marshall \<Rightarrow> marshall res) \<Rightarrow>
   ('d \<Rightarrow> marshall \<Rightarrow> marshall res) \<Rightarrow> ('e \<Rightarrow> marshall \<Rightarrow> marshall res) \<Rightarrow> ('f \<Rightarrow> marshall \<Rightarrow> marshall res) \<Rightarrow>
   ('g \<Rightarrow> marshall \<Rightarrow> marshall res) \<Rightarrow>
   (marshall \<Rightarrow> 'x res) \<Rightarrow> 'a \<Rightarrow> 'b \<Rightarrow> 'c \<Rightarrow> 'd \<Rightarrow> 'e \<Rightarrow> 'f \<Rightarrow> 'g \<Rightarrow> byte \<Rightarrow> 'x res" where
  "rpc_call7 put1 put2 put3 put4 put5 put6 put7 k a1 a2 a3 a4 a5 a6 a7 g =
     bind_res (put1 a1 (marshall_new g)) (\<lambda>m.
     bind_res (put2 a2 m) (\<lambda>m.
     bind_res (put3 a3 m) (\<lambda>m.
     bind_res (put4 a4 m) (\<lambda>m.
     bind_res (put5 a5 m) (\<lambda>m.
     bind_res (put6 a6 m) (\<lambda>m.
     bind_res (put7 a7 m) (\<lambda>m.
       k m)))))))"

section \<open>From the caller to the method\<close>

text \<open>
  \<open>delivers call fn run\<close>: the request that \<open>call\<close> makes, sent with any header, is decoded by \<open>fn\<close> on the other side
  such that it does \<open>run\<close>.
\<close>

definition delivers :: "(byte \<Rightarrow> marshall res) \<Rightarrow> (unmarshall \<Rightarrow> 'x) \<Rightarrow> 'x \<Rightarrow> bool" where
  "delivers call fn run \<longleftrightarrow> (\<forall>g. \<exists>m. call g = Ret m \<and>
     (\<forall>h. \<exists>m' u. pack_req_header h m = Ret m' \<and> unpack_req_header (unmarshall_new (m_bytes m')) = Ret (h, u) \<and>
        uok u \<and> fn u = run))"

lemma request_payload:
  assumes m: "m_inv m" "m_bytes m = hd24 @ bs" "length hd24 = RPC_HEADER_SZ" "length bs < 2 ^ 29"
  shows "\<exists>m' u. pack_req_header h m = Ret m' \<and> unpack_req_header (unmarshall_new (m_bytes m')) = Ret (h, u) \<and>
    u_inv u \<and> uok u \<and> u_rest u = bs @ []"
proof -
  have len: "mind m = 24 + length bs" using length_m_bytes [OF m(1)] m(2,3) by simp
  obtain a b c d e where h: "h = \<lparr>rq_xid = a, rq_proc = b, rq_clt_nonce = c, rq_srv_nonce = d, rq_xid_rep = e\<rparr>"
    by (cases h) auto
  let ?hdr = "be32 a @ be32 b @ be32 c @ be32 d @ be32 e"
  let ?m' = "m\<lparr>mbuf := take 4 (mbuf m) @ ?hdr @ drop 24 (mbuf m)\<rparr>"
  let ?u = "(unmarshall_new (take 4 (mbuf m) @ ?hdr @ bs))\<lparr>uind := RPC_HEADER_SZ\<rparr>"
  have "take (mind m - 24) (drop 24 (mbuf m)) = drop 24 (m_bytes m)" by (simp add: m_bytes_def drop_take)
  then have t: "take (length bs) (drop 24 (mbuf m)) = bs" using m(2,3) len by simp
  then have b: "m_bytes ?m' = take 4 (mbuf m) @ ?hdr @ bs"
    using m(1) len by (simp add: m_bytes_def m_inv_def)
  have "pack_req_header h m = Ret ?m'" using pack_req_header_spec [OF m(1), of h] by (simp add: h)
  moreover have "unpack_req_header (unmarshall_new (m_bytes ?m')) = Ret (h, ?u)"
    unfolding b h using unpack_req_header_wire [of "take 4 (mbuf m)" bs a b c d e] m(1,4) by (simp add: m_inv_def)
  moreover have "u_inv ?u" "uok ?u" "u_rest ?u = bs @ []"
    using m(1,4) len by (simp_all add: u_inv_def unmarshall_new_def u_rest_def m_inv_def)
  ultimately show ?thesis by blast
qed

text \<open>\<open>feeds bs fn x\<close>: given exactly the bytes \<open>bs\<close>, the decoder \<open>fn\<close> gives \<open>x\<close>.\<close>

definition feeds :: "byte list \<Rightarrow> (unmarshall \<Rightarrow> 'x) \<Rightarrow> 'x \<Rightarrow> bool" where
  "feeds bs fn x \<longleftrightarrow> (\<forall>u. u_inv u \<longrightarrow> uok u \<longrightarrow> u_rest u = bs \<longrightarrow> fn u = x)"

lemma feeds_end: "feeds [] (\<lambda>u. if \<not> okdone u then F else x) x"
  by (auto simp: feeds_def u_rest_def u_inv_def okdone_def)

lemma feeds_step:
  assumes "reads get1 b a" and "feeds bs (f a) x"
  shows "feeds (b @ bs) (\<lambda>u. bind_res (get1 u) (\<lambda>(a, u). f a u)) x"
  unfolding feeds_def
proof (intro allI impI)
  fix u assume u: "u_inv u" "uok u" "u_rest u = b @ bs"
  then show "bind_res (get1 u) (\<lambda>(a, u). f a u) = x"
    using readsD [OF assms(1) u] u_after [OF u(1,3)] assms(2) by (simp add: feeds_def)
qed

lemma length_fresh_request: "length (m_bytes (marshall_new g)) = RPC_HEADER_SZ"
  by (simp add: m_bytes_def marshall_new_def DEFAULT_RPC_SZ_def)

lemma delivers_intro:
  assumes w: "emits w bs" and fn: "feeds bs fn x" and len: "length bs < 2 ^ 29"
  shows "delivers (\<lambda>g. w (marshall_new g)) fn x"
  unfolding delivers_def
proof (intro allI)
  fix g
  obtain m where m: "w (marshall_new g) = Ret m" "m_inv m" "m_bytes m = m_bytes (marshall_new g) @ bs"
    by (rule emitsE [OF w m_inv_new [of g]])
  have g24: "length (m_bytes (marshall_new g)) = RPC_HEADER_SZ" by (rule length_fresh_request)
  have "\<exists>m' u. pack_req_header h m = Ret m' \<and> unpack_req_header (unmarshall_new (m_bytes m')) = Ret (h, u) \<and>
        uok u \<and> fn u = x" for h
    using request_payload [OF m(2,3) g24 len, of h] fn by (fastforce simp: feeds_def)
  then show "\<exists>m. w (marshall_new g) = Ret m \<and> (\<forall>h. \<exists>m' u. pack_req_header h m = Ret m' \<and>
      unpack_req_header (unmarshall_new (m_bytes m')) = Ret (h, u) \<and> uok u \<and> fn u = x)"
    using m(1) by auto
qed

text \<open>What a handler does once it has its arguments.\<close>

definition answer :: "('r \<Rightarrow> marshall \<Rightarrow> marshall res) \<Rightarrow> marshall \<Rightarrow> (u32 \<times> 'r \<times> 'st) res \<Rightarrow> (u32 \<times> marshall \<times> 'st) res" where
  "answer putr ret res = bind_res res (\<lambda>(b, r, s). bind_res (putr r ret) (\<lambda>ret. Ret (b, ret, s)))"

text \<open>
  C18. Whatever is passed to \<^verbatim>\<open>call\<close> with one to seven arguments arrives: for arguments whose types can be sent, the request is
  made without fault, its header arrives as it was packed, and the method registered with the same types is run
  with exactly the arguments of the call, in their order, and no bytes left over.
\<close>
theorem call_arguments_arrive:
  assumes "emits (put1 a1) b1" and "emits (put2 a2) b2" and "emits (put3 a3) b3" and "emits (put4 a4) b4"
    and "emits (put5 a5) b5" and "emits (put6 a6) b6" and "emits (put7 a7) b7"
    and "reads get1 b1 a1" and "reads get2 b2 a2" and "reads get3 b3 a3" and "reads get4 b4 a4"
    and "reads get5 b5 a5" and "reads get6 b6 a6" and "reads get7 b7 a7"
    and "length (b1 @ b2 @ b3 @ b4 @ b5 @ b6 @ b7) < 2 ^ 29"
  shows "delivers (rpc_call1 put1 Ret a1) (\<lambda>u. reg_fn1 get1 putr meth1 u ret s) (answer putr ret (meth1 a1 s)) \<and>
    delivers (rpc_call2 put1 put2 Ret a1 a2) (\<lambda>u. reg_fn2 get1 get2 putr meth2 u ret s) (answer putr ret (meth2 a1 a2 s)) \<and>
    delivers (rpc_call3 put1 put2 put3 Ret a1 a2 a3) (\<lambda>u. reg_fn3 get1 get2 get3 putr meth3 u ret s) (answer putr ret (meth3 a1 a2 a3 s)) \<and>
    delivers (rpc_call4 put1 put2 put3 put4 Ret a1 a2 a3 a4) (\<lambda>u. reg_fn4 get1 get2 get3 get4 putr meth4 u ret s) (answer putr ret (meth4 a1 a2 a3 a4 s)) \<and>
    delivers (rpc_call5 put1 put2 put3 put4 put5 Ret a1 a2 a3 a4 a5) (\<lambda>u. reg_fn5 get1 get2 get3 get4 get5 putr meth5 u ret s) (answer putr ret (meth5 a1 a2 a3 a4 a5 s)) \<and>
    delivers (rpc_call6 put1 put2 put3 put4 put5 put6 Ret a1 a2 a3 a4 a5 a6) (\<lambda>u. reg_fn6 get1 get2 get3 get4 get5 get6 putr meth6 u ret s) (answer putr ret (meth6 a1 a2 a3 a4 a5 a6 s)) \<and>
    delivers (rpc_call7 put1 put2 put3 put4 put5 put6 put7 Ret a1 a2 a3 a4 a5 a6 a7) (\<lambda>u. reg_fn7 get1 get2 get3 get4 get5 get6 get7 putr meth7 u ret s) (answer putr ret (meth7 a1 a2 a3 a4 a5 a6 a7 s))"
proof (intro conjI)
  show "delivers (rpc_call1 put1 Ret a1) (\<lambda>u. reg_fn1 get1 putr meth1 u ret s) (answer putr ret (meth1 a1 s))"
    unfolding rpc_call1_def [abs_def] reg_fn1_def [abs_def] answer_def
    by (rule delivers_intro [where w = "\<lambda>m. bind_res (put1 a1 m) (\<lambda>m. Ret m)" and bs = "b1 @ []"])
       (intro emits_bind emits_Ret assms, (rule assms feeds_step feeds_end)+, use assms(15) in simp)
  show "delivers (rpc_call2 put1 put2 Ret a1 a2) (\<lambda>u. reg_fn2 get1 get2 putr meth2 u ret s) (answer putr ret (meth2 a1 a2 s))"
    unfolding rpc_call2_def [abs_def] reg_fn2_def [abs_def] answer_def
    by (rule delivers_intro [where w = "\<lambda>m. bind_res (put1 a1 m) (\<lambda>m. bind_res (put2 a2 m) (\<lambda>m. Ret m))" and bs = "b1 @ b2 @ []"])
       (intro emits_bind emits_Ret assms, (rule assms feeds_step feeds_end)+, use assms(15) in simp)
  show "delivers (rpc_call3 put1 put2 put3 Ret a1 a2 a3) (\<lambda>u. reg_fn3 get1 get2 get3 putr meth3 u ret s) (answer putr ret (meth3 a1 a2 a3 s))"
    unfolding rpc_call3_def [abs_def] reg_fn3_def [abs_def] answer_def
    by (rule delivers_intro [where w = "\<lambda>m. bind_res (put1 a1 m) (\<lambda>m. bind_res (put2 a2 m) (\<lambda>m. bind_res (put3 a3 m) (\<lambda>m. Ret m)))" and bs = "b1 @ b2 @ b3 @ []"])
       (intro emits_bind emits_Ret assms, (rule assms feeds_step feeds_end)+, use assms(15) in simp)
  show "delivers (rpc_call4 put1 put2 put3 put4 Ret a1 a2 a3 a4) (\<lambda>u. reg_fn4 get1 get2 get3 get4 putr meth4 u ret s) (answer putr ret (meth4 a1 a2 a3 a4 s))"
    unfolding rpc_call4_def [abs_def] reg_fn4_def [abs_def] answer_def
    by (rule delivers_intro [where w = "\<lambda>m. bind_res (put1 a1 m) (\<lambda>m. bind_res (put2 a2 m) (\<lambda>m. bind_res (put3 a3 m) (\<lambda>m. bind_res (put4 a4 m) (\<lambda>m. Ret m))))" and bs = "b1 @ b2 @ b3 @ b4 @ []"])
       (intro emits_bind emits_Ret assms, (rule assms feeds_step feeds_end)+, use assms(15) in simp)
  show "delivers (rpc_call5 put1 put2 put3 put4 put5 Ret a1 a2 a3 a4 a5) (\<lambda>u. reg_fn5 get1 get2 get3 get4 get5 putr meth5 u ret s) (answer putr ret (meth5 a1 a2 a3 a4 a5 s))"
    unfolding rpc_call5_def [abs_def] reg_fn5_def [abs_def] answer_def
    by (rule delivers_intro [where w = "\<lambda>m. bind_res (put1 a1 m) (\<lambda>m. bind_res (put2 a2 m) (\<lambda>m. bind_res (put3 a3 m) (\<lambda>m. bind_res (put4 a4 m) (\<lambda>m. bind_res (put5 a5 m) (\<lambda>m. Ret m)))))" and bs = "b1 @ b2 @ b3 @ b4 @ b5 @ []"])
       (intro emits_bind emits_Ret assms, (rule assms feeds_step feeds_end)+, use assms(15) in simp)
  show "delivers (rpc_call6 put1 put2 put3 put4 put5 put6 Ret a1 a2 a3 a4 a5 a6) (\<lambda>u. reg_fn6 get1 get2 get3 get4 get5 get6 putr meth6 u ret s) (answer putr ret (meth6 a1 a2 a3 a4 a5 a6 s))"
    unfolding rpc_call6_def [abs_def] reg_fn6_def [abs_def] answer_def
    by (rule delivers_intro [where w = "\<lambda>m. bind_res (put1 a1 m) (\<lambda>m. bind_res (put2 a2 m) (\<lambda>m. bind_res (put3 a3 m) (\<lambda>m. bind_res (put4 a4 m) (\<lambda>m. bind_res (put5 a5 m) (\<lambda>m. bind_res (put6 a6 m) (\<lambda>m. Ret m))))))" and bs = "b1 @ b2 @ b3 @ b4 @ b5 @ b6 @ []"])
       (intro emits_bind emits_Ret assms, (rule assms feeds_step feeds_end)+, use assms(15) in simp)
  show "delivers (rpc_call7 put1 put2 put3 put4 put5 put6 put7 Ret a1 a2 a3 a4 a5 a6 a7) (\<lambda>u. reg_fn7 get1 get2 get3 get4 get5 get6 get7 putr meth7 u ret s) (answer putr ret (meth7 a1 a2 a3 a4 a5 a6 a7 s))"
    unfolding rpc_call7_def [abs_def] reg_fn7_def [abs_def] answer_def
    by (rule delivers_intro [where w = "\<lambda>m. bind_res (put1 a1 m) (\<lambda>m. bind_res (put2 a2 m) (\<lambda>m. bind_res (put3 a3 m) (\<lambda>m. bind_res (put4 a4 m) (\<lambda>m. bind_res (put5 a5 m) (\<lambda>m. bind_res (put6 a6 m) (\<lambda>m. bind_res (put7 a7 m) (\<lambda>m. Ret m)))))))" and bs = "b1 @ b2 @ b3 @ b4 @ b5 @ b6 @ b7 @ []"])
       (intro emits_bind emits_Ret assms, (rule assms feeds_step feeds_end)+, use assms(15) in simp)
qed


theorem call_arguments_arrive_witness:
  "delivers (rpc_call7 put_int put_string put_ull put_uint put_bool put_ushort put_uchar Ret 5 ''name'' 9 8 True 7 6)
     (\<lambda>u. reg_fn7 get_int (get_string []) get_ull get_uint get_bool get_ushort get_uchar put_int
        (\<lambda>a b c d e f g (st :: nat). Ret (a, d, st)) u (marshall_new 0) 3)
     (answer put_int (marshall_new 0) (Ret (5, 8, 3)))"
proof -
  note at = call_arguments_arrive [where ?put1.0 = put_int and ?get1.0 = get_int and ?a1.0 = 5 and ?b1.0 = "be32 5"
      and ?put2.0 = put_string and ?get2.0 = "get_string []" and ?a2.0 = "''name''" and ?b2.0 = "enc_string ''name''"
      and ?put3.0 = put_ull and ?get3.0 = get_ull and ?a3.0 = 9 and ?b3.0 = "be64 9"
      and ?put4.0 = put_uint and ?get4.0 = get_uint and ?a4.0 = 8 and ?b4.0 = "be32 8"
      and ?put5.0 = put_bool and ?get5.0 = get_bool and ?a5.0 = True and ?b5.0 = "[if True then 1 else 0]"
      and ?put6.0 = put_ushort and ?get6.0 = get_ushort and ?a6.0 = 7 and ?b6.0 = "be16 7"
      and ?put7.0 = put_uchar and ?get7.0 = get_uchar and ?a7.0 = 6 and ?b7.0 = "[6]"
      and putr = put_int and ret = "marshall_new 0" and s = 3 and ?meth7.0 = "\<lambda>a b c d e f g (st :: nat). Ret (a, d, st)", THEN conjunct2, THEN conjunct2, THEN conjunct2, THEN conjunct2, THEN conjunct2, THEN conjunct2]
  show ?thesis
  proof (rule at)
    show "emits (put_string ''name'') (enc_string ''name'')" "reads (get_string []) (enc_string ''name'') ''name''"
      by (simp_all add: emits_put_string reads_get_string)
    show "length (be32 5 @ enc_string ''name'' @ be64 9 @ be32 8 @ [if True then 1 else 0] @ be16 7 @ [6]) < 2 ^ 29"
      by (simp add: enc_string_def)
  qed (rule emits_put_uint emits_put_ull emits_put_bool emits_put_ushort emits_put_uchar
        reads_get_uint reads_get_ull reads_get_bool reads_get_ushort reads_get_uchar)+
qed

section \<open>From the method to the caller\<close>

lemma reply_payload:
  assumes m: "m_inv m" "m_bytes m = hd24 @ bs" "length hd24 = RPC_HEADER_SZ" "length bs < 2 ^ 29"
  shows "\<exists>m' u. pack_reply_header h m = Ret m' \<and> unpack_reply_header (unmarshall_new (m_bytes m')) = Ret (h, u) \<and>
    u_inv u \<and> uok u \<and> u_rest u = bs @ [] \<and> uind u = RPC_HEADER_SZ \<and> RPC_HEADER_SZ \<le> usz u"
proof -
  have len: "mind m = 24 + length bs" using length_m_bytes [OF m(1)] m(2,3) by simp
  obtain a b where h: "h = \<lparr>rp_xid = a, rp_ret = b\<rparr>" by (cases h) auto
  let ?m' = "m\<lparr>mbuf := take 4 (mbuf m) @ (be32 a @ be32 b) @ drop 12 (mbuf m)\<rparr>"
  define mid where "mid = take 12 (drop 12 (mbuf m))"
  let ?w = "take 4 (mbuf m) @ (be32 a @ be32 b @ []) @ mid @ bs"
  let ?u = "(unmarshall_new ?w)\<lparr>uind := sizeof_rpc_sz\<rparr>"
  have mb: "length (take 4 (mbuf m)) = 4" "length mid = 12" using m(1) len by (auto simp: mid_def m_inv_def)
  have "take (mind m) (mbuf m) = hd24 @ bs" using m(2) by (simp add: m_bytes_def)
  then have "drop 24 (take (mind m) (mbuf m)) = bs" using m(3) by simp
  then have "take (length bs) (drop 24 (mbuf m)) = bs" using len by (simp add: drop_take)
  then have "take (12 + length bs) (drop 12 (mbuf m)) = mid @ bs" by (simp add: mid_def take_add)
  then have b: "m_bytes ?m' = ?w" using mb len m(1) by (simp add: m_bytes_def m_inv_def)
  have "pack_reply_header h m = Ret ?m'" using pack_reply_header_spec [OF m(1), of h] by (simp add: h)
  moreover have "u_inv ?u" "uok ?u" "u_rest ?u = (be32 a @ be32 b @ []) @ mid @ bs"
    using mb m(4) by (simp_all add: u_inv_def unmarshall_new_def sizeof_rpc_sz_def u_rest_def)
  then have "unpack_reply_header (unmarshall_new (m_bytes ?m')) = Ret (h, (unmarshall_new ?w)\<lparr>uind := RPC_HEADER_SZ\<rparr>)"
    unfolding b h unpack_reply_header_eq using readsD [OF reads_reply_fields, of ?u] by simp
  moreover have "u_inv ((unmarshall_new ?w)\<lparr>uind := RPC_HEADER_SZ\<rparr>)" "uok ((unmarshall_new ?w)\<lparr>uind := RPC_HEADER_SZ\<rparr>)"
    "u_rest ((unmarshall_new ?w)\<lparr>uind := RPC_HEADER_SZ\<rparr>) = bs @ []" "RPC_HEADER_SZ \<le> usz ((unmarshall_new ?w)\<lparr>uind := RPC_HEADER_SZ\<rparr>)"
    using mb m(4) by (simp_all add: u_inv_def unmarshall_new_def u_rest_def)
  ultimately show ?thesis by (intro exI conjI) (assumption | simp)+
qed

text \<open>A reply with any header and content ends the call it is for; the content is left for decoding.\<close>

lemma reply_arrives:
  assumes m: "m_inv m" "m_bytes m = hd24 @ bs" "length hd24 = RPC_HEADER_SZ" "length bs < 2 ^ 29"
    and ca: "mfind (calls s) x = Some ca" "\<not> ca_done ca"
  shows "\<exists>m' u s' ca'. pack_reply_header \<lparr>rp_xid = x, rp_ret = ret\<rparr> m = Ret m' \<and> rpcc_got_pdu (m_bytes m') s = Ret (True, s') \<and>
    ca' = ca\<lparr>ca_un := u, ca_intret := ret, ca_done := True\<rparr> \<and> s' = (update_xid_rep x s)\<lparr>calls := mput x ca' (calls s)\<rparr> \<and>
    u_inv u \<and> uok u \<and> u_rest u = bs @ []"
proof -
  obtain m' u where u: "pack_reply_header \<lparr>rp_xid = x, rp_ret = ret\<rparr> m = Ret m'"
      "unpack_reply_header (unmarshall_new (m_bytes m')) = Ret (\<lparr>rp_xid = x, rp_ret = ret\<rparr>, u)"
      "u_inv u" "uok u" "u_rest u = bs @ []" "uind u = RPC_HEADER_SZ" "RPC_HEADER_SZ \<le> usz u"
    using reply_payload [OF m] by blast
  have v: "fst (take_in u (ca_un ca)) = u" using u(4,6,7) by (simp add: take_in_def)
  have "calls (update_xid_rep x s) = calls s" by (simp add: update_xid_rep_def)
  then show ?thesis using u ca v by (auto simp: rpcc_got_pdu_def Let_def map_simps)
qed

lemma result_arrives:
  assumes put: "emits (putr r) br" and get: "reads getr br r" and len: "length br < 2 ^ 29" and ret: "\<not> sint ret < 0"
    and ca: "mfind (calls s) x = Some ca" "\<not> ca_done ca"
  shows "\<exists>rep rep' s' ca'. putr r (marshall_new g) = Ret rep \<and> pack_reply_header \<lparr>rp_xid = x, rp_ret = ret\<rparr> rep = Ret rep' \<and>
    rpcc_got_pdu (m_bytes rep') s = Ret (True, s') \<and> mfind (calls s') x = Some ca' \<and> ca_done ca' \<and>
    call_m_finish getr r0 (ca_intret ca') (ca_un ca') = Ret (ret, r) \<and>
    s' = (update_xid_rep x s)\<lparr>calls := mput x ca' (calls s)\<rparr> \<and> ca_xid ca' = ca_xid ca \<and> ca_intret ca' = ret"
proof -
  obtain rep where rep: "putr r (marshall_new g) = Ret rep" "m_inv rep" "m_bytes rep = m_bytes (marshall_new g) @ br"
    by (rule emitsE [OF put m_inv_new [of g]])
  obtain rep' u s' ca' where u: "pack_reply_header \<lparr>rp_xid = x, rp_ret = ret\<rparr> rep = Ret rep'" "rpcc_got_pdu (m_bytes rep') s = Ret (True, s')"
      "ca' = ca\<lparr>ca_un := u, ca_intret := ret, ca_done := True\<rparr>" "s' = (update_xid_rep x s)\<lparr>calls := mput x ca' (calls s)\<rparr>"
      "u_inv u" "uok u" "u_rest u = br @ []"
    using reply_arrives [OF rep(2,3) length_fresh_request len ca] by blast
  have "getr u = Ret (r, u\<lparr>uind := uind u + length br\<rparr>)" by (rule readsD [OF get u(5-7)])
  moreover have "length (u_rest u) = usz u - uind u" using u(5) by (simp add: u_rest_def u_inv_def)
  then have "okdone (u\<lparr>uind := uind u + length br\<rparr>)"
    using u(5-7) u_rest_length [OF u(5,7)] by (simp add: okdone_def)
  ultimately have "call_m_finish getr r0 ret u = Ret (ret, r)" using ret by (simp add: call_m_finish_def)
  then show ?thesis using rep(1) u(1-4) by simp
qed

text \<open>
  The result of a method arrives: the reply made of a result and a non-negative status, once received for a call that is still
  waiting, ends that call with the status, and decoding it gives the result.
\<close>
theorem call_result_arrives:
  assumes put: "emits (putr r) br" and get: "reads getr br r" and len: "length br < 2 ^ 29" and ret: "\<not> sint ret < 0"
    and ca: "mfind (calls s) x = Some ca" "\<not> ca_done ca"
  shows "\<exists>rep rep' s' ca'. putr r (marshall_new g) = Ret rep \<and> pack_reply_header \<lparr>rp_xid = x, rp_ret = ret\<rparr> rep = Ret rep' \<and>
    rpcc_got_pdu (m_bytes rep') s = Ret (True, s') \<and> mfind (calls s') x = Some ca' \<and> ca_done ca' \<and>
    call_m_finish getr r0 (ca_intret ca') (ca_un ca') = Ret (ret, r)"
  using result_arrives [of putr r br getr ret s x ca g r0] assms by blast

definition one_call :: rpcc where
  "one_call = (rpcc_new True 9 0)\<lparr>calls := [(4, \<lparr>ca_xid = 4, ca_un = unmarshall_empty, ca_intret = 0, ca_done = False\<rparr>)]\<rparr>"

theorem call_result_arrives_witness:
  "\<exists>rep rep' s' ca'. put_string ''ok'' (marshall_new 0) = Ret rep \<and> pack_reply_header \<lparr>rp_xid = 4, rp_ret = 2\<rparr> rep = Ret rep' \<and>
    rpcc_got_pdu (m_bytes rep') one_call = Ret (True, s') \<and> mfind (calls s') 4 = Some ca' \<and> ca_done ca' \<and>
    call_m_finish (get_string []) [] (ca_intret ca') (ca_un ca') = Ret (2, ''ok'')"
proof (rule call_result_arrives [where br = "enc_string ''ok''"])
  show "mfind (calls one_call) 4 = Some \<lparr>ca_xid = 4, ca_un = unmarshall_empty, ca_intret = 0, ca_done = False\<rparr>"
    by (simp add: one_call_def)
  show "emits (put_string ''ok'') (enc_string ''ok'')" "reads (get_string []) (enc_string ''ok'') ''ok''"
    by (simp_all add: emits_put_string reads_get_string)
qed (simp_all add: enc_string_def)

end
