(* ===== verification/Rpc_System.thy ===== *)
theory Rpc_System
  imports Rpc_Call
begin

text \<open>
  One remote procedure call from end to end: the typed call and \<^verbatim>\<open>call1\<close> of the client, \<^verbatim>\<open>dispatch\<close> and the handler of the server,
  the reply, and the upcall that ends the call. The transport in between is a list of bytes.
\<close>

section \<open>A new request at the server\<close>

lemma cd_walk_parts: "cd_walk x rep w = (pre, post) \<Longrightarrow> set pre \<subseteq> set w \<and> set post \<subseteq> set w"
  by (induction w arbitrary: pre post) (auto split: if_splits prod.splits)

lemma checkduplicate_set:
  assumes "checkduplicate_and_update c x rep s = Ret (st, s')" and "sorted (xids (win s c))"
  shows "set (win s' c) \<subseteq> insert (reply_new x) (set (win s c))"
  using assms by (cases rule: checkduplicate_cases) (auto dest!: cd_walk_parts)

lemma checkduplicate_absent:
  assumes "checkduplicate_and_update c x rep s = Ret (st, s')" and "sorted (xids (win s c))" and "entry y (win s c) = None" and "y \<noteq> x"
  shows "entry y (win s' c) = None"
  using checkduplicate_set [OF assms(1,2)] assms(3,4) by (auto simp: entry_None_iff xids_def reply_new_def)

lemma checkduplicate_unknown:
  assumes cd: "checkduplicate_and_update c x rep s = Ret (st, s')" and ok: "sorted (xids (win s c))"
    and new: "entry x (win s c) = None" and un: "unacked s c x"
  shows "st = NEW"
  using cd ok
proof (cases rule: checkduplicate_cases)
  case forgotten
  then show ?thesis using un by (auto simp: unacked_def max_def split: if_splits)
next
  case (dup pre r rs)
  then have "r \<in> set (win s c)" using cd_walk_parts [OF dup(6)] by auto
  then show ?thesis using dup(7) new by (auto simp: entry_None_iff xids_def)
qed simp_all

lemma checkduplicate_rest:
  assumes "checkduplicate_and_update c x rep s = Ret (st, s')"
  shows "srv s' = srv s" and "sent s' = sent s" and "refs s' = refs s" and "procs s' = procs s" and "conns s' = conns s"
    and "nonce s' = nonce s" and "counting s' = counting s"
  using assms by (auto simp: checkduplicate_and_update_def Let_def split: if_splits prod.splits list.splits)


lemma dispatch_new_request:
  assumes hdr: "unpack_req_header (unmarshall_new buf) = Ret (h, req)" "uok req" "rq_srv_nonce h = 0 \<or> rq_srv_nonce h = nonce s"
    and f: "mfind (procs s) (rq_proc h) = Some f" "f req (marshall_new g) (srv s) = Ret (b, rep, st)" "\<not> sint b < 0"
    and rep: "pack_reply_header \<lparr>rp_xid = rq_xid h, rp_ret = b\<rparr> rep = Ret rep'"
    and clt: "rq_clt_nonce h \<noteq> 0" "mfind (conns s) (rq_clt_nonce h) \<in> {None, Some c}" "refs s (channo c) > 0" "\<not> isdead (channo c)"
    and win: "wok s" "entry (rq_xid h) (win s (rq_clt_nonce h)) = None" "unacked s (rq_clt_nonce h) (rq_xid h)"
      "rq_xid_rep h < rq_xid h"
  shows "\<exists>s' e. dispatch isdead g c buf s = Ret s' \<and> srv s' = st \<and> sent s' = sent s @ [(channo c, m_bytes rep')] \<and>
     refs s' = (refs s)(channo c := refs s (channo c) - (if mfind (conns s) (rq_clt_nonce h) = None then 0 else 1)) \<and>
     procs s' = procs s \<and> mfind (conns s') (rq_clt_nonce h) = Some c \<and> nonce s' = nonce s \<and>
     wok s' \<and> unacked s' (rq_clt_nonce h) (rq_xid h) \<and> entry (rq_xid h) (win s' (rq_clt_nonce h)) = Some e \<and>
     r_cb_present e \<and> r_buf e = m_bytes rep' \<and>
     (\<forall>y. y \<noteq> rq_xid h \<longrightarrow> entry y (win s (rq_clt_nonce h)) = None \<longrightarrow> entry y (win s' (rq_clt_nonce h)) = None)"
proof -
  let ?c = "rq_clt_nonce h" and ?x = "rq_xid h"
  define w0 where "w0 = (if mfind (reply_window s) ?c = None then s\<lparr>reply_window := mput ?c [] (reply_window s)\<rparr> else s)"
  define s0 where "s0 = (if mfind (conns s) ?c = None then (incref c w0)\<lparr>conns := mput ?c c (conns w0)\<rparr> else w0)"
  let ?refs = "(refs s)(channo c := refs s (channo c) + (if mfind (conns s) ?c = None then 1 else 0))"
  have s0: "srv s0 = srv s" "sent s0 = sent s" "refs s0 = ?refs" "procs s0 = procs s" "mfind (conns s0) ?c = Some c" "nonce s0 = nonce s"
      "\<And>c. win s0 c = win s c" "\<And>c. hi s0 c = hi s c"
    using clt(2) by (auto simp: s0_def w0_def incref_def mget_def)
  have ok0: "wok s0" "entry ?x (win s0 ?c) = None" "unacked s0 ?c ?x" using win(1-3) s0(7,8) by (auto simp: wok_def unacked_def)
  have sorted: "sorted (xids (win s0 ?c))" using ok0(1) by (simp add: wok_def)
  obtain stt s1 where "checkduplicate_and_update ?c ?x (rq_xid_rep h) s0 = Ret (stt, s1)"
    using checkduplicate_returns [OF win(4) ok0(1)] by blast
  then have cd: "checkduplicate_and_update ?c ?x (rq_xid_rep h) s0 = Ret (NEW, s1)"
    using checkduplicate_unknown [OF _ sorted ok0(2,3)] by auto
  have s1: "wok s1" "unacked s1 ?c ?x" "entry ?x (win s1 ?c) = Some (reply_new ?x)"
    using wok_step [OF ok0(1), of "Request ?c ?x (rq_xid_rep h)"] cd checkduplicate_hi(1) [OF cd sorted win(4)] ok0(3)
      checkduplicate_new [OF cd sorted] by (auto simp: unacked_def)
  define s2 where "s2 = (if counting s1 \<noteq> 0 then updatestat (rq_proc h) s1 else s1)\<lparr>srv := st\<rparr>"
  have s2: "srv s2 = st" "sent s2 = sent s" "refs s2 = ?refs" "procs s2 = procs s" "mfind (conns s2) ?c = Some c" "nonce s2 = nonce s"
      "\<And>c. win s2 c = win s1 c" "\<And>c. hi s2 c = hi s1 c"
      "srv (if counting s1 \<noteq> 0 then updatestat (rq_proc h) s1 else s1) = srv s"
    using checkduplicate_rest [OF cd] s0 by (auto simp: s2_def updatestat_def Let_def)
  obtain s3 where s3: "add_reply ?c ?x (m_bytes rep') s2 = Ret s3"
    using set_reply_total [of ?x "win s2 ?c" "m_bytes rep'"] s1(3) s2(7) clt(1)
    by (auto simp: add_reply_def word_neq_0_conv split: option.splits)
  have r3: "srv s3 = st" "sent s3 = sent s" "refs s3 = ?refs" "procs s3 = procs s" "mfind (conns s3) ?c = Some c" "nonce s3 = nonce s"
    using s3 s2 by (auto simp: add_reply_def split: option.splits)
  have w3: "wok s3" "unacked s3 ?c ?x"
      "entry ?x (win s3 ?c) = Some ((reply_new ?x)\<lparr>r_buf := m_bytes rep', r_cb_present := True\<rparr>)"
    using add_reply_spec [OF s3] s1 s2(7,8) by (auto simp: wok_def unacked_def)
  have o3: "entry y (win s3 ?c) = None" if "y \<noteq> ?x" "entry y (win s ?c) = None" for y
    using checkduplicate_absent [OF cd sorted _ that(1)] that add_reply_spec(4) [OF s3, of ?c y] s0(7) s2(7) by simp
  have "save_conn ?c c w0 = Ret s0" "mfind (procs s) (rq_proc h) = Some f"
    using clt(2) f(1) by (auto simp: s0_def w0_def save_conn_def conn_compare_def)
  moreover have "unmarshal_args_failure \<noteq> b" using f(3) by (auto simp: unmarshal_args_failure_def)
  ultimately have "dispatch isdead g c buf s = decref c (conn_send c (m_bytes rep') s3)"
    using hdr f clt(1,4) cd rep s2(9) s3
    by (auto simp: dispatch_def dispatch_new_def w0_def [symmetric] s2_def [symmetric] Let_def word_neq_0_conv)
  then show ?thesis using clt(3) r3 w3 o3
    by (auto simp: decref_def conn_send_def Let_def wok_def unacked_def)
qed


section \<open>Properties\<close>

lemma one_argument_arrives:
  assumes "emits (put1 a1) b1" and "reads get1 b1 a1" and "length b1 < 2 ^ 29"
  shows "delivers (rpc_call1 put1 Ret a1) (\<lambda>u. reg_fn1 get1 putr meth u ret s) (answer putr ret (meth a1 s))"
  unfolding rpc_call1_def [abs_def] reg_fn1_def [abs_def] answer_def
  by (rule delivers_intro [where w = "\<lambda>m. bind_res (put1 a1 m) (\<lambda>m. Ret m)" and bs = "b1 @ []"])
     (intro emits_bind emits_Ret assms, (rule assms feeds_step feeds_end)+, use assms(3) in simp)

lemma two_arguments_arrive:
  assumes "emits (put1 a1) b1" and "emits (put2 a2) b2" and "reads get1 b1 a1" and "reads get2 b2 a2"
    and "length b1 + length b2 < 2 ^ 29"
  shows "delivers (rpc_call2 put1 put2 Ret a1 a2) (\<lambda>u. reg_fn2 get1 get2 putr meth u ret s) (answer putr ret (meth a1 a2 s))"
  unfolding rpc_call2_def [abs_def] reg_fn2_def [abs_def] answer_def
  by (rule delivers_intro [where w = "\<lambda>m. bind_res (put1 a1 m) (\<lambda>m. bind_res (put2 a2 m) (\<lambda>m. Ret m))" and bs = "b1 @ b2 @ []"])
     (intro emits_bind emits_Ret assms, (rule assms feeds_step feeds_end)+, use assms(5) in simp)

text \<open>
  One call, whatever its arguments: the request reaches the handler \<open>f\<close>, which returns status \<open>b\<close> and result \<open>r\<close>; the
  caller gets both.
\<close>

lemma rpc_round_trip:
  assumes d: "delivers call (\<lambda>u. f u (marshall_new g) (srv S)) (answer putr (marshall_new g) (Ret (b, r, st)))"
    and result: "emits (putr r) br" "reads getr br r" "length br < 2 ^ 29" "\<not> sint b < 0"
    and client: "\<not> destroy_wait s" "proc = rpc_const_bind \<longleftrightarrow> \<not> bind_done s" "clt_nonce s \<noteq> 0"
      "srv_nonce s = 0 \<or> srv_nonce s = nonce S" "hd (xid_rep_window s) < xid_ctr s"
    and server: "wok S" "mfind (procs S) proc = Some f"
      "entry (xid_ctr s) (win S (clt_nonce s)) = None" "unacked S (clt_nonce s) (xid_ctr s)"
      "mfind (conns S) (clt_nonce s) \<in> {None, Some c}" "refs S (channo c) > 0" "\<not> isdead (channo c)"
  obtains m m' u s1 S1 rep s2 ca e where "call g = Ret m"
    "call1_begin proc m junk s = Ret (Inr (xid_ctr s, hd (xid_rep_window s), m'), s1)"
    "unpack_req_header (unmarshall_new (m_bytes m')) =
       Ret (\<lparr>rq_xid = xid_ctr s, rq_proc = proc, rq_clt_nonce = clt_nonce s, rq_srv_nonce = srv_nonce s, rq_xid_rep = hd (xid_rep_window s)\<rparr>, u)"
    "uok u" "dispatch isdead g c (m_bytes m') S = Ret S1" "srv S1 = st" "sent S1 = sent S @ [(channo c, rep)]"
    "refs S1 = (refs S)(channo c := refs S (channo c) - (if mfind (conns S) (clt_nonce s) = None then 0 else 1))"
    "procs S1 = procs S" "mfind (conns S1) (clt_nonce s) = Some c" "nonce S1 = nonce S"
    "wok S1" "unacked S1 (clt_nonce s) (xid_ctr s)" "entry (xid_ctr s) (win S1 (clt_nonce s)) = Some e" "r_cb_present e" "r_buf e = rep"
    "\<forall>y. y \<noteq> xid_ctr s \<longrightarrow> entry y (win S (clt_nonce s)) = None \<longrightarrow> entry y (win S1 (clt_nonce s)) = None"
    "rpcc_got_pdu rep s1 = Ret (True, s2)" "mfind (calls s2) (xid_ctr s) = Some ca" "ca_done ca"
    "call_m_finish getr r0 (ca_intret ca) (ca_un ca) = Ret (b, r)"
    "s2 = (update_xid_rep (xid_ctr s) (s\<lparr>xid_ctr := xid_ctr s + 1\<rparr>))\<lparr>calls := mput (xid_ctr s) ca (calls s)\<rparr>"
    "ca_xid ca = xid_ctr s" "ca_intret ca = b"
proof -
  let ?x = "xid_ctr s"
  let ?h = "\<lparr>rq_xid = ?x, rq_proc = proc, rq_clt_nonce = clt_nonce s, rq_srv_nonce = srv_nonce s, rq_xid_rep = hd (xid_rep_window s)\<rparr>"
  obtain m where m: "call g = Ret m" "\<And>h. \<exists>m' u. pack_req_header h m = Ret m' \<and> unpack_req_header (unmarshall_new (m_bytes m')) = Ret (h, u) \<and>
      uok u \<and> f u (marshall_new g) (srv S) = answer putr (marshall_new g) (Ret (b, r, st))"
    using d unfolding delivers_def by blast
  then obtain m' u where m': "pack_req_header ?h m = Ret m'" "unpack_req_header (unmarshall_new (m_bytes m')) = Ret (?h, u)" "uok u"
      "f u (marshall_new g) (srv S) = answer putr (marshall_new g) (Ret (b, r, st))" by blast
  define s1 where "s1 = s\<lparr>xid_ctr := ?x + 1,
      calls := mput ?x \<lparr>ca_xid = ?x, ca_un = unmarshall_empty, ca_intret = junk, ca_done = False\<rparr> (calls s)\<rparr>"
  have begin1: "call1_begin proc m junk s = Ret (Inr (?x, hd (xid_rep_window s), m'), s1)"
    using client(1,2) m'(1) by (auto simp: call1_begin_def s1_def Let_def)
  have "mfind (calls s1) ?x = Some \<lparr>ca_xid = ?x, ca_un = unmarshall_empty, ca_intret = junk, ca_done = False\<rparr>"
    by (simp add: s1_def)
  from result_arrives [of putr r br getr b s1 ?x, OF result this, of g r0]
  obtain rep0 rep' s2 ca where r: "putr r (marshall_new g) = Ret rep0" "pack_reply_header \<lparr>rp_xid = ?x, rp_ret = b\<rparr> rep0 = Ret rep'"
      "rpcc_got_pdu (m_bytes rep') s1 = Ret (True, s2)" "mfind (calls s2) ?x = Some ca" "ca_done ca"
      "call_m_finish getr r0 (ca_intret ca) (ca_un ca) = Ret (b, r)"
      "s2 = (update_xid_rep ?x s1)\<lparr>calls := mput ?x ca (calls s1)\<rparr>" "ca_xid ca = ?x" "ca_intret ca = b" by auto
  have s2: "s2 = (update_xid_rep ?x (s\<lparr>xid_ctr := ?x + 1\<rparr>))\<lparr>calls := mput ?x ca (calls s)\<rparr>"
    by (simp add: r(7) s1_def update_xid_rep_def mput_mput)
  have fu: "f u (marshall_new g) (srv S) = Ret (b, rep0, st)" using m'(4) r(1) by (simp add: answer_def)
  obtain S1 e where d: "dispatch isdead g c (m_bytes m') S = Ret S1" "srv S1 = st" "sent S1 = sent S @ [(channo c, m_bytes rep')]"
    "refs S1 = (refs S)(channo c := refs S (channo c) - (if mfind (conns S) (clt_nonce s) = None then 0 else 1))"
    "procs S1 = procs S" "mfind (conns S1) (clt_nonce s) = Some c" "nonce S1 = nonce S"
    "wok S1" "unacked S1 (clt_nonce s) ?x" "entry ?x (win S1 (clt_nonce s)) = Some e" "r_cb_present e" "r_buf e = m_bytes rep'"
    "\<forall>y. y \<noteq> ?x \<longrightarrow> entry y (win S (clt_nonce s)) = None \<longrightarrow> entry y (win S1 (clt_nonce s)) = None"
    using dispatch_new_request [of "m_bytes m'" ?h u S f g b rep0 st rep' c isdead] m'(2,3) fu result(4) r(2) client server by auto
  show thesis by (rule that [OF m(1) begin1 m'(2,3) d r(3-6) s2 r(8,9)])
qed

text \<open>
  C2. A remote procedure call from end to end. A bound client calls a procedure with two arguments; the server has a method of
  these types registered for it, has not seen the request, and the client has not acknowledged it. Then the server runs
  the method with exactly these arguments and sends one reply; the reply ends the call, and the caller gets the
  status and the result of the method. If the request arrives a second time, the method does not run again and the
  same reply is sent again.
\<close>
theorem rpc_end_to_end:
  assumes args: "emits (put1 a1) b1" "emits (put2 a2) b2" "reads get1 b1 a1" "reads get2 b2 a2" "length b1 + length b2 < 2 ^ 29"
    and result: "emits (putr r) br" "reads getr br r" "length br < 2 ^ 29"
    and client: "bind_done s" "\<not> destroy_wait s" "proc \<noteq> rpc_const_bind" "clt_nonce s \<noteq> 0" "srv_nonce s = nonce S"
      "hd (xid_rep_window s) < xid_ctr s"
    and server: "wok S" "mfind (procs S) proc = Some (reg_fn2 get1 get2 putr meth)"
      "entry (xid_ctr s) (win S (clt_nonce s)) = None" "unacked S (clt_nonce s) (xid_ctr s)"
      "mfind (conns S) (clt_nonce s) = Some c" "refs S (channo c) > 1" "\<not> isdead (channo c)"
    and meth: "meth a1 a2 (srv S) = Ret (b, r, st)" "\<not> sint b < 0"
  shows "\<exists>m m' s1 S1 rep s2 ca S2.
     rpc_call2 put1 put2 Ret a1 a2 g = Ret m \<and>
     call1_begin proc m junk s = Ret (Inr (xid_ctr s, hd (xid_rep_window s), m'), s1) \<and>
     dispatch isdead g c (m_bytes m') S = Ret S1 \<and> srv S1 = st \<and> sent S1 = sent S @ [(channo c, rep)] \<and>
     rpcc_got_pdu rep s1 = Ret (True, s2) \<and> mfind (calls s2) (xid_ctr s) = Some ca \<and> ca_done ca \<and>
     call_m_finish getr r0 (ca_intret ca) (ca_un ca) = Ret (b, r) \<and>
     dispatch isdead g c (m_bytes m') S1 = Ret S2 \<and> srv S2 = st \<and> sent S2 = sent S1 @ [(channo c, rep)]"
proof -
  have arr: "delivers (rpc_call2 put1 put2 Ret a1 a2) (\<lambda>u. reg_fn2 get1 get2 putr meth u (marshall_new g) (srv S))
      (answer putr (marshall_new g) (Ret (b, r, st)))"
    using two_arguments_arrive [of put1 a1 b1 put2 a2 b2 get1 get2 putr meth "marshall_new g" "srv S", OF args] meth(1) by simp
  have cl: "\<not> destroy_wait s" "proc = rpc_const_bind \<longleftrightarrow> \<not> bind_done s" "clt_nonce s \<noteq> 0"
      "srv_nonce s = 0 \<or> srv_nonce s = nonce S" "hd (xid_rep_window s) < xid_ctr s"
    and sv: "mfind (conns S) (clt_nonce s) \<in> {None, Some c}" "refs S (channo c) > 0" using client server(5,6) by auto
  obtain m m' u s1 S1 rep s2 ca e where e: "rpc_call2 put1 put2 Ret a1 a2 g = Ret m" "call1_begin proc m junk s = Ret (Inr (xid_ctr s, hd (xid_rep_window s), m'), s1)"
    "unpack_req_header (unmarshall_new (m_bytes m')) =
       Ret (\<lparr>rq_xid = xid_ctr s, rq_proc = proc, rq_clt_nonce = clt_nonce s, rq_srv_nonce = srv_nonce s, rq_xid_rep = hd (xid_rep_window s)\<rparr>, u)"
    "uok u" "dispatch isdead g c (m_bytes m') S = Ret S1" "srv S1 = st" "sent S1 = sent S @ [(channo c, rep)]"
    "refs S1 = (refs S)(channo c := refs S (channo c) - (if mfind (conns S) (clt_nonce s) = None then 0 else 1))"
    "procs S1 = procs S" "mfind (conns S1) (clt_nonce s) = Some c" "nonce S1 = nonce S"
    "wok S1" "unacked S1 (clt_nonce s) (xid_ctr s)" "entry (xid_ctr s) (win S1 (clt_nonce s)) = Some e" "r_cb_present e" "r_buf e = rep"
    "rpcc_got_pdu rep s1 = Ret (True, s2)" "mfind (calls s2) (xid_ctr s) = Some ca" "ca_done ca"
    "call_m_finish getr r0 (ca_intret ca) (ca_un ca) = Ret (b, r)"
    by (rule rpc_round_trip [where junk = junk and ?r0.0 = r0 and call = "rpc_call2 put1 put2 Ret a1 a2" and f = "reg_fn2 get1 get2 putr meth"
      and putr = putr and getr = getr and r = r and b = b and st = st and g = g and S = S and s = s and isdead = isdead, OF arr result meth(2) cl server(1-4) sv server(7)])
      (rule that; assumption)
  have "refs S1 (channo c) > 0" using e(8) server(5,6) by simp
  then obtain S2 where "dispatch isdead g c (m_bytes m') S1 = Ret S2" "srv S2 = srv S1" "sent S2 = sent S1 @ [(channo c, rep)]"
    using dispatch_duplicate [OF e(3,4), of S1 "reg_fn2 get1 get2 putr meth" c e isdead g] e client server by auto
  then show ?thesis using e by (intro exI conjI) (assumption | simp)+
qed


text \<open>The witness: the number 5 and the name \<open>a\<close> are sent; the method adds the length of the name to the number and to its state.\<close>

definition demo_meth :: "u64 \<Rightarrow> string \<Rightarrow> nat \<Rightarrow> (u32 \<times> u64 \<times> nat) res" where
  "demo_meth n t st = Ret (0, n + of_nat (length t), st + length t)"

definition demo_conn :: conn where
  "demo_conn = \<lparr>channo = 4, create_sec = 0, create_usec = 0\<rparr>"

definition demo_server :: "nat rpcs" where
  "demo_server = (rpcs_init 1 0 10)\<lparr>procs := [(0x7001, reg_fn2 get_ull (get_string []) put_ull demo_meth)],
     conns := [(9, demo_conn)], refs := (\<lambda>_. 2)\<rparr>"

definition demo_client :: rpcc where
  "demo_client = (rpcc_new True 9 0)\<lparr>bind_done := True, srv_nonce := 1\<rparr>"

theorem rpc_end_to_end_witness:
  "\<exists>m m' s1 S1 rep s2 ca S2.
     rpc_call2 put_ull put_string Ret 5 ''a'' 0 = Ret m \<and>
     call1_begin 0x7001 m 0 demo_client = Ret (Inr (1, 0, m'), s1) \<and>
     dispatch (\<lambda>_. False) 0 demo_conn (m_bytes m') demo_server = Ret S1 \<and> srv S1 = 11 \<and> sent S1 = [(4, rep)] \<and>
     rpcc_got_pdu rep s1 = Ret (True, s2) \<and> mfind (calls s2) 1 = Some ca \<and>
     call_m_finish get_ull 0 (ca_intret ca) (ca_un ca) = Ret (0, 6) \<and>
     dispatch (\<lambda>_. False) 0 demo_conn (m_bytes m') S1 = Ret S2 \<and> srv S2 = 11"
proof -
  have "\<exists>m m' s1 S1 rep s2 ca S2.
     rpc_call2 put_ull put_string Ret 5 ''a'' 0 = Ret m \<and>
     call1_begin 0x7001 m 0 demo_client = Ret (Inr (xid_ctr demo_client, hd (xid_rep_window demo_client), m'), s1) \<and>
     dispatch (\<lambda>_. False) 0 demo_conn (m_bytes m') demo_server = Ret S1 \<and> srv S1 = 11 \<and>
     sent S1 = sent demo_server @ [(channo demo_conn, rep)] \<and>
     rpcc_got_pdu rep s1 = Ret (True, s2) \<and> mfind (calls s2) (xid_ctr demo_client) = Some ca \<and> ca_done ca \<and>
     call_m_finish get_ull 0 (ca_intret ca) (ca_un ca) = Ret (0, 6) \<and>
     dispatch (\<lambda>_. False) 0 demo_conn (m_bytes m') S1 = Ret S2 \<and> srv S2 = 11 \<and> sent S2 = sent S1 @ [(channo demo_conn, rep)]"
  proof (rule rpc_end_to_end [where meth = demo_meth and putr = put_ull and ?b1.0 = "be64 5" and ?b2.0 = "enc_string ''a''" and br = "be64 6"
      and ?get1.0 = get_ull and ?get2.0 = "get_string []"])
    show "emits (put_string ''a'') (enc_string ''a'')" "reads (get_string []) (enc_string ''a'') ''a''"
      "emits (put_ull 5) (be64 5)" "reads get_ull (be64 5) 5" "emits (put_ull 6) (be64 6)" "reads get_ull (be64 6) 6"
      by (simp_all add: emits_put_string reads_get_string emits_put_ull reads_get_ull)
  qed (simp_all add: enc_string_def demo_server_def demo_client_def demo_conn_def rpcs_init_def rpcc_new_def demo_meth_def
          wok_def unacked_def rpc_const_bind_def)
  then show ?thesis by (auto simp: demo_server_def demo_client_def demo_conn_def rpcs_init_def rpcc_new_def)
qed

end
