(* ===== verification/Plain_Clients.thy ===== *)
theory Plain_Clients
  imports Rpc_System Lock_Server Extent_Server
begin

text \<open>
  The RPC stubs without a cache: \<^verbatim>\<open>lock_client\<close> (\<^verbatim>\<open>lock_client.cc\<close>) and the write of \<^verbatim>\<open>extent_client\<close>
  (\<^verbatim>\<open>extent_client.cc\<close>). They still send the arguments of an earlier version of the protocol; the theorem says what
  the lock server makes of them.
\<close>

section \<open>The stubs\<close>

text \<open>
  \<open>rpc proc req\<close> is \<^verbatim>\<open>call_m\<close> for the given procedure, \<open>clt\<close> the nonce of the client (\<^verbatim>\<open>cl->id()\<close>).
\<close>

definition lock_client_stat :: "(u32 \<Rightarrow> marshall \<Rightarrow> (u32 \<times> u32) res) \<Rightarrow> u32 \<Rightarrow> byte \<Rightarrow> u64 \<Rightarrow> u32 res" where
  "lock_client_stat rpc clt g lid =
     bind_res (rpc_call2 put_uint put_ull (rpc stat_proc) clt lid g) (\<lambda>(ret, r). verify (ret = l_OK) (Ret r))"

definition lock_client_acquire :: "(u32 \<Rightarrow> marshall \<Rightarrow> (u32 \<times> u32) res) \<Rightarrow> u32 \<Rightarrow> byte \<Rightarrow> u64 \<Rightarrow> u32 res" where
  "lock_client_acquire rpc clt g lid =
     bind_res (rpc_call2 put_uint put_ull (rpc acquire_proc) clt lid g) (\<lambda>(ret, r). verify (ret = l_OK) (Ret r))"

definition lock_client_release :: "(u32 \<Rightarrow> marshall \<Rightarrow> (u32 \<times> u32) res) \<Rightarrow> u32 \<Rightarrow> byte \<Rightarrow> u64 \<Rightarrow> u32 res" where
  "lock_client_release rpc clt g lid =
     bind_res (rpc_call2 put_uint put_ull (rpc release_proc) clt lid g) (\<lambda>(ret, r). verify (ret = l_OK) (Ret r))"

definition extent_client_put :: "(u32 \<Rightarrow> marshall \<Rightarrow> (u32 \<times> u32) res) \<Rightarrow> byte \<Rightarrow> u64 \<Rightarrow> string \<Rightarrow> u32 res" where
  "extent_client_put rpc g eid buf =
     bind_res (rpc_call2 put_ull put_string (rpc put_proc) eid buf g) (\<lambda>(ret, r). Ret ret)"

section \<open>Small programs\<close>

text \<open>
  The command that tells a client to disconnect or to connect again (\<^verbatim>\<open>disconnect_client.cc\<close>, \<^verbatim>\<open>disconnect_tester.cc\<close>) and the demonstration
  of the plain lock client (\<^verbatim>\<open>lock_demo.cc\<close>). The arguments are those after the program's name; binding is the rpc client's.
\<close>

definition disconnect_proc :: u32 where
  "disconnect_proc = 0x9001"

definition disconnect_client_disconnect :: "(u32 \<Rightarrow> marshall \<Rightarrow> (u32 \<times> u32) res) \<Rightarrow> byte \<Rightarrow> bool \<Rightarrow> u32 res" where
  "disconnect_client_disconnect rpc g kill =
     bind_res (rpc_call1 put_bool (rpc disconnect_proc) kill g) (\<lambda>(ret, r). verify (ret = l_OK) (Ret r))"

definition disconnect_main :: "(u32 \<Rightarrow> marshall \<Rightarrow> (u32 \<times> u32) res) \<Rightarrow> byte \<Rightarrow> string list \<Rightarrow> u32 option res" where
  "disconnect_main rpc g argv =
     (case argv of
        [dst, command] \<Rightarrow>
          if command = ''1'' \<or> command = ''y'' then bind_res (disconnect_client_disconnect rpc g True) (\<lambda>r. Ret (Some r))
          else if command = ''0'' \<or> command = ''n'' then bind_res (disconnect_client_disconnect rpc g False) (\<lambda>r. Ret (Some r))
          else Ret None
      | _ \<Rightarrow> Fault Exit_failure)"

definition lock_demo_main :: "(u32 \<Rightarrow> marshall \<Rightarrow> (u32 \<times> u32) res) \<Rightarrow> u32 \<Rightarrow> byte \<Rightarrow> string list \<Rightarrow> u32 res" where
  "lock_demo_main rpc clt g argv = (case argv of [dst] \<Rightarrow> lock_client_stat rpc clt g 1 | _ \<Rightarrow> Fault Exit_failure)"

section \<open>What the lock server makes of the requests\<close>

lemma be64_join: "be64 (push_bit 32 (ucast (a :: u32)) OR ucast (b :: u32)) = be32 a @ be32 b"
proof -
  have "ucast (drop_bit 32 (push_bit 32 (ucast a) OR ucast b :: u64)) = a"
    by (rule bit_word_eqI) (auto simp: bit_simps dest: bit_imp_le_length)
  moreover have "ucast (push_bit 32 (ucast a) OR ucast b :: u64) = b"
    by (rule bit_word_eqI) (auto simp: bit_simps)
  ultimately show ?thesis by (simp add: be64_def)
qed

lemma feeds_left: "bs \<noteq> [] \<Longrightarrow> feeds bs (\<lambda>u. if \<not> okdone u then F else x) F"
  by (auto simp: feeds_def u_rest_def u_inv_def okdone_def)

text \<open>A string whose announced length is more than what is left makes the decoding fail.\<close>

lemma feeds_short_string:
  assumes n: "0 < n" "unat n < 2 ^ 32 - 2 ^ 31"
  shows "feeds (be32 n) (\<lambda>u. bind_res (get_string s0 u) (\<lambda>(s, u). if \<not> okdone u then F else f s)) F"
  unfolding feeds_def
proof (intro allI impI)
  fix u assume u: "u_inv u" "uok u" "u_rest u = be32 n"
  let ?v = "u\<lparr>uind := uind u + 4\<rparr>"
  have 1: "get_uint u = Ret (n, ?v)" using readsD [OF reads_get_uint(1) u(1,2), of n "[]"] u(3) by simp
  have "length (u_rest u) = usz u - uind u" using u(1) by (simp add: u_rest_def u_inv_def)
  then have sz: "usz u = uind u + 4" using u(1,3) by (simp add: u_inv_def)
  have "of_nat (uind u + 4) + n > (of_nat (usz u) :: u32)"
    using n u(1) sz by (simp add: word_less_nat_alt unat_word_ariths u_inv_def unat_of_nat)
  then show "bind_res (get_string s0 u) (\<lambda>(s, u). if \<not> okdone u then F else f s) = F"
    using 1 by (simp add: get_string_def u_rawbytes_def okdone_def)
qed


lemma be32_be64: "be32 a @ be64 x = be64 (push_bit 32 (ucast a) OR ucast (ucast (drop_bit 32 x) :: u32)) @ be32 (ucast x)"
  by (simp add: be64_join) (simp add: be64_def)

lemma stat_args_fail:
  "feeds (be32 clt @ be64 lid) (\<lambda>u. reg_fn1 get_ull put_int h_stat u ret s) (Ret (unmarshal_args_failure, ret, s))"
proof -
  have "be32 (ucast lid) \<noteq> []" by (simp add: be32_def)
  then show ?thesis unfolding be32_be64 reg_fn1_def by (rule feeds_step [OF reads_get_ull feeds_left])
qed

lemma two_args_fail:
  assumes "0 < (ucast lid :: u32)" and "unat (ucast lid :: u32) < 2 ^ 32 - 2 ^ 31"
  shows "feeds (be32 clt @ be64 lid) (\<lambda>u. reg_fn2 get_ull (get_string s0) put_int meth u ret s) (Ret (unmarshal_args_failure, ret, s))"
  unfolding be32_be64 reg_fn2_def by (rule feeds_step [OF reads_get_ull feeds_short_string [OF assms]])

lemma plain_request: "emits (\<lambda>m. bind_res (put_uint clt m) (\<lambda>m. bind_res (put_ull lid m) Ret)) (be32 clt @ be64 lid @ [])"
  by (intro emits_bind emits_put_uint emits_put_ull emits_Ret)

lemma failed_args_abort:
  assumes "\<And>m st. feeds bs (\<lambda>u. f u m st) (Ret (unmarshal_args_failure, m, st))"
  shows "feeds bs (\<lambda>u. dispatch_new isdead g h f u c s) (Fault Verify_failed)"
  using assms unfolding feeds_def by (simp add: dispatch_new_def Let_def)

lemma plain_delivers:
  assumes "feeds (be32 clt @ be64 lid) fn x"
  shows "delivers (rpc_call2 put_uint put_ull Ret clt lid) fn x"
  using delivers_intro [OF plain_request [of clt lid], of fn x] assms
  by (simp add: rpc_call2_def [abs_def])

section \<open>Properties\<close>

text \<open>
  The command of the test client arrives: the handler registered for it runs with exactly the flag that was given, so
  \<open>1\<close> and \<open>y\<close> disconnect and \<open>0\<close> and \<open>n\<close> connect again; any other command makes no call.
\<close>
lemma disconnect_command_arrives:
  "delivers (rpc_call1 put_bool Ret kill) (\<lambda>u. reg_fn1 get_bool put_int meth u ret s) (answer put_int ret (meth kill s))"
  by (rule one_argument_arrives [where ?b1.0 = "[if kill then 1 else 0]"]) (simp_all only: emits_put_bool reads_get_bool, simp)

lemma disconnect_main_cases:
  "disconnect_main rpc g [dst, ''1''] = bind_res (disconnect_client_disconnect rpc g True) (\<lambda>r. Ret (Some r))"
  "disconnect_main rpc g [dst, ''n''] = bind_res (disconnect_client_disconnect rpc g False) (\<lambda>r. Ret (Some r))"
  "disconnect_main rpc g [dst, ''yes''] = Ret None" "disconnect_main rpc g [dst] = Fault Exit_failure"
  by (simp_all add: disconnect_main_def)

text \<open>
  The plain lock client and the lock server do not fit together: the client sends its nonce and the lock number, the server expects
  a lock number, and for acquire and release also a string. A request for the state of any lock, or to acquire or
  release one whose number has a positive lower half below two thousand million, ends the server
  process with a failed check.
\<close>
theorem plain_lock_client_ends_server:
  assumes "0 < (ucast lid :: u32)" and "unat (ucast lid :: u32) < 2 ^ 31"
  shows "delivers (rpc_call2 put_uint put_ull Ret clt lid)
      (\<lambda>u. dispatch_new isdead g h (reg_fn1 get_ull put_int h_stat) u c s) (Fault Verify_failed)"
    and "delivers (rpc_call2 put_uint put_ull Ret clt lid)
      (\<lambda>u. dispatch_new isdead g h (reg_fn2 get_ull (get_string []) put_int (h_acquire rpc)) u c s) (Fault Verify_failed)"
    and "delivers (rpc_call2 put_uint put_ull Ret clt lid)
      (\<lambda>u. dispatch_new isdead g h (reg_fn2 get_ull (get_string []) put_int h_release) u c s) (Fault Verify_failed)"
proof -
  have small: "unat (ucast lid :: u32) < 2 ^ 32 - 2 ^ 31" using assms(2) by simp
  show "delivers (rpc_call2 put_uint put_ull Ret clt lid)
      (\<lambda>u. dispatch_new isdead g h (reg_fn1 get_ull put_int h_stat) u c s) (Fault Verify_failed)"
    by (intro plain_delivers failed_args_abort stat_args_fail)
  show "delivers (rpc_call2 put_uint put_ull Ret clt lid)
      (\<lambda>u. dispatch_new isdead g h (reg_fn2 get_ull (get_string []) put_int (h_acquire rpc)) u c s) (Fault Verify_failed)"
    "delivers (rpc_call2 put_uint put_ull Ret clt lid)
      (\<lambda>u. dispatch_new isdead g h (reg_fn2 get_ull (get_string []) put_int h_release) u c s) (Fault Verify_failed)"
    by (intro plain_delivers failed_args_abort two_args_fail [OF assms(1) small])+
qed

theorem plain_lock_client_ends_server_witness:
  "\<forall>c s. delivers (rpc_call2 put_uint put_ull Ret 77 1)
      (\<lambda>u. dispatch_new (\<lambda>_. False) 0 \<lparr>rq_xid = 2, rq_proc = acquire_proc, rq_clt_nonce = 77, rq_srv_nonce = 5, rq_xid_rep = 1\<rparr>
         (reg_fn2 get_ull (get_string []) put_int (h_acquire (\<lambda>_ _. None))) u c s) (Fault Verify_failed)"
  by (intro allI plain_lock_client_ends_server(2)) simp_all

end
