(* ===== verification/Rpc_Network.thy ===== *)
theory Rpc_Network
  imports Rpc_System
begin

text \<open>
  A client and a server of the RPC library with an unreliable network between them. Requests and replies are lost,
  repeated and reordered at will: whatever was once sent may arrive at any later time, any number of times, or
  never. The server works on several requests at once, so \<^verbatim>\<open>dispatch\<close> is taken apart at the point where it has found
  a request to be new and calls the handler; between the two halves anything may happen. Other clients of the
  server may change its state and their own windows at any time. The client's calls begin, time out, end and
  are cancelled in any order.

  Shown: as long as the client waits for a call, its handler has been started at most once, and every reply
  to it that the network can deliver is the one that this execution made. This is the end-to-end form of
  at-most-once delivery; it joins the windows of the client and of the server.
\<close>

section \<open>The two halves of dispatch\<close>

text \<open>The part of \<^verbatim>\<open>dispatch\<close> in front of the handler. For a new request the result names the handler and its arguments.\<close>

type_synonym 'st handler = "unmarshall \<Rightarrow> marshall \<Rightarrow> 'st \<Rightarrow> (u32 \<times> marshall \<times> 'st) res"

definition dispatch_check ::
  "byte \<Rightarrow> conn \<Rightarrow> byte list \<Rightarrow> 'st rpcs \<Rightarrow> ((req_header \<times> 'st handler \<times> unmarshall) option \<times> 'st rpcs) res" where
  "dispatch_check g c buf s =
     bind_res (unpack_req_header (unmarshall_new buf)) (\<lambda>(h, req).
       if \<not> uok req then bind_res (decref c s) (\<lambda>s. Ret (None, s))
       else if rq_srv_nonce h \<noteq> 0 \<and> rq_srv_nonce h \<noteq> nonce s
       then bind_res (pack_reply_header \<lparr>rp_xid = rq_xid h, rp_ret = oldsrv_failure\<rparr> (marshall_new g))
              (\<lambda>rep. Ret (None, conn_send c (m_bytes rep) s))
       else (case mfind (procs s) (rq_proc h) of
         None \<Rightarrow> bind_res (decref c s) (\<lambda>s. Fault Verify_failed)
       | Some f \<Rightarrow>
           bind_res (if rq_clt_nonce h \<noteq> 0
                     then (let s = (if mfind (reply_window s) (rq_clt_nonce h) = None
                                    then s\<lparr>reply_window := mput (rq_clt_nonce h) [] (reply_window s)\<rparr>
                                    else s)
                           in bind_res (save_conn (rq_clt_nonce h) c s)
                                (checkduplicate_and_update (rq_clt_nonce h) (rq_xid h) (rq_xid_rep h)))
                     else Ret (NEW, s)) (\<lambda>(stat, s).
           case stat of
             NEW \<Rightarrow> Ret (Some (h, f, req), s)
           | INPROGRESS \<Rightarrow> bind_res (decref c s) (\<lambda>s. Ret (None, s))
           | DONE b \<Rightarrow> bind_res (decref c (conn_send c b s)) (\<lambda>s. Ret (None, s))
           | FORGOTTEN \<Rightarrow>
               bind_res (pack_reply_header \<lparr>rp_xid = rq_xid h, rp_ret = atmostonce_failure\<rparr> (marshall_new g))
                 (\<lambda>rep. bind_res (decref c (conn_send c (m_bytes rep) s)) (\<lambda>s. Ret (None, s))))))"

lemma dispatch_in_two:
  "dispatch isdead g c buf s =
     bind_res (dispatch_check g c buf s) (\<lambda>(j, s).
       case j of None \<Rightarrow> Ret s | Some (h, f, req) \<Rightarrow> dispatch_new isdead g h f req c s)"
  by (auto simp: dispatch_def dispatch_check_def Let_def
      intro!: arg_cong2 [of _ _ _ _ bind_res] ext split: option.splits rpcstate.splits)

text \<open>What the first half does to the window and to the outgoing messages.\<close>

lemma save_conn_rest:
  "save_conn n c s = Ret s' \<Longrightarrow> reply_window s' = reply_window s \<and> highest_xid_rep s' = highest_xid_rep s \<and> sent s' = sent s \<and>
     procs s' = procs s \<and> nonce s' = nonce s"
  by (auto simp: save_conn_def decref_def incref_def Let_def verify_def split: option.splits if_splits)

lemma decref_rest:
  "decref c s = Ret s' \<Longrightarrow> reply_window s' = reply_window s \<and> highest_xid_rep s' = highest_xid_rep s \<and> sent s' = sent s \<and>
     procs s' = procs s \<and> nonce s' = nonce s"
  by (auto simp: decref_def Let_def verify_def split: if_splits)

definition same_window :: "'st rpcs \<Rightarrow> 'st rpcs \<Rightarrow> bool" where
  "same_window s s' \<longleftrightarrow> (\<forall>n. win s' n = win s n) \<and> (\<forall>n. hi s' n = hi s n) \<and> procs s' = procs s \<and> nonce s' = nonce s"

lemma dispatch_check_cases:
  assumes d: "dispatch_check g c buf s = Ret (j, s')" and u: "unpack_req_header (unmarshall_new buf) = Ret (h, req)" "uok req"
    and n: "rq_clt_nonce h \<noteq> 0" "rq_srv_nonce h = 0 \<or> rq_srv_nonce h = nonce s"
  obtains s0 stat s1 f where "same_window s s0" "checkduplicate_and_update (rq_clt_nonce h) (rq_xid h) (rq_xid_rep h) s0 = Ret (stat, s1)"
    "same_window s1 s'" "mfind (procs s) (rq_proc h) = Some f" "j = (if stat = NEW then Some (h, f, req) else None)"
    "sent s0 = sent s"
    "case stat of DONE b \<Rightarrow> sent s' = sent s1 @ [(channo c, b)]
     | FORGOTTEN \<Rightarrow> \<exists>rep. pack_reply_header \<lparr>rp_xid = rq_xid h, rp_ret = atmostonce_failure\<rparr> (marshall_new g) = Ret rep \<and>
         sent s' = sent s1 @ [(channo c, m_bytes rep)]
     | _ \<Rightarrow> sent s' = sent s1"
proof -
  let ?s = "if mfind (reply_window s) (rq_clt_nonce h) = None
            then s\<lparr>reply_window := mput (rq_clt_nonce h) [] (reply_window s)\<rparr> else s"
  obtain f where f: "mfind (procs s) (rq_proc h) = Some f"
    using d u n by (auto simp: dispatch_check_def split: option.splits if_splits)
  then obtain s0 stat s1 where s0: "save_conn (rq_clt_nonce h) c ?s = Ret s0"
      and cd: "checkduplicate_and_update (rq_clt_nonce h) (rq_xid h) (rq_xid_rep h) s0 = Ret (stat, s1)"
    using d u n by (auto simp: dispatch_check_def Let_def split: if_splits)
  have sw: "same_window s s0" "sent s0 = sent s" using save_conn_rest [OF s0] by (auto simp: same_window_def mget_def split: if_splits)
  have "same_window s1 s' \<and> j = (if stat = NEW then Some (h, f, req) else None) \<and>
     (case stat of DONE b \<Rightarrow> sent s' = sent s1 @ [(channo c, b)]
      | FORGOTTEN \<Rightarrow> \<exists>rep. pack_reply_header \<lparr>rp_xid = rq_xid h, rp_ret = atmostonce_failure\<rparr> (marshall_new g) = Ret rep \<and>
          sent s' = sent s1 @ [(channo c, m_bytes rep)]
      | _ \<Rightarrow> sent s' = sent s1)"
    using d u n f s0 cd
    by (cases stat) (auto simp: dispatch_check_def Let_def same_window_def conn_send_def dest!: decref_rest)
  then show thesis using that [OF sw(1) cd _ f _ sw(2)] by blast
qed

text \<open>The connection on which \<^verbatim>\<open>dispatch\<close> sends a reply.\<close>

definition reply_conn :: "(nat \<Rightarrow> bool) \<Rightarrow> u32 \<Rightarrow> conn \<Rightarrow> 'st rpcs \<Rightarrow> (conn \<times> 'st rpcs) res" where
  "reply_conn isdead n c s =
     (if isdead (channo c) \<and> mfind (conns s) n \<noteq> Some c
      then (case mfind (conns s) n of
              None \<Rightarrow> Fault Bad_access
            | Some c' \<Rightarrow> bind_res (decref c s) (\<lambda>s. Ret (c', incref c' s)))
      else Ret (c, s))"

lemma reply_conn_rest:
  "reply_conn isdead n c s = Ret (c', s') \<Longrightarrow> reply_window s' = reply_window s \<and> highest_xid_rep s' = highest_xid_rep s \<and>
     sent s' = sent s \<and> procs s' = procs s \<and> nonce s' = nonce s"
  by (auto simp: reply_conn_def incref_def split: if_splits option.splits dest!: decref_rest)

lemma dispatch_new_cases:
  assumes d: "dispatch_new isdead g h f req c s = Ret s'" and n: "rq_clt_nonce h \<noteq> 0"
  obtains ret rep st rep' s0 s1 ch where "f req (marshall_new g) (srv s) = Ret (ret, rep, st)"
    "pack_reply_header \<lparr>rp_xid = rq_xid h, rp_ret = ret\<rparr> rep = Ret rep'" "same_window s s0"
    "add_reply (rq_clt_nonce h) (rq_xid h) (m_bytes rep') s0 = Ret s1" "same_window s1 s'" "sent s' = sent s @ [(ch, m_bytes rep')]"
proof -
  have pos: "0 < rq_clt_nonce h" using n by (simp add: word_neq_0_conv)
  define t where "t = (if counting s \<noteq> 0 then updatestat (rq_proc h) s else s)"
  have t: "reply_window t = reply_window s" "highest_xid_rep t = highest_xid_rep s" "sent t = sent s" "procs t = procs s" "nonce t = nonce s"
      "srv t = srv s"
    by (auto simp: t_def updatestat_def Let_def)
  obtain ret rep st rep' s1 s2 c' where r: "f req (marshall_new g) (srv t) = Ret (ret, rep, st)"
      "pack_reply_header \<lparr>rp_xid = rq_xid h, rp_ret = ret\<rparr> rep = Ret rep'"
      "add_reply (rq_clt_nonce h) (rq_xid h) (m_bytes rep') (t\<lparr>srv := st\<rparr>) = Ret s1"
      "reply_conn isdead (rq_clt_nonce h) c s1 = Ret (c', s2)" "decref c' (conn_send c' (m_bytes rep') s2) = Ret s'"
    using d pos by (auto simp: dispatch_new_def reply_conn_def [symmetric] t_def [symmetric] Let_def verify_def split: if_split_asm)
  have "sent s1 = sent s" "procs s1 = procs s" "nonce s1 = nonce s" using r(3) t by (auto simp: add_reply_def split: option.splits)
  then show thesis
    using that [of ret rep st rep' "t\<lparr>srv := st\<rparr>" s1 "channo c'"] r t reply_conn_rest [OF r(4)] decref_rest [OF r(5)] by (simp add: same_window_def conn_send_def)
qed

section \<open>The network\<close>

text \<open>A message as the library builds it: the header and a payload of a size that a 32-bit length can hold.\<close>

definition packet :: "marshall \<Rightarrow> bool" where
  "packet m \<longleftrightarrow> m_inv m \<and> RPC_HEADER_SZ \<le> mind m \<and> mind m < 2 ^ 29"

definition handler_ok :: "'st handler \<Rightarrow> bool" where
  "handler_ok f \<longleftrightarrow> (\<forall>u g st b rep st'. f u (marshall_new g) st = Ret (b, rep, st') \<longrightarrow> packet rep)"

text \<open>
  \<open>nt_reqs\<close> are the requests the client has sent, \<open>sent\<close> of the server the replies; both stay there for good. \<open>nt_jobs\<close> are
  the handlers that have been started. The last two fields are history: the numbers of the requests for which a
  handler was started, and those for which one has finished, with the reply it made.
\<close>

record 'st net =
  nt_cl :: rpcc
  nt_srv :: "'st rpcs"
  nt_reqs :: "byte list list"
  nt_jobs :: "(req_header \<times> 'st handler \<times> unmarshall \<times> conn) list"
  nt_started :: "u32 list"
  nt_done :: "(u32 \<times> byte list) list"

definition net_new :: "u32 \<Rightarrow> int \<Rightarrow> 'st rpcs \<Rightarrow> 'st net" where
  "net_new rnd lossy S = \<lparr>nt_cl = rpcc_new True rnd lossy, nt_srv = S, nt_reqs = [], nt_jobs = [], nt_started = [], nt_done = []\<rparr>"

text \<open>
  A transmission leaves the request in \<open>nt_reqs\<close>, from where it can arrive as often as the network likes; so the client
  sends each request once here, and its retransmissions, the repeated request of the loss test included, are repeated arrivals.
\<close>

fun ev_client :: "wevent \<Rightarrow> u32" where
  "ev_client (Request c x rep) = c"
| "ev_client (Reply c x b) = c"

inductive net_step :: "'st net \<Rightarrow> 'st net \<Rightarrow> bool" where
  ns_call: "packet m \<Longrightarrow> xid_ctr (nt_cl s) + 1 \<noteq> 0 \<Longrightarrow> call1_begin proc m junk (nt_cl s) = Ret (Inr (x, rep, m'), cl) \<Longrightarrow>
     net_step s (s\<lparr>nt_cl := cl, nt_reqs := m_bytes m' # nt_reqs s\<rparr>)"
| ns_bind: "ret \<noteq> 0 \<or> r = nonce (nt_srv s) \<Longrightarrow> net_step s (s\<lparr>nt_cl := bind_finish ret r (nt_cl s)\<rparr>)"
| ns_reply: "(ch, b) \<in> set (sent (nt_srv s)) \<Longrightarrow> rpcc_got_pdu b (nt_cl s) = Ret (ok, cl) \<Longrightarrow> net_step s (s\<lparr>nt_cl := cl\<rparr>)"
| ns_end: "call1_end x rep b (nt_cl s) = Ret (r, cl) \<Longrightarrow> net_step s (s\<lparr>nt_cl := cl\<rparr>)"
| ns_cancel: "net_step s (s\<lparr>nt_cl := cancel_calls (nt_cl s)\<rparr>)"
| ns_done: "buf \<in> set (nt_reqs s) \<Longrightarrow> dispatch_check g c buf (incref c (nt_srv s)) = Ret (None, S) \<Longrightarrow> net_step s (s\<lparr>nt_srv := S\<rparr>)"
| ns_start: "buf \<in> set (nt_reqs s) \<Longrightarrow> dispatch_check g c buf (incref c (nt_srv s)) = Ret (Some (h, f, req), S) \<Longrightarrow>
     net_step s (s\<lparr>nt_srv := S, nt_jobs := (h, f, req, c) # nt_jobs s, nt_started := rq_xid h # nt_started s\<rparr>)"
| ns_finish: "nt_jobs s = js @ (h, f, req, c) # js' \<Longrightarrow> dispatch_new isdead g h f req c (nt_srv s) = Ret S \<Longrightarrow>
     net_step s (s\<lparr>nt_srv := S, nt_jobs := js @ js', nt_done := (rq_xid h, snd (last (sent S))) # nt_done s\<rparr>)"
| ns_other: "wevent_step e (nt_srv s) = Ret S \<Longrightarrow> ev_client e \<noteq> clt_nonce (nt_cl s) \<Longrightarrow>
     net_step s (s\<lparr>nt_srv := S\<lparr>srv := st\<rparr>\<rparr>)"

inductive net_reach :: "'st net \<Rightarrow> 'st net \<Rightarrow> bool" for s0 where
  nr_start: "net_reach s0 s0"
| nr_step: "net_reach s0 s \<Longrightarrow> net_step s s' \<Longrightarrow> net_reach s0 s'"

section \<open>The invariant\<close>

definition reply_for :: "u32 \<Rightarrow> byte list \<Rightarrow> bool" where
  "reply_for x b \<longleftrightarrow> (\<exists>h u. unpack_reply_header (unmarshall_new b) = Ret (h, u) \<and> uok u \<and> rp_xid h = x)"

abbreviation acked :: "'st net \<Rightarrow> u32 set" where
  "acked s \<equiv> answered (xid_rep_window (nt_cl s))"

abbreviation mywin :: "'st net \<Rightarrow> reply_t list" where
  "mywin s \<equiv> win (nt_srv s) (clt_nonce (nt_cl s))"

text \<open>The requests under way: their headers arrive intact, and they acknowledge only what the client is done with.\<close>

definition req_ok :: "'st net \<Rightarrow> byte list \<Rightarrow> bool" where
  "req_ok s buf \<longleftrightarrow> (\<exists>h u. unpack_req_header (unmarshall_new buf) = Ret (h, u) \<and> uok u \<and> rq_clt_nonce h = clt_nonce (nt_cl s) \<and>
     (rq_srv_nonce h = 0 \<or> rq_srv_nonce h = nonce (nt_srv s)) \<and> rq_xid h < xid_ctr (nt_cl s) \<and> (\<forall>y \<le> rq_xid_rep h. y \<in> acked s))"

definition client_ok :: "'st net \<Rightarrow> bool" where
  "client_ok s \<longleftrightarrow> rpcc_inv (nt_cl s) \<and> clt_nonce (nt_cl s) \<noteq> 0 \<and>
     (srv_nonce (nt_cl s) = 0 \<or> srv_nonce (nt_cl s) = nonce (nt_srv s)) \<and> (\<forall>buf \<in> set (nt_reqs s). req_ok s buf)"

definition server_ok :: "'st net \<Rightarrow> bool" where
  "server_ok s \<longleftrightarrow> wok (nt_srv s) \<and> (\<forall>p f. mfind (procs (nt_srv s)) p = Some f \<longrightarrow> handler_ok f) \<and>
     (mywin s \<noteq> [] \<longrightarrow> (\<forall>y \<le> hi (nt_srv s) (clt_nonce (nt_cl s)). y \<in> acked s)) \<and>
     (\<forall>r \<in> set (mywin s). r_cb_present r \<longrightarrow> (r_xid r, r_buf r) \<in> set (nt_done s)) \<and>
     (\<forall>(h, f, req, c) \<in> set (nt_jobs s). handler_ok f \<and> rq_clt_nonce h = clt_nonce (nt_cl s) \<and> rq_xid h < xid_ctr (nt_cl s))"

definition replies_ok :: "'st net \<Rightarrow> bool" where
  "replies_ok s \<longleftrightarrow> (\<forall>(x, b) \<in> set (nt_done s). reply_for x b \<and> x < xid_ctr (nt_cl s)) \<and>
     (\<forall>(ch, b) \<in> set (sent (nt_srv s)). \<exists>x < xid_ctr (nt_cl s). reply_for x b \<and> (x \<in> acked s \<or> (x, b) \<in> set (nt_done s)))"

text \<open>A handler is started once for each unacknowledged request that the window knows, and each one started runs or has finished.\<close>

definition once_ok :: "'st net \<Rightarrow> bool" where
  "once_ok s \<longleftrightarrow> (\<forall>x. x \<notin> acked s \<longrightarrow> count_list (nt_started s) x = (if entry x (mywin s) = None then 0 else 1))"

definition runs_ok :: "'st net \<Rightarrow> bool" where
  "runs_ok s \<longleftrightarrow> (\<forall>x. count_list (nt_started s) x = count_list (map (rq_xid \<circ> fst) (nt_jobs s)) x + count_list (map fst (nt_done s)) x)"

definition net_ok :: "'st net \<Rightarrow> bool" where
  "net_ok s \<longleftrightarrow> client_ok s \<and> server_ok s \<and> replies_ok s \<and> once_ok s \<and> runs_ok s"

lemmas net_defs = net_ok_def client_ok_def server_ok_def replies_ok_def once_ok_def runs_ok_def req_ok_def

lemma net_ok_new:
  assumes "rnd \<noteq> 0" and "reply_window S = []" and "sent S = []" and "\<And>p f. mfind (procs S) p = Some f \<Longrightarrow> handler_ok f"
  shows "net_ok (net_new rnd lossy S)"
proof -
  have "rpcc_inv (rpcc_new True rnd lossy)" by (rule rpcc_inv_new)
  moreover have "clt_nonce (rpcc_new True rnd lossy) = rnd" "srv_nonce (rpcc_new True rnd lossy) = 0" by (simp_all add: rpcc_new_def)
  ultimately show ?thesis using assms wok_fresh [of S] by (auto simp: net_defs net_new_def)
qed

section \<open>The invariant is kept\<close>

text \<open>What the client does can only add to what it has acknowledged.\<close>

definition client_grows :: "rpcc \<Rightarrow> rpcc \<Rightarrow> bool" where
  "client_grows cl cl' \<longleftrightarrow> rpcc_inv cl' \<and> clt_nonce cl' = clt_nonce cl \<and> xid_ctr cl \<le> xid_ctr cl' \<and>
     answered (xid_rep_window cl) \<subseteq> answered (xid_rep_window cl')"

lemma net_ok_client:
  assumes ok: "net_ok s" and g: "client_grows (nt_cl s) cl" and n: "srv_nonce cl = 0 \<or> srv_nonce cl = nonce (nt_srv s)"
  shows "net_ok (s\<lparr>nt_cl := cl\<rparr>)"
proof -
  have le: "x < xid_ctr (nt_cl s) \<Longrightarrow> x < xid_ctr cl" for x using g by (auto simp: client_grows_def)
  have sub: "x \<in> acked s \<Longrightarrow> x \<in> answered (xid_rep_window cl)" for x using g by (auto simp: client_grows_def)
  have nn: "clt_nonce cl = clt_nonce (nt_cl s)" "rpcc_inv cl" using g by (auto simp: client_grows_def)
  have "client_ok (s\<lparr>nt_cl := cl\<rparr>)" using ok n nn le sub unfolding net_ok_def client_ok_def req_ok_def by simp blast
  moreover have "server_ok (s\<lparr>nt_cl := cl\<rparr>)" using ok nn le sub unfolding net_ok_def server_ok_def by simp fastforce
  moreover have "replies_ok (s\<lparr>nt_cl := cl\<rparr>)" using ok le sub unfolding net_ok_def replies_ok_def by simp fast
  moreover have "once_ok (s\<lparr>nt_cl := cl\<rparr>)"
  proof -
    have "x \<notin> answered (xid_rep_window cl) \<Longrightarrow> count_list (nt_started s) x = (if entry x (mywin s) = None then 0 else 1)" for x
      using ok sub [of x] unfolding net_ok_def once_ok_def by blast
    then show ?thesis using nn(1) unfolding once_ok_def by simp
  qed
  moreover have "runs_ok (s\<lparr>nt_cl := cl\<rparr>)" using ok unfolding net_ok_def runs_ok_def by simp
  ultimately show ?thesis by (simp add: net_ok_def)
qed

lemma grows_update:
  assumes "rpcc_inv cl" and "rpcc_inv cl'" and "xid_rep_window cl' = update_xid_window x (xid_rep_window cl)"
    and "clt_nonce cl' = clt_nonce cl" and "xid_ctr cl' = xid_ctr cl"
  shows "client_grows cl cl'"
  using assms update_window_spec(2) [of "xid_rep_window cl" x] by (auto simp: client_grows_def rpcc_inv_def)

lemma grows_reply:
  assumes "rpcc_inv cl" and "reply_for x b" and "x < xid_ctr cl" and "rpcc_got_pdu b cl = Ret (ok, cl')"
  shows "client_grows cl cl' \<and> srv_nonce cl' = srv_nonce cl"
proof -
  obtain h u where h: "unpack_reply_header (unmarshall_new b) = Ret (h, u)" "uok u" "rp_xid h = x"
    using assms(2) by (auto simp: reply_for_def)
  have "rpcc_inv cl'" using rpcc_inv_reply [OF assms(1) h(1) _ assms(4)] h(3) assms(3) by simp
  moreover have "xid_rep_window cl' = update_xid_window x (xid_rep_window cl)" "clt_nonce cl' = clt_nonce cl" "xid_ctr cl' = xid_ctr cl"
      "srv_nonce cl' = srv_nonce cl"
    using assms(4) h by (auto simp: rpcc_got_pdu_def update_xid_rep_def Let_def split: option.splits)
  ultimately show ?thesis using grows_update assms(1) by blast
qed

lemma grows_end:
  assumes "rpcc_inv cl" and "call1_end x rep b cl = Ret (r, cl')"
  shows "client_grows cl cl' \<and> srv_nonce cl' = srv_nonce cl"
proof -
  obtain ca where ca: "mfind (calls cl) x = Some ca" using assms(2) by (auto simp: call1_end_def split: option.splits)
  then have "ca_xid ca = x" using assms(1) by (auto simp: rpcc_inv_def)
  then have "xid_rep_window cl' = update_xid_window x (xid_rep_window cl)" "clt_nonce cl' = clt_nonce cl" "xid_ctr cl' = xid_ctr cl"
      "srv_nonce cl' = srv_nonce cl"
    using assms(2) ca by (auto simp: call1_end_def update_xid_rep_def Let_def)
  then show ?thesis using grows_update assms(1) rpcc_inv_end [OF assms] by blast
qed

lemma grows_begin:
  assumes "rpcc_inv cl" and "call1_begin proc m junk cl = Ret (r, cl')" and "xid_ctr cl + 1 \<noteq> 0"
  shows "client_grows cl cl' \<and> srv_nonce cl' = srv_nonce cl \<and> xid_rep_window cl' = xid_rep_window cl"
  using assms(2,3) rpcc_inv_begin [OF assms] less_succ_iff [OF assms(3), of "xid_ctr cl"]
  by (auto simp: call1_begin_def client_grows_def Let_def less_imp_le split: if_splits)

lemma call_sends:
  assumes inv: "rpcc_inv cl" and p: "packet m" and c: "call1_begin proc m junk cl = Ret (Inr (x, rep, m'), cl')"
    and nz: "xid_ctr cl + 1 \<noteq> 0"
  shows "\<exists>h u. unpack_req_header (unmarshall_new (m_bytes m')) = Ret (h, u) \<and> uok u \<and> rq_clt_nonce h = clt_nonce cl \<and>
    rq_srv_nonce h = srv_nonce cl \<and> rq_xid h < xid_ctr cl' \<and> (\<forall>y \<le> rq_xid_rep h. y \<in> answered (xid_rep_window cl))"
proof -
  let ?h = "\<lparr>rq_xid = xid_ctr cl, rq_proc = proc, rq_clt_nonce = clt_nonce cl, rq_srv_nonce = srv_nonce cl, rq_xid_rep = hd (xid_rep_window cl)\<rparr>"
  have b: "pack_req_header ?h m = Ret m'" "xid_ctr cl' = xid_ctr cl + 1"
    using c by (auto simp: call1_begin_def Let_def split: if_splits)
  have l: "length (m_bytes m) = mind m" using p by (simp add: packet_def)
  have "m_bytes m = take RPC_HEADER_SZ (m_bytes m) @ drop RPC_HEADER_SZ (m_bytes m)" by simp
  moreover have "m_inv m" "length (take RPC_HEADER_SZ (m_bytes m)) = RPC_HEADER_SZ" "length (drop RPC_HEADER_SZ (m_bytes m)) < 2 ^ 29"
    using p l by (auto simp: packet_def)
  ultimately obtain u where "unpack_req_header (unmarshall_new (m_bytes m')) = Ret (?h, u)" "uok u"
    using request_payload [of m _ _ ?h] b(1) by (metis res.inject(1))
  moreover have "xid_ctr cl < xid_ctr cl'" using less_succ_iff [OF nz, of "xid_ctr cl"] b(2) by simp
  ultimately show ?thesis by (fastforce simp: answered_def)
qed

text \<open>One request at the window of the server, when all it and its predecessors acknowledge is in \<open>A\<close>.\<close>

definition window_step :: "u32 set \<Rightarrow> u32 \<Rightarrow> u32 \<Rightarrow> u32 \<Rightarrow> 'st rpcs \<Rightarrow> rpcstate \<Rightarrow> 'st rpcs \<Rightarrow> bool" where
  "window_step A n x rep s stat s' \<longleftrightarrow> checkduplicate_and_update n x rep s = Ret (stat, s') \<and> wok s \<and> (\<forall>y \<le> rep. y \<in> A) \<and>
     (win s n \<noteq> [] \<longrightarrow> (\<forall>y \<le> hi s n. y \<in> A))"

lemma window_stepD:
  assumes "window_step A n x rep s stat s'"
  shows "checkduplicate_and_update n x rep s = Ret (stat, s')" "sorted (xids (win s n))"
    and "y \<le> rep \<Longrightarrow> y \<in> A" and "win s n \<noteq> [] \<Longrightarrow> y \<le> hi s n \<Longrightarrow> y \<in> A"
  using assms by (simp_all add: window_step_def wok_def)

lemma window_set:
  assumes "window_step A n x rep s stat s'"
  shows "set (win s' n) \<subseteq> insert (reply_new x) (set (win s n))"
  by (rule checkduplicate_set [OF window_stepD(1,2) [OF assms]])

lemma window_hi:
  assumes "window_step A n x rep s stat s'" and "y \<le> hi s' n"
  shows "y \<in> A"
  using window_stepD(1,2) [OF assms(1)]
  by (cases rule: checkduplicate_cases) (use window_stepD(3,4) [OF assms(1), of y] assms(2) in \<open>auto simp: max_def split: if_splits\<close>)

lemma window_outside:
  assumes "window_step A n x rep s stat s'" and "y \<notin> A"
  shows "rep < y" and "unacked s n y" and "hi s' n < y"
  using assms(2) window_stepD(3,4) [OF assms(1), of y] window_hi [OF assms(1), of y] by (auto simp: unacked_def not_le [symmetric])

lemma window_forgotten:
  assumes "window_step A n x rep s FORGOTTEN s'"
  shows "x \<in> A"
  using window_stepD(1,2) [OF assms] by (cases rule: checkduplicate_cases) (use window_hi [OF assms, of x] in \<open>auto split: if_splits\<close>)

lemma window_done:
  assumes "window_step A n x rep s (DONE b) s'"
  shows "\<exists>r \<in> set (win s n). r_xid r = x \<and> r_cb_present r \<and> r_buf r = b"
  using window_stepD(1,2) [OF assms] by (cases rule: checkduplicate_cases) (auto split: if_splits dest!: cd_walk_parts)

lemma window_known:
  assumes "window_step A n x rep s stat s'" and "x \<notin> A"
  shows "stat = NEW \<longleftrightarrow> entry x (win s n) = None"
  using checkduplicate_unknown [OF window_stepD(1,2) [OF assms(1)]] checkduplicate_known [OF window_stepD(1,2) [OF assms(1)]]
    window_outside [OF assms] by (cases "entry x (win s n)") (auto split: if_splits)

lemma window_entry:
  assumes w: "window_step A n x rep s stat s'" and "y \<notin> A"
  shows "entry y (win s' n) = (if y = x \<and> stat = NEW then Some (reply_new x) else entry y (win s n))"
proof (cases "entry y (win s n)")
  case None
  then have "y \<noteq> x \<Longrightarrow> entry y (win s' n) = None" using window_set [OF w] by (auto simp: entry_None_iff xids_def reply_new_def)
  then show ?thesis using None window_known [OF w] assms(2) checkduplicate_new [of n x rep s s'] window_stepD(1,2) [OF w]
    by (cases "y = x") auto
next
  case (Some e)
  then show ?thesis
    using checkduplicate_keeps [OF window_stepD(1,2) [OF w] Some] window_outside(1) [OF w assms(2)] window_known [OF w] assms(2) by auto
qed

lemma packet_new: "packet (marshall_new g)"
  by (simp add: packet_def) (simp add: marshall_new_def DEFAULT_RPC_SZ_def)

lemma packed_reply:
  assumes "packet m" and "pack_reply_header \<lparr>rp_xid = x, rp_ret = r\<rparr> m = Ret m'"
  shows "reply_for x (m_bytes m')"
proof -
  have "m_bytes m = take RPC_HEADER_SZ (m_bytes m) @ drop RPC_HEADER_SZ (m_bytes m)" by simp
  moreover have "m_inv m" "length (take RPC_HEADER_SZ (m_bytes m)) = RPC_HEADER_SZ" "length (drop RPC_HEADER_SZ (m_bytes m)) < 2 ^ 29"
    using assms(1) by (auto simp: packet_def)
  ultimately obtain u where "unpack_reply_header (unmarshall_new (m_bytes m')) = Ret (\<lparr>rp_xid = x, rp_ret = r\<rparr>, u)" "uok u"
    using reply_payload [of m _ _ "\<lparr>rp_xid = x, rp_ret = r\<rparr>"] assms(2) by (metis res.inject(1))
  then show ?thesis by (simp add: reply_for_def)
qed

lemma same_window_wok: "same_window s s' \<Longrightarrow> wok s' = wok s"
  by (simp add: same_window_def wok_def)

lemma net_okD:
  assumes "net_ok s"
  shows "client_ok s" "server_ok s" "replies_ok s" "once_ok s" "runs_ok s"
  using assms by (simp_all add: net_ok_def)

text \<open>What a request numbered \<open>x\<close> does to the server, as far as the client can tell.\<close>

definition arrives :: "'st net \<Rightarrow> u32 \<Rightarrow> rpcstate \<Rightarrow> 'st rpcs \<Rightarrow> bool" where
  "arrives s x stat S \<longleftrightarrow> x < xid_ctr (nt_cl s) \<and> wok S \<and> procs S = procs (nt_srv s) \<and> nonce S = nonce (nt_srv s) \<and>
     set (win S (clt_nonce (nt_cl s))) \<subseteq> insert (reply_new x) (set (mywin s)) \<and>
     (\<forall>y \<le> hi S (clt_nonce (nt_cl s)). y \<in> acked s) \<and>
     (\<forall>y. y \<notin> acked s \<longrightarrow>
        entry y (win S (clt_nonce (nt_cl s))) = (if y = x \<and> stat = NEW then Some (reply_new x) else entry y (mywin s))) \<and>
     (x \<notin> acked s \<longrightarrow> stat = NEW \<longrightarrow> entry x (mywin s) = None) \<and>
     (\<forall>(ch, m) \<in> set (sent S). (ch, m) \<in> set (sent (nt_srv s)) \<or> reply_for x m \<and> (x \<in> acked s \<or> (x, m) \<in> set (nt_done s)))"

lemma answer_sent:
  assumes ok: "net_ok s" and w: "window_step (acked s) (clt_nonce (nt_cl s)) x rep s0 stat s1" and win: "win s0 (clt_nonce (nt_cl s)) = mywin s"
    and sent: "sent s1 = sent (nt_srv s)"
      "case stat of DONE b \<Rightarrow> sent S = sent s1 @ [(ch0, b)]
       | FORGOTTEN \<Rightarrow> \<exists>r. pack_reply_header \<lparr>rp_xid = x, rp_ret = atmostonce_failure\<rparr> (marshall_new g) = Ret r \<and>
           sent S = sent s1 @ [(ch0, m_bytes r)]
       | _ \<Rightarrow> sent S = sent s1"
    and m: "(ch, m) \<in> set (sent S)"
  shows "(ch, m) \<in> set (sent (nt_srv s)) \<or> reply_for x m \<and> (x \<in> acked s \<or> (x, m) \<in> set (nt_done s))"
proof (cases stat)
  case (DONE b)
  then obtain r where "r \<in> set (mywin s)" "r_xid r = x" "r_cb_present r" "r_buf r = b"
    using window_done [of "acked s" "clt_nonce (nt_cl s)" x rep s0 b s1] w win by auto
  then have "(x, b) \<in> set (nt_done s)" using net_okD(2) [OF ok] by (auto simp: server_ok_def)
  then show ?thesis using m DONE sent net_okD(3) [OF ok] by (auto simp: replies_ok_def)
next
  case FORGOTTEN
  then show ?thesis
    using m sent packed_reply [OF packet_new] window_forgotten [of "acked s" "clt_nonce (nt_cl s)" x rep s0 s1] w by auto
qed (use m sent in auto)

lemma arrive_effect:
  assumes ok: "net_ok s" and b: "buf \<in> set (nt_reqs s)" and d: "dispatch_check g c buf (incref c (nt_srv s)) = Ret (j, S)"
  obtains stat f h req where "arrives s (rq_xid h) stat S" "rq_clt_nonce h = clt_nonce (nt_cl s)"
    "j = (if stat = NEW then Some (h, f, req) else None)" "handler_ok f"
proof -
  let ?n = "clt_nonce (nt_cl s)"
  note cl = net_okD(1) [OF ok, unfolded client_ok_def] and sv = net_okD(2) [OF ok, unfolded server_ok_def]
  obtain h u where h: "unpack_req_header (unmarshall_new buf) = Ret (h, u)" "uok u" "rq_clt_nonce h = ?n"
      "rq_srv_nonce h = 0 \<or> rq_srv_nonce h = nonce (nt_srv s)" "rq_xid h < xid_ctr (nt_cl s)" "\<forall>y \<le> rq_xid_rep h. y \<in> acked s"
    using cl b by (auto simp: req_ok_def)
  have inc: "same_window (nt_srv s) (incref c (nt_srv s))" "sent (incref c (nt_srv s)) = sent (nt_srv s)"
    by (simp_all add: same_window_def incref_def)
  from h(3,4) cl inc have nn: "rq_clt_nonce h \<noteq> 0" "rq_srv_nonce h = 0 \<or> rq_srv_nonce h = nonce (incref c (nt_srv s))"
    by (auto simp: same_window_def)
  obtain s0 stat s1 f where e: "same_window (incref c (nt_srv s)) s0"
      "checkduplicate_and_update ?n (rq_xid h) (rq_xid_rep h) s0 = Ret (stat, s1)" "same_window s1 S"
      "mfind (procs (incref c (nt_srv s))) (rq_proc h) = Some f" "j = (if stat = NEW then Some (h, f, u) else None)"
      "sent s0 = sent (incref c (nt_srv s))"
      "case stat of DONE b \<Rightarrow> sent S = sent s1 @ [(channo c, b)]
       | FORGOTTEN \<Rightarrow> \<exists>rep. pack_reply_header \<lparr>rp_xid = rq_xid h, rp_ret = atmostonce_failure\<rparr> (marshall_new g) = Ret rep \<and>
           sent S = sent s1 @ [(channo c, m_bytes rep)]
       | _ \<Rightarrow> sent S = sent s1"
    by (rule dispatch_check_cases [OF d h(1,2) nn, unfolded h(3)]) blast
  have s0: "win s0 ?n = mywin s" "hi s0 ?n = hi (nt_srv s) ?n" "wok s0" "procs s0 = procs (nt_srv s)" "nonce s0 = nonce (nt_srv s)"
    using e(1) inc(1) sv same_window_wok by (auto simp: same_window_def)
  have w: "window_step (acked s) ?n (rq_xid h) (rq_xid_rep h) s0 stat s1"
    using e(2) s0 h(6) sv by (simp add: window_step_def)
  have S: "win S ?n = win s1 ?n" "hi S ?n = hi s1 ?n" "procs S = procs s1" "nonce S = nonce s1" using e(3) by (simp_all add: same_window_def)
  have wok: "wok S" using wok_step [OF s0(3), of "Request ?n (rq_xid h) (rq_xid_rep h)" s1] e(2) same_window_wok [OF e(3)] by simp
  have snt: "(ch, m) \<in> set (sent (nt_srv s)) \<or> reply_for (rq_xid h) m \<and> (rq_xid h \<in> acked s \<or> (rq_xid h, m) \<in> set (nt_done s))"
    if "(ch, m) \<in> set (sent S)" for ch m
    using answer_sent [OF ok w s0(1) _ e(7) that] e(6) inc(2) checkduplicate_rest(2) [OF e(2)] by simp
  have "arrives s (rq_xid h) stat S"
    unfolding arrives_def
  proof (intro conjI ballI, goal_cases)
    case (9 p)
    then show ?case using snt [of "fst p" "snd p"] by (simp add: case_prod_unfold)
  qed (use h(5) wok S s0 checkduplicate_rest(4,6) [OF e(2)] window_set [OF w] window_hi [OF w] window_entry [OF w] window_known [OF w] in auto)
  moreover have "handler_ok f" using e(4) inc(1) sv by (auto simp: same_window_def)
  ultimately show thesis using that h(3) e(5) by blast
qed

lemma net_ok_start:
  assumes ok: "net_ok s" and b: "buf \<in> set (nt_reqs s)"
    and d: "dispatch_check g c buf (incref c (nt_srv s)) = Ret (Some (h, f, req), S)"
  shows "net_ok (s\<lparr>nt_srv := S, nt_jobs := (h, f, req, c) # nt_jobs s, nt_started := rq_xid h # nt_started s\<rparr>)" (is "net_ok ?s")
proof -
  have e: "arrives s (rq_xid h) NEW S" "rq_clt_nonce h = clt_nonce (nt_cl s)" "handler_ok f"
    by (rule arrive_effect [OF ok b d]; force split: if_splits)+
  have "client_ok ?s" using net_okD(1) [OF ok] e(1) by (simp add: client_ok_def req_ok_def arrives_def)
  moreover have "server_ok ?s" using net_okD(2) [OF ok] e by (auto simp: server_ok_def arrives_def reply_new_def dest!: subsetD)
  moreover have "replies_ok ?s" using net_okD(3) [OF ok] e(1) by (fastforce simp: replies_ok_def arrives_def)
  moreover have "once_ok ?s" using net_okD(4) [OF ok] e(1) by (auto simp: once_ok_def arrives_def)
  moreover have "runs_ok ?s" using net_okD(5) [OF ok] by (simp add: runs_ok_def)
  ultimately show ?thesis by (simp add: net_ok_def)
qed

lemma net_ok_done:
  assumes ok: "net_ok s" and b: "buf \<in> set (nt_reqs s)" and d: "dispatch_check g c buf (incref c (nt_srv s)) = Ret (None, S)"
  shows "net_ok (s\<lparr>nt_srv := S\<rparr>)" (is "net_ok ?s")
proof -
  obtain x stat where e: "arrives s x stat S" "stat \<noteq> NEW" by (rule arrive_effect [OF ok b d]) (force split: if_splits)
  have "client_ok ?s" using net_okD(1) [OF ok] e(1) by (simp add: client_ok_def req_ok_def arrives_def)
  moreover have "server_ok ?s" using net_okD(2) [OF ok] e(1) by (auto simp: server_ok_def arrives_def reply_new_def dest!: subsetD)
  moreover have "replies_ok ?s" using net_okD(3) [OF ok] e(1) by (fastforce simp: replies_ok_def arrives_def)
  moreover have "once_ok ?s" using net_okD(4) [OF ok] e by (auto simp: once_ok_def arrives_def)
  moreover have "runs_ok ?s" using net_okD(5) [OF ok] by (simp add: runs_ok_def)
  ultimately show ?thesis by (simp add: net_ok_def)
qed

lemma set_reply_set: "set_reply x b w = Some w' \<Longrightarrow> r \<in> set w' \<Longrightarrow> r \<in> set w \<or> r_xid r = x \<and> r_buf r = b"
  by (induction w arbitrary: w') (auto split: if_splits)

lemma net_ok_finish:
  assumes ok: "net_ok s" and j: "nt_jobs s = js @ (h, f, req, c) # js'" and d: "dispatch_new isdead g h f req c (nt_srv s) = Ret S"
  shows "net_ok (s\<lparr>nt_srv := S, nt_jobs := js @ js', nt_done := (rq_xid h, snd (last (sent S))) # nt_done s\<rparr>)" (is "net_ok ?s")
proof -
  let ?n = "clt_nonce (nt_cl s)"
  have job: "handler_ok f" "rq_clt_nonce h = ?n" "rq_xid h < xid_ctr (nt_cl s)"
    using net_okD(2) [OF ok] j by (auto simp: server_ok_def)
  then have nz: "rq_clt_nonce h \<noteq> 0" using net_okD(1) [OF ok] by (simp add: client_ok_def)
  obtain ret rep st rep' s0 s1 ch where e: "f req (marshall_new g) (srv (nt_srv s)) = Ret (ret, rep, st)"
    "pack_reply_header \<lparr>rp_xid = rq_xid h, rp_ret = ret\<rparr> rep = Ret rep'" "same_window (nt_srv s) s0"
    "add_reply ?n (rq_xid h) (m_bytes rep') s0 = Ret s1" "same_window s1 S" "sent S = sent (nt_srv s) @ [(ch, m_bytes rep')]"
    by (rule dispatch_new_cases [OF d nz, unfolded job(2)]) blast
  have r: "reply_for (rq_xid h) (m_bytes rep')" using packed_reply [OF _ e(2)] job(1) e(1) unfolding handler_ok_def by blast
  have "wok s0" using same_window_wok [OF e(3)] net_okD(2) [OF ok] by (simp add: server_ok_def)
  then have wok: "wok S" using wok_step [of s0 "Reply ?n (rq_xid h) (m_bytes rep')" s1] e(4) same_window_wok [OF e(5)] by simp
  have S: "hi S ?n = hi (nt_srv s) ?n" "win S ?n = [] \<longleftrightarrow> mywin s = []" "procs S = procs (nt_srv s)" "nonce S = nonce (nt_srv s)"
      "\<And>y. entry y (win S ?n) = None \<longleftrightarrow> entry y (mywin s) = None"
    using e(3-5) add_reply_spec(1-3) [OF e(4), of ?n]
    by (auto simp: same_window_def entry_None_iff add_reply_def split: option.splits)
  have w: "y \<in> set (mywin s) \<or> r_xid y = rq_xid h \<and> r_buf y = m_bytes rep'" if "y \<in> set (win S ?n)" for y
    using that e(3-5) set_reply_set [of "rq_xid h" "m_bytes rep'" "win s0 ?n" _ y]
    by (auto simp: same_window_def add_reply_def split: option.splits)
  have p: "(r_xid y, r_buf y) \<in> set (nt_done ?s)" if "y \<in> set (win S ?n)" "r_cb_present y" for y
    using w [OF that(1)] that(2) net_okD(2) [OF ok] e(6) by (auto simp: server_ok_def)
  have "client_ok ?s" using net_okD(1) [OF ok] S(4) by (simp add: client_ok_def req_ok_def)
  moreover have "server_ok ?s" using net_okD(2) [OF ok] wok S p j by (auto simp: server_ok_def)
  moreover have "replies_ok ?s" using net_okD(3) [OF ok] e(6) r job(3) by (fastforce simp: replies_ok_def)
  moreover have "once_ok ?s" using net_okD(4) [OF ok] S(5) by (auto simp: once_ok_def)
  moreover have "runs_ok ?s" using net_okD(5) [OF ok] j by (simp add: runs_ok_def)
  ultimately show ?thesis by (simp add: net_ok_def)
qed

lemma net_ok_other:
  assumes ok: "net_ok s" and e: "wevent_step e (nt_srv s) = Ret S" "ev_client e \<noteq> clt_nonce (nt_cl s)"
  shows "net_ok (s\<lparr>nt_srv := S\<lparr>srv := st\<rparr>\<rparr>)"
proof -
  let ?n = "clt_nonce (nt_cl s)"
  have "win S ?n = mywin s \<and> hi S ?n = hi (nt_srv s) ?n \<and> procs S = procs (nt_srv s) \<and> nonce S = nonce (nt_srv s) \<and> sent S = sent (nt_srv s)"
  proof (cases e)
    case (Request c x rep)
    then show ?thesis using e by (auto dest: checkduplicate_rest checkduplicate_other [of c x rep "nt_srv s" _ S ?n])
  next
    case (Reply c x b)
    then show ?thesis using e by (auto simp: add_reply_def split: option.splits)
  qed
  moreover have "wok S" using wok_step e(1) net_okD(2) [OF ok] by (auto simp: server_ok_def)
  ultimately show ?thesis using ok by (auto simp: net_defs wok_def)
qed

lemma net_ok_call:
  assumes ok: "net_ok s" and "packet m" and "xid_ctr (nt_cl s) + 1 \<noteq> 0" and "call1_begin proc m junk (nt_cl s) = Ret (Inr (x, rep, m'), cl)"
  shows "net_ok (s\<lparr>nt_cl := cl, nt_reqs := m_bytes m' # nt_reqs s\<rparr>)" (is "net_ok ?s")
proof -
  have inv: "rpcc_inv (nt_cl s)" and n: "srv_nonce (nt_cl s) = 0 \<or> srv_nonce (nt_cl s) = nonce (nt_srv s)"
    using net_okD(1) [OF ok] by (simp_all add: client_ok_def)
  note g = grows_begin [OF inv assms(4,3)]
  have ok': "net_ok (s\<lparr>nt_cl := cl\<rparr>)" by (rule net_ok_client [OF ok]) (use g n in auto)
  have "req_ok (s\<lparr>nt_cl := cl\<rparr>) (m_bytes m')"
    using call_sends [OF inv assms(2,4,3)] g n unfolding req_ok_def client_grows_def by auto
  then have "req_ok ?s buf" if "buf \<in> set (nt_reqs ?s)" for buf
    using that net_okD(1) [OF ok'] by (auto simp: client_ok_def req_ok_def)
  then have "client_ok ?s" using net_okD(1) [OF ok'] by (simp add: client_ok_def)
  moreover have "server_ok ?s" "replies_ok ?s" "once_ok ?s" "runs_ok ?s"
    using net_okD(2-5) [OF ok'] by (simp_all add: server_ok_def replies_ok_def once_ok_def runs_ok_def)
  ultimately show ?thesis by (simp add: net_ok_def)
qed

lemma net_ok_step: "net_step s s' \<Longrightarrow> net_ok s \<Longrightarrow> net_ok s'"
proof (induction rule: net_step.induct)
  case (ns_bind ret r s)
  have "client_grows (nt_cl s) (bind_finish ret r (nt_cl s))"
    using net_okD(1) [OF ns_bind.prems] rpcc_inv_bind [of "nt_cl s"] by (auto simp: client_grows_def client_ok_def bind_finish_def)
  then show ?case
    by (rule net_ok_client [OF ns_bind.prems]) (use ns_bind net_okD(1) [OF ns_bind.prems] in \<open>auto simp: bind_finish_def client_ok_def\<close>)
next
  case (ns_reply ch b s ok cl)
  obtain x where "x < xid_ctr (nt_cl s)" "reply_for x b" using net_okD(3) [OF ns_reply.prems] ns_reply.hyps(1) by (auto simp: replies_ok_def)
  then have "client_grows (nt_cl s) cl \<and> srv_nonce cl = srv_nonce (nt_cl s)"
    using grows_reply [of "nt_cl s" x b ok cl] ns_reply net_okD(1) [OF ns_reply.prems] by (simp add: client_ok_def)
  then show ?case using net_ok_client [OF ns_reply.prems, of cl] net_okD(1) [OF ns_reply.prems] by (simp add: client_ok_def)
next
  case (ns_end x rep b s r cl)
  then show ?case using net_ok_client [OF ns_end.prems, of cl] net_okD(1) [OF ns_end.prems] grows_end [of "nt_cl s" x rep b r cl]
    by (simp add: client_ok_def)
next
  case (ns_cancel s)
  have "client_grows (nt_cl s) (cancel_calls (nt_cl s))" "srv_nonce (cancel_calls (nt_cl s)) = srv_nonce (nt_cl s)"
    using net_okD(1) [OF ns_cancel] rpcc_inv_cancel [of "nt_cl s"] by (auto simp: client_grows_def client_ok_def cancel_calls_def Let_def)
  then show ?case using net_ok_client [OF ns_cancel] net_okD(1) [OF ns_cancel] by (simp add: client_ok_def)
qed (blast intro: net_ok_call net_ok_done net_ok_start net_ok_finish net_ok_other)+

lemma net_reach_ok: "net_reach s0 s \<Longrightarrow> net_ok s0 \<Longrightarrow> net_ok s"
  by (induction rule: net_reach.induct) (auto intro: net_ok_step)

lemma waiting_unacked:
  assumes "net_ok s" and "waiting (nt_cl s) x"
  shows "x \<notin> acked s"
  using net_okD(1) [OF assms(1)] assms(2) by (auto simp: client_ok_def rpcc_inv_def)

lemma reply_for_unique: "reply_for x b \<Longrightarrow> reply_for y b \<Longrightarrow> x = y"
  by (auto simp: reply_for_def)

lemma only_one:
  assumes "(x, b) \<in> set xs" and "count_list (map fst xs) x \<le> 1"
  shows "filter (\<lambda>p. fst p = x) xs = [(x, b)]"
proof -
  have "(x, b) \<in> set (filter (\<lambda>p. fst p = x) xs)" using assms(1) by simp
  moreover have "length (filter (\<lambda>p. fst p = x) xs) = count_list (map fst xs) x" by (induction xs) auto
  ultimately have "length (filter (\<lambda>p. fst p = x) xs) \<le> 1" "(x, b) \<in> set (filter (\<lambda>p. fst p = x) xs)"
    using assms(2) by simp_all
  then show ?thesis by (cases "filter (\<lambda>p. fst p = x) xs") auto
qed

section \<open>Properties of the library over a network\<close>

text \<open>
  C1. At most once, from end to end. A client and a freshly started server are joined by a network that loses, repeats and
  reorders requests and replies, and the server has other clients. As long as the client waits for its call \<open>x\<close>, the
  handler of this call has been started at most once, and every reply to it that is under way is the reply made by that
  execution: what the caller gets is the result of the one time its procedure ran.
\<close>

theorem network_at_most_once:
  assumes "rnd \<noteq> 0" and "reply_window S = []" and "sent S = []" and "\<And>p f. mfind (procs S) p = Some f \<Longrightarrow> handler_ok f"
    and "net_reach (net_new rnd lossy S) s" and "waiting (nt_cl s) x"
  shows "count_list (nt_started s) x \<le> 1 \<and>
    (\<forall>ch b. (ch, b) \<in> set (sent (nt_srv s)) \<longrightarrow> reply_for x b \<longrightarrow> filter (\<lambda>p. fst p = x) (nt_done s) = [(x, b)])"
proof -
  have ok: "net_ok s" using net_reach_ok [OF assms(5) net_ok_new [OF assms(1-4)]] .
  have un: "x \<notin> acked s" using waiting_unacked [OF ok assms(6)] .
  then have one: "count_list (nt_started s) x \<le> 1" using net_okD(4) [OF ok] by (auto simp: once_ok_def)
  then have cnt: "count_list (map fst (nt_done s)) x \<le> 1" using net_okD(5) [OF ok] by (simp add: runs_ok_def)
  have "filter (\<lambda>p. fst p = x) (nt_done s) = [(x, b)]" if "(ch, b) \<in> set (sent (nt_srv s))" "reply_for x b" for ch b
  proof -
    have "(x, b) \<in> set (nt_done s)"
      using net_okD(3) [OF ok] that un reply_for_unique by (fastforce simp: replies_ok_def)
    then show ?thesis using only_one [of x b "nt_done s"] cnt by simp
  qed
  then show ?thesis using one by blast
qed

text \<open>
  The witness: the client binds; its request arrives twice, the handler runs once and its reply is under way, while the client
  still waits.
\<close>

definition bind_handler :: "nat handler" where
  "bind_handler u m st = Ret (0, m, st + 1)"

definition net_server :: "nat rpcs" where
  "net_server = (rpcs_init 1 0 10)\<lparr>procs := [(rpc_const_bind, bind_handler)]\<rparr>"

definition net_example :: "nat net option" where
  "net_example =
     (case call1_begin rpc_const_bind (marshall_new 0) 0 (rpcc_new True 9 0) of
        Ret (Inr (x, rep, m), cl) \<Rightarrow>
          (case dispatch_check 0 demo_conn (m_bytes m) (incref demo_conn net_server) of
             Ret (Some (h, f, req), S) \<Rightarrow>
               (case dispatch_check 0 demo_conn (m_bytes m) (incref demo_conn S) of
                  Ret (None, S) \<Rightarrow>
                    (case dispatch_new (\<lambda>_. False) 0 h f req demo_conn S of
                       Ret S \<Rightarrow> Some \<lparr>nt_cl = cl, nt_srv = S, nt_reqs = [m_bytes m], nt_jobs = [], nt_started = [rq_xid h],
                                    nt_done = [(rq_xid h, snd (last (sent S)))]\<rparr>
                     | _ \<Rightarrow> None)
                | _ \<Rightarrow> None)
           | _ \<Rightarrow> None)
      | _ \<Rightarrow> None)"

lemma net_example_reach:
  assumes "net_example = Some s"
  shows "net_reach (net_new 9 0 net_server) s"
proof -
  obtain x rep m cl h f req S1 S2 S3 where e:
      "call1_begin rpc_const_bind (marshall_new 0) 0 (rpcc_new True 9 0) = Ret (Inr (x, rep, m), cl)"
      "dispatch_check 0 demo_conn (m_bytes m) (incref demo_conn net_server) = Ret (Some (h, f, req), S1)"
      "dispatch_check 0 demo_conn (m_bytes m) (incref demo_conn S1) = Ret (None, S2)"
      "dispatch_new (\<lambda>_. False) 0 h f req demo_conn S2 = Ret S3"
      "s = \<lparr>nt_cl = cl, nt_srv = S3, nt_reqs = [m_bytes m], nt_jobs = [], nt_started = [rq_xid h], nt_done = [(rq_xid h, snd (last (sent S3)))]\<rparr>"
    using assms unfolding net_example_def by (auto split: res.splits sum.splits prod.splits option.splits)
  let ?s1 = "\<lparr>nt_cl = cl, nt_srv = net_server, nt_reqs = [m_bytes m], nt_jobs = [], nt_started = [], nt_done = []\<rparr>"
  let ?s2 = "?s1\<lparr>nt_srv := S1, nt_jobs := [(h, f, req, demo_conn)], nt_started := [rq_xid h]\<rparr>"
  have "net_step (net_new 9 0 net_server) ?s1"
    using ns_call [of "marshall_new 0" "net_new 9 0 net_server", OF packet_new] e(1) by (simp add: net_new_def rpcc_new_def)
  moreover have "net_step ?s1 ?s2" using ns_start [of "m_bytes m" ?s1 0 demo_conn h f req S1] e(2) by simp
  moreover have "net_step ?s2 (?s2\<lparr>nt_srv := S2\<rparr>)" using ns_done [of "m_bytes m" ?s2 0 demo_conn S2] e(3) by simp
  moreover have "net_step (?s2\<lparr>nt_srv := S2\<rparr>) s"
    using ns_finish [of "?s2\<lparr>nt_srv := S2\<rparr>" "[]" h f req demo_conn "[]" "\<lambda>_. False" 0 S3] e(4,5) by simp
  ultimately show ?thesis by (meson nr_start nr_step)
qed

lemma net_server_handlers: "mfind (procs net_server) p = Some f \<Longrightarrow> handler_ok f"
  by (auto simp: net_server_def rpcs_init_def bind_handler_def handler_ok_def packet_new split: if_splits)

lemma reply_for_code:
  "reply_for x b \<longleftrightarrow> (case unpack_reply_header (unmarshall_new b) of Ret (h, u) \<Rightarrow> uok u \<and> rp_xid h = x | _ \<Rightarrow> False)"
  by (auto simp: reply_for_def split: res.splits)

theorem network_at_most_once_witness:
  "\<exists>s ch b. net_example = Some s \<and> waiting (nt_cl s) 1 \<and> sent (nt_srv s) = [(ch, b)] \<and> count_list (nt_started s) 1 \<le> 1 \<and>
     reply_for 1 b \<and> filter (\<lambda>p. fst p = 1) (nt_done s) = [(1, b)]"
proof -
  have "case net_example of None \<Rightarrow> False
      | Some s \<Rightarrow> waiting (nt_cl s) 1 \<and> length (sent (nt_srv s)) = 1 \<and>
          (case unpack_reply_header (unmarshall_new (snd (hd (sent (nt_srv s))))) of Ret (h, u) \<Rightarrow> uok u \<and> rp_xid h = 1 | _ \<Rightarrow> False)"
    by code_simp
  then obtain s where s: "net_example = Some s" "waiting (nt_cl s) 1" "length (sent (nt_srv s)) = 1" "reply_for 1 (snd (hd (sent (nt_srv s))))"
    by (auto simp: reply_for_code split: option.splits)
  then obtain ch b where "sent (nt_srv s) = [(ch, b)]" by (cases "sent (nt_srv s)") auto
  moreover have "count_list (nt_started s) 1 \<le> 1 \<and>
    (\<forall>ch b. (ch, b) \<in> set (sent (nt_srv s)) \<longrightarrow> reply_for 1 b \<longrightarrow> filter (\<lambda>p. fst p = 1) (nt_done s) = [(1, b)])"
    by (rule network_at_most_once [OF _ _ _ net_server_handlers net_example_reach [OF s(1)] s(2)])
      (simp_all add: net_server_def rpcs_init_def)
  ultimately show ?thesis using s(1,2,4) by auto
qed

end
