(* ===== verification/Lock_Tester.thy ===== *)
theory Lock_Tester
  imports Coherence Yfs_Client
begin

text \<open>
  The test program for the lock server (\<^verbatim>\<open>lock_tester.cc\<close>) and what its checks mean for the model. \<^verbatim>\<open>check_grant\<close> and
  \<^verbatim>\<open>check_release\<close> count the holders of each lock and end the program when they see two. \<open>test1\<close> runs on the client on
  its own; the threads of \<^verbatim>\<open>test2\<close> to \<^verbatim>\<open>test5\<close> run on the locking protocol of \<open>Lock_System\<close>. Each of them repeats
  acquire, \<^verbatim>\<open>check_grant\<close>, \<^verbatim>\<open>check_release\<close>, release; the theory has any number of threads on any number of clients doing so.

  The tester makes its clients without a \<^verbatim>\<open>lock_release_user\<close>, so \<^verbatim>\<open>lu\<close> is a null pointer, which \<^verbatim>\<open>release\<close> and
  \<^verbatim>\<open>revoke_handler\<close> follow when they send a lock back.
\<close>

section \<open>The checks\<close>

type_synonym lt_counts = "nat \<Rightarrow> int"

definition low_byte :: "u64 \<Rightarrow> nat" where
  "low_byte lid = unat (lid AND 0xff)"

definition check_grant :: "u64 \<Rightarrow> lt_counts \<Rightarrow> lt_counts res" where
  "check_grant lid ct =
     (let x = low_byte lid in if ct x \<noteq> 0 then Fault Exit_failure else Ret (ct(x := ct x + 1)))"

definition check_release :: "u64 \<Rightarrow> lt_counts \<Rightarrow> lt_counts res" where
  "check_release lid ct =
     (let x = low_byte lid in if ct x \<noteq> 1 then Fault Exit_failure else Ret (ct(x := ct x - 1)))"

section \<open>The first test\<close>

definition lock_a :: u64 where "lock_a = 1"
definition lock_b :: u64 where "lock_b = 2"

definition t_acquire :: "nat \<Rightarrow> u64 \<Rightarrow> world \<times> lt_counts \<Rightarrow> (world \<times> lt_counts) res" where
  "t_acquire n l = (\<lambda>(w, ct). bind_res (lc_acquire n l w) (\<lambda>(r, w). bind_res (check_grant l ct) (\<lambda>ct. Ret (w, ct))))"

definition t_release :: "u64 \<Rightarrow> world \<times> lt_counts \<Rightarrow> (world \<times> lt_counts) res" where
  "t_release l = (\<lambda>(w, ct). bind_res (lc_release l w) (\<lambda>(r, w). bind_res (check_release l ct) (\<lambda>ct. Ret (w, ct))))"

definition test1 :: "nat \<Rightarrow> world \<times> lt_counts \<Rightarrow> (world \<times> lt_counts) res" where
  "test1 n s =
     bind_res (t_acquire n lock_a s) (\<lambda>s.
     bind_res (t_release lock_a s) (\<lambda>s.
     bind_res (t_acquire n lock_a s) (\<lambda>s.
     bind_res (t_release lock_a s) (\<lambda>s.
     bind_res (t_acquire n lock_a s) (\<lambda>s.
     bind_res (t_acquire n lock_b s) (\<lambda>s.
     bind_res (t_release lock_b s) (\<lambda>s.
       t_release lock_a s)))))))"

text \<open>The counters and the locks held agree.\<close>

definition t_ok :: "u64 set \<Rightarrow> world \<times> lt_counts \<Rightarrow> bool" where
  "t_ok L s \<longleftrightarrow> holding L (fst s) \<and> (\<forall>x. snd s x = (if x \<in> low_byte ` L then 1 else 0))"

lemma t_acquire_ok:
  assumes "t_ok L s" and "low_byte l \<notin> low_byte ` L"
  shows "\<exists>s'. t_acquire (Suc (Suc (Suc n))) l s = Ret s' \<and> t_ok (insert l L) s'"
proof -
  obtain w ct where s: "s = (w, ct)" by (cases s) auto
  have "l \<notin> L" using assms(2) by blast
  then obtain w1 where "lc_acquire (Suc (Suc (Suc n))) l w = Ret (l_OK, w1)" "holding (insert l L) w1"
    using holding_acquire [of L w l n] assms(1) s by (auto simp: t_ok_def)
  then show ?thesis using assms s by (auto simp: t_acquire_def check_grant_def t_ok_def)
qed

lemma t_release_ok:
  assumes "t_ok (insert l L) s" and "low_byte l \<notin> low_byte ` L"
  shows "\<exists>s'. t_release l s = Ret s' \<and> t_ok L s'"
proof -
  obtain w ct where s: "s = (w, ct)" by (cases s) auto
  have "insert l L - {l} = L" using assms(2) by blast
  then obtain w1 where "lc_release l w = Ret (l_OK, w1)" "holding L w1"
    using holding_release [of "insert l L" w l] assms(1) s by (auto simp: t_ok_def)
  then show ?thesis using assms s by (auto simp: t_release_def check_release_def t_ok_def)
qed

lemma test1_ok:
  assumes "t_ok {} s"
  shows "\<exists>s'. test1 (Suc (Suc (Suc n))) s = Ret s' \<and> t_ok {} s'"
proof -
  have low: "low_byte lock_a = 1" "low_byte lock_b = 2" by (simp_all add: low_byte_def lock_a_def lock_b_def)
  obtain s1 where s1: "t_acquire (Suc (Suc (Suc n))) lock_a s = Ret s1" "t_ok {lock_a} s1" using t_acquire_ok [OF assms, of lock_a n] by auto
  obtain s2 where s2: "t_release lock_a s1 = Ret s2" "t_ok {} s2" using t_release_ok [OF s1(2)] by auto
  obtain s3 where s3: "t_acquire (Suc (Suc (Suc n))) lock_a s2 = Ret s3" "t_ok {lock_a} s3" using t_acquire_ok [OF s2(2), of lock_a n] by auto
  obtain s4 where s4: "t_release lock_a s3 = Ret s4" "t_ok {} s4" using t_release_ok [OF s3(2)] by auto
  obtain s5 where s5: "t_acquire (Suc (Suc (Suc n))) lock_a s4 = Ret s5" "t_ok {lock_a} s5" using t_acquire_ok [OF s4(2), of lock_a n] by auto
  obtain s6 where s6: "t_acquire (Suc (Suc (Suc n))) lock_b s5 = Ret s6" "t_ok {lock_b, lock_a} s6"
    using t_acquire_ok [OF s5(2), of lock_b n] low by auto
  obtain s7 where s7: "t_release lock_b s6 = Ret s7" "t_ok {lock_a} s7" using t_release_ok [OF s6(2)] low by auto
  obtain s8 where s8: "t_release lock_a s7 = Ret s8" "t_ok {} s8" using t_release_ok [OF s7(2)] by auto
  show ?thesis unfolding test1_def using s1 s2 s3 s4 s5 s6 s7 s8 by simp
qed

section \<open>The concurrent tests\<close>

text \<open>
  Where the thread that has been given a lock is: still in front of \<^verbatim>\<open>check_grant\<close>, between the two checks, or in front of the
  release. An application thread of client \<open>c\<close> has lock \<open>l\<close> exactly while \<open>sy_held\<close> says so.
\<close>

datatype lt_pc = LtBefore | LtInside | LtAfter

record ltsys =
  lt_sys :: lsys
  lt_ct :: lt_counts
  lt_pc :: "string \<Rightarrow> u64 \<Rightarrow> lt_pc"

datatype lt_act = LtLock act_kind | LtGrant | LtRelease

text \<open>A lock that is sent back makes the client call \<^verbatim>\<open>lu->dorelease\<close>.\<close>

fun lt_do :: "lt_act \<Rightarrow> string \<Rightarrow> u64 \<Rightarrow> ltsys \<Rightarrow> ltsys res option" where
  "lt_do (LtLock a) c l s =
     (if a = Release \<and> lt_pc s c l \<noteq> LtAfter then None
      else map_option (\<lambda>r. bind_res r (\<lambda>k.
             if sends_back a c l (lt_sys s) k then Fault Bad_access
             else Ret (s\<lparr>lt_sys := k, lt_pc := (if a = Release then upd2 (lt_pc s) c l LtBefore else lt_pc s)\<rparr>)))
        (sys_do a c l (lt_sys s)))"
| "lt_do LtGrant c l s =
     (if \<not> sy_held (lt_sys s) c l \<or> lt_pc s c l \<noteq> LtBefore then None
      else Some (bind_res (check_grant l (lt_ct s)) (\<lambda>ct. Ret (s\<lparr>lt_ct := ct, lt_pc := upd2 (lt_pc s) c l LtInside\<rparr>))))"
| "lt_do LtRelease c l s =
     (if lt_pc s c l \<noteq> LtInside then None
      else Some (bind_res (check_release l (lt_ct s)) (\<lambda>ct. Ret (s\<lparr>lt_ct := ct, lt_pc := upd2 (lt_pc s) c l LtAfter\<rparr>))))"

definition ltsys_new :: ltsys where
  "ltsys_new = \<lparr>lt_sys = lsys_new, lt_ct = (\<lambda>_. 0), lt_pc = (\<lambda>_ _. LtBefore)\<rparr>"

text \<open>The states that tests on the locks in \<open>L\<close> reach.\<close>

inductive lt_reach :: "u64 set \<Rightarrow> ltsys \<Rightarrow> bool" for L where
  lt_new: "lt_reach L ltsys_new"
| lt_step: "lt_reach L s \<Longrightarrow> l \<in> L \<Longrightarrow> lt_do a c l s = Some (Ret s') \<Longrightarrow> lt_reach L s'"

fun lt_run :: "(lt_act \<times> string \<times> u64) list \<Rightarrow> ltsys \<Rightarrow> ltsys option" where
  "lt_run [] s = Some s"
| "lt_run ((a, c, l) # es) s = (case lt_do a c l s of Some (Ret s') \<Rightarrow> lt_run es s' | _ \<Rightarrow> None)"

definition inside :: "u64 set \<Rightarrow> ltsys \<Rightarrow> nat \<Rightarrow> bool" where
  "inside L s x \<longleftrightarrow> (\<exists>c. \<exists>l \<in> L. low_byte l = x \<and> lt_pc s c l = LtInside)"

definition lt_ok :: "u64 set \<Rightarrow> ltsys \<Rightarrow> bool" where
  "lt_ok L s \<longleftrightarrow> lsys_ok (lt_sys s) \<and> (\<forall>c l. lt_pc s c l \<noteq> LtBefore \<longrightarrow> sy_held (lt_sys s) c l) \<and>
     (\<forall>x. lt_ct s x = (if inside L s x then 1 else 0))"

lemma held_idle: "lsys_ok s \<Longrightarrow> sy_held s c l \<Longrightarrow> sy_acq s c l = AcqIdle"
  using okD(1) [of s c l] by (cases "st_of s c l") (auto simp: pair_ok_def)

lemma held_stays:
  assumes "lsys_ok s" and "sys_do a c l s = Some (Ret k)" and "sy_held s d m" and "a \<noteq> Release \<or> d \<noteq> c \<or> m \<noteq> l"
  shows "sy_held k d m"
proof (cases "d = c \<and> m = l")
  case True
  then show ?thesis using assms held_idle [OF assms(1,3)] by (cases a) (auto split: if_splits prod.splits acq_out.splits revoke_out.splits)
next
  case False
  then show ?thesis
    using assms(2,3) by (cases a) (auto split: if_splits prod.splits acq_out.splits reply_out.splits revoke_out.splits acq_phase.splits)
qed

lemma held_once: "lsys_ok s \<Longrightarrow> sy_held s c l \<Longrightarrow> sy_held s d l \<Longrightarrow> d = c"
  using held_not_sent owns_unique by blast

lemma lt_ok_new: "lt_ok L ltsys_new"
  by (simp add: lt_ok_def ltsys_new_def lsys_ok_new inside_def)

text \<open>With locks that differ in their low byte, the thread inside the checks of a lock is the one that holds it.\<close>

lemma inside_held:
  assumes "lt_ok L s" and "inj_on low_byte L" and "l \<in> L" and "inside L s (low_byte l)" and "sy_held (lt_sys s) c l"
  shows "lt_pc s c l = LtInside"
proof -
  obtain d m where d: "m \<in> L" "low_byte m = low_byte l" "lt_pc s d m = LtInside" using assms(4) by (auto simp: inside_def)
  then have "m = l" using assms(2,3) by (auto dest: inj_onD)
  moreover have "sy_held (lt_sys s) d m" using d(3) assms(1) by (auto simp: lt_ok_def)
  ultimately have "d = c" using held_once [of "lt_sys s" c l d] assms(1,5) by (simp add: lt_ok_def)
  then show ?thesis using d(3) \<open>m = l\<close> by simp
qed

lemma lt_ok_lock:
  assumes ok: "lt_ok L s" and "lt_do (LtLock a) c l s = Some (Ret s')"
  shows "lt_ok L s'"
proof -
  obtain k where k: "sys_do a c l (lt_sys s) = Some (Ret k)" and pc: "a = Release \<longrightarrow> lt_pc s c l = LtAfter"
      and s': "s' = s\<lparr>lt_sys := k, lt_pc := (if a = Release then upd2 (lt_pc s) c l LtBefore else lt_pc s)\<rparr>"
    using assms(2) by (auto simp del: sys_do.simps split: if_splits)
  have "lt_pc s' d m = LtInside \<longleftrightarrow> lt_pc s d m = LtInside" for d m using pc by (auto simp: s')
  then have "inside L s' x = inside L s x" for x by (simp add: inside_def)
  moreover have "sy_held k d m" if "lt_pc s' d m \<noteq> LtBefore" for d m
    using that ok held_stays [OF _ k, of d m] unfolding s' lt_ok_def by (auto split: if_splits)
  moreover have "lsys_ok k" using ok lsys_ok_step k by (auto simp: lt_ok_def)
  ultimately show ?thesis using ok by (simp add: lt_ok_def s')
qed

lemma lt_grant:
  assumes ok: "lt_ok L s" and L: "inj_on low_byte L" "l \<in> L" and d: "lt_do LtGrant c l s \<noteq> None"
  shows "\<exists>s'. lt_do LtGrant c l s = Some (Ret s') \<and> lt_ok L s'"
proof -
  have h: "sy_held (lt_sys s) c l" "lt_pc s c l = LtBefore" using d by (auto split: if_splits)
  have n: "\<not> inside L s (low_byte l)" using inside_held [OF ok L _ h(1)] h(2) by auto
  then have ct: "lt_ct s (low_byte l) = 0" using ok by (simp add: lt_ok_def)
  let ?s = "s\<lparr>lt_ct := (lt_ct s)(low_byte l := 1), lt_pc := upd2 (lt_pc s) c l LtInside\<rparr>"
  have "inside L ?s x \<longleftrightarrow> x = low_byte l \<or> inside L s x" for x using L(2) h(2) by (auto simp: inside_def split: if_splits)
  then have "lt_ok L ?s" using ok h(1) by (auto simp: lt_ok_def)
  then show ?thesis using h ct by (simp add: check_grant_def)
qed

lemma lt_release:
  assumes ok: "lt_ok L s" and L: "inj_on low_byte L" "l \<in> L" and d: "lt_do LtRelease c l s \<noteq> None"
  shows "\<exists>s'. lt_do LtRelease c l s = Some (Ret s') \<and> lt_ok L s'"
proof -
  have pc: "lt_pc s c l = LtInside" using d by (auto split: if_splits)
  then have h: "sy_held (lt_sys s) c l" and "inside L s (low_byte l)" using ok L(2) by (auto simp: lt_ok_def inside_def)
  then have ct: "lt_ct s (low_byte l) = 1" using ok by (simp add: lt_ok_def)
  let ?s = "s\<lparr>lt_ct := (lt_ct s)(low_byte l := 0), lt_pc := upd2 (lt_pc s) c l LtAfter\<rparr>"
  have uniq: "d = c \<and> m = l" if "m \<in> L" "low_byte m = low_byte l" "lt_pc s d m = LtInside" for d m
  proof -
    have "m = l" using that(1,2) L by (auto dest: inj_onD)
    moreover have "sy_held (lt_sys s) d m" using that(3) ok by (auto simp: lt_ok_def)
    ultimately show ?thesis using held_once [of "lt_sys s"] ok h by (auto simp: lt_ok_def)
  qed
  have pcs: "lt_pc ?s d m = LtInside \<longleftrightarrow> lt_pc s d m = LtInside \<and> \<not> (d = c \<and> m = l)" for d m by simp
  have "inside L ?s x \<longleftrightarrow> x \<noteq> low_byte l \<and> inside L s x" for x unfolding inside_def pcs using uniq by blast
  then have "lt_ok L ?s" using ok h by (auto simp: lt_ok_def)
  then show ?thesis using pc ct by (simp add: check_release_def)
qed

lemma lt_reach_ok: "lt_reach L s \<Longrightarrow> inj_on low_byte L \<Longrightarrow> lt_ok L s"
proof (induction rule: lt_reach.induct)
  case (lt_step s l a c s')
  then show ?case using lt_ok_lock lt_grant [of L s l c] lt_release [of L s l c] by (cases a) auto
qed (rule lt_ok_new)

lemma lt_run_reach: "lt_run es s = Some s' \<Longrightarrow> (\<forall>(a, c, l) \<in> set es. l \<in> L) \<Longrightarrow> lt_reach L s \<Longrightarrow> lt_reach L s'"
  by (induction es s rule: lt_run.induct) (auto split: option.splits res.splits simp del: lt_do.simps intro: lt_step)

section \<open>Properties\<close>

text \<open>
  The first test passes: on a connected client that works alone and holds nothing, with all counters at zero, \<^verbatim>\<open>test1\<close>
  returns, no check fails, and it leaves the client without a lock and the counters at zero.
\<close>

theorem test1_passes:
  assumes "holding {} w"
  shows "\<exists>w'. test1 (Suc (Suc (Suc n))) (w, \<lambda>_. 0) = Ret (w', \<lambda>_. 0) \<and> holding {} w'"
proof -
  have "t_ok {} (w, \<lambda>_. 0)" using assms by (simp add: t_ok_def)
  from test1_ok [OF this, of n] obtain s' where "test1 (Suc (Suc (Suc n))) (w, \<lambda>_. 0) = Ret s'" "t_ok {} s'" by blast
  then show ?thesis by (cases s') (auto simp: t_ok_def fun_eq_iff)
qed

lemma holding_new: "holding {} (world_new cid rnd)"
  by (simp add: holding_def world_new_def connected_def idle_def lock_client_cache_new_def lock_server_cache_new_def ext_new_ok lockinfo_new_def)

theorem test1_passes_witness: "\<exists>w'. test1 3 (world_new ''c'' (\<lambda>_. 0), \<lambda>_. 0) = Ret (w', \<lambda>_. 0)"
  using test1_passes [OF holding_new, of 0 "''c''" "\<lambda>_. 0"] by (auto simp: numeral_3_eq_3)


definition one_round :: "string \<Rightarrow> (lt_act \<times> string \<times> u64) list" where
  "one_round c = [(LtLock Begin, c, 1), (LtLock ServeAcquire, c, 1), (LtLock GetReply, c, 1), (LtGrant, c, 1), (LtRelease, c, 1),
     (LtLock Release, c, 1)]"


text \<open>
  The tester crashes when two clients compete. A client of the tester has no \<^verbatim>\<open>lock_release_user\<close>, and \<^verbatim>\<open>revoke_handler\<close> calls
  \<^verbatim>\<open>lu->dorelease\<close> without a test: the revocation of a lock that such a client keeps cached ends the process.
\<close>

theorem tester_revoke_crashes:
  assumes "lsys_ok (lt_sys s)" and "st_of (lt_sys s) c l = FREE" and "sy_revoke (lt_sys s) c l > 0"
  shows "lt_do (LtLock GetRevoke) c l s = Some (Fault Bad_access)"
proof -
  have "sy_rel (lt_sys s) c l = RelIdle" using okD(1) [OF assms(1), of c l] assms(2) by (simp add: pair_ok_def)
  then show ?thesis using assms(2,3) okD(2) [OF assms(1), of c] by (simp add: revoke_try_def st_of_def sends_back_def Let_def)
qed

theorem tester_revoke_crashes_witness:
  "\<exists>s. lt_run (one_round ''0'' @ [(LtLock Begin, ''1'', 1), (LtLock ServeAcquire, ''1'', 1)]) ltsys_new = Some s \<and>
     lt_do (LtLock GetRevoke) ''0'' 1 s = Some (Fault Bad_access)"
proof -
  have "case lt_run (one_round ''0'' @ [(LtLock Begin, ''1'', 1), (LtLock ServeAcquire, ''1'', 1)]) ltsys_new of None \<Rightarrow> False
      | Some s \<Rightarrow> st_of (lt_sys s) ''0'' 1 = FREE \<and> sy_revoke (lt_sys s) ''0'' 1 > 0"
    by code_simp
  then obtain s where s: "lt_run (one_round ''0'' @ [(LtLock Begin, ''1'', 1), (LtLock ServeAcquire, ''1'', 1)]) ltsys_new = Some s"
      "st_of (lt_sys s) ''0'' 1 = FREE" "sy_revoke (lt_sys s) ''0'' 1 > 0"
    by (auto split: option.splits)
  have "lt_reach {1} s" using lt_run_reach [OF s(1), of "{1}"] lt_new by (simp add: one_round_def)
  then have "lsys_ok (lt_sys s)" using lt_reach_ok [of "{1}" s] by (simp add: lt_ok_def)
  then show ?thesis using tester_revoke_crashes [of s "''0''" 1] s by auto
qed

end
