(* ===== verification/Rpc_Test.thy ===== *)
theory Rpc_Test
  imports Rpc_System
begin

text \<open>
  The test program of the RPC library (\<^verbatim>\<open>rpc/rpctest.cc\<close>), which its first comment calls pseudo-documentation: the handlers of its
  server, the test of marshalling, the simple tests, the loops of its client threads and the calls of the failure test.
  A whole call over a network that works is \<open>perform\<close>, put together from \<^verbatim>\<open>call1\<close>, \<^verbatim>\<open>dispatch\<close> and \<^verbatim>\<open>got_pdu\<close>.
  The random arguments of the threads are lists; \<^verbatim>\<open>printf\<close> and the delay of \<^verbatim>\<open>handle_slow\<close> are left out.
\<close>

section \<open>The server\<close>

definition handle_22 :: "string \<Rightarrow> string \<Rightarrow> unit \<Rightarrow> (u32 \<times> string \<times> unit) res" where
  "handle_22 a b st = Ret (0, a @ b, st)"

definition handle_fast :: "u32 \<Rightarrow> unit \<Rightarrow> (u32 \<times> u32 \<times> unit) res" where
  "handle_fast a st = Ret (0, a + 1, st)"

definition handle_slow :: "u32 \<Rightarrow> unit \<Rightarrow> (u32 \<times> u32 \<times> unit) res" where
  "handle_slow a st = Ret (0, a + 2, st)"

text \<open>A negative length is a huge \<^verbatim>\<open>size_t\<close>, which the constructor of the string refuses with an exception.\<close>

definition handle_bigrep :: "u32 \<Rightarrow> unit \<Rightarrow> (u32 \<times> string \<times> unit) res" where
  "handle_bigrep len st = (if sint len < 0 then Fault Out_of_range else Ret (0, replicate (unat len) CHR ''x'', st))"

text \<open>The constructor of the server, which registers \<^verbatim>\<open>rpcbind\<close>; the nonce \<open>n\<close> it draws does not change afterwards.\<close>

definition bind_meth :: "u32 \<Rightarrow> u32 \<Rightarrow> 'st \<Rightarrow> (u32 \<times> u32 \<times> 'st) res" where
  "bind_meth n a st = (let (b, r) = rpcbind a (rpcs_init n 0 st) in Ret (b, r, st))"

definition rpcs_new :: "u32 \<Rightarrow> 'st \<Rightarrow> 'st rpcs res" where
  "rpcs_new n st = reg1 rpc_const_bind (reg_fn1 get_int put_int (bind_meth n)) (rpcs_init n 0 st)"

definition startserver :: "u32 \<Rightarrow> unit rpcs res" where
  "startserver n =
     bind_res (rpcs_new n ()) (\<lambda>s.
     bind_res (reg1 22 (reg_fn2 (get_string []) (get_string []) put_string handle_22) s) (\<lambda>s.
     bind_res (reg1 23 (reg_fn1 get_int put_int handle_fast) s) (\<lambda>s.
     bind_res (reg1 24 (reg_fn1 get_int put_int handle_slow) s) (\<lambda>s.
       reg1 25 (reg_fn1 get_int put_string handle_bigrep) s))))"

section \<open>Marshalling\<close>

definition testmarshall :: "byte \<Rightarrow> unit res" where
  "testmarshall g =
     (let rh = \<lparr>rq_xid = 1, rq_proc = 2, rq_clt_nonce = 3, rq_srv_nonce = 4, rq_xid_rep = 5\<rparr>;
          i = 12345; l = 1223344455; s = ''hallo....'' in
      bind_res (pack_req_header rh (marshall_new g)) (\<lambda>m.
      verify (length (m_bytes m) = RPC_HEADER_SZ)
     (bind_res (put_int i m) (\<lambda>m.
      bind_res (put_ull l m) (\<lambda>m.
      bind_res (put_string s m) (\<lambda>m.
      let b = m_bytes m in
      verify (length b = RPC_HEADER_SZ + 4 + 8 + length s + 4)
     (bind_res (unpack_req_header (unmarshall_new b)) (\<lambda>(rh1, un).
      verify (rh1 = rh)
     (bind_res (get_int un) (\<lambda>(i1, un).
      bind_res (get_ull un) (\<lambda>(l1, un).
      bind_res (get_string [] un) (\<lambda>(s1, un).
      verify (okdone un) (verify (i1 = i \<and> l1 = l \<and> s1 = s) (Ret ()))))))))))))))"

section \<open>A call over a working network\<close>

text \<open>
  The request arrives once, on the connection \<open>c\<close>, and the reply comes back before the call times out. \<open>junk\<close> is the
  content of an uninitialised field.
\<close>

definition perform ::
  "byte \<Rightarrow> u32 \<Rightarrow> conn \<Rightarrow> (byte \<Rightarrow> marshall res) \<Rightarrow> u32 \<Rightarrow> (unmarshall \<Rightarrow> ('r \<times> unmarshall) res) \<Rightarrow> 'r \<Rightarrow> rpcc \<times> 'st rpcs \<Rightarrow>
   (u32 \<times> 'r \<times> rpcc \<times> 'st rpcs) res" where
  "perform g junk c call proc getr r0 = (\<lambda>(cl, S).
     bind_res (call g) (\<lambda>m.
     bind_res (call1_begin proc m junk cl) (\<lambda>(out, cl).
       case out of
         Inl e \<Rightarrow> bind_res (call_m_finish getr r0 e unmarshall_empty) (\<lambda>(e, r). Ret (e, r, cl, S))
       | Inr (x, rep, m') \<Rightarrow>
           bind_res (dispatch (\<lambda>_. False) g c (m_bytes m') (incref c S)) (\<lambda>S.
           bind_res (rpcc_got_pdu (snd (last (sent S))) cl) (\<lambda>(ok, cl).
             case mfind (calls cl) x of
               None \<Rightarrow> Fault Bad_access
             | Some ca \<Rightarrow>
                 bind_res (call1_end x rep (m_bytes m') cl) (\<lambda>(ret, cl).
                 bind_res (call_m_finish getr r0 ret (ca_un ca)) (\<lambda>(ret, r). Ret (ret, r, cl, S))))))))"

text \<open>The calls the tests make.\<close>

type_synonym testbed = "rpcc \<times> unit rpcs"

definition call_22 :: "byte \<Rightarrow> u32 \<Rightarrow> conn \<Rightarrow> string \<Rightarrow> string \<Rightarrow> string \<Rightarrow> testbed \<Rightarrow> (u32 \<times> string \<times> testbed) res" where
  "call_22 g junk c a b r0 = perform g junk c (rpc_call2 put_string put_string Ret a b) 22 (get_string []) r0"

definition call_fast :: "byte \<Rightarrow> u32 \<Rightarrow> conn \<Rightarrow> u32 \<Rightarrow> u32 \<Rightarrow> testbed \<Rightarrow> (u32 \<times> u32 \<times> testbed) res" where
  "call_fast g junk c a r0 = perform g junk c (rpc_call1 put_int Ret a) 23 get_int r0"

definition call_slow :: "byte \<Rightarrow> u32 \<Rightarrow> conn \<Rightarrow> u32 \<Rightarrow> u32 \<Rightarrow> testbed \<Rightarrow> (u32 \<times> u32 \<times> testbed) res" where
  "call_slow g junk c a r0 = perform g junk c (rpc_call1 put_int Ret a) 24 get_int r0"

definition call_bigrep :: "byte \<Rightarrow> u32 \<Rightarrow> conn \<Rightarrow> u32 \<Rightarrow> string \<Rightarrow> testbed \<Rightarrow> (u32 \<times> string \<times> testbed) res" where
  "call_bigrep g junk c a r0 = perform g junk c (rpc_call1 put_int Ret a) 25 (get_string []) r0"

section \<open>The tests\<close>

text \<open>\<^verbatim>\<open>simple_tests\<close> up to the call of a server that does not exist.\<close>

definition simple_tests :: "byte \<Rightarrow> u32 \<Rightarrow> conn \<Rightarrow> testbed \<Rightarrow> testbed res" where
  "simple_tests g junk c s =
     bind_res (call_22 g junk c ''hello'' '' goodbye'' [] s) (\<lambda>(intret, rep, s).
     verify (intret = 0) (verify (rep = ''hello goodbye'')
    (bind_res (call_bigrep g junk c 70000 rep s) (\<lambda>(intret, rep, s).
     verify (intret = 0) (verify (length rep = 70000)
    (bind_res (call_fast g junk c 77 0 s) (\<lambda>(intret, xx, s).
     verify (intret = 0 \<and> xx = 78)
    (bind_res (call_22 g junk c (replicate 1000 CHR ''x'') ''x'' [] s) (\<lambda>(intret, rep1, s).
     verify (length rep1 = 1001)
    (bind_res (call_22 g junk c (replicate 1000000 CHR ''x'') ''z'' rep s) (\<lambda>(intret, rep, s).
     verify (length rep = 1000001) (Ret s))))))))))))"

text \<open>The threads of the concurrent test, with the random numbers they draw.\<close>

fun client1_sizes :: "byte \<Rightarrow> u32 \<Rightarrow> conn \<Rightarrow> u32 list \<Rightarrow> testbed \<Rightarrow> testbed res" where
  "client1_sizes g junk c [] s = Ret s"
| "client1_sizes g junk c (arg # args) s =
     bind_res (call_bigrep g junk c arg [] s) (\<lambda>(ret, rep, s).
     verify (ret = 0) (verify (int (length rep) = sint arg) (client1_sizes g junk c args s)))"

fun client1_order :: "byte \<Rightarrow> u32 \<Rightarrow> conn \<Rightarrow> (bool \<times> u32) list \<Rightarrow> testbed \<Rightarrow> testbed res" where
  "client1_order g junk c [] s = Ret s"
| "client1_order g junk c ((which, arg) # args) s =
     bind_res (if which then call_fast g junk c arg junk s else call_slow g junk c arg junk s) (\<lambda>(ret, rep, s).
     verify (ret = 0) (verify (rep = (if which then arg + 1 else arg + 2)) (client1_order g junk c args s)))"

definition client1 :: "byte \<Rightarrow> u32 \<Rightarrow> conn \<Rightarrow> u32 list \<Rightarrow> (bool \<times> u32) list \<Rightarrow> testbed \<Rightarrow> testbed res" where
  "client1 g junk c sizes order s = bind_res (client1_sizes g junk c sizes s) (client1_order g junk c order)"

text \<open>
  \<^verbatim>\<open>bind\<close>, and \<^verbatim>\<open>failure_test\<close> from the start of the new server up to its first threads: an old client calls the new
  server, a new client binds, binds again, and calls. \<open>n\<close> and \<open>k\<close> are the random nonces of the new server and the new client.
  \<open>client3\<close> is the body of its threads.
\<close>

definition rpcc_bind :: "byte \<Rightarrow> u32 \<Rightarrow> conn \<Rightarrow> testbed \<Rightarrow> (u32 \<times> testbed) res" where
  "rpcc_bind g junk c s =
     bind_res (perform g junk c (rpc_call1 put_int Ret 0) rpc_const_bind get_int junk s) (\<lambda>(ret, r, cl, S).
       Ret (ret, bind_finish ret r cl, S))"

definition failure_test :: "byte \<Rightarrow> u32 \<Rightarrow> conn \<Rightarrow> conn \<Rightarrow> u32 \<Rightarrow> u32 \<Rightarrow> rpcc \<Rightarrow> testbed res" where
  "failure_test g junk c c' n k client =
     bind_res (startserver n) (\<lambda>server.
     bind_res (call_22 g junk c ''hello'' '' goodbye'' [] (client, server)) (\<lambda>(intret, rep, client, server).
     verify (intret = oldsrv_failure)
    (bind_res (rpcc_bind g junk c' (rpcc_new True k 0, server)) (\<lambda>(ret, s).
     verify (0 \<le> sint ret)
    (bind_res (rpcc_bind g junk c' s) (\<lambda>(ret, s).
     verify (sint ret < 0)
    (bind_res (call_22 g junk c' ''hello'' '' goodbye'' rep s) (\<lambda>(intret, rep, s).
     verify (intret = 0) (verify (rep = ''hello goodbye'') (Ret s))))))))))"

function client3 :: "byte \<Rightarrow> u32 \<Rightarrow> conn \<Rightarrow> nat \<Rightarrow> testbed \<Rightarrow> testbed res" where
  "client3 g junk c i s =
     (if i < 4
      then bind_res (call_slow g junk c (of_nat i) junk s) (\<lambda>(ret, rep, s).
           verify (ret = timeout_failure \<or> rep = of_nat i + 2) (client3 g junk c (i + 1) s))
      else Ret s)"
  by pat_completeness auto
termination by (relation "measure (\<lambda>(g, junk, c, i, s). 4 - i)") auto

declare client3.simps [simp del]

section \<open>A call gives what its handler returns\<close>

text \<open>
  A client and a server between two calls, connected by \<open>c\<close>: the server has no trace of the requests the client will
  number next.
\<close>

definition linked :: "conn \<Rightarrow> rpcc \<times> 'st rpcs \<Rightarrow> bool" where
  "linked c = (\<lambda>(cl, S). rpcc_inv cl \<and> calls cl = [] \<and> \<not> destroy_wait cl \<and> clt_nonce cl \<noteq> 0 \<and>
     (srv_nonce cl = 0 \<or> srv_nonce cl = nonce S) \<and> wok S \<and>
     (\<forall>y. xid_ctr cl \<le> y \<longrightarrow> entry y (win S (clt_nonce cl)) = None \<and> unacked S (clt_nonce cl) y) \<and>
     mfind (conns S) (clt_nonce cl) \<in> {None, Some c} \<and> 0 \<le> refs S (channo c))"

lemma rep_below: "rpcc_inv cl \<Longrightarrow> hd (xid_rep_window cl) < xid_ctr cl"
  by (auto simp: rpcc_inv_def answered_def)

text \<open>What a call leaves behind when its request and its reply get through.\<close>

lemma client_after_call:
  assumes inv: "rpcc_inv cl" and calls: "calls cl = []" and ctr: "xid_ctr cl + 1 \<noteq> 0"
    and s2: "s2 = (update_xid_rep (xid_ctr cl) (cl\<lparr>xid_ctr := xid_ctr cl + 1\<rparr>))\<lparr>calls := mput (xid_ctr cl) ca (calls cl)\<rparr>"
    and ca: "ca_xid ca = xid_ctr cl" "ca_done ca"
  obtains cl' where "call1_end (xid_ctr cl) rep b s2 = Ret (ca_intret ca, cl')" "rpcc_inv cl'" "calls cl' = []"
    "xid_ctr cl' = xid_ctr cl + 1" "clt_nonce cl' = clt_nonce cl" "srv_nonce cl' = srv_nonce cl" "bind_done cl' = bind_done cl"
    "destroy_wait cl' = destroy_wait cl"
proof -
  let ?x = "xid_ctr cl" and ?c1 = "cl\<lparr>xid_ctr := xid_ctr cl + 1\<rparr>"
  have lt: "y < ?x + 1 \<longleftrightarrow> y \<le> ?x" for y using ctr by (rule less_succ_iff)
  have c1: "rpcc_inv ?c1" using inv calls ctr lt by (auto simp: rpcc_inv_def waiting_def word_neq_0_conv intro: less_imp_le)
  have w: "\<not> waiting ?c1 ?x" "\<not> waiting (update_xid_rep ?x ?c1) ?x" using calls by (simp_all add: waiting_def update_xid_rep_def)
  have c3: "rpcc_inv (update_xid_rep ?x (update_xid_rep ?x ?c1))"
    using w lt by (intro rpcc_inv_update c1) (simp_all add: update_xid_rep_def)
  obtain cl' where e: "call1_end ?x rep b s2 = Ret (ca_intret ca, cl')" using ca(2) s2 by (simp add: call1_end_def Let_def)
  show thesis
  proof (rule that [OF e])
    show "rpcc_inv cl'" by (rule rpcc_inv_cong [OF c3])
      (use e ca s2 calls in \<open>auto simp: call1_end_def Let_def update_xid_rep_def split: if_splits\<close>)
  qed (use e ca s2 calls in \<open>auto simp: call1_end_def Let_def update_xid_rep_def split: if_splits\<close>)
qed

lemma perform_ok:
  assumes l: "linked c (cl, S)" and d: "delivers call (\<lambda>u. f u (marshall_new g) (srv S)) (answer putr (marshall_new g) (Ret (b, r, st)))"
    and result: "emits (putr r) br" "reads getr br r" "length br < 2 ^ 29" "\<not> sint b < 0"
    and proc: "mfind (procs S) proc = Some f" "proc = rpc_const_bind \<longleftrightarrow> \<not> bind_done cl" and ctr: "xid_ctr cl + 1 \<noteq> 0"
  obtains cl' S' where "perform g junk c call proc getr r0 (cl, S) = Ret (b, r, cl', S')" "linked c (cl', S')"
    "xid_ctr cl' = xid_ctr cl + 1" "clt_nonce cl' = clt_nonce cl" "bind_done cl' = bind_done cl" "srv_nonce cl' = srv_nonce cl"
    "srv S' = st" "procs S' = procs S" "nonce S' = nonce S"
proof -
  have lt: "y < xid_ctr cl + 1 \<longleftrightarrow> y \<le> xid_ctr cl" for y using ctr by (rule less_succ_iff)
  have inv: "rpcc_inv cl" "calls cl = []" using l by (simp_all add: linked_def)
  let ?S = "incref c S"
  have i: "reply_window ?S = reply_window S" "highest_xid_rep ?S = highest_xid_rep S" "nonce ?S = nonce S" "srv ?S = srv S"
    "procs ?S = procs S" "conns ?S = conns S" "refs ?S = (refs S)(channo c := refs S (channo c) + 1)"
    by (simp_all add: incref_def)
  note li = l [unfolded linked_def, simplified]
  have d': "delivers call (\<lambda>u. f u (marshall_new g) (srv ?S)) (answer putr (marshall_new g) (Ret (b, r, st)))"
    and cl: "\<not> destroy_wait cl" "clt_nonce cl \<noteq> 0" "srv_nonce cl = 0 \<or> srv_nonce cl = nonce ?S"
    and S: "wok ?S" "mfind (procs ?S) proc = Some f" "entry (xid_ctr cl) (win ?S (clt_nonce cl)) = None"
      "unacked ?S (clt_nonce cl) (xid_ctr cl)" "mfind (conns ?S) (clt_nonce cl) \<in> {None, Some c}" "refs ?S (channo c) > 0"
    using d li proc(1) by (simp_all add: i wok_def unacked_def)
  obtain m m' s1 S1 rep s2 ca where e: "call g = Ret m"
      "call1_begin proc m junk cl = Ret (Inr (xid_ctr cl, hd (xid_rep_window cl), m'), s1)"
      "dispatch (\<lambda>_. False) g c (m_bytes m') ?S = Ret S1" "srv S1 = st" "sent S1 = sent ?S @ [(channo c, rep)]"
      "refs S1 = (refs ?S)(channo c := refs ?S (channo c) - (if mfind (conns ?S) (clt_nonce cl) = None then 0 else 1))"
      "procs S1 = procs ?S" "mfind (conns S1) (clt_nonce cl) = Some c" "nonce S1 = nonce ?S"
      "wok S1" "unacked S1 (clt_nonce cl) (xid_ctr cl)"
      "\<forall>y. y \<noteq> xid_ctr cl \<longrightarrow> entry y (win ?S (clt_nonce cl)) = None \<longrightarrow> entry y (win S1 (clt_nonce cl)) = None"
      "rpcc_got_pdu rep s1 = Ret (True, s2)" "mfind (calls s2) (xid_ctr cl) = Some ca" "ca_done ca"
      "call_m_finish getr r0 (ca_intret ca) (ca_un ca) = Ret (b, r)"
      "s2 = (update_xid_rep (xid_ctr cl) (cl\<lparr>xid_ctr := xid_ctr cl + 1\<rparr>))\<lparr>calls := mput (xid_ctr cl) ca (calls cl)\<rparr>"
      "ca_xid ca = xid_ctr cl" "ca_intret ca = b"
    by (rule rpc_round_trip [where junk = junk and ?r0.0 = r0 and isdead = "\<lambda>_. False" and c = c and proc = proc,
          OF d' result cl(1) proc(2) cl(2,3) rep_below [OF inv(1)] S not_False_eq_True [THEN iffD2, OF TrueI]]) (rule that; assumption)
  obtain cl' where c: "call1_end (xid_ctr cl) (hd (xid_rep_window cl)) (m_bytes m') s2 = Ret (ca_intret ca, cl')" "rpcc_inv cl'"
      "calls cl' = []" "xid_ctr cl' = xid_ctr cl + 1" "clt_nonce cl' = clt_nonce cl" "srv_nonce cl' = srv_nonce cl"
      "bind_done cl' = bind_done cl" "destroy_wait cl' = destroy_wait cl"
    by (rule client_after_call [OF inv ctr e(17,18,15)])
  have new: "entry y (win S1 (clt_nonce cl)) = None" "unacked S1 (clt_nonce cl) y" if "xid_ctr cl + 1 \<le> y" for y
  proof -
    have y: "xid_ctr cl < y" using that lt [of "xid_ctr cl"] by auto
    show "entry y (win S1 (clt_nonce cl)) = None" using e(12) li y by (simp add: i)
    show "unacked S1 (clt_nonce cl) y" using e(11) y by (auto simp: unacked_def)
  qed
  have ref: "0 \<le> refs S1 (channo c)" using e(6) li by (simp add: i)
  show thesis
  proof (rule that)
    show "perform g junk c call proc getr r0 (cl, S) = Ret (b, r, cl', S1)" using e c(1) by (simp add: perform_def)
    show "linked c (cl', S1)" unfolding linked_def using c e(8-10) li new ref by (simp add: i)
  qed (use c e in \<open>simp_all add: i\<close>)
qed

lemma length_enc_string: "length (enc_string t) = 4 + length t"
  by (simp add: enc_string_def)

text \<open>The test bed between two calls: the server has the handlers of the tests.\<close>

definition serving :: "unit rpcs \<Rightarrow> bool" where
  "serving S \<longleftrightarrow> (\<exists>S0. startserver (nonce S) = Ret S0 \<and> procs S = procs S0)"

definition ready :: "conn \<Rightarrow> testbed \<Rightarrow> bool" where
  "ready c s \<longleftrightarrow> linked c s \<and> bind_done (fst s) \<and> serving (snd s)"

lemma startserver_procs:
  "\<exists>S. startserver n = Ret S \<and> S = (rpcs_init n 0 ())\<lparr>procs := procs S\<rparr> \<and>
     mfind (procs S) rpc_const_bind = Some (reg_fn1 get_int put_int (bind_meth n)) \<and>
     mfind (procs S) 22 = Some (reg_fn2 (get_string []) (get_string []) put_string handle_22) \<and>
     mfind (procs S) 23 = Some (reg_fn1 get_int put_int handle_fast) \<and>
     mfind (procs S) 24 = Some (reg_fn1 get_int put_int handle_slow) \<and>
     mfind (procs S) 25 = Some (reg_fn1 get_int put_string handle_bigrep)"
  by (simp add: startserver_def rpcs_new_def reg1_def Let_def rpc_const_bind_def rpcs_init_def mcount_def)

lemma serving_procs:
  assumes "serving S"
  shows "mfind (procs S) rpc_const_bind = Some (reg_fn1 get_int put_int (bind_meth (nonce S)))"
    and "mfind (procs S) 22 = Some (reg_fn2 (get_string []) (get_string []) put_string handle_22)"
    and "mfind (procs S) 23 = Some (reg_fn1 get_int put_int handle_fast)"
    and "mfind (procs S) 24 = Some (reg_fn1 get_int put_int handle_slow)"
    and "mfind (procs S) 25 = Some (reg_fn1 get_int put_string handle_bigrep)"
  using assms startserver_procs [of "nonce S"] by (auto simp: serving_def)

text \<open>Every call of the tests in one lemma: the call \<open>k\<close> ends with status 0 and the result \<open>r\<close>.\<close>

lemma test_call_ok:
  assumes d: "delivers call (\<lambda>u. f u (marshall_new g) ()) (answer putr (marshall_new g) (Ret (0, r, ())))"
    and rd: "ready c s" and ctr: "xid_ctr (fst s) + 1 \<noteq> 0"
    and result: "emits (putr r) br" "reads getr br r" "length br < 2 ^ 29"
    and proc: "mfind (procs (snd s)) proc = Some f" "proc \<noteq> rpc_const_bind"
  shows "\<exists>s'. perform g junk c call proc getr r0 s = Ret (0, r, s') \<and> ready c s' \<and> xid_ctr (fst s') = xid_ctr (fst s) + 1"
proof -
  obtain cl S where s: "s = (cl, S)" by (cases s)
  have l: "linked c (cl, S)" "serving S" and p: "mfind (procs S) proc = Some f" "proc = rpc_const_bind \<longleftrightarrow> \<not> bind_done cl"
    using rd proc by (auto simp: s ready_def)
  have d': "delivers call (\<lambda>u. f u (marshall_new g) (srv S)) (answer putr (marshall_new g) (Ret (0, r, ())))" using d by simp
  have nn: "\<not> sint (0 :: u32) < 0" by simp
  have ctr': "xid_ctr cl + 1 \<noteq> 0" using ctr by (simp add: s)
  obtain cl' S' where "perform g junk c call proc getr r0 (cl, S) = Ret (0, r, cl', S')" "linked c (cl', S')"
    "xid_ctr cl' = xid_ctr cl + 1" "bind_done cl' = bind_done cl" "procs S' = procs S" "nonce S' = nonce S"
    by (rule perform_ok [where junk = junk and ?r0.0 = r0, OF l(1) d' result nn p ctr']) (rule that; assumption)
  then show ?thesis using rd by (auto simp: s ready_def serving_def)
qed

lemma strings_arrive:
  assumes "length a + length b < 2 ^ 28"
  shows "delivers (rpc_call2 put_string put_string Ret a b)
    (\<lambda>u. reg_fn2 (get_string []) (get_string []) put_string handle_22 u (marshall_new g) ())
    (answer put_string (marshall_new g) (Ret (0, a @ b, ())))"
  using two_arguments_arrive [of put_string a "enc_string a" put_string b "enc_string b" "get_string []" "get_string []" put_string handle_22]
    assms by (simp add: emits_put_string reads_get_string length_enc_string handle_22_def)

lemma call_22_ok:
  assumes "ready c s" and "xid_ctr (fst s) + 1 \<noteq> 0" and "length a + length b < 2 ^ 28"
  shows "\<exists>s'. call_22 g junk c a b r0 s = Ret (0, a @ b, s') \<and> ready c s' \<and> xid_ctr (fst s') = xid_ctr (fst s) + 1"
  unfolding call_22_def
  using strings_arrive [OF assms(3)] assms(1,2)
  by (rule test_call_ok [where br = "enc_string (a @ b)"])
    (use assms serving_procs(2) [of "snd s"] in \<open>simp_all add: emits_put_string reads_get_string length_enc_string ready_def rpc_const_bind_def\<close>)

lemma int_call_ok:
  assumes "ready c s" and "xid_ctr (fst s) + 1 \<noteq> 0" and "handle a () = Ret (0, r, ())"
    and "mfind (procs (snd s)) proc = Some (reg_fn1 get_int putr handle)" "proc \<noteq> rpc_const_bind"
    and "emits (putr r) br" "reads getr br r" "length br < 2 ^ 29"
  shows "\<exists>s'. perform g junk c (rpc_call1 put_int Ret a) proc getr r0 s = Ret (0, r, s') \<and> ready c s' \<and>
     xid_ctr (fst s') = xid_ctr (fst s) + 1"
proof -
  have "delivers (rpc_call1 put_int Ret a) (\<lambda>u. reg_fn1 get_int putr handle u (marshall_new g) ())
      (answer putr (marshall_new g) (Ret (0, r, ())))"
    using one_argument_arrives [of put_int a "be32 a" get_int putr handle] assms(3) by (simp add: emits_put_uint reads_get_uint)
  then show ?thesis using assms(1,2,6-8,4,5) by (rule test_call_ok)
qed

lemma call_fast_ok:
  assumes "ready c s" and "xid_ctr (fst s) + 1 \<noteq> 0"
  shows "\<exists>s'. call_fast g junk c a r0 s = Ret (0, a + 1, s') \<and> ready c s' \<and> xid_ctr (fst s') = xid_ctr (fst s) + 1"
  unfolding call_fast_def by (rule int_call_ok [OF assms, where br = "be32 (a + 1)" and putr = put_int and handle = handle_fast])
    (use assms serving_procs(3) [of "snd s"] in \<open>simp_all add: handle_fast_def ready_def rpc_const_bind_def emits_put_uint reads_get_uint\<close>)

lemma call_slow_ok:
  assumes "ready c s" and "xid_ctr (fst s) + 1 \<noteq> 0"
  shows "\<exists>s'. call_slow g junk c a r0 s = Ret (0, a + 2, s') \<and> ready c s' \<and> xid_ctr (fst s') = xid_ctr (fst s) + 1"
  unfolding call_slow_def by (rule int_call_ok [OF assms, where br = "be32 (a + 2)" and putr = put_int and handle = handle_slow])
    (use assms serving_procs(4) [of "snd s"] in \<open>simp_all add: handle_slow_def ready_def rpc_const_bind_def emits_put_uint reads_get_uint\<close>)

lemma call_bigrep_ok:
  assumes "ready c s" and "xid_ctr (fst s) + 1 \<noteq> 0" and "unat a < 2 ^ 28"
  shows "\<exists>s'. call_bigrep g junk c a r0 s = Ret (0, replicate (unat a) CHR ''x'', s') \<and> ready c s' \<and>
     xid_ctr (fst s') = xid_ctr (fst s) + 1"
proof -
  have "sint a = int (unat a)" using sint_small [of "unat a"] assms(3) by simp
  then show ?thesis
    unfolding call_bigrep_def
    by (intro int_call_ok [OF assms(1,2), where br = "enc_string (replicate (unat a) CHR ''x'')" and putr = put_string and handle = handle_bigrep])
      (use assms serving_procs(5) [of "snd s"] in
        \<open>simp_all add: handle_bigrep_def ready_def rpc_const_bind_def emits_put_string reads_get_string length_enc_string\<close>)
qed

text \<open>Room for \<open>k\<close> more request numbers.\<close>

definition room :: "nat \<Rightarrow> testbed \<Rightarrow> bool" where
  "room k s \<longleftrightarrow> unat (xid_ctr (fst s)) + k < 2 ^ 32"

lemma room_step:
  assumes "room (Suc k) s"
  shows "xid_ctr (fst s) + 1 \<noteq> 0" and "xid_ctr (fst s') = xid_ctr (fst s) + 1 \<Longrightarrow> room k s'"
proof -
  have u: "unat (xid_ctr (fst s) + 1) = unat (xid_ctr (fst s)) + 1"
    using assms by (subst unat_add_lem [THEN iffD1]) (simp_all add: room_def)
  then show "xid_ctr (fst s) + 1 \<noteq> 0" by (metis add_is_0 one_neq_zero unat_0)
  show "xid_ctr (fst s') = xid_ctr (fst s) + 1 \<Longrightarrow> room k s'" using assms u by (simp add: room_def)
qed

text \<open>\<open>answers c call r\<close>: whenever client and server are ready, \<open>call\<close> returns status 0 and the result \<open>r\<close>.\<close>

definition answers :: "conn \<Rightarrow> (testbed \<Rightarrow> (u32 \<times> 'r \<times> testbed) res) \<Rightarrow> 'r \<Rightarrow> bool" where
  "answers c call r \<longleftrightarrow> (\<forall>s k. ready c s \<longrightarrow> room (Suc k) s \<longrightarrow> (\<exists>s'. call s = Ret (0, r, s') \<and> ready c s' \<and> room k s'))"

lemma answersI:
  assumes "\<And>s. ready c s \<Longrightarrow> xid_ctr (fst s) + 1 \<noteq> 0 \<Longrightarrow>
     \<exists>s'. call s = Ret (0, r, s') \<and> ready c s' \<and> xid_ctr (fst s') = xid_ctr (fst s) + 1"
  shows "answers c call r"
  unfolding answers_def using assms room_step by meson

lemma answersE:
  assumes "answers c call r" and "ready c s" and "room (Suc k) s"
  obtains s' where "call s = Ret (0, r, s')" "ready c s'" "room k s'"
  using assms unfolding answers_def by blast

lemma call_answers:
  "length a + length b < 2 ^ 28 \<Longrightarrow> answers c (call_22 g junk c a b r0) (a @ b)"
  "answers c (call_fast g junk c i j) (i + 1)"
  "answers c (call_slow g junk c i j) (i + 2)"
  "unat i < 2 ^ 28 \<Longrightarrow> answers c (call_bigrep g junk c i t) (replicate (unat i) CHR ''x'')"
  by (rule answersI, erule (1) call_22_ok call_fast_ok call_slow_ok call_bigrep_ok, assumption?)+

lemma hello: "length ''hello'' + length '' goodbye'' < 2 ^ 28"
  by simp

lemma feeds_okdone: "x = y \<Longrightarrow> feeds [] (\<lambda>u. verify (okdone u) x) y"
  by (auto simp: feeds_def u_rest_def u_inv_def okdone_def verify_def)

lemma header_first:
  "\<exists>p m. pack_req_header h (marshall_new g) = Ret m \<and> m_inv m \<and> length p = 4 \<and>
     m_bytes m = p @ be32 (rq_xid h) @ be32 (rq_proc h) @ be32 (rq_clt_nonce h) @ be32 (rq_srv_nonce h) @ be32 (rq_xid_rep h)"
  using pack_req_header_spec [OF m_inv_new [of g], of h]
  by (intro exI [of _ "take 4 (mbuf (marshall_new g))"]) (auto simp: m_bytes_def marshall_new_def DEFAULT_RPC_SZ_def)

section \<open>Properties\<close>

text \<open>
  The test of marshalling passes: the header takes exactly its space, the packet has the size the test computes, and
  header and values are read back as they were written, with nothing left over.
\<close>
theorem testmarshall_passes: "testmarshall g = Ret ()"
proof -
  let ?h = "\<lparr>rq_xid = 1, rq_proc = 2, rq_clt_nonce = 3, rq_srv_nonce = 4, rq_xid_rep = 5\<rparr>"
  let ?hdr = "be32 1 @ be32 2 @ be32 3 @ be32 4 @ be32 5" and ?s = "''hallo....''"
  define bs where "bs = be32 12345 @ be64 1223344455 @ enc_string ?s @ []"
  obtain p m where m: "pack_req_header ?h (marshall_new g) = Ret m" "m_inv m" "m_bytes m = p @ ?hdr" "length p = 4"
    using header_first [of ?h g] by auto
  obtain m1 where m1: "put_int 12345 m = Ret m1" "m_inv m1" "m_bytes m1 = m_bytes m @ be32 12345"
    by (rule emitsE [OF emits_put_uint(2) m(2)])
  obtain m2 where m2: "put_ull 1223344455 m1 = Ret m2" "m_inv m2" "m_bytes m2 = m_bytes m1 @ be64 1223344455"
    by (rule emitsE [OF emits_put_ull m1(2)])
  obtain m3 where m3: "put_string ?s m2 = Ret m3" "m_bytes m3 = m_bytes m2 @ enc_string ?s"
    using emitsE [OF emits_put_string m2(2), of ?s] by auto
  have b: "m_bytes m3 = p @ ?hdr @ bs" "length bs = 25" using m m1 m2 m3 by (simp_all add: bs_def length_enc_string)
  let ?u = "(unmarshall_new (p @ ?hdr @ bs))\<lparr>uind := RPC_HEADER_SZ\<rparr>"
  have h: "unpack_req_header (unmarshall_new (p @ ?hdr @ bs)) = Ret (?h, ?u)"
    by (rule unpack_req_header_wire) (use m(4) b(2) in simp_all)
  have u: "u_inv ?u" "uok ?u" "u_rest ?u = bs" using m(4) b(2) by (simp_all add: u_inv_def unmarshall_new_def u_rest_def)
  have "feeds bs (\<lambda>un. bind_res (get_int un) (\<lambda>(i1, un). bind_res (get_ull un) (\<lambda>(l1, un). bind_res (get_string [] un) (\<lambda>(s1, un).
      verify (okdone un) (verify (i1 = 12345 \<and> l1 = 1223344455 \<and> s1 = ?s) (Ret ())))))) (Ret ())"
    unfolding bs_def
    by (rule feeds_step feeds_okdone reads_get_uint reads_get_ull reads_get_string | simp add: verify_def)+
  note read = this [unfolded feeds_def, rule_format, OF u]
  show ?thesis using m m1(1) m2(1) m3(1) b h read
    by (simp add: testmarshall_def Let_def verify_def)
qed


lemma client1_sizes_ok:
  assumes "ready c s" and "room (length args + k) s" and "\<forall>a \<in> set args. unat a < 2000"
  shows "\<exists>s'. client1_sizes g junk c args s = Ret s' \<and> ready c s' \<and> room k s'"
  using assms
proof (induction args arbitrary: s)
  case (Cons a args)
  have a: "unat a < 2 ^ 28" "unat a < 2 ^ 31" "room (Suc (length args + k)) s" using Cons.prems by simp_all
  obtain s1 where s1: "call_bigrep g junk c a [] s = Ret (0, replicate (unat a) CHR ''x'', s1)" "ready c s1" "room (length args + k) s1"
    by (rule answersE [OF call_answers(4) [OF a(1)] Cons.prems(1) a(3)])
  have "int (unat a) = sint a" using sint_small [OF a(2)] by simp
  then show ?case using Cons.IH [OF s1(2,3)] Cons.prems(3) s1(1) by (simp add: verify_def)
qed simp

lemma client1_order_ok:
  assumes "ready c s" and "room (length args + k) s"
  shows "\<exists>s'. client1_order g junk c args s = Ret s' \<and> ready c s' \<and> room k s'"
  using assms
proof (induction args arbitrary: s)
  case (Cons a args)
  obtain w i where a: "a = (w, i)" by (cases a)
  have "room (Suc (length args + k)) s" using Cons.prems(2) by simp
  then obtain s1 where s1: "(if w then call_fast g junk c i junk s else call_slow g junk c i junk s) = Ret (0, if w then i + 1 else i + 2, s1)"
      "ready c s1" "room (length args + k) s1"
    using answersE [OF call_answers(2) [of c g junk i junk] Cons.prems(1), of "length args + k"]
      answersE [OF call_answers(3) [of c g junk i junk] Cons.prems(1), of "length args + k"] by (cases w) auto
  then show ?case using Cons.IH [OF s1(2,3)] by (simp add: a verify_def)
qed simp

lemma client3_ok:
  assumes "ready c s" and "room (4 - i) s"
  shows "\<exists>s'. client3 g junk c i s = Ret s' \<and> ready c s'"
  using assms
proof (induction "4 - i" arbitrary: i s)
  case 0
  then show ?case by (simp add: client3.simps)
next
  case (Suc k)
  have i: "room (Suc k) s" "k = 4 - (i + 1)" "i < 4" using Suc.hyps(2) Suc.prems(2) by simp_all
  obtain s1 where s1: "call_slow g junk c (of_nat i) junk s = Ret (0, of_nat i + 2, s1)" "ready c s1" "room k s1"
    by (rule answersE [OF call_answers(3) Suc.prems(1) i(1)])
  show ?case using Suc.hyps(1) [OF i(2) s1(2)] s1(1,3) i(2,3)
    by (subst client3.simps) (simp add: verify_def)
qed

text \<open>
  The threads of the concurrent test and of the failure test end without a failed check, whatever random sizes below 2000
  and whatever mix of fast and slow calls they draw: each reply has the size asked for, or is the number sent plus one or two.
\<close>
theorem client_threads_pass:
  assumes "ready c s" and "room (length sizes + length order) s" and "\<forall>a \<in> set sizes. unat a < 2000"
    and "ready c t" and "room 4 t"
  shows "(\<exists>s'. client1 g junk c sizes order s = Ret s' \<and> ready c s') \<and> (\<exists>t'. client3 g junk c 0 t = Ret t' \<and> ready c t')"
proof
  obtain s1 where s1: "client1_sizes g junk c sizes s = Ret s1" "ready c s1" "room (length order + 0) s1"
    using client1_sizes_ok [OF assms(1-3), of g junk] by auto
  then show "\<exists>s'. client1 g junk c sizes order s = Ret s' \<and> ready c s'"
    using client1_order_ok [OF s1(2,3), of g junk] by (auto simp: client1_def)
  show "\<exists>t'. client3 g junk c 0 t = Ret t' \<and> ready c t'" using client3_ok [OF assms(4), of 0] assms(5) by simp
qed

section \<open>Servers that come back\<close>

lemma rpcc_bind_ok:
  assumes l: "linked c (cl, S)" and b: "\<not> bind_done cl" "serving S" and r: "room (Suc k) (cl, S)"
  shows "\<exists>s'. rpcc_bind g junk c (cl, S) = Ret (0, s') \<and> ready c s' \<and> room k s'"
proof -
  have d: "delivers (rpc_call1 put_int Ret 0) (\<lambda>u. reg_fn1 get_int put_int (bind_meth (nonce S)) u (marshall_new g) (srv S))
      (answer put_int (marshall_new g) (Ret (0, nonce S, ())))"
    using one_argument_arrives [of put_int 0 "be32 0" get_int put_int "bind_meth (nonce S)" _ "srv S"]
    by (simp add: emits_put_uint reads_get_uint bind_meth_def rpcbind_def rpcs_init_def)
  have rs: "emits (put_int (nonce S)) (be32 (nonce S))" "reads get_int (be32 (nonce S)) (nonce S)" "length (be32 (nonce S)) < 2 ^ 29"
      "\<not> sint (0 :: u32) < 0" by (simp_all add: emits_put_uint reads_get_uint)
  have p: "rpc_const_bind = rpc_const_bind \<longleftrightarrow> \<not> bind_done cl" "xid_ctr cl + 1 \<noteq> 0" using b room_step(1) [OF r] by simp_all
  obtain cl' S' where e: "perform g junk c (rpc_call1 put_int Ret 0) rpc_const_bind get_int junk (cl, S) = Ret (0, nonce S, cl', S')"
      "linked c (cl', S')" "xid_ctr cl' = xid_ctr cl + 1" "procs S' = procs S" "nonce S' = nonce S"
    by (rule perform_ok [where junk = junk and ?r0.0 = junk, OF l d rs serving_procs(1) [OF b(2)] p]) (rule that; assumption)
  let ?s = "(bind_finish 0 (nonce S) cl', S')"
  have "linked c ?s" using e(2,5) rpcc_inv_bind [of cl' 0 "nonce S"] by (auto simp: linked_def bind_finish_def)
  moreover have "serving S'" using b(2) e(4,5) by (simp add: serving_def)
  moreover have "room k ?s" using room_step(2) [OF r, of ?s] e(3) by (simp add: bind_finish_def)
  ultimately show ?thesis using e(1) by (auto simp: rpcc_bind_def ready_def bind_finish_def)
qed

lemma rpcc_bind_again:
  assumes "bind_done (fst s)"
  shows "rpcc_bind g junk c s = Ret (bind_failure, s)"
proof -
  obtain m where "rpc_call1 put_int Ret 0 g = Ret m"
    using emitsE [OF emits_put_uint(2) m_inv_new [of g], of 0] by (auto simp: rpc_call1_def)
  then show ?thesis using assms
    by (cases s) (simp add: rpcc_bind_def perform_def call1_begin_def call_m_finish_def bind_finish_def bind_failure_def)
qed

text \<open>A request numbered for another server gets \<^verbatim>\<open>oldsrv_failure\<close>, and the caller gets it as the status of the call.\<close>

lemma old_client_refused:
  assumes d: "delivers call fn x" and cl: "bind_done cl" "\<not> destroy_wait cl" "proc \<noteq> rpc_const_bind" "srv_nonce cl \<noteq> 0" "srv_nonce cl \<noteq> nonce S"
  shows "\<exists>cl' b. perform g junk c call proc getr r0 (cl, S) = Ret (oldsrv_failure, r0, cl', conn_send c b (incref c S))"
proof -
  let ?x = "xid_ctr cl"
  let ?h = "\<lparr>rq_xid = ?x, rq_proc = proc, rq_clt_nonce = clt_nonce cl, rq_srv_nonce = srv_nonce cl, rq_xid_rep = hd (xid_rep_window cl)\<rparr>"
  let ?ca = "\<lparr>ca_xid = ?x, ca_un = unmarshall_empty, ca_intret = junk, ca_done = False\<rparr>"
  let ?s1 = "cl\<lparr>xid_ctr := ?x + 1, calls := mput ?x ?ca (calls cl)\<rparr>"
  obtain m m' u where m: "call g = Ret m" "pack_req_header ?h m = Ret m'"
      "unpack_req_header (unmarshall_new (m_bytes m')) = Ret (?h, u)" "uok u"
    using d unfolding delivers_def by meson
  have b: "call1_begin proc m junk cl = Ret (Inr (?x, hd (xid_rep_window cl), m'), ?s1)"
    using cl m(2) by (simp add: call1_begin_def Let_def)
  have ca: "mfind (calls ?s1) ?x = Some ?ca" "\<not> ca_done ?ca" by simp_all
  obtain rep v s2 ca' where r: "pack_reply_header \<lparr>rp_xid = ?x, rp_ret = oldsrv_failure\<rparr> (marshall_new g) = Ret rep"
      "rpcc_got_pdu (m_bytes rep) ?s1 = Ret (True, s2)" "ca' = ?ca\<lparr>ca_un := v, ca_intret := oldsrv_failure, ca_done := True\<rparr>"
      "s2 = (update_xid_rep ?x ?s1)\<lparr>calls := mput ?x ca' (calls ?s1)\<rparr>"
    using reply_arrives [of "marshall_new g" "m_bytes (marshall_new g)" "[]" ?s1 ?x ?ca oldsrv_failure, OF _ _ length_fresh_request _ ca] by auto
  have f: "mfind (calls s2) ?x = Some ca'" using r(4) by simp
  obtain cl' where e: "call1_end ?x (hd (xid_rep_window cl)) (m_bytes m') s2 = Ret (oldsrv_failure, cl')"
    using f r(3) by (simp add: call1_end_def Let_def)
  have "dispatch (\<lambda>_. False) g c (m_bytes m') (incref c S) = Ret (conn_send c (m_bytes rep) (incref c S))"
    using m(3,4) cl(4,5) r(1) by (simp add: dispatch_def incref_def)
  then show ?thesis using m(1) b r(2) f e
    by (simp add: perform_def conn_send_def call_m_finish_def oldsrv_failure_def) blast
qed

lemma fresh_linked:
  assumes "k \<noteq> 0" and "reply_window S = []" "conns S = []" "refs S (channo c) \<ge> 0"
  shows "linked c (rpcc_new True k 0, S)"
  using assms rpcc_inv_new [of True k 0] by (simp add: linked_def rpcc_new_def wok_def unacked_def mget_def)

text \<open>
  C26. The failure test up to its threads passes: the client that is bound to the server of before is told so by the new server,
  a new client can bind, cannot bind a second time, and its call gets the concatenation.
\<close>
theorem failure_test_passes:
  assumes "bind_done client" "\<not> destroy_wait client" "srv_nonce client \<noteq> 0" "srv_nonce client \<noteq> n" and "k \<noteq> 0"
  shows "\<exists>s'. failure_test g junk c c' n k client = Ret s' \<and> ready c' s'"
proof -
  obtain S where S: "startserver n = Ret S" "S = (rpcs_init n 0 ())\<lparr>procs := procs S\<rparr>" using startserver_procs [of n] by blast
  have n: "nonce S = n" "reply_window S = []" "conns S = []" "refs S = (\<lambda>_. 0)"
    by (subst S(2), simp add: rpcs_init_def)+
  obtain cl' b where o1: "call_22 g junk c ''hello'' '' goodbye'' [] (client, S) = Ret (oldsrv_failure, [], cl', conn_send c b (incref c S))"
    using old_client_refused [OF strings_arrive [OF hello], of client 22 S g junk c "get_string []" "[]"] assms(1-4) n(1) by (auto simp: call_22_def rpc_const_bind_def)
  let ?S = "conn_send c b (incref c S)"
  have "serving ?S" using S(1) n(1) by (simp add: serving_def conn_send_def incref_def)
  moreover have "linked c' (rpcc_new True k 0, ?S)"
    using assms(5) n by (intro fresh_linked) (simp_all add: conn_send_def incref_def)
  ultimately obtain s1 where s1: "rpcc_bind g junk c' (rpcc_new True k 0, ?S) = Ret (0, s1)" "ready c' s1" "room (Suc 0) s1"
    using rpcc_bind_ok [of c' "rpcc_new True k 0" ?S "Suc 0" g junk] by (auto simp: rpcc_new_def room_def)
  have o2: "rpcc_bind g junk c' s1 = Ret (bind_failure, s1)" using s1(2) by (simp add: rpcc_bind_again ready_def)
  obtain s2 where "call_22 g junk c' ''hello'' '' goodbye'' [] s1 = Ret (0, ''hello'' @ '' goodbye'', s2)" "ready c' s2"
    by (rule answersE [OF call_answers(1) [OF hello] s1(2,3)])
  then show ?thesis using S(1) o1 s1(1) o2
    by (simp add: failure_test_def verify_def bind_failure_def)
qed

theorem failure_test_passes_witness:
  "\<exists>s'. failure_test 0 0 demo_conn (demo_conn\<lparr>channo := 5\<rparr>) 2 8 demo_client = Ret s' \<and> ready (demo_conn\<lparr>channo := 5\<rparr>) s'"
  by (rule failure_test_passes) (simp_all add: demo_client_def rpcc_new_def)

text \<open>The start of the test program: a server, and a client that binds to it.\<close>

lemma bound_testbed:
  assumes "k \<noteq> 0"
  shows "\<exists>S s. startserver n = Ret S \<and> rpcc_bind g junk c (rpcc_new True k 0, S) = Ret (0, s) \<and> ready c s \<and> room 5000 s"
proof -
  obtain S where S: "startserver n = Ret S" "S = (rpcs_init n 0 ())\<lparr>procs := procs S\<rparr>" using startserver_procs [of n] by blast
  have n: "nonce S = n" "reply_window S = []" "conns S = []" "refs S = (\<lambda>_. 0)"
    by (subst S(2), simp add: rpcs_init_def)+
  have "serving S" using S(1) n(1) by (simp add: serving_def)
  moreover have "linked c (rpcc_new True k 0, S)" using assms n by (intro fresh_linked) simp_all
  ultimately show ?thesis using rpcc_bind_ok [of c "rpcc_new True k 0" S 5000 g junk] S(1) by (auto simp: rpcc_new_def room_def)
qed


theorem client_threads_pass_witness:
  "\<exists>S s s'. startserver 7 = Ret S \<and> rpcc_bind 0 0 demo_conn (rpcc_new True 9 0, S) = Ret (0, s) \<and>
     client1 0 0 demo_conn [0, 1999] [(True, 5), (False, 999)] s = Ret s'"
proof -
  obtain S s where s: "startserver 7 = Ret S" "rpcc_bind 0 0 demo_conn (rpcc_new True 9 0, S) = Ret (0, s)" "ready demo_conn s" "room 5000 s"
    using bound_testbed [of 9 7 0 0 demo_conn] by auto
  have "room 4 s" "room (length [0 :: u32, 1999] + length [(True, 5 :: u32), (False, 999)]) s" using s(4) by (simp_all add: room_def)
  then obtain s' where "client1 0 0 demo_conn [0, 1999] [(True, 5), (False, 999)] s = Ret s'"
    using client_threads_pass [OF s(3) _ _ s(3), of "[0, 1999]" "[(True, 5), (False, 999)]" 0 0] by auto
  then show ?thesis using s(1,2) by blast
qed

end
