(* ===== verification/Processes.thy ===== *)
theory Processes
  imports Prelude
begin

text \<open>
  Programs that make system calls and fork, for the test programs of the file system.

  \<^item> \<open>proc\<close>: a process is the tree of what it does next; every system call is one atomic step on the state of the
    system. \<open>sched\<close> interleaves a process with the child it has forked.
  \<^item> \<open>passes\<close>: however the two are scheduled, the program ends after finitely many steps, normally and in a state
    with the given property. \<open>does\<close> is the corresponding triple, with its rules of composition.
  \<^item> \<open>sat\<close>: what one process does while others interfere, with a rely and a guarantee (locale \<open>interference\<close>); the
    rule \<open>does_fork\<close> puts a parent and a child together.
\<close>

section \<open>Processes\<close>

text \<open>
  \<open>Fork c k\<close> starts the child \<open>c\<close> and goes on as \<open>k\<close>; \<open>Reap k\<close> waits for the child. \<open>Done\<close> is \<^verbatim>\<open>exit(0)\<close>, or the end of a
  function of the program.
\<close>

datatype 's proc =
    Done
  | Failed fault
  | Sys "'s \<Rightarrow> 's \<times> 's proc"
  | Fork "'s proc" "'s proc"
  | Reap "'s proc"

definition sys :: "('s \<Rightarrow> 'r \<times> 's) \<Rightarrow> ('r \<Rightarrow> 's proc) \<Rightarrow> 's proc" where
  "sys call k = Sys (\<lambda>s. case call s of (r, s') \<Rightarrow> (s', k r))"

primrec andthen :: "'s proc \<Rightarrow> 's proc \<Rightarrow> 's proc" where
  "andthen Done q = q"
| "andthen (Failed e) q = Failed e"
| "andthen (Sys f) q = Sys (\<lambda>s. map_prod id (\<lambda>p. andthen p q) (f s))"
| "andthen (Fork c k) q = Fork c (andthen k q)"
| "andthen (Reap k) q = Reap (andthen k q)"

fun seq :: "'s proc list \<Rightarrow> 's proc" where
  "seq [] = Done"
| "seq (p # ps) = andthen p (seq ps)"

text \<open>A process alone, with no child.\<close>

primrec run :: "'s proc \<Rightarrow> 's \<Rightarrow> 's res" where
  "run Done = Ret"
| "run (Failed e) = (\<lambda>s. Fault e)"
| "run (Sys f) = (\<lambda>s. case map_prod id run (f s) of (s', r) \<Rightarrow> r s')"
| "run (Fork c k) = (\<lambda>s. Stuck)"
| "run (Reap k) = (\<lambda>s. Fault Exit_failure)"

lemma proc_induct [case_names Done Failed Sys Fork Reap]:
  assumes "P Done" and "\<And>e. P (Failed e)" and Sys: "\<And>f. (\<And>s. P (snd (f s))) \<Longrightarrow> P (Sys f)"
    and "\<And>c k. P c \<Longrightarrow> P k \<Longrightarrow> P (Fork c k)" and "\<And>k. P k \<Longrightarrow> P (Reap k)"
  shows "P p"
proof (induction p)
  case (Sys f)
  show ?case by (rule assms(3)) (auto intro: Sys [of "f s" "snd (f s)" for s] snds.intros simp: snds.simps)
qed (use assms in auto)

lemma run_sys [simp]: "run (sys call k) s = (case call s of (r, s') \<Rightarrow> run (k r) s')"
  by (simp add: sys_def split: prod.splits)

lemma andthen_sys [simp]: "andthen (sys call k) q = sys call (\<lambda>r. andthen (k r) q)"
  by (simp add: sys_def fun_eq_iff split: prod.splits)

lemma andthen_Done [simp]: "andthen p Done = p"
proof (induction p rule: proc_induct)
  case (Sys f)
  then show ?case by (simp add: map_prod_def case_prod_beta)
qed simp_all

lemma andthen_assoc [simp]: "andthen (andthen p q) r = andthen p (andthen q r)"
proof (induction p rule: proc_induct)
  case (Sys f)
  then show ?case by (simp add: map_prod_def case_prod_beta)
qed simp_all

lemma seq_append: "seq (ps @ qs) = andthen (seq ps) (seq qs)"
  by (induction ps) simp_all

section \<open>A process and its child\<close>

type_synonym 's config = "'s proc \<times> 's proc option \<times> 's"

text \<open>
  \<^verbatim>\<open>waitpid\<close> returns when the child has ended; with a child that did not exit with status 0, or with no child, the parent
  exits with an error.
\<close>

inductive sched :: "'s config \<Rightarrow> 's config \<Rightarrow> bool" where
  parent_call: "f s = (s', p) \<Longrightarrow> sched (Sys f, c, s) (p, c, s')"
| child_call: "f s = (s', c) \<Longrightarrow> sched (p, Some (Sys f), s) (p, Some c, s')"
| fork: "sched (Fork c k, None, s) (k, Some c, s)"
| reap: "sched (Reap k, Some Done, s) (k, None, s)"
| reap_failed: "sched (Reap k, Some (Failed e), s) (Failed Exit_failure, None, s)"
| reap_nobody: "sched (Reap k, None, s) (Failed Exit_failure, None, s)"

inductive_simps sched_alone: "sched (p, None, s) c"
inductive_simps sched_both: "sched (p, Some c, s) c'"

inductive passes :: "('s \<Rightarrow> bool) \<Rightarrow> 's config \<Rightarrow> bool" for Q where
  passes_end: "Q s \<Longrightarrow> passes Q (Done, None, s)"
| passes_steps: "sched c c' \<Longrightarrow> (\<And>c'. sched c c' \<Longrightarrow> passes Q c') \<Longrightarrow> passes Q c"

lemma end_stays: "\<not> sched (Done, None, s) c" "\<not> sched (Failed e, None, s) c"
  by (auto simp: sched_alone)

text \<open>What \<open>passes\<close> means for a run: wherever it has come, it has not failed, it goes on passing, and it cannot go on forever.\<close>

lemma passes_run:
  assumes "passes Q c" and "sched\<^sup>*\<^sup>* c c'"
  shows "passes Q c'"
  using assms(2,1)
proof (induction rule: rtranclp_induct)
  case (step c' c'')
  then show ?case by (auto elim: passes.cases simp: end_stays)
qed

lemma passes_stop:
  assumes "passes Q c" and "sched\<^sup>*\<^sup>* c c'" and "\<And>c''. \<not> sched c' c''"
  shows "\<exists>s. c' = (Done, None, s) \<and> Q s"
  using passes_run [OF assms(1,2)] assms(3) by (auto elim: passes.cases)

lemma passes_ends: "passes Q c \<Longrightarrow> Wellfounded.accp (\<lambda>x y. sched y x) c"
  by (induction rule: passes.induct) (auto intro: accp.accI simp: end_stays)

section \<open>Triples\<close>

text \<open>From a state with \<open>X\<close> the process \<open>p\<close> comes to its end in a state with \<open>Y\<close>, whatever follows it.\<close>

definition does :: "('s \<Rightarrow> bool) \<Rightarrow> 's proc \<Rightarrow> ('s \<Rightarrow> bool) \<Rightarrow> bool" where
  "does X p Y \<longleftrightarrow> (\<forall>q Q s. X s \<longrightarrow> (\<forall>s'. Y s' \<longrightarrow> passes Q (q, None, s')) \<longrightarrow> passes Q (andthen p q, None, s))"

lemma does_passes: "does X p Q \<Longrightarrow> X s \<Longrightarrow> passes Q (p, None, s)"
  unfolding does_def by (metis andthen_Done passes_end)

lemma does_andthen: "does X p Y \<Longrightarrow> does Y q Z \<Longrightarrow> does X (andthen p q) Z"
  by (simp add: does_def)

lemma does_Nil: "does X (seq []) X"
  by (simp add: does_def)

lemma does_Cons: "does X p Y \<Longrightarrow> does Y (seq ps) Z \<Longrightarrow> does X (seq (p # ps)) Z"
  by (simp add: does_andthen)

lemma does_weaken: "does X p Y \<Longrightarrow> (\<And>s. X' s \<Longrightarrow> X s) \<Longrightarrow> (\<And>s. Y s \<Longrightarrow> Y' s) \<Longrightarrow> does X' p Y'"
  by (simp add: does_def)

lemma passes_sys: "passes Q (k (fst (call s)), None, snd (call s)) \<Longrightarrow> passes Q (sys call k, None, s)"
  by (rule passes_steps [where c' = "(k (fst (call s)), None, snd (call s))"])
    (auto simp: sys_def sched_alone split: prod.splits)

lemma does_sys:
  assumes "\<And>s. X s \<Longrightarrow> does (\<lambda>t. t = snd (call s)) (k (fst (call s))) Y"
  shows "does X (sys call k) Y"
  using assms unfolding does_def andthen_sys by (auto intro!: passes_sys)

section \<open>Rely and guarantee\<close>

text \<open>
  \<open>sat R G Q p s\<close>: from \<open>s\<close>, while the environment changes the state by \<open>R\<close> between its own steps, \<open>p\<close> makes finitely many system
  calls, each a step of \<open>G\<close>, and ends normally with \<open>Q\<close>.
\<close>

inductive sat :: "('s \<Rightarrow> 's \<Rightarrow> bool) \<Rightarrow> ('s \<Rightarrow> 's \<Rightarrow> bool) \<Rightarrow> ('s \<Rightarrow> bool) \<Rightarrow> 's proc \<Rightarrow> 's \<Rightarrow> bool" for R G Q where
  sat_Done: "(\<And>s'. R s s' \<Longrightarrow> Q s') \<Longrightarrow> sat R G Q Done s"
| sat_Sys: "(\<And>s'. R s s' \<Longrightarrow> G s' (fst (f s')) \<and> sat R G Q (snd (f s')) (fst (f s'))) \<Longrightarrow> sat R G Q (Sys f) s"

inductive_cases sat_DoneE: "sat R G Q Done s"
inductive_cases sat_SysE: "sat R G Q (Sys f) s"
inductive_cases sat_FailedE: "sat R G Q (Failed e) s"
inductive_cases sat_ForkE: "sat R G Q (Fork c k) s"
inductive_cases sat_ReapE: "sat R G Q (Reap k) s"

locale interference =
  fixes R :: "'s \<Rightarrow> 's \<Rightarrow> bool"
  assumes rely_refl: "R s s"
    and rely_trans: "R s s' \<Longrightarrow> R s' s'' \<Longrightarrow> R s s''"
begin

lemma sat_rely: "sat R G Q p s \<Longrightarrow> R s s' \<Longrightarrow> sat R G Q p s'"
  by (erule sat.cases) (auto intro!: sat.intros dest: rely_trans)

lemma sat_sysI:
  assumes "\<And>s'. R s s' \<Longrightarrow> G s' (snd (call s')) \<and> sat R G Q (k (fst (call s'))) (snd (call s'))"
  shows "sat R G Q (sys call k) s"
  unfolding sys_def using assms by (intro sat_Sys) (simp add: case_prod_beta)

lemma sat_call:
  assumes "X s" and "\<And>s s'. X s \<Longrightarrow> R s s' \<Longrightarrow> X s'"
    and "\<And>t. X t \<Longrightarrow> G t (snd (call t)) \<and> Y (fst (call t)) (snd (call t))" and "\<And>r t. Y r t \<Longrightarrow> sat R G Q (k r) t"
  shows "sat R G Q (sys call k) s"
  using assms by (intro sat_sysI) blast

lemma sat_andthen:
  assumes "sat R G Y p s" and "\<And>s'. Y s' \<Longrightarrow> sat R G Q q s'"
  shows "sat R G Q (andthen p q) s"
  using assms(1)
proof (induction rule: sat.induct)
  case (sat_Done s)
  then show ?case using assms(2) [of s] rely_refl by simp
next
  case (sat_Sys s f)
  then show ?case by (auto intro!: sat.sat_Sys)
qed

lemma sat_passes:
  assumes "sat R G Y p s" and "\<And>s'. Y s' \<Longrightarrow> passes Q (q, None, s')"
  shows "passes Q (andthen p q, None, s)"
  using assms(1)
proof (induction rule: sat.induct)
  case (sat_Done s)
  then show ?case using assms(2) [of s] rely_refl by simp
next
  case (sat_Sys s f)
  then have "passes Q (andthen (snd (f s)) q, None, fst (f s))" using rely_refl [of s] by blast
  then show ?case
    by (rule_tac passes_steps [where c' = "(andthen (snd (f s)) q, None, fst (f s))"]) (auto simp: sched_alone case_prod_beta prod_eq_iff)
qed

lemma does_alone: "(\<And>s. X s \<Longrightarrow> sat R G Y p s) \<Longrightarrow> does X p Y"
  unfolding does_def by (auto intro: sat_passes)

lemma sat_end: "sat R G Q Done s \<Longrightarrow> Q s"
  by (auto elim: sat_DoneE intro: rely_refl)

end

text \<open>The parent goes on with \<open>p\<close> until it waits for the child \<open>c\<close>; each relies on what the other guarantees.\<close>

lemma passes_both:
  assumes ip: "interference Rp" and ic: "interference Rc"
    and gp: "\<And>s s'. Gp s s' \<Longrightarrow> Rc s s'" and gc: "\<And>s s'. Gc s s' \<Longrightarrow> Rp s s'"
    and last: "\<And>s. Yp s \<Longrightarrow> Yc s \<Longrightarrow> passes Q (q, None, s)"
  shows "sat Rp Gp Yp p s \<Longrightarrow> sat Rc Gc Yc c s \<Longrightarrow> passes Q (andthen p (Reap q), Some c, s)"
proof (induction p arbitrary: c s rule: proc_induct)
  case Done
  from Done.prems show ?case
  proof (induction c arbitrary: s rule: proc_induct)
    case Done
    then have "Yp s" "Yc s" using interference.sat_end [OF ip] interference.sat_end [OF ic] by blast+
    then show ?case by (rule_tac passes_steps [where c' = "(q, None, s)"]) (auto simp: sched_both last)
  next
    case (Sys f)
    have step: "Gc s (fst (f s))" "sat Rc Gc Yc (snd (f s)) (fst (f s))"
      using Sys.prems(2) interference.rely_refl [OF ic] by (auto elim: sat_SysE)
    have "sat Rp Gp Yp Done (fst (f s))" using interference.sat_rely [OF ip Sys.prems(1)] gc step(1) by blast
    then have "passes Q (andthen Done (Reap q), Some (snd (f s)), fst (f s))"
      using Sys.IH step(2) by blast
    then show ?case
      by (rule_tac passes_steps [where c' = "(Reap q, Some (snd (f s)), fst (f s))"]) (auto simp: sched_both prod_eq_iff)
  qed (auto elim: sat_FailedE sat_ForkE sat_ReapE)
next
  case (Sys g)
  have par: "passes Q (andthen (snd (g s)) (Reap q), Some c, fst (g s))" if p: "sat Rp Gp Yp (Sys g) s" and c: "sat Rc Gc Yc c s" for c s
  proof -
    have step: "Gp s (fst (g s))" "sat Rp Gp Yp (snd (g s)) (fst (g s))"
      using p interference.rely_refl [OF ip] by (auto elim: sat_SysE)
    have "sat Rc Gc Yc c (fst (g s))" using interference.sat_rely [OF ic c] gp step(1) by blast
    then show ?thesis using Sys.IH step(2) by blast
  qed
  from Sys.prems show ?case
  proof (induction c arbitrary: s rule: proc_induct)
    case (Sys f)
    have step: "Gc s (fst (f s))" "sat Rc Gc Yc (snd (f s)) (fst (f s))"
      using Sys.prems(2) interference.rely_refl [OF ic] by (auto elim: sat_SysE)
    have "sat Rp Gp Yp (proc.Sys g) (fst (f s))" using interference.sat_rely [OF ip Sys.prems(1)] gc step(1) by blast
    then have ch: "passes Q (andthen (proc.Sys g) (Reap q), Some (snd (f s)), fst (f s))"
      using Sys.IH step(2) by blast
    show ?case using par [OF Sys.prems] ch
      by (rule_tac passes_steps [where c' = "(andthen (snd (g s)) (Reap q), Some (proc.Sys f), fst (g s))"]) (auto simp: sched_both prod_eq_iff)
  next
    case Done
    show ?case using par [OF Done.prems]
      by (rule_tac passes_steps [where c' = "(andthen (snd (g s)) (Reap q), Some Done, fst (g s))"]) (auto simp: sched_both prod_eq_iff)
  qed (auto elim: sat_FailedE sat_ForkE sat_ReapE)
qed (auto elim: sat_FailedE sat_ForkE sat_ReapE)

lemma does_fork:
  assumes "interference Rp" and "interference Rc" and "\<And>s s'. Gp s s' \<Longrightarrow> Rc s s'" and "\<And>s s'. Gc s s' \<Longrightarrow> Rp s s'"
    and "\<And>s. X s \<Longrightarrow> sat Rp Gp Yp p s" and "\<And>s. X s \<Longrightarrow> sat Rc Gc Yc c s" and "\<And>s. Yp s \<Longrightarrow> Yc s \<Longrightarrow> Y s"
  shows "does X (Fork c (andthen p (Reap Done))) Y"
proof -
  have "passes Q (Fork c (andthen p (Reap q)), None, s)" if "X s" "\<And>s'. Y s' \<Longrightarrow> passes Q (q, None, s')" for q Q s
  proof (rule passes_steps [where c' = "(andthen p (Reap q), Some c, s)"])
    have "passes Q (andthen p (Reap q), Some c, s)"
      by (rule passes_both [OF assms(1-4) _ assms(5,6)]) (use that assms(7) in auto)
    then show "passes Q c'" if "sched (Fork c (andthen p (Reap q)), None, s) c'" for c' using that by (simp add: sched_alone)
  qed (simp add: sched.fork)
  then show ?thesis by (simp add: does_def)
qed

end
