(* ===== verification/Lab_Tests.thy ===== *)
theory Lab_Tests
  imports Processes
begin

text \<open>
  The two programs that test a mounted file system (\<^verbatim>\<open>test-lab-3-b.c\<close> and \<^verbatim>\<open>test-lab-3-c.c\<close>). They create, check and
  remove files of directories that they reach under two names, through two YFS clients, in one process or in two. The
  system calls they make are the components of a record \<open>posix\<close>, one for each process, a parameter \<open>K\<close> of every definition;
  \<open>posix_laws\<close> states what the manual pages say of them. Both programs contain the same helper functions; where they
  differ, the size of a buffer or a flag is an argument. A program is a process of \<open>Processes\<close>, a system call one step of it;
  \<^verbatim>\<open>sleep\<close>, which only makes interference less likely, is left out.
\<close>

section \<open>System calls\<close>

datatype open_flag = O_WRONLY | O_CREAT | O_APPEND

record 's posix =
  px_creat :: "string \<Rightarrow> 's \<Rightarrow> int \<times> 's"
  px_open :: "string \<Rightarrow> open_flag set \<Rightarrow> 's \<Rightarrow> int \<times> 's"
  px_read :: "int \<Rightarrow> nat \<Rightarrow> 's \<Rightarrow> (int \<times> string) \<times> 's"
  px_write :: "int \<Rightarrow> string \<Rightarrow> 's \<Rightarrow> int \<times> 's"
  px_lseek :: "int \<Rightarrow> nat \<Rightarrow> 's \<Rightarrow> int \<times> 's"
  px_fsync :: "int \<Rightarrow> 's \<Rightarrow> int \<times> 's"
  px_close :: "int \<Rightarrow> 's \<Rightarrow> int \<times> 's"
  px_unlink :: "string \<Rightarrow> 's \<Rightarrow> int \<times> 's"
  px_readdir :: "string \<Rightarrow> 's \<Rightarrow> string list option \<times> 's"  \<comment> \<open>\<^verbatim>\<open>opendir\<close>, \<^verbatim>\<open>readdir\<close> to the end, \<^verbatim>\<open>closedir\<close>\<close>
  px_mkdir :: "string \<Rightarrow> 's \<Rightarrow> int \<times> 's"
  px_access :: "string \<Rightarrow> 's \<Rightarrow> int \<times> 's"
  px_fork :: "'s \<Rightarrow> int \<times> 's"
  px_exists :: "'s \<Rightarrow> bool \<times> 's"  \<comment> \<open>\<^verbatim>\<open>errno == EEXIST\<close>\<close>

datatype who = Parent | Child

type_synonym 's kernel = "who \<Rightarrow> 's posix"

text \<open>
  \<^verbatim>\<open>exit(1)\<close> unless a condition holds. \<^verbatim>\<open>sprintf\<close> into an array of 512 characters writes outside it when the path and its
  end do not fit.
\<close>

definition need :: "bool \<Rightarrow> 's proc \<Rightarrow> 's proc" where
  "need b p = (if b then p else Failed Exit_failure)"

definition sprintf512 :: "string \<Rightarrow> (string \<Rightarrow> 's proc) \<Rightarrow> 's proc" where
  "sprintf512 n k = (if length n < 512 then k n else Failed Bad_access)"

definition path_of :: "string \<Rightarrow> string \<Rightarrow> string" where
  "path_of d f = d @ ''/'' @ f"

section \<open>One file\<close>

definition create1 :: "'s posix \<Rightarrow> string \<Rightarrow> string \<Rightarrow> string \<Rightarrow> 's proc" where
  "create1 P d f inp =
     sprintf512 (path_of d f) (\<lambda>n.
       sys (px_creat P n) (\<lambda>fd.
       need (\<not> fd < 0)
        (sys (px_write P fd inp) (\<lambda>w.
         need (w = int (length inp))
          (sys (px_close P fd) (\<lambda>r. need (r = 0) Done))))))"

text \<open>\<open>strncmp\<close> returns 0. The end of a list is the null character that ends the string.\<close>

definition cur :: "string \<Rightarrow> char" where
  "cur t = (case t of [] \<Rightarrow> CHR 0x00 | c # _ \<Rightarrow> c)"

fun strncmp_eq :: "string \<Rightarrow> string \<Rightarrow> nat \<Rightarrow> bool" where
  "strncmp_eq a b 0 = True"
| "strncmp_eq a b (Suc k) = (cur a = cur b \<and> (cur a = CHR 0x00 \<or> strncmp_eq (tl a) (tl b) k))"

text \<open>\<open>sz\<close> is the size of \<^verbatim>\<open>buf\<close>: 21000 in one program and 512 in the other.\<close>

definition check1 :: "nat \<Rightarrow> 's posix \<Rightarrow> string \<Rightarrow> string \<Rightarrow> string \<Rightarrow> 's proc" where
  "check1 sz P d f inp =
     sprintf512 (path_of d f) (\<lambda>n.
       sys (px_open P n {}) (\<lambda>fd.
       need (\<not> fd < 0)
        (sys (px_read P fd (sz - 1)) (\<lambda>(cc, buf).
         need (cc = int (length inp))
          (sys (px_close P fd) (\<lambda>r.
           need (strncmp_eq buf inp (length n)) Done))))))"

definition unlink1 :: "'s posix \<Rightarrow> string \<Rightarrow> string \<Rightarrow> 's proc" where
  "unlink1 P d f = sprintf512 (path_of d f) (\<lambda>n. sys (px_unlink P n) (\<lambda>r. need (r = 0) Done))"

definition checknot :: "'s posix \<Rightarrow> string \<Rightarrow> string \<Rightarrow> 's proc" where
  "checknot P d f = sprintf512 (path_of d f) (\<lambda>n. sys (px_open P n {}) (\<lambda>fd. need (\<not> fd \<ge> 0) Done))"

definition append1 :: "'s posix \<Rightarrow> string \<Rightarrow> string \<Rightarrow> string \<Rightarrow> 's proc" where
  "append1 P d f inp =
     sprintf512 (path_of d f) (\<lambda>n.
       sys (px_open P n {O_WRONLY, O_APPEND}) (\<lambda>fd.
       need (\<not> fd < 0)
        (sys (px_write P fd inp) (\<lambda>w.
         need (w = int (length inp))
          (sys (px_close P fd) (\<lambda>r. need (r = 0) Done))))))"

text \<open>The loop over the characters, followed by \<open>q\<close>.\<close>

fun write1_loop :: "'s posix \<Rightarrow> int \<Rightarrow> char \<Rightarrow> nat \<Rightarrow> 's proc \<Rightarrow> 's proc" where
  "write1_loop P fd c 0 q = q"
| "write1_loop P fd c (Suc k) q =
     sys (px_write P fd [c]) (\<lambda>w.
      need (w = 1) (sys (px_fsync P fd) (\<lambda>r. need (r = 0) (write1_loop P fd c k q))))"

definition write1 :: "'s posix \<Rightarrow> string \<Rightarrow> string \<Rightarrow> nat \<Rightarrow> nat \<Rightarrow> char \<Rightarrow> 's proc" where
  "write1 P d f start k c =
     sprintf512 (path_of d f) (\<lambda>name.
       sys (px_open P name {O_WRONLY, O_CREAT}) (\<lambda>fd.
       let rest = (\<lambda>fd.
         need (\<not> fd < 0)
          (sys (px_lseek P fd start) (\<lambda>off.
           need (off = int start)
            (write1_loop P fd c k (sys (px_close P fd) (\<lambda>r. need (r = 0) Done)))))) in
       if fd < 0 then sys (px_exists P) (\<lambda>e. if e then sys (px_open P name {O_WRONLY}) rest else rest fd)
       else rest fd))"

fun checkread_loop :: "'s posix \<Rightarrow> int \<Rightarrow> char \<Rightarrow> nat \<Rightarrow> 's proc \<Rightarrow> 's proc" where
  "checkread_loop P fd c 0 q = q"
| "checkread_loop P fd c (Suc k) q =
     sys (px_read P fd 1) (\<lambda>(cc, buf). need (cc = 1) (need (cur buf = c) (checkread_loop P fd c k q)))"

definition checkread :: "'s posix \<Rightarrow> string \<Rightarrow> string \<Rightarrow> nat \<Rightarrow> nat \<Rightarrow> char \<Rightarrow> 's proc" where
  "checkread P d f start k c =
     sprintf512 (path_of d f) (\<lambda>name.
       sys (px_open P name {}) (\<lambda>fd.
       need (\<not> fd < 0)
        (sys (px_lseek P fd start) (\<lambda>off.
         need (off = int start)
          (checkread_loop P fd c k (sys (px_close P fd) (\<lambda>r. Done)))))))"

section \<open>Numbered files\<close>

text \<open>The four bytes of an \<^verbatim>\<open>int\<close> in memory, least significant first.\<close>

definition int_mem :: "nat \<Rightarrow> string" where
  "int_mem i = [char_of (i mod 256), char_of (i div 256 mod 256), char_of (i div 65536 mod 256), char_of (i div 16777216 mod 256)]"

definition mem_int :: "string \<Rightarrow> nat" where
  "mem_int t = (case t of [a, b, c, d] \<Rightarrow> of_char a + 256 * of_char b + 65536 * of_char c + 16777216 * of_char d | _ \<Rightarrow> 0)"

definition numbered :: "string \<Rightarrow> nat \<Rightarrow> string" where
  "numbered prefix i = prefix @ ''-'' @ show_nat i"

fun createn_loop :: "'s posix \<Rightarrow> string \<Rightarrow> string \<Rightarrow> bool \<Rightarrow> nat list \<Rightarrow> 's proc" where
  "createn_loop P d prefix dup [] = Done"
| "createn_loop P d prefix dup (i # is) =
     sprintf512 (path_of d (numbered prefix i)) (\<lambda>n.
       sys (px_creat P n) (\<lambda>fd.
       let rest =
         need (\<not> fd < 0)
          (sys (px_write P fd (int_mem i)) (\<lambda>w.
           need (w = 4)
            (sys (px_close P fd) (\<lambda>r. need (r = 0) (createn_loop P d prefix dup is))))) in
       if fd < 0 \<and> dup then sys (px_exists P) (\<lambda>e. if e then createn_loop P d prefix dup is else rest)
       else rest))"

definition createn :: "'s posix \<Rightarrow> string \<Rightarrow> string \<Rightarrow> nat \<Rightarrow> bool \<Rightarrow> 's proc" where
  "createn P d prefix nf dup = createn_loop P d prefix dup [0..<nf]"

fun checkn_loop :: "'s posix \<Rightarrow> string \<Rightarrow> string \<Rightarrow> nat list \<Rightarrow> 's proc" where
  "checkn_loop P d prefix [] = Done"
| "checkn_loop P d prefix (i # is) =
     sprintf512 (path_of d (numbered prefix i)) (\<lambda>n.
       sys (px_open P n {}) (\<lambda>fd.
       need (\<not> fd < 0)
        (sys (px_read P fd 4) (\<lambda>(cc, j).
         need (cc = 4)
          (need (mem_int j = i)
            (sys (px_close P fd) (\<lambda>r. checkn_loop P d prefix is)))))))"

definition checkn :: "'s posix \<Rightarrow> string \<Rightarrow> string \<Rightarrow> nat \<Rightarrow> 's proc" where
  "checkn P d prefix nf = checkn_loop P d prefix [0..<nf]"

fun unlinkn_loop :: "'s posix \<Rightarrow> string \<Rightarrow> string \<Rightarrow> nat list \<Rightarrow> 's proc" where
  "unlinkn_loop P d prefix [] = Done"
| "unlinkn_loop P d prefix (i # is) =
     sprintf512 (path_of d (numbered prefix i)) (\<lambda>n.
       sys (px_unlink P n) (\<lambda>r. need (r = 0) (unlinkn_loop P d prefix is)))"

definition unlinkn :: "'s posix \<Rightarrow> string \<Rightarrow> string \<Rightarrow> nat \<Rightarrow> 's proc" where
  "unlinkn P d prefix nf = unlinkn_loop P d prefix [0..<nf]"

section \<open>The directory\<close>

text \<open>
  The loop that collects the names: the array has 1000 elements, and the warning about too many files does not keep it
  from storing one more.
\<close>

definition listed :: "string \<Rightarrow> bool" where
  "listed e = (cur e \<noteq> CHR ''.'')"

fun store_names :: "string list \<Rightarrow> string list \<Rightarrow> string list res" where
  "store_names [] names = Ret names"
| "store_names (e # es) names =
     (if listed e
      then if length names \<ge> 1000 then Fault Bad_access else store_names es (names @ [e])
      else store_names es names)"

fun adjacent_dup :: "string list \<Rightarrow> bool" where
  "adjacent_dup (a # b # ns) = (a = b \<or> adjacent_dup (b # ns))"
| "adjacent_dup ns = False"

text \<open>\<^verbatim>\<open>qsort\<close> with \<^verbatim>\<open>strcmp\<close> sorts the names by their characters.\<close>

definition dircheck :: "'s posix \<Rightarrow> string \<Rightarrow> nat \<Rightarrow> 's proc" where
  "dircheck P d nf =
     sys (px_readdir P d) (\<lambda>dp.
      case dp of
        None \<Rightarrow> Failed Exit_failure
      | Some es \<Rightarrow>
          (case store_names es [] of
             Ret names \<Rightarrow> need (nf = length names) (need (\<not> adjacent_dup (sort names)) Done)
           | Fault e \<Rightarrow> Failed e
           | Stuck \<Rightarrow> Failed Bad_access))"

section \<open>The test programs\<close>

text \<open>
  Every group of tests between two \<^verbatim>\<open>printf\<close> calls of \<^verbatim>\<open>main\<close> is a definition. \<open>b\<close> is the program \<^verbatim>\<open>test-lab-3-b.c\<close>, \<open>d1\<close> and
  \<open>d2\<close> are the two names of the directory. \<open>forked\<close> is \<^verbatim>\<open>fork\<close>, the work of the two processes, and \<^verbatim>\<open>reap\<close>.
\<close>

definition forked :: "'s kernel \<Rightarrow> 's proc \<Rightarrow> 's proc \<Rightarrow> 's proc" where
  "forked K child par =
     sys (px_fork (K Parent)) (\<lambda>pid. need (\<not> pid < 0) (Fork child (andthen par (Reap Done))))"

definition b_create_read :: "'s posix \<Rightarrow> string \<Rightarrow> string \<Rightarrow> 's proc" where
  "b_create_read P d1 d2 = seq
     [create1 P d1 ''f1'' ''aaa'', check1 21000 P d2 ''f1'' ''aaa'', check1 21000 P d1 ''f1'' ''aaa'']"

definition b_unlink :: "'s posix \<Rightarrow> string \<Rightarrow> string \<Rightarrow> 's proc" where
  "b_unlink P d1 d2 = seq
     [unlink1 P d2 ''f1'', create1 P d1 ''fx1'' ''fxx'', unlink1 P d1 ''fx1'', checknot P d1 ''f1'', checknot P d2 ''f1'',
      create1 P d1 ''f2'' ''222'', unlink1 P d2 ''f2'', checknot P d1 ''f2'', checknot P d2 ''f2'',
      create1 P d1 ''f3'' ''333'', check1 21000 P d2 ''f3'' ''333'', check1 21000 P d1 ''f3'' ''333'', unlink1 P d1 ''f3'',
      create1 P d2 ''fx2'' ''22'', unlink1 P d2 ''fx2'', checknot P d2 ''f3'', checknot P d1 ''f3'']"

definition b_append :: "'s posix \<Rightarrow> string \<Rightarrow> string \<Rightarrow> 's proc" where
  "b_append P d1 d2 = seq
     [create1 P d2 ''f1'' ''aaa'', append1 P d1 ''f1'' ''bbb'', append1 P d2 ''f1'' ''ccc'',
      check1 21000 P d1 ''f1'' ''aaabbbccc'', check1 21000 P d2 ''f1'' ''aaabbbccc'']"

definition b_readdir :: "'s posix \<Rightarrow> string \<Rightarrow> string \<Rightarrow> 's proc" where
  "b_readdir P d1 d2 = seq
     [dircheck P d1 1, dircheck P d2 1, unlink1 P d1 ''f1'', dircheck P d1 0, dircheck P d2 0,
      create1 P d2 ''f2'' ''aaa'', create1 P d1 ''f3'' ''aaa'', dircheck P d1 2, dircheck P d2 2,
      unlink1 P d2 ''f2'', dircheck P d2 1, dircheck P d1 1, unlink1 P d2 ''f3'', dircheck P d1 0, dircheck P d2 0]"

definition b_many :: "'s posix \<Rightarrow> string \<Rightarrow> string \<Rightarrow> 's proc" where
  "b_many P d1 d2 = seq
     [createn P d1 ''aa'' 10 False, createn P d2 ''bb'' 10 False, dircheck P d2 20, checkn P d2 ''bb'' 10, checkn P d2 ''aa'' 10,
      checkn P d1 ''aa'' 10, checkn P d1 ''bb'' 10, unlinkn P d1 ''aa'' 10, unlinkn P d2 ''bb'' 10]"

definition big :: string where
  "big = replicate 20000 CHR ''x''"

definition b_big :: "'s posix \<Rightarrow> string \<Rightarrow> string \<Rightarrow> 's proc" where
  "b_big P d1 d2 = seq
     [create1 P d1 ''bf'' big, check1 21000 P d1 ''bf'' big, check1 21000 P d2 ''bf'' big, unlink1 P d1 ''bf'']"

definition b_creates :: "'s kernel \<Rightarrow> string \<Rightarrow> string \<Rightarrow> 's proc" where
  "b_creates K d1 d2 = (let P = K Parent in seq
     [forked K (createn (K Child) d2 ''xx'' 20 False) (createn P d1 ''yy'' 20 False),
      dircheck P d1 40, checkn P d1 ''xx'' 20, checkn P d2 ''yy'' 20, unlinkn P d1 ''xx'' 20, unlinkn P d1 ''yy'' 20])"

text \<open>The parent looks at the directory before it waits for the child.\<close>

definition b_same_file :: "'s kernel \<Rightarrow> string \<Rightarrow> string \<Rightarrow> 's proc" where
  "b_same_file K d1 d2 = (let P = K Parent in seq
     [forked K (createn (K Child) d2 ''zz'' 20 True) (seq [createn P d1 ''zz'' 20 True, dircheck P d1 20]),
      checkn P d1 ''zz'' 20, checkn P d2 ''zz'' 20, unlinkn P d1 ''zz'' 20])"

definition b_create_delete :: "'s kernel \<Rightarrow> string \<Rightarrow> string \<Rightarrow> 's proc" where
  "b_create_delete K d1 d2 = (let P = K Parent in seq
     [createn P d1 ''x1'' 20 False, createn P d2 ''x2'' 20 False,
      forked K (seq [unlinkn (K Child) d2 ''x1'' 20, createn (K Child) d1 ''x3'' 20 False]) (createn P d1 ''x4'' 20 False),
      unlinkn P d2 ''x2'' 20, unlinkn P d2 ''x4'' 20, unlinkn P d2 ''x3'' 20, dircheck P d1 0])"

definition b_same_server :: "'s kernel \<Rightarrow> string \<Rightarrow> 's proc" where
  "b_same_server K d1 = (let P = K Parent in seq
     [forked K (createn (K Child) d1 ''zz'' 20 True) (seq [createn P d1 ''zz'' 20 True, dircheck P d1 20]),
      checkn P d1 ''zz'' 20, unlinkn P d1 ''zz'' 20])"

definition huge :: string where
  "huge = replicate (65536 * 2) CHR ''0''"

definition b_parts :: "'s kernel \<Rightarrow> string \<Rightarrow> string \<Rightarrow> 's proc" where
  "b_parts K d1 d2 = (let P = K Parent in seq
     [create1 P d1 ''www'' huge,
      forked K (write1 (K Child) d2 ''www'' 65536 64 CHR ''2'') (write1 P d1 ''www'' 0 64 CHR ''1''),
      checkread P d1 ''www'' 0 64 CHR ''1'', checkread P d2 ''www'' 0 64 CHR ''1'',
      checkread P d1 ''www'' 65536 64 CHR ''2'', checkread P d2 ''www'' 65536 64 CHR ''2''])"

definition b_tests :: "'s kernel \<Rightarrow> string \<Rightarrow> string \<Rightarrow> 's proc" where
  "b_tests K d1 d2 = (let P = K Parent in seq
     [b_create_read P d1 d2, b_unlink P d1 d2, b_append P d1 d2, b_readdir P d1 d2, b_many P d1 d2, b_big P d1 d2,
      b_creates K d1 d2, b_same_file K d1 d2, b_create_delete K d1 d2, b_same_server K d1, b_parts K d1 d2])"

text \<open>\<open>pid\<close> is what \<^verbatim>\<open>getpid\<close> returns.\<close>

definition b_main :: "'s kernel \<Rightarrow> string list \<Rightarrow> nat \<Rightarrow> 's proc" where
  "b_main K argv pid =
     (case argv of
        [_, a1, a2] \<Rightarrow>
          sprintf512 (path_of a1 (''d'' @ show_nat pid)) (\<lambda>d1.
          sys (px_mkdir (K Parent) d1) (\<lambda>r.
          need (r = 0)
           (sprintf512 (path_of a2 (''d'' @ show_nat pid)) (\<lambda>d2.
            sys (px_access (K Parent) d2) (\<lambda>r. need (r = 0) (b_tests K d1 d2))))))
      | _ \<Rightarrow> Failed Exit_failure)"

text \<open>
  \<^verbatim>\<open>test-lab-3-c.c\<close>: its functions of the same names are those of above, without the flag for files that exist and with a smaller
  buffer; those for single files and \<^verbatim>\<open>checkn\<close> are not called. Its two processes work in directories of their own.
\<close>

definition c_create1 :: "'s posix \<Rightarrow> string \<Rightarrow> string \<Rightarrow> string \<Rightarrow> 's proc" where
  "c_create1 = create1"

definition c_check1 :: "'s posix \<Rightarrow> string \<Rightarrow> string \<Rightarrow> string \<Rightarrow> 's proc" where
  "c_check1 = check1 512"

definition c_unlink1 :: "'s posix \<Rightarrow> string \<Rightarrow> string \<Rightarrow> 's proc" where
  "c_unlink1 = unlink1"

definition c_checknot :: "'s posix \<Rightarrow> string \<Rightarrow> string \<Rightarrow> 's proc" where
  "c_checknot = checknot"

definition c_append1 :: "'s posix \<Rightarrow> string \<Rightarrow> string \<Rightarrow> string \<Rightarrow> 's proc" where
  "c_append1 = append1"

definition c_createn :: "'s posix \<Rightarrow> string \<Rightarrow> string \<Rightarrow> nat \<Rightarrow> 's proc" where
  "c_createn P d prefix nf = createn P d prefix nf False"

definition c_checkn :: "'s posix \<Rightarrow> string \<Rightarrow> string \<Rightarrow> nat \<Rightarrow> 's proc" where
  "c_checkn = checkn"

definition c_unlinkn :: "'s posix \<Rightarrow> string \<Rightarrow> string \<Rightarrow> nat \<Rightarrow> 's proc" where
  "c_unlinkn = unlinkn"

definition c_dircheck :: "'s posix \<Rightarrow> string \<Rightarrow> nat \<Rightarrow> 's proc" where
  "c_dircheck = dircheck"

definition c_forked :: "'s kernel \<Rightarrow> 's proc \<Rightarrow> 's proc \<Rightarrow> 's proc" where
  "c_forked = forked"

definition c_tests :: "'s kernel \<Rightarrow> string \<Rightarrow> string \<Rightarrow> 's proc" where
  "c_tests K d1 d2 = (let P = K Parent in seq
     [c_forked K (seq [c_createn (K Child) d2 ''xx'' 100, c_unlinkn (K Child) d2 ''xx'' 99])
        (seq [c_createn P d1 ''yy'' 100, c_unlinkn P d1 ''yy'' 99]),
      c_dircheck P d1 1, c_dircheck P d2 1])"

definition c_main :: "'s kernel \<Rightarrow> string list \<Rightarrow> nat \<Rightarrow> 's proc" where
  "c_main K argv pid =
     (case argv of
        [_, a1, a2] \<Rightarrow>
          sprintf512 (path_of a1 (''da'' @ show_nat pid)) (\<lambda>d1.
          sys (px_mkdir (K Parent) d1) (\<lambda>r.
          need (r = 0)
           (sprintf512 (path_of a2 (''db'' @ show_nat pid)) (\<lambda>d2.
            sys (px_mkdir (K Parent) d2) (\<lambda>r.
            need (r = 0)
             (sprintf512 (path_of a2 (''da'' @ show_nat pid)) (\<lambda>dd.
              sys (px_access (K Parent) dd) (\<lambda>r. need (r = 0) (c_tests K d1 d2)))))))))
      | _ \<Rightarrow> Failed Exit_failure)"

section \<open>What the system calls do\<close>

text \<open>
  What the processes see of the system: the directories that exist, the files, named by their directory and their name in it, and the
  open descriptors of each process, each with a file, an offset and whether writes go to the end. \<open>wr_at off b c\<close> is the
  content \<open>c\<close> after \<open>b\<close> has been written at offset \<open>off\<close>. \<open>view\<close> reads the state of the system, and \<open>at d = Some k\<close> says that the
  path \<open>d\<close> is a name of the directory \<open>k\<close>.
\<close>

type_synonym fname = "string \<times> string"
type_synonym files = "fname \<Rightarrow> string option"
type_synonym fds = "int \<Rightarrow> (fname \<times> nat \<times> bool) option"

record vfs =
  vf_dirs :: "string set"
  vf_files :: files
  vf_fds :: "who \<Rightarrow> fds"

definition wr_at :: "nat \<Rightarrow> string \<Rightarrow> string \<Rightarrow> string" where
  "wr_at off b c = take off (c @ replicate (off - length c) CHR 0x00) @ b @ drop (off + length b) c"

definition plain_name :: "string \<Rightarrow> bool" where
  "plain_name f \<longleftrightarrow> f \<noteq> [] \<and> hd f \<noteq> CHR ''.'' \<and> CHR ''/'' \<notin> set f"

definition set_fd :: "who \<Rightarrow> int \<Rightarrow> (fname \<times> nat \<times> bool) option \<Rightarrow> vfs \<Rightarrow> vfs" where
  "set_fd w fd x v = v\<lparr>vf_fds := (vf_fds v)(w := (vf_fds v w)(fd := x))\<rparr>"

definition set_file :: "fname \<Rightarrow> string option \<Rightarrow> vfs \<Rightarrow> vfs" where
  "set_file x c v = v\<lparr>vf_files := (vf_files v)(x := c)\<rparr>"

definition creat_law :: "'s kernel \<Rightarrow> ('s \<Rightarrow> vfs) \<Rightarrow> (string \<Rightarrow> string option) \<Rightarrow> bool" where
  "creat_law K view at \<longleftrightarrow> (\<forall>w d k f s. at d = Some k \<longrightarrow> k \<in> vf_dirs (view s) \<longrightarrow> plain_name f \<longrightarrow>
     (case px_creat (K w) (path_of d f) s of (fd, s') \<Rightarrow>
        0 \<le> fd \<and> view s' = set_fd w fd (Some ((k, f), 0, False)) (set_file (k, f) (Some []) (view s))))"

definition open_law :: "'s kernel \<Rightarrow> ('s \<Rightarrow> vfs) \<Rightarrow> (string \<Rightarrow> string option) \<Rightarrow> bool" where
  "open_law K view at \<longleftrightarrow> (\<forall>w d k f fl s. at d = Some k \<longrightarrow> k \<in> vf_dirs (view s) \<longrightarrow> plain_name f \<longrightarrow>
     (case px_open (K w) (path_of d f) fl s of (fd, s') \<Rightarrow>
        if vf_files (view s) (k, f) = None \<and> O_CREAT \<notin> fl then fd < 0 \<and> view s' = view s
        else 0 \<le> fd \<and> view s' = set_fd w fd (Some ((k, f), 0, O_APPEND \<in> fl))
          (if vf_files (view s) (k, f) = None then set_file (k, f) (Some []) (view s) else view s)))"

definition write_law :: "'s kernel \<Rightarrow> ('s \<Rightarrow> vfs) \<Rightarrow> bool" where
  "write_law K view \<longleftrightarrow> (\<forall>w fd b s x off ap c. vf_fds (view s) w fd = Some (x, off, ap) \<longrightarrow> vf_files (view s) x = Some c \<longrightarrow>
     (let pos = (if ap then length c else off) in
      case px_write (K w) fd b s of (n, s') \<Rightarrow> n = int (length b) \<and>
        view s' = set_fd w fd (Some (x, pos + length b, ap)) (set_file x (Some (wr_at pos b c)) (view s))))"

definition read_law :: "'s kernel \<Rightarrow> ('s \<Rightarrow> vfs) \<Rightarrow> bool" where
  "read_law K view \<longleftrightarrow> (\<forall>w fd n s x off ap c. vf_fds (view s) w fd = Some (x, off, ap) \<longrightarrow> vf_files (view s) x = Some c \<longrightarrow>
     (case px_read (K w) fd n s of ((cc, buf), s') \<Rightarrow> buf = take n (drop off c) \<and> cc = int (length buf) \<and>
        view s' = set_fd w fd (Some (x, off + length buf, ap)) (view s)))"

definition fd_law :: "'s kernel \<Rightarrow> ('s \<Rightarrow> vfs) \<Rightarrow> bool" where
  "fd_law K view \<longleftrightarrow> (\<forall>w fd s x off ap. vf_fds (view s) w fd = Some (x, off, ap) \<longrightarrow>
     (case px_close (K w) fd s of (r, s') \<Rightarrow> r = 0 \<and> view s' = set_fd w fd None (view s)) \<and>
     (case px_fsync (K w) fd s of (r, s') \<Rightarrow> r = 0 \<and> view s' = view s) \<and>
     (\<forall>n. case px_lseek (K w) fd n s of (r, s') \<Rightarrow> r = int n \<and> view s' = set_fd w fd (Some (x, n, ap)) (view s)))"

definition unlink_law :: "'s kernel \<Rightarrow> ('s \<Rightarrow> vfs) \<Rightarrow> (string \<Rightarrow> string option) \<Rightarrow> bool" where
  "unlink_law K view at \<longleftrightarrow> (\<forall>w d k f s. at d = Some k \<longrightarrow> k \<in> vf_dirs (view s) \<longrightarrow> plain_name f \<longrightarrow> vf_files (view s) (k, f) \<noteq> None \<longrightarrow>
     (case px_unlink (K w) (path_of d f) s of (r, s') \<Rightarrow> r = 0 \<and> view s' = set_file (k, f) None (view s)))"

definition entries :: "string \<Rightarrow> files \<Rightarrow> string set" where
  "entries k F = {f. F (k, f) \<noteq> None}"

definition dir_law :: "'s kernel \<Rightarrow> ('s \<Rightarrow> vfs) \<Rightarrow> (string \<Rightarrow> string option) \<Rightarrow> bool" where
  "dir_law K view at \<longleftrightarrow> (\<forall>w d k s. at d = Some k \<longrightarrow>
     (k \<in> vf_dirs (view s) \<longrightarrow>
       (case px_access (K w) d s of (r, s') \<Rightarrow> r = 0 \<and> view s' = view s) \<and>
       (case px_readdir (K w) d s of (dp, s') \<Rightarrow> view s' = view s \<and>
         (finite (entries k (vf_files (view s))) \<longrightarrow>
           (\<exists>es. dp = Some es \<and> distinct es \<and> set es = entries k (vf_files (view s)) \<union> {''.'', ''..''})))) \<and>
     (k \<notin> vf_dirs (view s) \<longrightarrow>
       (case px_mkdir (K w) d s of (r, s') \<Rightarrow> r = 0 \<and>
         view s' = (view s)\<lparr>vf_dirs := insert k (vf_dirs (view s)),
           vf_files := (\<lambda>x. if fst x = k then None else vf_files (view s) x)\<rparr>)))"

definition fork_law :: "'s kernel \<Rightarrow> ('s \<Rightarrow> vfs) \<Rightarrow> bool" where
  "fork_law K view \<longleftrightarrow> (\<forall>s. case px_fork (K Parent) s of (pid, s') \<Rightarrow>
     0 < pid \<and> view s' = (view s)\<lparr>vf_fds := (vf_fds (view s))(Child := vf_fds (view s) Parent)\<rparr>)"

definition posix_laws :: "'s kernel \<Rightarrow> ('s \<Rightarrow> vfs) \<Rightarrow> (string \<Rightarrow> string option) \<Rightarrow> bool" where
  "posix_laws K view at \<longleftrightarrow> creat_law K view at \<and> open_law K view at \<and> write_law K view \<and> read_law K view \<and> fd_law K view \<and>
     unlink_law K view at \<and> dir_law K view at \<and> fork_law K view"

lemmas law_defs = creat_law_def open_law_def write_law_def read_law_def fd_law_def unlink_law_def

lemma set_fd_simps [simp]:
  "vf_dirs (set_fd w fd x v) = vf_dirs v" "vf_files (set_fd w fd x v) = vf_files v"
  "vf_fds (set_fd w fd x v) = (vf_fds v)(w := (vf_fds v w)(fd := x))"
  "vf_dirs (set_file y c v) = vf_dirs v" "vf_files (set_file y c v) = (vf_files v)(y := c)" "vf_fds (set_file y c v) = vf_fds v"
  by (simp_all add: set_fd_def set_file_def)

text \<open>The laws as equations for the result and the new view of a call.\<close>

lemma after_creat:
  assumes "posix_laws K view at" and "at d = Some k" and "k \<in> vf_dirs (view s)" and "plain_name f"
  shows "0 \<le> fst (px_creat (K w) (path_of d f) s)"
    and "view (snd (px_creat (K w) (path_of d f) s)) =
      set_fd w (fst (px_creat (K w) (path_of d f) s)) (Some ((k, f), 0, False)) (set_file (k, f) (Some []) (view s))"
  using assms by (auto simp: posix_laws_def creat_law_def case_prod_beta)

lemma after_open:
  assumes "posix_laws K view at" and "at d = Some k" and "k \<in> vf_dirs (view s)" and "plain_name f" and "vf_files (view s) (k, f) \<noteq> None"
  shows "0 \<le> fst (px_open (K w) (path_of d f) fl s)"
    and "view (snd (px_open (K w) (path_of d f) fl s)) =
      set_fd w (fst (px_open (K w) (path_of d f) fl s)) (Some ((k, f), 0, O_APPEND \<in> fl)) (view s)"
proof -
  have "open_law K view at" using assms(1) by (simp add: posix_laws_def)
  from this [unfolded open_law_def, rule_format, OF assms(2-4), of fl w] assms(5)
  show "0 \<le> fst (px_open (K w) (path_of d f) fl s)"
    and "view (snd (px_open (K w) (path_of d f) fl s)) =
      set_fd w (fst (px_open (K w) (path_of d f) fl s)) (Some ((k, f), 0, O_APPEND \<in> fl)) (view s)"
    by (auto simp: case_prod_beta)
qed

lemma after_open_missing:
  assumes "posix_laws K view at" and "at d = Some k" and "k \<in> vf_dirs (view s)" and "plain_name f" and "vf_files (view s) (k, f) = None"
  shows "fst (px_open (K w) (path_of d f) {} s) < 0" and "view (snd (px_open (K w) (path_of d f) {} s)) = view s"
proof -
  have "open_law K view at" using assms(1) by (simp add: posix_laws_def)
  from this [unfolded open_law_def, rule_format, OF assms(2-4), of "{}" w] assms(5)
  show "fst (px_open (K w) (path_of d f) {} s) < 0" and "view (snd (px_open (K w) (path_of d f) {} s)) = view s"
    by (auto simp: case_prod_beta)
qed

lemma after_write:
  assumes "posix_laws K view at" and "vf_fds (view s) w fd = Some (x, off, ap)" and "vf_files (view s) x = Some c"
  shows "fst (px_write (K w) fd b s) = int (length b)"
    and "view (snd (px_write (K w) fd b s)) =
      set_fd w fd (Some (x, (if ap then length c else off) + length b, ap))
       (set_file x (Some (wr_at (if ap then length c else off) b c)) (view s))"
proof -
  have "write_law K view" using assms(1) by (simp add: posix_laws_def)
  from this [unfolded write_law_def Let_def, rule_format, OF assms(2,3), of b]
  show "fst (px_write (K w) fd b s) = int (length b)"
    and "view (snd (px_write (K w) fd b s)) =
      set_fd w fd (Some (x, (if ap then length c else off) + length b, ap))
       (set_file x (Some (wr_at (if ap then length c else off) b c)) (view s))"
    by (simp_all add: case_prod_beta)
qed

lemma after_read:
  assumes "posix_laws K view at" and "vf_fds (view s) w fd = Some (x, off, ap)" and "vf_files (view s) x = Some c"
  shows "fst (px_read (K w) fd n s) = (int (length (take n (drop off c))), take n (drop off c))"
    and "view (snd (px_read (K w) fd n s)) = set_fd w fd (Some (x, off + length (take n (drop off c)), ap)) (view s)"
proof -
  have "read_law K view" using assms(1) by (simp add: posix_laws_def)
  from this [unfolded read_law_def, rule_format, OF assms(2,3), of n]
  show "fst (px_read (K w) fd n s) = (int (length (take n (drop off c))), take n (drop off c))"
    and "view (snd (px_read (K w) fd n s)) = set_fd w fd (Some (x, off + length (take n (drop off c)), ap)) (view s)"
    by (auto simp: case_prod_beta prod_eq_iff)
qed

lemma after_fd:
  assumes "posix_laws K view at" and "vf_fds (view s) w fd = Some (x, off, ap)"
  shows "fst (px_close (K w) fd s) = 0" and "view (snd (px_close (K w) fd s)) = set_fd w fd None (view s)"
    and "fst (px_fsync (K w) fd s) = 0" and "view (snd (px_fsync (K w) fd s)) = view s"
    and "fst (px_lseek (K w) fd n s) = int n" and "view (snd (px_lseek (K w) fd n s)) = set_fd w fd (Some (x, n, ap)) (view s)"
proof -
  have "fd_law K view" using assms(1) by (simp add: posix_laws_def)
  note law = this [unfolded fd_law_def, rule_format, OF assms(2)]
  show "fst (px_close (K w) fd s) = 0" and "view (snd (px_close (K w) fd s)) = set_fd w fd None (view s)"
    and "fst (px_fsync (K w) fd s) = 0" and "view (snd (px_fsync (K w) fd s)) = view s"
    and "fst (px_lseek (K w) fd n s) = int n" and "view (snd (px_lseek (K w) fd n s)) = set_fd w fd (Some (x, n, ap)) (view s)"
    using law by (simp_all add: case_prod_beta)
qed

lemma after_unlink:
  assumes "posix_laws K view at" and "at d = Some k" and "k \<in> vf_dirs (view s)" and "plain_name f" and "vf_files (view s) (k, f) \<noteq> None"
  shows "fst (px_unlink (K w) (path_of d f) s) = 0"
    and "view (snd (px_unlink (K w) (path_of d f) s)) = set_file (k, f) None (view s)"
proof -
  have "unlink_law K view at" using assms(1) by (simp add: posix_laws_def)
  from this [unfolded unlink_law_def, rule_format, OF assms(2-5), of w]
  show "fst (px_unlink (K w) (path_of d f) s) = 0"
    and "view (snd (px_unlink (K w) (path_of d f) s)) = set_file (k, f) None (view s)"
    by (simp_all add: case_prod_beta)
qed

lemma after_dir:
  assumes "posix_laws K view at" and "at d = Some k"
  shows "k \<in> vf_dirs (view s) \<Longrightarrow> fst (px_access (K w) d s) = 0 \<and> view (snd (px_access (K w) d s)) = view s"
    and "k \<in> vf_dirs (view s) \<Longrightarrow> finite (entries k (vf_files (view s))) \<Longrightarrow>
      \<exists>es s'. px_readdir (K w) d s = (Some es, s') \<and> view s' = view s \<and> distinct es \<and>
        set es = entries k (vf_files (view s)) \<union> {''.'', ''..''}"
    and "k \<notin> vf_dirs (view s) \<Longrightarrow> fst (px_mkdir (K w) d s) = 0 \<and>
      view (snd (px_mkdir (K w) d s)) = (view s)\<lparr>vf_dirs := insert k (vf_dirs (view s)),
        vf_files := (\<lambda>x. if fst x = k then None else vf_files (view s) x)\<rparr>"
proof -
  have "dir_law K view at" using assms(1) by (simp add: posix_laws_def)
  note law = this [unfolded dir_law_def, rule_format, OF assms(2), of s w, simplified case_prod_beta]
  show "k \<in> vf_dirs (view s) \<Longrightarrow> fst (px_access (K w) d s) = 0 \<and> view (snd (px_access (K w) d s)) = view s"
    using law by blast
  show "k \<notin> vf_dirs (view s) \<Longrightarrow> fst (px_mkdir (K w) d s) = 0 \<and>
      view (snd (px_mkdir (K w) d s)) = (view s)\<lparr>vf_dirs := insert k (vf_dirs (view s)),
        vf_files := (\<lambda>x. if fst x = k then None else vf_files (view s) x)\<rparr>"
    using law by blast
  show "\<exists>es s'. px_readdir (K w) d s = (Some es, s') \<and> view s' = view s \<and> distinct es \<and>
        set es = entries k (vf_files (view s)) \<union> {''.'', ''..''}"
    if "k \<in> vf_dirs (view s)" "finite (entries k (vf_files (view s)))"
    using law that by (metis prod.collapse)
qed

section \<open>One process among others\<close>

text \<open>
  \<open>own view w A F D s\<close>: the directories of the files \<open>A\<close> exist, the files of \<open>A\<close> are as in \<open>F\<close>, and \<open>D\<close> are the descriptors of process \<open>w\<close>.
  A process that works on the files \<open>A\<close> relies on others leaving these and its descriptors alone, and leaves all others alone.
  \<open>works\<close> is its triple, for any interference from outside \<open>A\<close>.
\<close>

definition own :: "('s \<Rightarrow> vfs) \<Rightarrow> who \<Rightarrow> fname set \<Rightarrow> files \<Rightarrow> fds \<Rightarrow> 's \<Rightarrow> bool" where
  "own view w A F D s \<longleftrightarrow>
     fst ` A \<subseteq> vf_dirs (view s) \<and> (\<forall>x \<in> A. vf_files (view s) x = F x) \<and> vf_fds (view s) w = D"

definition rely :: "('s \<Rightarrow> vfs) \<Rightarrow> who \<Rightarrow> fname set \<Rightarrow> 's \<Rightarrow> 's \<Rightarrow> bool" where
  "rely view w A s s' \<longleftrightarrow>
     vf_dirs (view s) \<subseteq> vf_dirs (view s') \<and> (\<forall>x \<in> A. vf_files (view s') x = vf_files (view s) x) \<and>
     vf_fds (view s') w = vf_fds (view s) w"

definition guar :: "('s \<Rightarrow> vfs) \<Rightarrow> who \<Rightarrow> fname set \<Rightarrow> 's \<Rightarrow> 's \<Rightarrow> bool" where
  "guar view w A s s' \<longleftrightarrow>
     vf_dirs (view s) \<subseteq> vf_dirs (view s') \<and> (\<forall>x. x \<notin> A \<longrightarrow> vf_files (view s') x = vf_files (view s) x) \<and>
     (\<forall>u. u \<noteq> w \<longrightarrow> vf_fds (view s') u = vf_fds (view s) u)"

interpretation disjoint_work: interference "rely view w A" for view w A
  by unfold_locales (auto simp: rely_def)

lemma own_stable: "own view w A F D s \<Longrightarrow> rely view w A s s' \<Longrightarrow> own view w A F D s'"
  by (auto simp: own_def rely_def)

lemma guar_rely: "guar view w A s s' \<Longrightarrow> u \<noteq> w \<Longrightarrow> A \<inter> B = {} \<Longrightarrow> rely view u B s s'"
  by (auto simp: guar_def rely_def)

definition works :: "('s \<Rightarrow> vfs) \<Rightarrow> who \<Rightarrow> fname set \<Rightarrow> files \<Rightarrow> fds \<Rightarrow> 's proc \<Rightarrow> files \<Rightarrow> fds \<Rightarrow> bool" where
  "works view w A F D p F' D' \<longleftrightarrow>
     (\<forall>s. own view w A F D s \<longrightarrow> sat (rely view w A) (guar view w A) (own view w A F' D') p s)"

lemma works_Done: "F = F' \<Longrightarrow> D = D' \<Longrightarrow> works view w A F D Done F' D'"
  unfolding works_def by (auto intro: sat_Done own_stable)

lemma works_andthen: "works view w A F D p Fa Da \<Longrightarrow> works view w A Fa Da q F' D' \<Longrightarrow> works view w A F D (andthen p q) F' D'"
  unfolding works_def by (blast intro: disjoint_work.sat_andthen)

lemma works_Nil: "F = F' \<Longrightarrow> works view w A F D (seq []) F' D"
  by (simp add: works_Done)

lemma works_Cons: "works view w A F D p Fa D \<Longrightarrow> works view w A Fa D (seq ps) F' D \<Longrightarrow> works view w A F D (seq (p # ps)) F' D"
  by (simp add: works_andthen)

lemma works_does: "works view w A F D p F' D' \<Longrightarrow> does (own view w A F D) p (own view w A F' D')"
  unfolding works_def by (rule disjoint_work.does_alone) blast

text \<open>A system call, by what it makes of \<open>F\<close> and \<open>D\<close>.\<close>

lemma works_sys:
  assumes "\<And>s. own view w A F D s \<Longrightarrow> guar view w A s (snd (call s)) \<and> own view w A (Fa (fst (call s))) (Da (fst (call s))) (snd (call s)) \<and> ok (fst (call s))"
    and "\<And>r. ok r \<Longrightarrow> works view w A (Fa r) (Da r) (k r) F' D'"
  shows "works view w A F D (sys call k) F' D'"
  unfolding works_def
proof (intro allI impI disjoint_work.sat_sysI)
  fix s s' assume "own view w A F D s" and "rely view w A s s'"
  then have "own view w A F D s'" by (rule own_stable)
  from assms(1) [OF this] assms(2)
  show "guar view w A s' (snd (call s')) \<and> sat (rely view w A) (guar view w A) (own view w A F' D') (k (fst (call s'))) (snd (call s'))"
    by (auto simp: works_def)
qed

lemma own_dir: "own view w A F D s \<Longrightarrow> (k, f) \<in> A \<Longrightarrow> k \<in> vf_dirs (view s) \<and> vf_files (view s) (k, f) = F (k, f)"
  by (force simp: own_def)

lemma works_creat:
  assumes "posix_laws K view at" and "at d = Some k" and "plain_name f" and "(k, f) \<in> A"
    and "\<And>fd. 0 \<le> fd \<Longrightarrow> works view w A (F((k, f) \<mapsto> [])) (D(fd \<mapsto> ((k, f), 0, False))) (c fd) F' D'"
  shows "works view w A F D (sys (px_creat (K w) (path_of d f)) c) F' D'"
proof (rule works_sys [where Fa = "\<lambda>_. F((k, f) \<mapsto> [])" and Da = "\<lambda>fd. D(fd \<mapsto> ((k, f), 0, False))" and ok = "\<lambda>fd. 0 \<le> fd"])
  fix s assume o: "own view w A F D s"
  then have "k \<in> vf_dirs (view s)" using assms(4) by (simp add: own_dir)
  note a = after_creat [OF assms(1,2) this assms(3), of w]
  show "guar view w A s (snd (px_creat (K w) (path_of d f) s)) \<and>
      own view w A (F((k, f) \<mapsto> [])) (D(fst (px_creat (K w) (path_of d f) s) \<mapsto> ((k, f), 0, False))) (snd (px_creat (K w) (path_of d f) s)) \<and>
      0 \<le> fst (px_creat (K w) (path_of d f) s)"
    using o a assms(4) by (auto simp: guar_def own_def)
qed (fact assms(5))

lemma works_open:
  assumes "posix_laws K view at" and "at d = Some k" and "plain_name f" and "(k, f) \<in> A" and "F (k, f) \<noteq> None"
    and "\<And>fd. 0 \<le> fd \<Longrightarrow> works view w A F (D(fd \<mapsto> ((k, f), 0, O_APPEND \<in> fl))) (c fd) F' D'"
  shows "works view w A F D (sys (px_open (K w) (path_of d f) fl) c) F' D'"
proof (rule works_sys [where Fa = "\<lambda>_. F" and Da = "\<lambda>fd. D(fd \<mapsto> ((k, f), 0, O_APPEND \<in> fl))" and ok = "\<lambda>fd. 0 \<le> fd"])
  fix s assume o: "own view w A F D s"
  then have "k \<in> vf_dirs (view s)" "vf_files (view s) (k, f) \<noteq> None" using assms(4,5) by (simp_all add: own_dir)
  note a = after_open [OF assms(1,2) this(1) assms(3) this(2), of w fl]
  show "guar view w A s (snd (px_open (K w) (path_of d f) fl s)) \<and>
      own view w A F (D(fst (px_open (K w) (path_of d f) fl s) \<mapsto> ((k, f), 0, O_APPEND \<in> fl))) (snd (px_open (K w) (path_of d f) fl s)) \<and>
      0 \<le> fst (px_open (K w) (path_of d f) fl s)"
    using o a by (auto simp: guar_def own_def)
qed (fact assms(6))

lemma works_open_missing:
  assumes "posix_laws K view at" and "at d = Some k" and "plain_name f" and "(k, f) \<in> A" and "F (k, f) = None"
    and "\<And>fd. fd < 0 \<Longrightarrow> works view w A F D (c fd) F' D'"
  shows "works view w A F D (sys (px_open (K w) (path_of d f) {}) c) F' D'"
proof (rule works_sys [where Fa = "\<lambda>_. F" and Da = "\<lambda>_. D" and ok = "\<lambda>fd. fd < 0"])
  fix s assume o: "own view w A F D s"
  then have "k \<in> vf_dirs (view s)" "vf_files (view s) (k, f) = None" using assms(4,5) by (simp_all add: own_dir)
  note a = after_open_missing [OF assms(1,2) this(1) assms(3) this(2), of w]
  show "guar view w A s (snd (px_open (K w) (path_of d f) {} s)) \<and> own view w A F D (snd (px_open (K w) (path_of d f) {} s)) \<and>
      fst (px_open (K w) (path_of d f) {} s) < 0"
    using o a by (auto simp: guar_def own_def)
qed (fact assms(6))

lemma works_write:
  assumes "posix_laws K view at" and "D fd = Some (x, off, ap)" and "x \<in> A" and "F x = Some c"
    and "works view w A (F(x \<mapsto> wr_at (if ap then length c else off) b c)) (D(fd \<mapsto> (x, (if ap then length c else off) + length b, ap))) (q (int (length b))) F' D'"
  shows "works view w A F D (sys (px_write (K w) fd b) q) F' D'"
proof (rule works_sys [where Fa = "\<lambda>_. F(x \<mapsto> wr_at (if ap then length c else off) b c)"
      and Da = "\<lambda>_. D(fd \<mapsto> (x, (if ap then length c else off) + length b, ap))" and ok = "\<lambda>r. r = int (length b)"])
  fix s assume o: "own view w A F D s"
  then have "vf_fds (view s) w fd = Some (x, off, ap)" "vf_files (view s) x = Some c" using assms(2-4) by (simp_all add: own_def)
  note a = after_write [OF assms(1) this, of b]
  show "guar view w A s (snd (px_write (K w) fd b s)) \<and>
      own view w A (F(x \<mapsto> wr_at (if ap then length c else off) b c)) (D(fd \<mapsto> (x, (if ap then length c else off) + length b, ap))) (snd (px_write (K w) fd b s)) \<and>
      fst (px_write (K w) fd b s) = int (length b)"
    unfolding a guar_def own_def using o assms(3) by (auto simp: own_def)
qed (use assms(5) in simp)

lemma works_read:
  assumes "posix_laws K view at" and "D fd = Some (x, off, ap)" and "x \<in> A" and "F x = Some c"
    and "works view w A F (D(fd \<mapsto> (x, off + length (take n (drop off c)), ap))) (q (int (length (take n (drop off c))), take n (drop off c))) F' D'"
  shows "works view w A F D (sys (px_read (K w) fd n) q) F' D'"
proof (rule works_sys [where Fa = "\<lambda>_. F" and Da = "\<lambda>_. D(fd \<mapsto> (x, off + length (take n (drop off c)), ap))"
      and ok = "\<lambda>r. r = (int (length (take n (drop off c))), take n (drop off c))"])
  fix s assume o: "own view w A F D s"
  then have "vf_fds (view s) w fd = Some (x, off, ap)" "vf_files (view s) x = Some c" using assms(2-4) by (simp_all add: own_def)
  note a = after_read [OF assms(1) this, of n]
  show "guar view w A s (snd (px_read (K w) fd n s)) \<and>
      own view w A F (D(fd \<mapsto> (x, off + length (take n (drop off c)), ap))) (snd (px_read (K w) fd n s)) \<and>
      fst (px_read (K w) fd n s) = (int (length (take n (drop off c))), take n (drop off c))"
    unfolding a guar_def own_def using o by (auto simp: own_def)
qed (use assms(5) in simp)

lemma works_fd:
  assumes "posix_laws K view at" and "D fd = Some (x, off, ap)"
  shows "works view w A F (D(fd := None)) (q 0) F' D' \<Longrightarrow> works view w A F D (sys (px_close (K w) fd) q) F' D'"
    and "works view w A F D (q 0) F' D' \<Longrightarrow> works view w A F D (sys (px_fsync (K w) fd) q) F' D'"
    and "works view w A F (D(fd \<mapsto> (x, n, ap))) (q (int n)) F' D' \<Longrightarrow> works view w A F D (sys (px_lseek (K w) fd n) q) F' D'"
proof -
  have d: "vf_fds (view s) w fd = Some (x, off, ap)" if "own view w A F D s" for s using that assms(2) by (simp add: own_def)
  note a = after_fd [OF assms(1) d]
  show "works view w A F D (sys (px_close (K w) fd) q) F' D'" if "works view w A F (D(fd := None)) (q 0) F' D'"
    by (rule works_sys [where Fa = "\<lambda>_. F" and Da = "\<lambda>_. D(fd := None)" and ok = "\<lambda>r. r = 0"])
      (use that in \<open>auto simp: a guar_def own_def\<close>)
  show "works view w A F D (sys (px_fsync (K w) fd) q) F' D'" if "works view w A F D (q 0) F' D'"
    by (rule works_sys [where Fa = "\<lambda>_. F" and Da = "\<lambda>_. D" and ok = "\<lambda>r. r = 0"])
      (use that in \<open>auto simp: a guar_def own_def\<close>)
  show "works view w A F D (sys (px_lseek (K w) fd n) q) F' D'" if "works view w A F (D(fd \<mapsto> (x, n, ap))) (q (int n)) F' D'"
    by (rule works_sys [where Fa = "\<lambda>_. F" and Da = "\<lambda>_. D(fd \<mapsto> (x, n, ap))" and ok = "\<lambda>r. r = int n"])
      (use that in \<open>auto simp: a guar_def own_def\<close>)
qed

lemma works_unlink:
  assumes "posix_laws K view at" and "at d = Some k" and "plain_name f" and "(k, f) \<in> A" and "F (k, f) \<noteq> None"
    and "works view w A (F((k, f) := None)) D (q 0) F' D'"
  shows "works view w A F D (sys (px_unlink (K w) (path_of d f)) q) F' D'"
proof (rule works_sys [where Fa = "\<lambda>_. F((k, f) := None)" and Da = "\<lambda>_. D" and ok = "\<lambda>r. r = 0"])
  fix s assume o: "own view w A F D s"
  then have "k \<in> vf_dirs (view s)" "vf_files (view s) (k, f) \<noteq> None" using assms(4,5) by (simp_all add: own_dir)
  note a = after_unlink [OF assms(1,2) this(1) assms(3) this(2), of w]
  show "guar view w A s (snd (px_unlink (K w) (path_of d f) s)) \<and> own view w A (F((k, f) := None)) D (snd (px_unlink (K w) (path_of d f) s)) \<and>
      fst (px_unlink (K w) (path_of d f) s) = 0"
    unfolding a guar_def own_def using o assms(4) by (auto simp: own_def)
qed (use assms(6) in simp)

text \<open>The same for a descriptor that has just been opened.\<close>

lemma works_write_fd:
  assumes "posix_laws K view at" and "x \<in> A" and "F x = Some c"
    and "works view w A (F(x \<mapsto> wr_at (if ap then length c else off) b c)) (D(fd \<mapsto> (x, (if ap then length c else off) + length b, ap))) (q (int (length b))) F' D'"
  shows "works view w A F (D(fd \<mapsto> (x, off, ap))) (sys (px_write (K w) fd b) q) F' D'"
  by (rule works_write [OF assms(1), where c = c and off = off and ap = ap]) (use assms in simp_all)

lemma works_read_fd:
  assumes "posix_laws K view at" and "x \<in> A" and "F x = Some c"
    and "works view w A F (D(fd \<mapsto> (x, off + length (take n (drop off c)), ap))) (q (int (length (take n (drop off c))), take n (drop off c))) F' D'"
  shows "works view w A F (D(fd \<mapsto> (x, off, ap))) (sys (px_read (K w) fd n) q) F' D'"
  by (rule works_read [OF assms(1), where c = c and off = off and ap = ap]) (use assms in simp_all)

lemma works_close_fd:
  assumes "posix_laws K view at" and "works view w A F (D(fd := None)) (q 0) F' D'"
  shows "works view w A F (D(fd \<mapsto> (x, off, ap))) (sys (px_close (K w) fd) q) F' D'"
  by (rule works_fd(1) [OF assms(1), where x = x and off = off and ap = ap]) (use assms(2) in simp_all)

lemma works_fsync_fd:
  assumes "posix_laws K view at" and "works view w A F (D(fd \<mapsto> (x, off, ap))) (q 0) F' D'"
  shows "works view w A F (D(fd \<mapsto> (x, off, ap))) (sys (px_fsync (K w) fd) q) F' D'"
  by (rule works_fd(2) [OF assms(1), where x = x and off = off and ap = ap]) (use assms(2) in simp_all)

lemma works_lseek_fd:
  assumes "posix_laws K view at" and "works view w A F (D(fd \<mapsto> (x, n, ap))) (q (int n)) F' D'"
  shows "works view w A F (D(fd \<mapsto> (x, off, ap))) (sys (px_lseek (K w) fd n) q) F' D'"
  by (rule works_fd(3) [OF assms(1), where x = x and off = off and ap = ap]) (use assms(2) in simp_all)

lemmas works_fds = works_write_fd works_read_fd works_close_fd works_fsync_fd works_lseek_fd

section \<open>The helper functions\<close>

definition reaches :: "(string \<Rightarrow> string option) \<Rightarrow> fname set \<Rightarrow> string \<Rightarrow> string \<Rightarrow> string \<Rightarrow> bool" where
  "reaches at A d k f \<longleftrightarrow> at d = Some k \<and> (k, f) \<in> A \<and> plain_name f \<and> length (path_of d f) < 512"

abbreviation closed :: fds where
  "closed \<equiv> \<lambda>_. None"

lemma closed_again [simp]: "closed(fd := None) = closed"
  by auto

lemma wr_at_start [simp]: "wr_at 0 b [] = b"
  by (simp add: wr_at_def)

lemma wr_at_end: "wr_at (length c) b c = c @ b"
  by (simp add: wr_at_def)

lemmas prog_defs = sprintf512_def need_def reaches_def

lemma works_create1:
  assumes "posix_laws K view at" and "reaches at A d k f"
  shows "works view w A F closed (create1 (K w) d f inp) (F((k, f) \<mapsto> inp)) closed"
  unfolding create1_def
  by (rule works_creat [OF assms(1)] works_fds [OF assms(1)] works_Done | use assms(2) in \<open>simp add: prog_defs\<close>)+

lemma works_append1:
  assumes "posix_laws K view at" and "reaches at A d k f" and "F (k, f) = Some c"
  shows "works view w A F closed (append1 (K w) d f inp) (F((k, f) \<mapsto> c @ inp)) closed"
  unfolding append1_def
  by (rule works_open [OF assms(1)] works_write_fd [OF assms(1), where c = c] works_fds(3) [OF assms(1)] works_Done |
      use assms(2,3) in \<open>simp add: prog_defs wr_at_end\<close>)+

lemma strncmp_eq_refl [simp]: "strncmp_eq a a k"
  by (induction k arbitrary: a) simp_all

lemma works_check1:
  assumes "posix_laws K view at" and "reaches at A d k f" and "F (k, f) = Some inp" and "length inp < sz"
  shows "works view w A F closed (check1 sz (K w) d f inp) F closed"
  unfolding check1_def
  by (rule works_open [OF assms(1)] works_read_fd [OF assms(1), where c = inp] works_fds(3) [OF assms(1)] works_Done |
      use assms(2-4) in \<open>simp add: prog_defs\<close>)+

lemma works_unlink1:
  assumes "posix_laws K view at" and "reaches at A d k f" and "F (k, f) = Some c"
  shows "works view w A F closed (unlink1 (K w) d f) (F((k, f) := None)) closed"
  unfolding unlink1_def
  by (rule works_unlink [OF assms(1)] works_Done | use assms(2,3) in \<open>simp add: prog_defs\<close>)+

lemma works_checknot:
  assumes "posix_laws K view at" and "reaches at A d k f" and "F (k, f) = None"
  shows "works view w A F closed (checknot (K w) d f) F closed"
  unfolding checknot_def
  by (rule works_open_missing [OF assms(1)] works_Done | use assms(2,3) in \<open>simp add: prog_defs\<close>)+

text \<open>Directories: the check passes exactly when the number is right and no name occurs twice.\<close>

lemma store_names_eq:
  "length names \<le> 1000 \<Longrightarrow> store_names es names =
     (if length names + length (filter listed es) \<le> 1000 then Ret (names @ filter listed es) else Fault Bad_access)"
  by (induction es arbitrary: names) auto

lemma adjacent_dup_sorted: "sorted ns \<Longrightarrow> adjacent_dup ns \<longleftrightarrow> \<not> distinct ns"
  by (induction ns rule: adjacent_dup.induct) (auto dest: order.antisym)

lemma dircheck_eq:
  "dircheck P d nf =
    sys (px_readdir P d) (\<lambda>dp. case dp of None \<Rightarrow> Failed Exit_failure | Some es \<Rightarrow>
      if length (filter listed es) > 1000 then Failed Bad_access
      else need (length (filter listed es) = nf \<and> distinct (filter listed es)) Done)"
  unfolding dircheck_def
  by (rule arg_cong [where f = "sys (px_readdir P d)"])
    (auto simp: fun_eq_iff store_names_eq need_def adjacent_dup_sorted split: option.splits)

lemma entries_own: "own view w A F D s \<Longrightarrow> {k} \<times> UNIV \<subseteq> A \<Longrightarrow> entries k (vf_files (view s)) = entries k F"
  unfolding entries_def using own_dir [of view w A F D s k] by (simp add: subset_iff)

lemma listed_entries:
  assumes "distinct es" and "set es = E \<union> {''.'', ''..''}" and "\<forall>f \<in> E. listed f"
  shows "length (filter listed es) = card E" and "distinct (filter listed es)"
proof -
  have "\<not> listed ''.''" "\<not> listed ''..''" by (simp_all add: listed_def cur_def)
  then have "set (filter listed es) = E" unfolding set_filter assms(2) using assms(3) by blast
  moreover show "distinct (filter listed es)" using assms(1) by simp
  ultimately show "length (filter listed es) = card E" using distinct_card by metis
qed

lemma readdir_listed:
  assumes "posix_laws K view at" and "at d = Some k" and "k \<in> vf_dirs (view s)"
    and "finite (entries k (vf_files (view s)))" and "\<forall>f \<in> entries k (vf_files (view s)). listed f"
  obtains es s' where "px_readdir (K w) d s = (Some es, s')" "view s' = view s" "distinct (filter listed es)"
    "length (filter listed es) = card (entries k (vf_files (view s)))"
proof -
  from after_dir(2) [OF assms(1-4), of w] obtain es s' where e: "px_readdir (K w) d s = (Some es, s')" "view s' = view s"
    "distinct es" "set es = entries k (vf_files (view s)) \<union> {''.'', ''..''}" by blast
  show thesis by (rule that [OF e(1,2)]) (use listed_entries [OF e(3,4) assms(5)] in auto)
qed

lemma works_dircheck:
  assumes "posix_laws K view at" and "at d = Some k" and "{k} \<times> UNIV \<subseteq> A"
    and F: "finite (entries k F)" "\<forall>f \<in> entries k F. listed f" and nf: "card (entries k F) = nf" "nf \<le> 1000"
  shows "works view w A F closed (dircheck (K w) d nf) F closed"
  unfolding dircheck_eq
proof (rule works_sys [where Fa = "\<lambda>_. F" and Da = "\<lambda>_. closed" and ok = "\<lambda>dp. \<exists>es. dp = Some es \<and> length (filter listed es) = nf \<and> distinct (filter listed es)"])
  fix s assume o: "own view w A F closed s"
  have "k \<in> vf_dirs (view s)" using own_dir [OF o, of k] assms(3) by blast
  then obtain es s' where e: "px_readdir (K w) d s = (Some es, s')" "view s' = view s" "distinct (filter listed es)"
      "length (filter listed es) = card (entries k (vf_files (view s)))"
    by (rule readdir_listed [OF assms(1,2)]) (use F in \<open>simp_all add: entries_own [OF o assms(3)]\<close>)
  show "guar view w A s (snd (px_readdir (K w) d s)) \<and> own view w A F closed (snd (px_readdir (K w) d s)) \<and>
      (\<exists>es. fst (px_readdir (K w) d s) = Some es \<and> length (filter listed es) = nf \<and> distinct (filter listed es))"
    using o e nf(1) entries_own [OF o assms(3)] by (simp add: guar_def own_def)
next
  fix dp assume "\<exists>es. dp = Some es \<and> length (filter listed es) = nf \<and> distinct (filter listed es)"
  then show "works view w A F closed (case dp of None \<Rightarrow> Failed Exit_failure | Some es \<Rightarrow>
      if length (filter listed es) > 1000 then Failed Bad_access
      else need (length (filter listed es) = nf \<and> distinct (filter listed es)) Done) F closed"
    using nf(2) by (auto simp: need_def intro: works_Done)
qed

text \<open>Numbered files.\<close>

lemma length_int_mem [simp]: "length (int_mem i) = 4"
  by (simp add: int_mem_def)

lemma mem_int_mem [simp]:
  assumes "i < 2 ^ 32"
  shows "mem_int (int_mem i) = i"
proof -
  have d: "i div 65536 = i div 256 div 256" "i div 16777216 = i div 256 div 256 div 256" by (simp_all flip: div_mult2_eq)
  have e: "i = 256 * (i div 256) + i mod 256" "i div 256 = 256 * (i div 256 div 256) + i div 256 mod 256"
      "i div 256 div 256 = 256 * (i div 256 div 256 div 256) + i div 256 div 256 mod 256" by simp_all
  have "i div 256 div 256 div 256 < 256" using assms by (simp flip: div_mult2_eq add: div_less_iff_less_mult)
  then have "mem_int (int_mem i) =
      i mod 256 + 256 * (i div 256 mod 256) + 65536 * (i div 256 div 256 mod 256) + 16777216 * (i div 256 div 256 div 256)"
    unfolding d mem_int_def int_mem_def by simp
  then show ?thesis using e by linarith
qed

lemma numbered_inject [simp]: "numbered p i = numbered p j \<longleftrightarrow> i = j"
  using digits_val_show by (metis numbered_def same_append_eq)

definition with_numbered :: "string \<Rightarrow> string \<Rightarrow> nat list \<Rightarrow> files \<Rightarrow> files" where
  "with_numbered k prefix is F = foldl (\<lambda>F i. F((k, numbered prefix i) \<mapsto> int_mem i)) F is"

definition without_numbered :: "string \<Rightarrow> string \<Rightarrow> nat list \<Rightarrow> files \<Rightarrow> files" where
  "without_numbered k prefix is F = foldl (\<lambda>F i. F((k, numbered prefix i) := None)) F is"

lemma works_createn:
  assumes "posix_laws K view at" and "\<forall>i < nf. reaches at A d k (numbered prefix i)"
  shows "works view w A F closed (createn (K w) d prefix nf dup) (with_numbered k prefix [0..<nf] F) closed"
proof -
  have "works view w A F closed (createn_loop (K w) d prefix dup is) (with_numbered k prefix is F) closed"
    if "\<forall>i \<in> set is. reaches at A d k (numbered prefix i)" for "is"
    using that
  proof (induction "is" arbitrary: F)
    case (Cons i "is")
    have r: "reaches at A d k (numbered prefix i)" using Cons.prems by simp
    have "works view w A (F((k, numbered prefix i) \<mapsto> int_mem i)) closed (createn_loop (K w) d prefix dup is) (with_numbered k prefix (i # is) F) closed"
      using Cons by (simp add: with_numbered_def)
    then show ?case unfolding createn_loop.simps Let_def
      by (rule_tac works_creat [OF assms(1)] works_fds [OF assms(1)] | use r in \<open>simp add: prog_defs\<close>)+
  qed (simp add: works_Done with_numbered_def)
  then show ?thesis using assms(2) by (simp add: createn_def)
qed

lemma works_checkn:
  assumes "posix_laws K view at" and "\<forall>i < nf. reaches at A d k (numbered prefix i) \<and> F (k, numbered prefix i) = Some (int_mem i)" and "nf < 2 ^ 32"
  shows "works view w A F closed (checkn (K w) d prefix nf) F closed"
proof -
  have "works view w A F closed (checkn_loop (K w) d prefix is) F closed" if "set is \<subseteq> {..<nf}" for "is"
    using that
  proof (induction "is")
    case (Cons i "is")
    have r: "reaches at A d k (numbered prefix i)" "F (k, numbered prefix i) = Some (int_mem i)" "i < 2 ^ 32" using Cons.prems assms(2,3) by auto
    have "works view w A F closed (checkn_loop (K w) d prefix is) F closed" using Cons by simp
    then show ?case unfolding checkn_loop.simps
      by (rule_tac works_open [OF assms(1)] works_read_fd [OF assms(1), where c = "int_mem i"] works_fds(3) [OF assms(1)] |
          use r in \<open>simp add: prog_defs\<close>)+
  qed (simp add: works_Done)
  from this [of "[0..<nf]"] show ?thesis by (simp add: checkn_def lessThan_atLeast0)
qed

lemma works_unlinkn:
  assumes "posix_laws K view at" and "\<forall>i < nf. reaches at A d k (numbered prefix i) \<and> F (k, numbered prefix i) \<noteq> None"
  shows "works view w A F closed (unlinkn (K w) d prefix nf) (without_numbered k prefix [0..<nf] F) closed"
proof -
  have "works view w A F closed (unlinkn_loop (K w) d prefix is) (without_numbered k prefix is F) closed"
    if "\<forall>i \<in> set is. reaches at A d k (numbered prefix i) \<and> F (k, numbered prefix i) \<noteq> None" "distinct is" for "is"
    using that
  proof (induction "is" arbitrary: F)
    case (Cons i "is")
    have "works view w A (F((k, numbered prefix i) := None)) closed (unlinkn_loop (K w) d prefix is) (without_numbered k prefix (i # is) F) closed"
      unfolding without_numbered_def foldl.simps using Cons.prems by (intro Cons.IH [unfolded without_numbered_def]) auto
    then show ?case unfolding unlinkn_loop.simps
      by (rule_tac works_unlink [OF assms(1)] | use Cons.prems in \<open>simp add: prog_defs\<close>)+
  qed (simp add: works_Done without_numbered_def)
  from this [of "[0..<nf]"] show ?thesis using assms(2) by (simp add: unlinkn_def)
qed

text \<open>Reading one character at a time.\<close>

lemma works_checkread_loop:
  assumes "posix_laws K view at" and "x \<in> A" and "F x = Some c" and "take n (drop off c) = replicate n ch"
    and "works view w A F (D(fd \<mapsto> (x, off + n, False))) q F' D'"
  shows "works view w A F (D(fd \<mapsto> (x, off, False))) (checkread_loop (K w) fd ch n q) F' D'"
  using assms(4,5)
proof (induction n arbitrary: off)
  case (Suc n)
  obtain ys where y: "drop off c = ch # ys" "take n ys = replicate n ch" using Suc.prems(1) by (cases "drop off c") auto
  have "drop (Suc off) c = ys" using arg_cong [OF y(1), of tl] by (simp add: drop_Suc tl_drop)
  then have ih: "works view w A F (D(fd \<mapsto> (x, Suc off, False))) (checkread_loop (K w) fd ch n q) F' D'"
    using Suc.prems(2) y(2) by (intro Suc.IH) simp_all
  have t: "take 1 (drop off c) = [ch]" by (simp add: y(1))
  show ?case unfolding checkread_loop.simps
    by (rule works_read_fd [where F = F and x = x, OF assms(1-3)]) (use ih in \<open>simp add: t [simplified] need_def cur_def y(1)\<close>)
qed simp

lemma works_checkread:
  assumes "posix_laws K view at" and "reaches at A d k f" and "F (k, f) = Some c" and "take n (drop start c) = replicate n ch"
  shows "works view w A F closed (checkread (K w) d f start n ch) F closed"
  unfolding checkread_def
  by (rule works_open [OF assms(1)] works_fds(5) [OF assms(1)] works_checkread_loop [where x = "(k, f)" and F = F, OF assms(1) _ assms(3,4)]
        works_fds(3) [OF assms(1)] works_Done |
      use assms(2,3) in \<open>simp add: prog_defs\<close>)+

text \<open>Names.\<close>

lemma plain_numbered [simp]: "prefix \<noteq> [] \<Longrightarrow> plain_name prefix \<Longrightarrow> plain_name (numbered prefix i)"
  using show_nat_digits [of i] by (auto simp: plain_name_def numbered_def is_digit_def)

lemma plain_listed: "plain_name f \<Longrightarrow> listed f"
  by (cases f) (simp_all add: plain_name_def listed_def cur_def)

lemma reachesI: "at d = Some k \<Longrightarrow> (k, f) \<in> A \<Longrightarrow> plain_name f \<Longrightarrow> length d + length f < 511 \<Longrightarrow> reaches at A d k f"
  by (simp add: reaches_def path_of_def)

lemma with_numbered_apply:
  "with_numbered k prefix is F x = (if x \<in> (\<lambda>i. (k, numbered prefix i)) ` set is then Some (int_mem (THE i. snd x = numbered prefix i)) else F x)"
  unfolding with_numbered_def by (induction "is" arbitrary: F) auto

lemma without_numbered_apply:
  "without_numbered k prefix is F x = (if x \<in> (\<lambda>i. (k, numbered prefix i)) ` set is then None else F x)"
  unfolding without_numbered_def by (induction "is" arbitrary: F) auto

lemma length_show_nat_100: "i < 100 \<Longrightarrow> length (show_nat i) \<le> 2"
proof -
  assume "i < 100"
  then have "i div 10 < 10" by linarith
  then show ?thesis by (simp add: show_nat.simps [of i] show_nat.simps [of "i div 10"])
qed

lemma reaches_numbered:
  assumes "at d = Some k" and "length d < 490" and "plain_name prefix" and "length prefix < 8" and "i < 100" and "(k, numbered prefix i) \<in> A"
  shows "reaches at A d k (numbered prefix i)"
proof (rule reachesI [where at = at, OF assms(1,6)])
  show "plain_name (numbered prefix i)" using assms(3) by (intro plain_numbered) (auto simp: plain_name_def)
  show "length d + length (numbered prefix i) < 511" using assms(2,4) length_show_nat_100 [OF assms(5)] by (simp add: numbered_def)
qed

end
