(* ===== verification/Fork_Tests.thy ===== *)
theory Fork_Tests
  imports Lab_Tests
begin

text \<open>
  The test programs of \<open>Lab_Tests\<close> pass in every schedule of their processes. Where a parent and its child work on different files, the
  triples of \<open>Lab_Tests\<close> are put together (\<open>does_forked\<close>); where both create the same files, and where both write to one file, each
  has a rely of its own: an empty file is about to be written by a process that has it open, and nobody changes the
  other's part of the file.
\<close>

section \<open>Files of numbered groups\<close>

text \<open>The files of the prefixes \<open>ps\<close>, numbered from 0 to \<open>n - 1\<close>, in directory \<open>k\<close>. All prefixes have two characters.\<close>

definition prefixes :: "string set" where
  "prefixes = {''aa'', ''bb'', ''xx'', ''yy'', ''zz'', ''x1'', ''x2'', ''x3'', ''x4''}"

definition names_of :: "string set \<Rightarrow> nat \<Rightarrow> string set" where
  "names_of ps n = (\<Union>p \<in> ps. numbered p ` {..<n})"

definition groups :: "string \<Rightarrow> string set \<Rightarrow> nat \<Rightarrow> files" where
  "groups k ps n x = (if fst x = k \<and> snd x \<in> names_of ps n then Some (int_mem (digits_val (drop 3 (snd x)))) else None)"

lemma prefix_facts: "p \<in> prefixes \<Longrightarrow> plain_name p \<and> length p = 2"
  by (auto simp: prefixes_def plain_name_def)

lemma numbered_eq: "length p = length q \<Longrightarrow> numbered p i = numbered q j \<longleftrightarrow> p = q \<and> i = j"
  using numbered_inject [of p i j] by (auto simp: numbered_def)

lemma numbered_eq_prefixes [simp]: "p \<in> prefixes \<Longrightarrow> q \<in> prefixes \<Longrightarrow> numbered p i = numbered q j \<longleftrightarrow> p = q \<and> i = j"
  by (simp add: numbered_eq prefix_facts)

lemma in_names_of: "ps \<subseteq> prefixes \<Longrightarrow> p \<in> prefixes \<Longrightarrow> numbered p i \<in> names_of ps n \<longleftrightarrow> p \<in> ps \<and> i < n"
  by (auto simp: names_of_def subset_iff)

lemma groups_numbered:
  assumes "ps \<subseteq> prefixes" and "p \<in> prefixes"
  shows "groups k ps n (k, numbered p i) = (if p \<in> ps \<and> i < n then Some (int_mem i) else None)"
proof -
  have "drop 3 (numbered p i) = show_nat i" using prefix_facts [OF assms(2)] by (simp add: numbered_def numeral_3_eq_3)
  then show ?thesis using in_names_of [OF assms] by (simp add: groups_def digits_val_show)
qed

lemma groups_none: "snd x \<notin> names_of ps n \<Longrightarrow> groups k ps n x = None"
  by (simp add: groups_def)

lemma groups_empty: "groups k {} n = (\<lambda>_. None)"
  by (simp add: groups_def names_of_def fun_eq_iff)

lemma names_of_insert: "names_of (insert p ps) n = numbered p ` {..<n} \<union> names_of ps n"
  by (simp add: names_of_def)

lemma with_groups:
  assumes "ps \<subseteq> prefixes" and "p \<in> prefixes"
  shows "with_numbered k p [0..<n] (groups k ps n) = groups k (insert p ps) n"
proof
  fix x
  show "with_numbered k p [0..<n] (groups k ps n) x = groups k (insert p ps) n x"
  proof (cases "x \<in> (\<lambda>i. (k, numbered p i)) ` set [0..<n]")
    case True
    then obtain i where "i < n" "x = (k, numbered p i)" by auto
    then show ?thesis using groups_numbered [of "insert p ps" p] assms by (simp add: with_numbered_apply)
  next
    case False
    then show ?thesis by (cases x) (auto simp: with_numbered_apply groups_def names_of_insert)
  qed
qed

lemma without_groups:
  assumes "ps \<subseteq> prefixes" and "p \<in> ps"
  shows "without_numbered k p [0..<n] (groups k ps n) = groups k (ps - {p}) n"
proof
  fix x
  show "without_numbered k p [0..<n] (groups k ps n) x = groups k (ps - {p}) n x"
  proof (cases "x \<in> (\<lambda>i. (k, numbered p i)) ` set [0..<n]")
    case True
    then obtain i where "i < n" "x = (k, numbered p i)" by auto
    then show ?thesis using groups_numbered [of "ps - {p}" p] assms by (auto simp: without_numbered_apply subset_iff)
  next
    case False
    then have "names_of ps n - numbered p ` {..<n} \<subseteq> names_of (ps - {p}) n" "names_of (ps - {p}) n \<subseteq> names_of ps n"
      by (auto simp: names_of_def)
    then show ?thesis using False by (cases x) (auto simp: without_numbered_apply groups_def)
  qed
qed

lemma entries_groups: "entries k (groups k ps n) = names_of ps n"
  by (auto simp: entries_def groups_def)

lemma names_of_facts:
  assumes "ps \<subseteq> prefixes"
  shows "finite (names_of ps n)" and "\<forall>f \<in> names_of ps n. listed f" and "card (names_of ps n) = n * card ps"
proof -
  have fin: "finite ps" using assms by (rule finite_subset) (simp add: prefixes_def)
  then show "finite (names_of ps n)" by (simp add: names_of_def)
  show "\<forall>f \<in> names_of ps n. listed f"
    using assms prefix_facts by (auto simp: names_of_def plain_name_def intro!: plain_listed plain_numbered)
  have "card (numbered p ` {..<n}) = n" for p by (subst card_image) (auto simp: inj_on_def)
  moreover have "card (names_of ps n) = (\<Sum>p \<in> ps. card (numbered p ` {..<n}))" unfolding names_of_def
    by (rule card_UN_disjoint) (use fin assms in \<open>auto simp: subset_iff\<close>)
  ultimately show "card (names_of ps n) = n * card ps" by simp
qed

section \<open>A directory with two names\<close>

definition two_names :: "'s kernel \<Rightarrow> ('s \<Rightarrow> vfs) \<Rightarrow> (string \<Rightarrow> string option) \<Rightarrow> string \<Rightarrow> string \<Rightarrow> string \<Rightarrow> bool" where
  "two_names K view at k d1 d2 \<longleftrightarrow> posix_laws K view at \<and> at d1 = Some k \<and> at d2 = Some k \<and> length d1 < 490 \<and> length d2 < 490"

abbreviation dir :: "string \<Rightarrow> fname set" where
  "dir k \<equiv> {k} \<times> UNIV"

lemma two_reaches:
  assumes "two_names K view at k d1 d2" and "d \<in> {d1, d2}" and "plain_name f" and "length f < 20" and "(k, f) \<in> A"
  shows "reaches at A d k f"
  using assms by (auto simp: two_names_def intro!: reachesI)

lemma two_reaches_numbered:
  assumes "two_names K view at k d1 d2" and "d \<in> {d1, d2}" and "p \<in> prefixes" and "n \<le> 100" and "\<forall>i < n. (k, numbered p i) \<in> A"
  shows "\<forall>i < n. reaches at A d k (numbered p i)"
  using assms prefix_facts [OF assms(3)] by (auto simp: two_names_def intro!: reaches_numbered)

text \<open>The tests of one process on numbered files, by the prefixes that are there.\<close>

lemma two_laws: "two_names K view at k d1 d2 \<Longrightarrow> posix_laws K view at"
  by (simp add: two_names_def)

lemma grp_createn:
  assumes "two_names K view at k d1 d2" and "d \<in> {d1, d2}" and "p \<in> prefixes" and "ps \<subseteq> prefixes" and "n \<le> 100"
    and "\<forall>i < n. (k, numbered p i) \<in> A"
  shows "works view w A (groups k ps n) closed (createn (K w) d p n dup) (groups k (insert p ps) n) closed"
  using works_createn [OF two_laws [OF assms(1)] two_reaches_numbered [OF assms(1-3,5,6)], where F = "groups k ps n"]
    with_groups [OF assms(4,3)] by simp

lemma grp_checkn:
  assumes "two_names K view at k d1 d2" and "d \<in> {d1, d2}" and "p \<in> ps" and "ps \<subseteq> prefixes" and "n \<le> 100"
    and "\<forall>i < n. (k, numbered p i) \<in> A"
  shows "works view w A (groups k ps n) closed (checkn (K w) d p n) (groups k ps n) closed"
proof -
  have p: "p \<in> prefixes" using assms(3,4) by blast
  show ?thesis
    by (rule works_checkn [OF two_laws [OF assms(1)], where k = k])
      (use two_reaches_numbered [OF assms(1,2) p assms(5,6)] groups_numbered [OF assms(4) p] assms(3,5) in simp_all)
qed

lemma grp_unlinkn:
  assumes "two_names K view at k d1 d2" and "d \<in> {d1, d2}" and "p \<in> ps" and "ps \<subseteq> prefixes" and "n \<le> 100"
    and "\<forall>i < n. (k, numbered p i) \<in> A"
  shows "works view w A (groups k ps n) closed (unlinkn (K w) d p n) (groups k (ps - {p}) n) closed"
proof -
  have p: "p \<in> prefixes" using assms(3,4) by blast
  have "\<forall>i < n. reaches at A d k (numbered p i) \<and> groups k ps n (k, numbered p i) \<noteq> None"
    using two_reaches_numbered [OF assms(1,2) p assms(5,6)] groups_numbered [OF assms(4) p] assms(3) by simp
  from works_unlinkn [OF two_laws [OF assms(1)] this] without_groups [OF assms(4,3)] show ?thesis by simp
qed

lemma grp_dircheck:
  assumes "two_names K view at k d1 d2" and "d \<in> {d1, d2}" and "ps \<subseteq> prefixes" and "n * card ps = m" and "m \<le> 1000"
  shows "works view w (dir k) (groups k ps n) closed (dircheck (K w) d m) (groups k ps n) closed"
  by (rule works_dircheck [OF two_laws [OF assms(1)], where k = k])
    (use assms names_of_facts [OF assms(3), of n] in \<open>auto simp: two_names_def entries_groups\<close>)

lemmas grp_works = grp_createn grp_checkn grp_unlinkn grp_dircheck

section \<open>The tests of one process\<close>

lemmas works_one = works_create1 works_append1 works_check1 works_unlink1 works_checknot works_dircheck

lemma entries_upd [simp]:
  "entries k (F((k, f) \<mapsto> c)) = insert f (entries k F)" "entries k (F((k, f) := None)) = entries k F - {f}" "entries k (\<lambda>_. None) = {}"
  by (auto simp: entries_def)

lemma groups_pass:
  assumes two: "two_names K view at k d1 d2"
  shows "works view w (dir k) (\<lambda>_. None) closed (b_create_read (K w) d1 d2) [(k, ''f1'') \<mapsto> ''aaa''] closed"
    and "works view w (dir k) [(k, ''f1'') \<mapsto> ''aaa''] closed (b_unlink (K w) d1 d2) (\<lambda>_. None) closed"
    and "works view w (dir k) (\<lambda>_. None) closed (b_append (K w) d1 d2) [(k, ''f1'') \<mapsto> ''aaabbbccc''] closed"
    and "works view w (dir k) [(k, ''f1'') \<mapsto> ''aaabbbccc''] closed (b_readdir (K w) d1 d2) (\<lambda>_. None) closed"
    and "works view w (dir k) (\<lambda>_. None) closed (b_big (K w) d1 d2) (\<lambda>_. None) closed"
proof -
  have at: "at d1 = Some k" "at d2 = Some k" using two by (simp_all add: two_names_def)
  show "works view w (dir k) (\<lambda>_. None) closed (b_create_read (K w) d1 d2) [(k, ''f1'') \<mapsto> ''aaa''] closed"
    and "works view w (dir k) [(k, ''f1'') \<mapsto> ''aaa''] closed (b_unlink (K w) d1 d2) (\<lambda>_. None) closed"
    and "works view w (dir k) (\<lambda>_. None) closed (b_append (K w) d1 d2) [(k, ''f1'') \<mapsto> ''aaabbbccc''] closed"
    and "works view w (dir k) [(k, ''f1'') \<mapsto> ''aaabbbccc''] closed (b_readdir (K w) d1 d2) (\<lambda>_. None) closed"
    and "works view w (dir k) (\<lambda>_. None) closed (b_big (K w) d1 d2) (\<lambda>_. None) closed"
    unfolding b_create_read_def b_unlink_def b_append_def b_readdir_def b_big_def
    by (rule works_Cons works_Nil works_one [OF two_laws [OF two]] two_reaches [OF two] at |
        simp add: plain_name_def listed_def cur_def big_def)+
qed

lemma b_many_passes:
  assumes two: "two_names K view at k d1 d2"
  shows "works view w (dir k) (\<lambda>_. None) closed (b_many (K w) d1 d2) (\<lambda>_. None) closed"
  unfolding b_many_def groups_empty [of k 10, symmetric]
  by (rule works_Cons works_Nil grp_works [OF two] | simp add: prefixes_def insert_Diff_if)+

section \<open>Two processes on different files\<close>

lemma does_forked_sat:
  assumes law: "posix_laws K view at"
    and inter: "interference Rp" "interference Rc" "\<And>s s'. Gp s s' \<Longrightarrow> Rc s s'" "\<And>s s'. Gc s s' \<Longrightarrow> Rp s s'"
    and both: "\<And>s. X' s \<Longrightarrow> sat Rp Gp Yp p s" "\<And>s. X' s \<Longrightarrow> sat Rc Gc Yc c s" "\<And>s. Yp s \<Longrightarrow> Yc s \<Longrightarrow> Y s"
    and fork: "\<And>s s'. X s \<Longrightarrow> view s' = (view s)\<lparr>vf_fds := (vf_fds (view s))(Child := vf_fds (view s) Parent)\<rparr> \<Longrightarrow> X' s'"
  shows "does X (forked K c p) Y"
  unfolding forked_def
proof (rule does_sys)
  fix s assume "X s"
  have "0 < fst (px_fork (K Parent) s)"
    "view (snd (px_fork (K Parent) s)) = (view s)\<lparr>vf_fds := (vf_fds (view s))(Child := vf_fds (view s) Parent)\<rparr>"
    using law by (auto simp: posix_laws_def fork_law_def case_prod_beta)
  then have "0 < fst (px_fork (K Parent) s)" "X' (snd (px_fork (K Parent) s))" using fork [OF \<open>X s\<close>] by blast+
  moreover have "does X' (Fork c (andthen p (Reap Done))) Y" by (rule does_fork [OF inter both])
  ultimately show "does (\<lambda>t. t = snd (px_fork (K Parent) s)) (need (\<not> fst (px_fork (K Parent) s) < 0) (Fork c (andthen p (Reap Done)))) Y"
    by (auto simp: need_def intro: does_weaken)
qed

lemma does_forked:
  assumes "posix_laws K view at" and w: "works view Parent Ap F closed p Fp closed" "works view Child Ac F closed c Fc closed"
    and A: "Ac \<inter> Ap = {}" "A = Ac \<union> Ap" and F': "\<And>x. x \<in> A \<Longrightarrow> F' x = (if x \<in> Ac then Fc x else Fp x)"
  shows "does (own view Parent A F closed) (forked K c p) (own view Parent A F' closed)"
proof (rule does_forked_sat [OF assms(1)])
  show "interference (rely view Parent Ap)" "interference (rely view Child Ac)" by (rule disjoint_work.interference_axioms)+
  show "rely view Child Ac s s'" if "guar view Parent Ap s s'" for s s' by (rule guar_rely [OF that]) (use A(1) in auto)
  show "rely view Parent Ap s s'" if "guar view Child Ac s s'" for s s' by (rule guar_rely [OF that]) (use A(1) in auto)
  let ?X = "\<lambda>s. own view Parent Ap F closed s \<and> own view Child Ac F closed s"
  show "sat (rely view Parent Ap) (guar view Parent Ap) (own view Parent Ap Fp closed) p s" if "?X s" for s
    using that w(1) by (simp add: works_def)
  show "sat (rely view Child Ac) (guar view Child Ac) (own view Child Ac Fc closed) c s" if "?X s" for s
    using that w(2) by (simp add: works_def)
  show "own view Parent A F' closed s" if "own view Parent Ap Fp closed s" "own view Child Ac Fc closed s" for s
    using that A F' by (auto simp: own_def)
  show "?X s'" if "own view Parent A F closed s" "view s' = (view s)\<lparr>vf_fds := (vf_fds (view s))(Child := vf_fds (view s) Parent)\<rparr>" for s s'
    using that A(2) by (auto simp: own_def)
qed

lemma names_apart:
  assumes "ps \<subseteq> prefixes" and "p \<in> prefixes" and "p \<notin> ps"
  shows "\<forall>i < n. (k, numbered p i) \<in> dir k - {k} \<times> names_of ps n"
  using in_names_of [OF assms(1,2)] assms(3) by auto

lemma names_in: "p \<in> ps \<Longrightarrow> \<forall>i < n. (k, numbered p i) \<in> {k} \<times> names_of ps n"
  by (auto simp: names_of_def)

text \<open>On its own files \<open>{k} \<times> names_of ps n\<close> only the groups \<open>ps\<close> matter.\<close>

lemma groups_inside:
  assumes "x \<in> {k} \<times> names_of ps n" and "ps \<subseteq> prefixes" and "qs \<subseteq> prefixes" and "rs \<subseteq> prefixes" and "qs \<inter> ps = rs \<inter> ps"
  shows "groups k qs n x = groups k rs n x"
proof -
  obtain p i where p: "x = (k, numbered p i)" "p \<in> ps" using assms(1) by (auto simp: names_of_def)
  then have "p \<in> prefixes" "p \<in> qs \<longleftrightarrow> p \<in> rs" using assms(2,5) by blast+
  then show ?thesis using p(1) groups_numbered [OF assms(3), of p] groups_numbered [OF assms(4), of p] by simp
qed

lemma groups_outside:
  assumes "x \<notin> {k} \<times> names_of ps n" and "qs - ps = rs - ps"
  shows "groups k qs n x = groups k rs n x"
proof -
  have "snd x \<in> names_of qs n \<longleftrightarrow> snd x \<in> names_of rs n" if "fst x = k"
    using assms that by (cases x) (auto simp: names_of_def)
  then show ?thesis by (auto simp: groups_def)
qed

lemma does_forked_groups:
  assumes two: "two_names K view at k d1 d2"
    and w: "works view Parent (dir k - {k} \<times> names_of cs n) (groups k ps n) closed p (groups k qs n) closed"
      "works view Child ({k} \<times> names_of cs n) (groups k ps n) closed c (groups k rs n) closed"
    and sub: "cs \<subseteq> prefixes" "qs \<subseteq> prefixes" "rs \<subseteq> prefixes" and ts: "ts = rs \<inter> cs \<union> (qs - cs)"
  shows "does (own view Parent (dir k) (groups k ps n) closed) (forked K c p)
    (own view Parent (dir k) (groups k ts n) closed)"
proof (rule does_forked [OF two_laws [OF two] w])
  fix x assume "x \<in> dir k"
  have "groups k ts n x = groups k rs n x" if "x \<in> {k} \<times> names_of cs n"
    by (rule groups_inside [OF that]) (use sub ts in auto)
  moreover have "groups k ts n x = groups k qs n x" if "x \<notin> {k} \<times> names_of cs n"
    by (rule groups_outside [OF that]) (use ts in auto)
  ultimately show "groups k ts n x = (if x \<in> {k} \<times> names_of cs n then groups k rs n x else groups k qs n x)" by simp
qed auto

text \<open>The tests of concurrent creation and of concurrent creation and removal.\<close>

lemma b_creates_passes:
  assumes two: "two_names K view at k d1 d2"
  shows "does (own view Parent (dir k) (\<lambda>_. None) closed) (b_creates K d1 d2) (own view Parent (dir k) (\<lambda>_. None) closed)"
proof -
  have "works view Parent (dir k - {k} \<times> names_of {''xx''} 20) (groups k {} 20) closed (createn (K Parent) d1 ''yy'' 20 False) (groups k {''yy''} 20) closed"
    by (rule grp_createn [OF two]) (use names_apart [of "{''xx''}" "''yy''" 20 k] in \<open>simp_all add: prefixes_def\<close>)
  moreover have "works view Child ({k} \<times> names_of {''xx''} 20) (groups k {} 20) closed (createn (K Child) d2 ''xx'' 20 False) (groups k {''xx''} 20) closed"
    by (rule grp_createn [OF two]) (use names_in [of "''xx''" "{''xx''}" 20 k] in \<open>simp_all add: prefixes_def\<close>)
  ultimately have "does (own view Parent (dir k) (groups k {} 20) closed)
      (forked K (createn (K Child) d2 ''xx'' 20 False) (createn (K Parent) d1 ''yy'' 20 False))
      (own view Parent (dir k) (groups k {''xx'', ''yy''} 20) closed)"
    by (rule does_forked_groups [OF two]) (auto simp: prefixes_def)
  then show ?thesis unfolding b_creates_def Let_def groups_empty [of k 20, symmetric]
    by (rule does_Cons) (rule works_does works_Cons works_Nil grp_works [OF two] | simp add: prefixes_def insert_Diff_if)+
qed

lemma b_create_delete_passes:
  assumes two: "two_names K view at k d1 d2"
  shows "does (own view Parent (dir k) (\<lambda>_. None) closed) (b_create_delete K d1 d2) (own view Parent (dir k) (\<lambda>_. None) closed)"
proof -
  let ?c = "{''x1'', ''x3''}"
  have "works view Parent (dir k - {k} \<times> names_of ?c 20) (groups k {''x2'', ''x1''} 20) closed (createn (K Parent) d1 ''x4'' 20 False)
      (groups k {''x4'', ''x2'', ''x1''} 20) closed"
    by (rule grp_createn [OF two]) (use names_apart [of ?c "''x4''" 20 k] in \<open>simp_all add: prefixes_def\<close>)
  moreover have "works view Child ({k} \<times> names_of ?c 20) (groups k {''x2'', ''x1''} 20) closed
      (seq [unlinkn (K Child) d2 ''x1'' 20, createn (K Child) d1 ''x3'' 20 False]) (groups k {''x3'', ''x2''} 20) closed"
    by (rule works_Cons works_Nil grp_works [OF two] names_in | simp add: prefixes_def insert_Diff_if)+
  ultimately have f: "does (own view Parent (dir k) (groups k {''x2'', ''x1''} 20) closed)
      (forked K (seq [unlinkn (K Child) d2 ''x1'' 20, createn (K Child) d1 ''x3'' 20 False]) (createn (K Parent) d1 ''x4'' 20 False))
      (own view Parent (dir k) (groups k {''x3'', ''x4'', ''x2''} 20) closed)"
    by (rule does_forked_groups [OF two]) (auto simp: prefixes_def)
  have a: "works view Parent (dir k) (groups k {} 20) closed (createn (K Parent) d1 ''x1'' 20 False) (groups k {''x1''} 20) closed"
    by (rule grp_createn [OF two]) (simp_all add: prefixes_def)
  have a2: "works view Parent (dir k) (groups k {''x1''} 20) closed (createn (K Parent) d2 ''x2'' 20 False) (groups k {''x2'', ''x1''} 20) closed"
    by (rule grp_createn [OF two]) (simp_all add: prefixes_def)
  have b: "works view Parent (dir k) (groups k {''x3'', ''x4'', ''x2''} 20) closed
      (seq [unlinkn (K Parent) d2 ''x2'' 20, unlinkn (K Parent) d2 ''x4'' 20, unlinkn (K Parent) d2 ''x3'' 20, dircheck (K Parent) d1 0]) (groups k {} 20) closed"
    by (rule works_Cons works_Nil grp_works [OF two] | simp add: prefixes_def insert_Diff_if)+
  show ?thesis unfolding b_create_delete_def Let_def groups_empty [of k 20, symmetric]
    by (rule does_Cons [OF works_does [OF a]], rule does_Cons [OF works_does [OF a2]], rule does_Cons [OF f], rule works_does [OF b])
qed

section \<open>Two processes that create the same files\<close>

text \<open>
  Every file is missing, empty or complete, and an empty one is open at its start in a process, which is about to write it.
  Processes only make files complete or, on creation, empty.
\<close>

definition zfile :: "string \<Rightarrow> nat \<Rightarrow> fname" where
  "zfile k i = (k, numbered ''zz'' i)"

definition zinv :: "string \<Rightarrow> nat \<Rightarrow> vfs \<Rightarrow> bool" where
  "zinv k n v \<longleftrightarrow> (\<forall>i < n. vf_files v (zfile k i) \<in> {None, Some [], Some (int_mem i)} \<and>
     (vf_files v (zfile k i) = Some [] \<longrightarrow> (\<exists>w fd. vf_fds v w fd = Some (zfile k i, 0, False))))"

definition zrely :: "('s \<Rightarrow> vfs) \<Rightarrow> who \<Rightarrow> string \<Rightarrow> nat \<Rightarrow> 's \<Rightarrow> 's \<Rightarrow> bool" where
  "zrely view w k n s s' \<longleftrightarrow> vf_dirs (view s) \<subseteq> vf_dirs (view s') \<and> vf_fds (view s') w = vf_fds (view s) w \<and>
     (\<forall>x. x \<notin> zfile k ` {..<n} \<longrightarrow> vf_files (view s') x = vf_files (view s) x) \<and>
     (\<forall>x. vf_files (view s) x \<noteq> None \<longrightarrow> vf_files (view s') x \<noteq> None) \<and> (zinv k n (view s) \<longrightarrow> zinv k n (view s'))"

definition zguar :: "('s \<Rightarrow> vfs) \<Rightarrow> who \<Rightarrow> string \<Rightarrow> nat \<Rightarrow> 's \<Rightarrow> 's \<Rightarrow> bool" where
  "zguar view w k n s s' \<longleftrightarrow> (\<forall>u. u \<noteq> w \<longrightarrow> zrely view u k n s s')"

interpretation same_files: interference "zrely view w k n" for view w k n
  by unfold_locales (auto simp: zrely_def)

lemma zfile_inject [simp]: "zfile k i = zfile k j \<longleftrightarrow> i = j"
  by (simp add: zfile_def)

text \<open>\<open>zst view w k n m D\<close>: process \<open>w\<close> has created the first \<open>m\<close> files and has the descriptors \<open>D\<close>.\<close>

definition zst :: "('s \<Rightarrow> vfs) \<Rightarrow> who \<Rightarrow> string \<Rightarrow> nat \<Rightarrow> nat \<Rightarrow> fds \<Rightarrow> 's \<Rightarrow> bool" where
  "zst view w k n m D s \<longleftrightarrow> k \<in> vf_dirs (view s) \<and> zinv k n (view s) \<and> vf_fds (view s) w = D \<and>
     (\<forall>i < m. vf_files (view s) (zfile k i) \<noteq> None) \<and> (\<forall>x \<in> dir k. x \<notin> zfile k ` {..<n} \<longrightarrow> vf_files (view s) x = None)"

lemma zst_stable: "zst view w k n m D s \<Longrightarrow> zrely view w k n s s' \<Longrightarrow> zst view w k n m D s'"
  unfolding zst_def zrely_def by (metis subsetD)

lemma zguar_rely: "zguar view w k n s s' \<Longrightarrow> u \<noteq> w \<Longrightarrow> zrely view u k n s s'"
  by (simp add: zguar_def)

text \<open>The three calls for one file.\<close>

lemma wr_at_complete: "c \<in> {[], int_mem i} \<Longrightarrow> wr_at 0 (int_mem i) c = int_mem i"
  by (auto simp: wr_at_def)

lemma z_creat:
  assumes law: "posix_laws K view at" and "at d = Some k" and "plain_name (numbered ''zz'' m)" and "m < n" and z: "zst view w k n m closed s"
  defines "r \<equiv> px_creat (K w) (path_of d (numbered ''zz'' m)) s"
  shows "zguar view w k n s (snd r) \<and> 0 \<le> fst r \<and> zst view w k n (Suc m) (closed(fst r \<mapsto> (zfile k m, 0, False))) (snd r)"
proof -
  have "k \<in> vf_dirs (view s)" using z by (simp add: zst_def)
  note a = after_creat [OF law assms(2) this assms(3), of w, folded r_def]
  have inv: "zinv k n (view (snd r))" unfolding zinv_def
  proof (intro allI impI)
    fix i assume "i < n"
    have "\<exists>w fd. vf_fds (view (snd r)) w fd = Some (zfile k i, 0, False)" if e: "vf_files (view (snd r)) (zfile k i) = Some []"
    proof (cases "i = m")
      case True
      then show ?thesis by (intro exI [of _ w] exI [of _ "fst r"]) (simp add: a(2) zfile_def)
    next
      case False
      then obtain u fd where "vf_fds (view s) u fd = Some (zfile k i, 0, False)"
        using z e \<open>i < n\<close> by (auto simp: a(2) zst_def zinv_def zfile_def)
      moreover from this have "u \<noteq> w" using z by (auto simp: zst_def)
      ultimately show ?thesis by (intro exI [of _ u] exI [of _ fd]) (simp add: a(2))
    qed
    moreover have "vf_files (view (snd r)) (zfile k i) \<in> {None, Some [], Some (int_mem i)}"
      using z \<open>i < n\<close> by (auto simp: a(2) zst_def zinv_def zfile_def)
    ultimately show "vf_files (view (snd r)) (zfile k i) \<in> {None, Some [], Some (int_mem i)} \<and>
        (vf_files (view (snd r)) (zfile k i) = Some [] \<longrightarrow> (\<exists>w fd. vf_fds (view (snd r)) w fd = Some (zfile k i, 0, False)))" by blast
  qed
  then show ?thesis using z a assms(4) by (auto simp: zguar_def zrely_def zst_def zfile_def less_Suc_eq)
qed

lemma z_write:
  assumes law: "posix_laws K view at" and "m < n" and z: "zst view w k n (Suc m) (closed(fd \<mapsto> (zfile k m, 0, False))) s"
  defines "r \<equiv> px_write (K w) fd (int_mem m) s"
  shows "zguar view w k n s (snd r) \<and> fst r = 4 \<and> zst view w k n (Suc m) (closed(fd \<mapsto> (zfile k m, 4, False))) (snd r)"
proof -
  obtain c where c: "vf_files (view s) (zfile k m) = Some c" "c \<in> {[], int_mem m}"
    using z \<open>m < n\<close> unfolding zst_def zinv_def by (metis insertCI insertE lessI option.exhaust option.inject singletonD)
  have "vf_fds (view s) w fd = Some (zfile k m, 0, False)" using z by (simp add: zst_def)
  note a = after_write [OF law this c(1), of "int_mem m", folded r_def, simplified, unfolded wr_at_complete [OF c(2)]]
  have inv: "zinv k n (view (snd r))" unfolding zinv_def
  proof (intro allI impI)
    fix i assume "i < n"
    have "\<exists>w fd. vf_fds (view (snd r)) w fd = Some (zfile k i, 0, False)" if e: "vf_files (view (snd r)) (zfile k i) = Some []"
    proof -
      have "i \<noteq> m" using e by (auto simp: a(2) int_mem_def)
      then obtain u fd' where "vf_fds (view s) u fd' = Some (zfile k i, 0, False)"
        using z e \<open>i < n\<close> by (auto simp: a(2) zst_def zinv_def)
      moreover from this have "u \<noteq> w" using z \<open>i \<noteq> m\<close> by (auto simp: zst_def split: if_splits)
      ultimately show ?thesis by (intro exI [of _ u] exI [of _ fd']) (simp add: a(2))
    qed
    moreover have "vf_files (view (snd r)) (zfile k i) \<in> {None, Some [], Some (int_mem i)}"
      using z \<open>i < n\<close> by (auto simp: a(2) zst_def zinv_def)
    ultimately show "vf_files (view (snd r)) (zfile k i) \<in> {None, Some [], Some (int_mem i)} \<and>
        (vf_files (view (snd r)) (zfile k i) = Some [] \<longrightarrow> (\<exists>w fd. vf_fds (view (snd r)) w fd = Some (zfile k i, 0, False)))" by blast
  qed
  then show ?thesis using z a assms(2) by (auto simp: zguar_def zrely_def zst_def)
qed

lemma z_close:
  assumes law: "posix_laws K view at" and z: "zst view w k n m (closed(fd \<mapsto> (zfile k j, 4, False))) s"
  defines "r \<equiv> px_close (K w) fd s"
  shows "zguar view w k n s (snd r) \<and> fst r = 0 \<and> zst view w k n m closed (snd r)"
proof -
  have "vf_fds (view s) w fd = Some (zfile k j, 4, False)" using z by (simp add: zst_def)
  note a = after_fd(1,2) [OF law this, folded r_def]
  have "u \<noteq> w" if "vf_fds (view s) u fd' = Some (zfile k i, 0, False)" for u fd' i
    using that z by (auto simp: zst_def split: if_splits)
  then have "\<exists>u fd'. vf_fds (view (snd r)) u fd' = Some (zfile k i, 0, False)" if "\<exists>u fd'. vf_fds (view s) u fd' = Some (zfile k i, 0, False)" for i
    using that by (metis a(2) fun_upd_other set_fd_simps(3))
  moreover have "vf_files (view (snd r)) = vf_files (view s)" "zinv k n (view s)" using z by (simp_all add: a(2) zst_def)
  ultimately have "zinv k n (view (snd r))" unfolding zinv_def by metis
  then show ?thesis using z a by (auto simp: zguar_def zrely_def zst_def)
qed

lemma z_call:
  assumes "zst view w k n m D s"
    and "\<And>t. zst view w k n m D t \<Longrightarrow> zguar view w k n t (snd (call t)) \<and> ok (fst (call t)) \<and> zst view w k n m' (D' (fst (call t))) (snd (call t))"
    and "\<And>r t. ok r \<Longrightarrow> zst view w k n m' (D' r) t \<Longrightarrow> sat (zrely view w k n) (zguar view w k n) Q (q r) t"
  shows "sat (zrely view w k n) (zguar view w k n) Q (sys call q) s"
proof (rule same_files.sat_call [where X = "zst view w k n m D" and Y = "\<lambda>r t. ok r \<and> zst view w k n m' (D' r) t"])
  show "zst view w k n m D s'" if "zst view w k n m D s" "zrely view w k n s s'" for s s' using that by (rule zst_stable)
qed (use assms in blast)+

lemma z_createn:
  assumes law: "posix_laws K view at" and at: "at d = Some k" "length d < 490" and "n \<le> 100"
  shows "zst view w k n 0 closed s \<Longrightarrow> sat (zrely view w k n) (zguar view w k n) (zst view w k n n closed) (createn (K w) d ''zz'' n dup) s"
proof -
  let ?sat = "sat (zrely view w k n) (zguar view w k n) (zst view w k n n closed)"
  have loop: "?sat (createn_loop (K w) d ''zz'' dup [m..<n]) s" if "zst view w k n m closed s" "m \<le> n" for m s
    using that(2,1)
  proof (induction m arbitrary: s rule: inc_induct)
    case base
    then show ?case by (auto intro: sat_Done zst_stable)
  next
    case (step m)
    have pl: "plain_name ''zz''" by (simp add: plain_name_def)
    have r: "reaches at UNIV d k (numbered ''zz'' m)" using at step(2) assms(4) by (intro reaches_numbered) (auto simp: pl)
    then have f: "plain_name (numbered ''zz'' m)" "length (path_of d (numbered ''zz'' m)) < 512" by (simp_all add: reaches_def)
    let ?rest = "createn_loop (K w) d ''zz'' dup [Suc m..<n]"
    have close: "?sat (sys (px_close (K w) fd) (\<lambda>r. need (r = 0) ?rest)) t"
      if "zst view w k n (Suc m) (closed(fd \<mapsto> (zfile k m, 4, False))) t" for fd t
      by (rule z_call [where ok = "\<lambda>r. r = 0" and D' = "\<lambda>_. closed", OF that z_close [OF law]]) (auto simp: need_def step.IH)
    have wr: "?sat (sys (px_write (K w) fd (int_mem m)) (\<lambda>r. need (r = 4) (sys (px_close (K w) fd) (\<lambda>r. need (r = 0) ?rest)))) t"
      if "zst view w k n (Suc m) (closed(fd \<mapsto> (zfile k m, 0, False))) t" for fd t
      by (rule z_call [where ok = "\<lambda>r. r = 4" and D' = "\<lambda>_. closed(fd \<mapsto> (zfile k m, 4, False))", OF that z_write [OF law step(2)]]) (auto simp: need_def intro: close [unfolded need_def])
    show ?case unfolding upt_conv_Cons [OF step(2)] createn_loop.simps sprintf512_def Let_def if_P [OF f(2)]
      by (rule z_call [where ok = "\<lambda>fd. 0 \<le> fd" and D' = "\<lambda>fd. closed(fd \<mapsto> (zfile k m, 0, False))",
            OF step.prems z_creat [OF law at(1) f(1) step(2)]]) (auto simp: need_def intro: wr [unfolded need_def])
  qed
  then show "zst view w k n 0 closed s \<Longrightarrow> ?sat (createn (K w) d ''zz'' n dup) s" by (simp add: createn_def)
qed

text \<open>Once a process has created all files, the directory lists them all, whatever the other process does.\<close>

lemma z_entries:
  assumes "zst view w k n n D s"
  shows "entries k (vf_files (view s)) = names_of {''zz''} n"
  using assms by (auto simp: zst_def entries_def names_of_def zfile_def)

lemma z_dircheck:
  assumes law: "posix_laws K view at" and at: "at d = Some k" and n: "n \<le> 100" and z: "zst view w k n n closed s"
  shows "sat (zrely view w k n) (zguar view w k n) (zst view w k n n closed) (dircheck (K w) d n) s"
  unfolding dircheck_eq
proof (rule same_files.sat_sysI)
  fix s' assume "zrely view w k n s s'"
  then have z': "zst view w k n n closed s'" by (rule zst_stable [OF z])
  then have k: "k \<in> vf_dirs (view s')" by (simp add: zst_def)
  have zz: "{''zz''} \<subseteq> prefixes" by (simp add: prefixes_def)
  obtain es s2 where e: "px_readdir (K w) d s' = (Some es, s2)" "view s2 = view s'" "distinct (filter listed es)"
      "length (filter listed es) = card (entries k (vf_files (view s')))"
    by (rule readdir_listed [OF law at k, where w = w]) (use names_of_facts(1,2) [OF zz] z_entries [OF z'] in simp_all)
  have "length (filter listed es) = n" using e(4) names_of_facts(3) [OF zz, of n] z_entries [OF z'] by simp
  moreover have "zst view w k n n closed s2" "zguar view w k n s' s2" using z' e(2) by (simp_all add: zst_def zguar_def zrely_def)
  ultimately show "zguar view w k n s' (snd (px_readdir (K w) d s')) \<and>
      sat (zrely view w k n) (zguar view w k n) (zst view w k n n closed)
       (case fst (px_readdir (K w) d s') of None \<Rightarrow> Failed Exit_failure | Some es \<Rightarrow>
          if length (filter listed es) > 1000 then Failed Bad_access
          else need (length (filter listed es) = n \<and> distinct (filter listed es)) Done)
       (snd (px_readdir (K w) d s'))"
    using e(1,3) n by (auto simp: need_def intro!: sat_Done dest: zst_stable)
qed

text \<open>When both processes have closed their files, all files are complete.\<close>

lemma z_all_complete:
  assumes "zst view Parent k n n closed s" and "zst view Child k n n closed s"
  shows "own view Parent (dir k) (groups k {''zz''} n) closed s"
proof -
  have "vf_fds (view s) w fd = None" for w fd using assms by (cases w) (simp_all add: zst_def)
  then have c: "vf_files (view s) (zfile k i) = Some (int_mem i)" if "i < n" for i
    using assms(1) that unfolding zst_def zinv_def by (metis insertE option.distinct(1) singletonD)
  have "vf_files (view s) x = groups k {''zz''} n x" if "x \<in> dir k" for x
  proof (cases "x \<in> zfile k ` {..<n}")
    case True
    then obtain i where "i < n" "x = zfile k i" by auto
    moreover have "{''zz''} \<subseteq> prefixes" "''zz'' \<in> prefixes" by (simp_all add: prefixes_def)
    ultimately show ?thesis using c groups_numbered [of "{''zz''}" "''zz''" k n i] by (simp add: zfile_def)
  next
    case False
    then have "vf_files (view s) x = None" using assms(1) that by (auto simp: zst_def)
    moreover have "snd x \<notin> names_of {''zz''} n" using False that by (auto simp: names_of_def zfile_def)
    ultimately show ?thesis by (simp add: groups_none)
  qed
  then show ?thesis using assms(1) by (auto simp: own_def zst_def)
qed

lemma z_start:
  assumes "own view Parent (dir k) (\<lambda>_. None) closed s"
    and "view s' = (view s)\<lparr>vf_fds := (vf_fds (view s))(Child := vf_fds (view s) Parent)\<rparr>"
  shows "zst view w k n 0 closed s'"
proof -
  have "vf_files (view s') (k, f) = None" for f using assms by (simp add: own_def)
  then show ?thesis using assms by (cases w) (auto simp: zst_def zinv_def own_def zfile_def)
qed

lemma does_same_files:
  assumes law: "posix_laws K view at" and d: "at d1 = Some k" "length d1 < 490" "at d2 = Some k" "length d2 < 490" and n: "n \<le> 100"
  shows "does (own view Parent (dir k) (\<lambda>_. None) closed)
    (forked K (createn (K Child) d2 ''zz'' n True) (seq [createn (K Parent) d1 ''zz'' n True, dircheck (K Parent) d1 n]))
    (own view Parent (dir k) (groups k {''zz''} n) closed)"
proof (rule does_forked_sat [OF law])
  show "interference (zrely view Parent k n)" "interference (zrely view Child k n)" by (rule same_files.interference_axioms)+
  show "zrely view Child k n s s'" if "zguar view Parent k n s s'" for s s' using zguar_rely [OF that] by simp
  show "zrely view Parent k n s s'" if "zguar view Child k n s s'" for s s' using zguar_rely [OF that] by simp
  let ?X = "\<lambda>s. zst view Parent k n 0 closed s \<and> zst view Child k n 0 closed s"
  show "sat (zrely view Parent k n) (zguar view Parent k n) (zst view Parent k n n closed)
      (seq [createn (K Parent) d1 ''zz'' n True, dircheck (K Parent) d1 n]) s" if "?X s" for s
    using same_files.sat_andthen [OF z_createn [OF law d(1,2) n] z_dircheck [OF law d(1) n]] that by simp
  show "sat (zrely view Child k n) (zguar view Child k n) (zst view Child k n n closed) (createn (K Child) d2 ''zz'' n True) s"
    if "?X s" for s using z_createn [OF law d(3,4) n] that by blast
  show "?X s'" if "own view Parent (dir k) (\<lambda>_. None) closed s"
      "view s' = (view s)\<lparr>vf_fds := (vf_fds (view s))(Child := vf_fds (view s) Parent)\<rparr>" for s s'
    using z_start [OF that] by blast
qed (rule z_all_complete)

lemma same_files_pass:
  assumes two: "two_names K view at k d1 d2"
  shows "does (own view Parent (dir k) (\<lambda>_. None) closed) (b_same_file K d1 d2) (own view Parent (dir k) (\<lambda>_. None) closed)"
    and "does (own view Parent (dir k) (\<lambda>_. None) closed) (b_same_server K d1) (own view Parent (dir k) (\<lambda>_. None) closed)"
proof -
  have d: "at d1 = Some k" "length d1 < 490" "at d2 = Some k" "length d2 < 490" "(20 :: nat) \<le> 100" using two by (simp_all add: two_names_def)
  have w: "works view Parent (dir k) (groups k {''zz''} 20) closed
      (seq [checkn (K Parent) d1 ''zz'' 20, checkn (K Parent) d2 ''zz'' 20, unlinkn (K Parent) d1 ''zz'' 20]) (\<lambda>_. None) closed"
    "works view Parent (dir k) (groups k {''zz''} 20) closed
      (seq [checkn (K Parent) d1 ''zz'' 20, unlinkn (K Parent) d1 ''zz'' 20]) (\<lambda>_. None) closed"
    unfolding groups_empty [of k 20, symmetric]
    by (rule works_Cons works_Nil grp_works [OF two] | simp add: prefixes_def)+
  show "does (own view Parent (dir k) (\<lambda>_. None) closed) (b_same_file K d1 d2) (own view Parent (dir k) (\<lambda>_. None) closed)"
    unfolding b_same_file_def Let_def by (rule does_Cons [OF does_same_files [OF two_laws [OF two] d] works_does [OF w(1)]])
  show "does (own view Parent (dir k) (\<lambda>_. None) closed) (b_same_server K d1) (own view Parent (dir k) (\<lambda>_. None) closed)"
    unfolding b_same_server_def Let_def
    by (rule does_Cons [OF does_same_files [OF two_laws [OF two] d(1,2,1,2,5)] works_does [OF w(2)]])
qed

section \<open>Two processes that write to one file\<close>

text \<open>
  Process \<open>w\<close> writes 64 characters from \<open>lo\<close> on. It relies on the other leaving its part, the length of the file and all
  other files alone.
\<close>

definition prely :: "('s \<Rightarrow> vfs) \<Rightarrow> who \<Rightarrow> fname \<Rightarrow> nat \<Rightarrow> 's \<Rightarrow> 's \<Rightarrow> bool" where
  "prely view w x lo s s' \<longleftrightarrow> vf_dirs (view s) \<subseteq> vf_dirs (view s') \<and> vf_fds (view s') w = vf_fds (view s) w \<and>
     (\<forall>y. y \<noteq> x \<longrightarrow> vf_files (view s') y = vf_files (view s) y) \<and>
     (\<forall>c. vf_files (view s) x = Some c \<longrightarrow> (\<exists>c'. vf_files (view s') x = Some c' \<and> length c' = length c \<and>
        (\<forall>j. lo \<le> j \<and> j < lo + 64 \<longrightarrow> c' ! j = c ! j)))"

definition pguar :: "('s \<Rightarrow> vfs) \<Rightarrow> who \<Rightarrow> fname \<Rightarrow> nat \<Rightarrow> 's \<Rightarrow> 's \<Rightarrow> bool" where
  "pguar view w x lo s s' \<longleftrightarrow> vf_dirs (view s) \<subseteq> vf_dirs (view s') \<and> (\<forall>u. u \<noteq> w \<longrightarrow> vf_fds (view s') u = vf_fds (view s) u) \<and>
     (\<forall>y. y \<noteq> x \<longrightarrow> vf_files (view s') y = vf_files (view s) y) \<and>
     (\<forall>c. vf_files (view s) x = Some c \<longrightarrow> (\<exists>c'. vf_files (view s') x = Some c' \<and> length c' = length c \<and>
        (\<forall>j. j < lo \<or> lo + 64 \<le> j \<longrightarrow> c' ! j = c ! j)))"

lemma prely_trans: "prely view w x lo s s' \<Longrightarrow> prely view w x lo s' s'' \<Longrightarrow> prely view w x lo s s''"
  unfolding prely_def by (intro conjI) (simp_all add: subset_iff del: split_paired_All, metis)

interpretation file_parts: interference "prely view w x lo" for view w x lo
proof
  show "prely view w x lo s s" for s by (auto simp: prely_def)
qed (rule prely_trans)

lemma pguar_rely:
  assumes "pguar view w x lo s s'" and "u \<noteq> w" and "lo + 64 \<le> lo' \<or> lo' + 64 \<le> lo"
  shows "prely view u x lo' s s'"
proof -
  have apart: "j < lo \<or> lo + 64 \<le> j" if "lo' \<le> j \<and> j < lo' + 64" for j using assms(3) that by auto
  have "\<exists>c'. vf_files (view s') x = Some c' \<and> length c' = length c \<and> (\<forall>j. lo' \<le> j \<and> j < lo' + 64 \<longrightarrow> c' ! j = c ! j)"
    if "vf_files (view s) x = Some c" for c using assms(1) that apart unfolding pguar_def by blast
  then show ?thesis using assms(1,2) unfolding pguar_def prely_def by blast
qed

text \<open>\<open>part view w x lo N m ch D\<close>: the first \<open>m\<close> characters of the part are \<open>ch\<close>, and \<open>D\<close> are the descriptors.\<close>

definition part :: "('s \<Rightarrow> vfs) \<Rightarrow> who \<Rightarrow> fname \<Rightarrow> nat \<Rightarrow> nat \<Rightarrow> nat \<Rightarrow> char \<Rightarrow> fds \<Rightarrow> 's \<Rightarrow> bool" where
  "part view w x lo N m ch D s \<longleftrightarrow> fst x \<in> vf_dirs (view s) \<and> vf_fds (view s) w = D \<and>
     (\<forall>y \<in> dir (fst x). y \<noteq> x \<longrightarrow> vf_files (view s) y = None) \<and>
     (\<exists>c. vf_files (view s) x = Some c \<and> length c = N \<and> (\<forall>j < m. c ! (lo + j) = ch))"

lemma part_stable:
  assumes "m \<le> 64" and p: "part view w x lo N m ch D s" and r: "prely view w x lo s s'"
  shows "part view w x lo N m ch D s'"
proof -
  obtain c where c: "vf_files (view s) x = Some c" "length c = N" "\<forall>j < m. c ! (lo + j) = ch" using p unfolding part_def by blast
  with r obtain c' where c': "vf_files (view s') x = Some c'" "length c' = length c" "\<forall>j. lo \<le> j \<and> j < lo + 64 \<longrightarrow> c' ! j = c ! j"
    unfolding prely_def by blast
  then have "\<forall>j < m. c' ! (lo + j) = ch" using c(3) assms(1) by simp
  moreover have "vf_files (view s') y = None" if "y \<in> dir (fst x)" "y \<noteq> x" for y
  proof -
    have "vf_files (view s') y = vf_files (view s) y" using r that(2) unfolding prely_def by blast
    then show ?thesis using p that unfolding part_def by metis
  qed
  ultimately show ?thesis using p r c(2) c'(1,2) unfolding part_def prely_def by (simp add: subset_iff del: split_paired_All)
qed

lemma part_call:
  assumes "part view w x lo N m ch D s" and "m \<le> 64"
    and "\<And>t. part view w x lo N m ch D t \<Longrightarrow> pguar view w x lo t (snd (call t)) \<and> ok (fst (call t)) \<and> part view w x lo N m' ch (D' (fst (call t))) (snd (call t))"
    and "\<And>r t. ok r \<Longrightarrow> part view w x lo N m' ch (D' r) t \<Longrightarrow> sat (prely view w x lo) (pguar view w x lo) Q (q r) t"
  shows "sat (prely view w x lo) (pguar view w x lo) Q (sys call q) s"
proof (rule file_parts.sat_call [where X = "part view w x lo N m ch D" and Y = "\<lambda>r t. ok r \<and> part view w x lo N m' ch (D' r) t"])
  show "part view w x lo N m ch D s'" if "part view w x lo N m ch D s" "prely view w x lo s s'" for s s' using assms(2) that by (rule part_stable)
qed (use assms in blast)+

lemma p_open:
  assumes law: "posix_laws K view at" and "at d = Some k" and "plain_name f" and p: "part view w (k, f) lo N 0 ch closed s"
  defines "r \<equiv> px_open (K w) (path_of d f) {O_WRONLY, O_CREAT} s"
  shows "pguar view w (k, f) lo s (snd r) \<and> 0 \<le> fst r \<and> part view w (k, f) lo N 0 ch (closed(fst r \<mapsto> ((k, f), 0, False))) (snd r)"
proof -
  have "k \<in> vf_dirs (view s)" "vf_files (view s) (k, f) \<noteq> None" using p by (auto simp: part_def)
  note a = after_open [OF law assms(2) this(1) assms(3) this(2), of w "{O_WRONLY, O_CREAT}", folded r_def]
  show ?thesis using p a by (simp add: pguar_def part_def)
qed

lemma p_fd:
  assumes law: "posix_laws K view at" and p: "part view w x lo N m ch (closed(fd \<mapsto> (x, off, False))) s"
  shows "pguar view w x lo s (snd (px_lseek (K w) fd n s)) \<and> fst (px_lseek (K w) fd n s) = int n \<and>
      part view w x lo N m ch (closed(fd \<mapsto> (x, n, False))) (snd (px_lseek (K w) fd n s))"
    and "pguar view w x lo s (snd (px_fsync (K w) fd s)) \<and> fst (px_fsync (K w) fd s) = 0 \<and>
      part view w x lo N m ch (closed(fd \<mapsto> (x, off, False))) (snd (px_fsync (K w) fd s))"
    and "pguar view w x lo s (snd (px_close (K w) fd s)) \<and> fst (px_close (K w) fd s) = 0 \<and>
      part view w x lo N m ch closed (snd (px_close (K w) fd s))"
proof -
  have "vf_fds (view s) w fd = Some (x, off, False)" using p by (simp add: part_def)
  note a = after_fd [OF law this]
  show "pguar view w x lo s (snd (px_lseek (K w) fd n s)) \<and> fst (px_lseek (K w) fd n s) = int n \<and>
      part view w x lo N m ch (closed(fd \<mapsto> (x, n, False))) (snd (px_lseek (K w) fd n s))"
    using p by (simp add: pguar_def part_def a)
  show "pguar view w x lo s (snd (px_fsync (K w) fd s)) \<and> fst (px_fsync (K w) fd s) = 0 \<and>
      part view w x lo N m ch (closed(fd \<mapsto> (x, off, False))) (snd (px_fsync (K w) fd s))"
    using p by (simp add: pguar_def part_def a)
  show "pguar view w x lo s (snd (px_close (K w) fd s)) \<and> fst (px_close (K w) fd s) = 0 \<and>
      part view w x lo N m ch closed (snd (px_close (K w) fd s))"
    using p by (simp add: pguar_def part_def a)
qed

lemma wr_at_one: "off < length c \<Longrightarrow> wr_at off [ch] c = c[off := ch]"
  by (simp add: wr_at_def upd_conv_take_nth_drop)

lemma p_write:
  assumes law: "posix_laws K view at" and m: "m < 64" "lo + 64 \<le> N" and p: "part view w x lo N m ch (closed(fd \<mapsto> (x, lo + m, False))) s"
  defines "r \<equiv> px_write (K w) fd [ch] s"
  shows "pguar view w x lo s (snd r) \<and> fst r = 1 \<and> part view w x lo N (Suc m) ch (closed(fd \<mapsto> (x, lo + Suc m, False))) (snd r)"
proof -
  obtain c where c: "vf_files (view s) x = Some c" "length c = N" "\<forall>j < m. c ! (lo + j) = ch" using p by (auto simp: part_def)
  have "vf_fds (view s) w fd = Some (x, lo + m, False)" using p by (simp add: part_def)
  note a = after_write [OF law this c(1), of "[ch]", folded r_def]
  have w: "wr_at (if False then length c else lo + m) [ch] c = c[lo + m := ch]" using m c(2) by (simp add: wr_at_one)
  have "pguar view w x lo s (snd r)" unfolding pguar_def a w using m c by auto
  moreover have "part view w x lo N (Suc m) ch (closed(fd \<mapsto> (x, lo + Suc m, False))) (snd r)"
    unfolding part_def a w using p m c by (auto simp: part_def less_Suc_eq)
  ultimately show ?thesis using a(1) by simp
qed

lemma p_write1:
  assumes law: "posix_laws K view at" and r: "reaches at UNIV d k f" and lo: "lo + 64 \<le> N" and p: "part view w (k, f) lo N 0 ch closed s"
  shows "sat (prely view w (k, f) lo) (pguar view w (k, f) lo) (part view w (k, f) lo N 64 ch closed) (write1 (K w) d f lo 64 ch) s"
proof -
  let ?x = "(k, f)"
  let ?sat = "sat (prely view w ?x lo) (pguar view w ?x lo) (part view w ?x lo N 64 ch closed)"
  have f: "at d = Some k" "plain_name f" "length (path_of d f) < 512" using r by (simp_all add: reaches_def)
  have close: "?sat (sys (px_close (K w) fd) (\<lambda>r. need (r = 0) Done)) t" if "part view w ?x lo N 64 ch (closed(fd \<mapsto> (?x, lo + 64, False))) t" for fd t
    by (rule part_call [where ok = "\<lambda>r. r = 0" and D' = "\<lambda>_. closed", OF that order_refl p_fd(3) [OF law]])
      (auto simp: need_def intro!: sat_Done intro: part_stable)
  have loop: "?sat (write1_loop (K w) fd ch n (sys (px_close (K w) fd) (\<lambda>r. need (r = 0) Done))) t"
    if "part view w ?x lo N (64 - n) ch (closed(fd \<mapsto> (?x, lo + (64 - n), False))) t" "n \<le> 64" for fd n t
    using that
  proof (induction n arbitrary: t)
    case (Suc n)
    define m where "m = 64 - Suc n"
    have m: "m < 64" "m \<le> 64" "64 - n = Suc m" "Suc m \<le> 64" using Suc.prems(2) by (auto simp: m_def)
    have start: "part view w ?x lo N m ch (closed(fd \<mapsto> (?x, lo + m, False))) t" using Suc.prems(1) by (simp only: m_def)
    have ih: "?sat (write1_loop (K w) fd ch n (sys (px_close (K w) fd) (\<lambda>r. need (r = 0) Done))) t"
      if "part view w ?x lo N (Suc m) ch (closed(fd \<mapsto> (?x, lo + Suc m, False))) t" for t
    proof (rule Suc.IH)
      show "part view w ?x lo N (64 - n) ch (closed(fd \<mapsto> (?x, lo + (64 - n), False))) t" unfolding m(3) by (rule that)
    qed (use Suc.prems(2) in simp)
    have fs: "?sat (sys (px_fsync (K w) fd) (\<lambda>r. need (r = 0) (write1_loop (K w) fd ch n (sys (px_close (K w) fd) (\<lambda>r. need (r = 0) Done))))) t"
      if "part view w ?x lo N (Suc m) ch (closed(fd \<mapsto> (?x, lo + Suc m, False))) t" for t
      by (rule part_call [where ok = "\<lambda>r. r = 0" and D' = "\<lambda>_. closed(fd \<mapsto> (?x, lo + Suc m, False))", OF that m(4) p_fd(2) [OF law]])
        (auto simp: need_def intro: ih [unfolded need_def])
    show ?case unfolding write1_loop.simps
      by (rule part_call [where ok = "\<lambda>r. r = 1" and D' = "\<lambda>_. closed(fd \<mapsto> (?x, lo + Suc m, False))",
            OF start m(2) p_write [OF law m(1) lo]])
        (auto simp: need_def intro: fs [unfolded need_def])
  qed (use close in simp)
  have seek: "?sat (sys (px_lseek (K w) fd lo) (\<lambda>off. need (off = int lo)
      (write1_loop (K w) fd ch 64 (sys (px_close (K w) fd) (\<lambda>r. need (r = 0) Done))))) t"
    if "part view w ?x lo N 0 ch (closed(fd \<mapsto> (?x, 0, False))) t" for fd t
    by (rule part_call [where ok = "\<lambda>r. r = int lo" and D' = "\<lambda>_. closed(fd \<mapsto> (?x, lo, False))", OF that _ p_fd(1) [OF law]])
      (use loop [of 64] in \<open>auto simp: need_def\<close>)
  show ?thesis unfolding write1_def sprintf512_def if_P [OF f(3)] Let_def
    by (rule part_call [where ok = "\<lambda>fd. 0 \<le> fd" and D' = "\<lambda>fd. closed(fd \<mapsto> (?x, 0, False))", OF p _ p_open [OF law f(1,2)]])
      (auto simp: need_def intro: seek [unfolded need_def])
qed

text \<open>Afterwards each part holds what its process wrote.\<close>

definition parts_written :: "string \<Rightarrow> bool" where
  "parts_written c \<longleftrightarrow> length c = 131072 \<and> take 64 (drop 0 c) = replicate 64 CHR ''1'' \<and> take 64 (drop 65536 c) = replicate 64 CHR ''2''"

lemma take_drop_replicate: "lo + n \<le> length c \<Longrightarrow> \<forall>j < n. c ! (lo + j) = ch \<Longrightarrow> take n (drop lo c) = replicate n ch"
  by (rule nth_equalityI) auto

lemma does_ex: "(\<And>c. P c \<Longrightarrow> does (X c) p Y) \<Longrightarrow> does (\<lambda>s. \<exists>c. P c \<and> X c s) p Y"
  unfolding does_def by blast

lemma does_write_parts:
  assumes two: "two_names K view at k d1 d2"
  shows "does (own view Parent (dir k) [(k, ''www'') \<mapsto> huge] closed)
    (forked K (write1 (K Child) d2 ''www'' 65536 64 CHR ''2'') (write1 (K Parent) d1 ''www'' 0 64 CHR ''1''))
    (\<lambda>s. \<exists>c. parts_written c \<and> own view Parent (dir k) [(k, ''www'') \<mapsto> c] closed s)"
proof (rule does_forked_sat [OF two_laws [OF two]])
  let ?x = "(k, ''www'')"
  let ?P = "\<lambda>m. part view Parent ?x 0 131072 m CHR ''1'' closed" and ?C = "\<lambda>m. part view Child ?x 65536 131072 m CHR ''2'' closed"
  have r: "reaches at UNIV d1 k ''www''" "reaches at UNIV d2 k ''www''" by (rule two_reaches [OF two]; simp add: plain_name_def)+
  show "interference (prely view Parent ?x 0)" "interference (prely view Child ?x 65536)" by (rule file_parts.interference_axioms)+
  show "prely view Child ?x 65536 s s'" if "pguar view Parent ?x 0 s s'" for s s' by (rule pguar_rely [OF that]) simp_all
  show "prely view Parent ?x 0 s s'" if "pguar view Child ?x 65536 s s'" for s s' by (rule pguar_rely [OF that]) simp_all
  show "sat (prely view Parent ?x 0) (pguar view Parent ?x 0) (?P 64) (write1 (K Parent) d1 ''www'' 0 64 CHR ''1'') s" if "?P 0 s \<and> ?C 0 s" for s
    by (rule p_write1 [OF two_laws [OF two] r(1)]) (use that in simp_all)
  show "sat (prely view Child ?x 65536) (pguar view Child ?x 65536) (?C 64) (write1 (K Child) d2 ''www'' 65536 64 CHR ''2'') s" if "?P 0 s \<and> ?C 0 s" for s
    by (rule p_write1 [OF two_laws [OF two] r(2)]) (use that in simp_all)
  show "\<exists>c. parts_written c \<and> own view Parent (dir k) [?x \<mapsto> c] closed s" if both: "?P 64 s" "?C 64 s" for s
  proof -
    obtain c where c: "vf_files (view s) ?x = Some c" "length c = 131072" "\<forall>j < 64. c ! (0 + j) = CHR ''1''" "\<forall>j < 64. c ! (65536 + j) = CHR ''2''"
      using both by (auto simp: part_def)
    have "parts_written c" unfolding parts_written_def
      using c(2) take_drop_replicate [OF _ c(3)] take_drop_replicate [OF _ c(4)] by simp
    moreover have "own view Parent (dir k) [?x \<mapsto> c] closed s" using both(1) c(1) by (auto simp: own_def part_def)
    ultimately show ?thesis by blast
  qed
  show "?P 0 s' \<and> ?C 0 s'" if "own view Parent (dir k) [?x \<mapsto> huge] closed s"
      "view s' = (view s)\<lparr>vf_fds := (vf_fds (view s))(Child := vf_fds (view s) Parent)\<rparr>" for s s'
    using that by (auto simp: own_def part_def huge_def)
qed

lemma b_parts_passes:
  assumes two: "two_names K view at k d1 d2"
  shows "does (own view Parent (dir k) (\<lambda>_. None) closed) (b_parts K d1 d2)
    (\<lambda>s. \<exists>c. parts_written c \<and> own view Parent (dir k) [(k, ''www'') \<mapsto> c] closed s)"
proof -
  have r: "reaches at (dir k) d1 k ''www''" "reaches at (dir k) d2 k ''www''" by (rule two_reaches [OF two]; simp add: plain_name_def)+
  note law = two_laws [OF two]
  have c: "works view Parent (dir k) (\<lambda>_. None) closed (create1 (K Parent) d1 ''www'' huge) [(k, ''www'') \<mapsto> huge] closed"
    by (rule works_create1 [OF law r(1)])
  have k: "works view Parent (dir k) [(k, ''www'') \<mapsto> c] closed (seq [checkread (K Parent) d1 ''www'' 0 64 CHR ''1'', checkread (K Parent) d2 ''www'' 0 64 CHR ''1'',
      checkread (K Parent) d1 ''www'' 65536 64 CHR ''2'', checkread (K Parent) d2 ''www'' 65536 64 CHR ''2'']) [(k, ''www'') \<mapsto> c] closed"
    if "parts_written c" for c
    by (rule works_Cons works_Nil refl works_checkread [OF law r(1), where c = c] works_checkread [OF law r(2), where c = c] |
        use that in \<open>simp add: parts_written_def\<close>)+
  have k': "does (\<lambda>s. \<exists>c. parts_written c \<and> own view Parent (dir k) [(k, ''www'') \<mapsto> c] closed s)
      (seq [checkread (K Parent) d1 ''www'' 0 64 CHR ''1'', checkread (K Parent) d2 ''www'' 0 64 CHR ''1'',
        checkread (K Parent) d1 ''www'' 65536 64 CHR ''2'', checkread (K Parent) d2 ''www'' 65536 64 CHR ''2''])
      (\<lambda>s. \<exists>c. parts_written c \<and> own view Parent (dir k) [(k, ''www'') \<mapsto> c] closed s)"
    by (rule does_ex) (rule does_weaken [OF works_does [OF k]]; blast)
  show ?thesis unfolding b_parts_def Let_def by (rule does_Cons [OF works_does [OF c] does_Cons [OF does_write_parts [OF two] k']])
qed

section \<open>The programs\<close>

lemma b_tests_pass:
  assumes two: "two_names K view at k d1 d2"
  shows "does (own view Parent (dir k) (\<lambda>_. None) closed) (b_tests K d1 d2)
    (\<lambda>s. \<exists>c. parts_written c \<and> own view Parent (dir k) [(k, ''www'') \<mapsto> c] closed s)"
  unfolding b_tests_def Let_def
  by (rule does_Cons does_Nil groups_pass [OF two, THEN works_does] b_many_passes [OF two, THEN works_does]
      b_creates_passes [OF two] b_create_delete_passes [OF two] same_files_pass [OF two] b_parts_passes [OF two])+

text \<open>A call that succeeds leads from states with \<open>X\<close> to states with \<open>X'\<close>.\<close>

lemma does_need:
  assumes "\<And>s. X s \<Longrightarrow> fst (call s) = 0 \<and> X' (snd (call s))" and "does X' q Y"
  shows "does X (sys call (\<lambda>r. need (r = 0) q)) Y"
proof (rule does_sys)
  fix s assume "X s"
  then have "fst (call s) = 0" "X' (snd (call s))" using assms(1) by blast+
  then show "does (\<lambda>t. t = snd (call s)) (need (fst (call s) = 0) q) Y"
    by (auto simp: need_def intro: does_weaken [OF assms(2)])
qed

lemma mkdir_gives:
  assumes law: "posix_laws K view at" and "at d = Some k" and o: "own view Parent A F closed s" and "k \<notin> vf_dirs (view s)"
  shows "fst (px_mkdir (K Parent) d s) = 0 \<and> own view Parent (A \<union> dir k) (\<lambda>x. if fst x = k then None else F x) closed (snd (px_mkdir (K Parent) d s)) \<and>
    vf_dirs (view (snd (px_mkdir (K Parent) d s))) = insert k (vf_dirs (view s))"
  using after_dir(3) [OF law assms(2,4), of Parent] o assms(4) by (auto simp: own_def)

lemma access_gives:
  assumes law: "posix_laws K view at" and "at d = Some k" and o: "own view Parent A F closed s" and "dir k \<subseteq> A"
  shows "fst (px_access (K Parent) d s) = 0 \<and> own view Parent A F closed (snd (px_access (K Parent) d s))"
proof -
  have "k \<in> vf_dirs (view s)" using own_dir [OF o, of k] assms(4) by blast
  then show ?thesis using after_dir(1) [OF law assms(2), of s Parent] o by (simp add: own_def)
qed


text \<open>\<^verbatim>\<open>test-lab-3-c\<close>: the two directories.\<close>

lemma one_left:
  "without_numbered k p [0..<n] (with_numbered k p [0..<Suc n] F) (k, f) =
    (if f = numbered p n then Some (int_mem n) else without_numbered k p [0..<n] F (k, f))"
  by (auto simp: without_numbered_apply with_numbered_apply image_def less_Suc_eq)

lemma c_work:
  assumes law: "posix_laws K view at" and at: "at d = Some k" "length d < 490" and p: "p \<in> prefixes"
  shows "works view w (dir k) (\<lambda>_. None) closed (seq [c_createn (K w) d p 100, c_unlinkn (K w) d p 99])
    (without_numbered k p [0..<99] (with_numbered k p [0..<100] (\<lambda>_. None))) closed"
proof -
  have r: "\<forall>i < 100. reaches at (dir k) d k (numbered p i)"
    using at prefix_facts [OF p] by (auto intro: reaches_numbered)
  have v: "\<forall>i < 99. reaches at (dir k) d k (numbered p i) \<and> with_numbered k p [0..<100] (\<lambda>_. None) (k, numbered p i) \<noteq> None"
    using r by (auto simp: with_numbered_apply)
  show ?thesis unfolding c_createn_def c_unlinkn_def
    by (rule works_Cons [OF works_createn [OF law r] works_Cons [OF works_unlinkn [OF law v] works_Nil [OF refl]]])
qed

definition left_over :: "string \<Rightarrow> string \<Rightarrow> files" where
  "left_over ka kb x = (if x = (ka, ''yy-99'') \<or> x = (kb, ''xx-99'') then Some (int_mem 99) else None)"

lemma numbered_99: "numbered p 99 = p @ ''-99''"
  by (simp add: numbered_def show_nat.simps [of 99] show_nat.simps [of 9] char_of_eq_iff)

lemma c_tests_pass:
  assumes law: "posix_laws K view at" and at: "at d1 = Some ka" "length d1 < 490" "at d2 = Some kb" "length d2 < 490" and ne: "ka \<noteq> kb"
  shows "does (own view Parent (dir ka \<union> dir kb) (\<lambda>_. None) closed) (c_tests K d1 d2) (own view Parent (dir ka \<union> dir kb) (left_over ka kb) closed)"
proof -
  have p: "''xx'' \<in> prefixes" "''yy'' \<in> prefixes" by (simp_all add: prefixes_def)
  have f: "does (own view Parent (dir ka \<union> dir kb) (\<lambda>_. None) closed)
      (c_forked K (seq [c_createn (K Child) d2 ''xx'' 100, c_unlinkn (K Child) d2 ''xx'' 99])
        (seq [c_createn (K Parent) d1 ''yy'' 100, c_unlinkn (K Parent) d1 ''yy'' 99]))
      (own view Parent (dir ka \<union> dir kb) (left_over ka kb) closed)"
    unfolding c_forked_def
  proof (rule does_forked [OF law c_work [OF law at(1,2) p(2)] c_work [OF law at(3,4) p(1)]])
    fix x assume "x \<in> dir ka \<union> dir kb"
    then show "left_over ka kb x = (if x \<in> dir kb then without_numbered kb ''xx'' [0..<99] (with_numbered kb ''xx'' [0..<100] (\<lambda>_. None)) x
        else without_numbered ka ''yy'' [0..<99] (with_numbered ka ''yy'' [0..<100] (\<lambda>_. None)) x)"
      using ne one_left [of kb "''xx''" 99 "\<lambda>_. None" "snd x"] one_left [of ka "''yy''" 99 "\<lambda>_. None" "snd x"]
      by (auto simp: left_over_def numbered_99 without_numbered_apply)
  qed (use ne in auto)
  have e: "entries ka (left_over ka kb) = {''yy-99''}" "entries kb (left_over ka kb) = {''xx-99''}"
    using ne by (auto simp: entries_def left_over_def)
  have dc: "works view Parent (dir ka \<union> dir kb) (left_over ka kb) closed (seq [c_dircheck (K Parent) d1 1, c_dircheck (K Parent) d2 1]) (left_over ka kb) closed"
    unfolding c_dircheck_def
    by (rule works_Cons works_Nil refl works_dircheck [OF law at(1)] works_dircheck [OF law at(3)] | simp add: e listed_def cur_def)+
  show ?thesis unfolding c_tests_def Let_def by (rule does_Cons [OF f works_does [OF dc]])
qed

text \<open>
  The whole of \<^verbatim>\<open>test-lab-3-c\<close> passes under the same conditions, for directories that are not there yet: whatever the schedule, it
  ends with status 0, and each directory holds the one file that its process did not remove.
\<close>
theorem c_main_passes:
  assumes "posix_laws K view at" and "at (path_of a1 (''da'' @ show_nat pid)) = Some ka" and "at (path_of a2 (''db'' @ show_nat pid)) = Some kb"
    and "at (path_of a2 (''da'' @ show_nat pid)) = Some ka" and "ka \<noteq> kb" and "ka \<notin> vf_dirs (view s)" and "kb \<notin> vf_dirs (view s)"
    and "length (path_of a1 (''da'' @ show_nat pid)) < 490" and "length (path_of a2 (''db'' @ show_nat pid)) < 490"
    and "vf_fds (view s) Parent = (\<lambda>_. None)"
  shows "passes (\<lambda>s'. \<forall>x. fst x = ka \<or> fst x = kb \<longrightarrow> vf_files (view s') x = left_over ka kb x) (c_main K [prog, a1, a2] pid, None, s)"
proof -
  let ?d1 = "path_of a1 (''da'' @ show_nat pid)" and ?d2 = "path_of a2 (''db'' @ show_nat pid)" and ?dd = "path_of a2 (''da'' @ show_nat pid)"
  let ?Y = "own view Parent (dir ka \<union> dir kb) (left_over ka kb) closed"
  have dd: "length ?dd < 490" using assms(9) by (simp add: path_of_def)
  have acc: "does (own view Parent (dir ka \<union> dir kb) (\<lambda>_. None) closed) (sys (px_access (K Parent) ?dd) (\<lambda>r. need (r = 0) (c_tests K ?d1 ?d2))) ?Y"
    by (rule does_need [OF access_gives [OF assms(1,4)] c_tests_pass [OF assms(1,2,8,3,9,5)]]) auto
  have mk2: "does (\<lambda>t. own view Parent (dir ka) (\<lambda>_. None) closed t \<and> kb \<notin> vf_dirs (view t))
      (sys (px_mkdir (K Parent) ?d2) (\<lambda>r. need (r = 0) (sys (px_access (K Parent) ?dd) (\<lambda>r. need (r = 0) (c_tests K ?d1 ?d2))))) ?Y"
    by (rule does_need [OF _ acc]) (use mkdir_gives [OF assms(1,3), of "dir ka" "\<lambda>_. None"] in auto)
  have mk1: "fst (px_mkdir (K Parent) ?d1 t) = 0 \<and> own view Parent (dir ka) (\<lambda>_. None) closed (snd (px_mkdir (K Parent) ?d1 t)) \<and>
      kb \<notin> vf_dirs (view (snd (px_mkdir (K Parent) ?d1 t)))" if "t = s" for t
    using mkdir_gives [OF assms(1,2), of "{}" "\<lambda>_. None" s] assms(5,6,7,10) that by (simp add: own_def)
  have "does (\<lambda>t. t = s) (c_main K [prog, a1, a2] pid) ?Y"
    unfolding c_main_def sprintf512_def using does_need [OF mk1 mk2] assms(8,9) dd by simp
  then have "does (\<lambda>t. t = s) (c_main K [prog, a1, a2] pid) (\<lambda>s'. \<forall>x. fst x = ka \<or> fst x = kb \<longrightarrow> vf_files (view s') x = left_over ka kb x)"
    by (rule does_weaken) (auto simp: own_def)
  then show ?thesis by (rule does_passes) simp
qed

section \<open>What the checks accept\<close>

text \<open>
  What the check of a directory accepts: it ends normally exactly when the directory has as many names without a leading dot
  as expected and none of them twice. More than 1000 names are stored outside the array, although the program warns.
\<close>
theorem dircheck_exact:
  assumes "px_readdir P d s = (Some es, s')"
  shows "run (dircheck P d nf) s =
    (if length (filter listed es) > 1000 then Fault Bad_access
     else if length (filter listed es) = nf \<and> distinct (filter listed es) then Ret s' else Fault Exit_failure)"
  using assms by (simp add: dircheck_eq need_def)

lemma strncmp_eq_take:
  assumes "length a = length b" and "CHR 0x00 \<notin> set b"
  shows "strncmp_eq a b k \<longleftrightarrow> take k a = take k b"
  using assms
proof (induction k arbitrary: a b)
  case (Suc k)
  then show ?case by (cases a; cases b) (auto simp: cur_def)
qed simp

text \<open>
  What the check of a content accepts: the comparison is limited by the length of the path and not by that of the expected text,
  so every content of the right length passes that agrees with the expected text on as many characters as the path has.
\<close>
theorem check1_exact:
  assumes "length (path_of d f) < 512" and "px_open P (path_of d f) {} s = (fd, s1)" and "0 \<le> fd"
    and "px_read P fd (sz - 1) s1 = ((int (length buf), buf), s2)" and "px_close P fd s2 = (r, s3)" and "CHR 0x00 \<notin> set inp"
  shows "run (check1 sz P d f inp) s =
    (if length buf = length inp \<and> take (length (path_of d f)) buf = take (length (path_of d f)) inp then Ret s3 else Fault Exit_failure)"
  using assms by (simp add: check1_def sprintf512_def need_def strncmp_eq_take)

section \<open>Witnesses\<close>

text \<open>
  The system calls on a file system in memory that is mounted at \<open>a\<close> and at \<open>b\<close>, for processes with one open file at a time.
\<close>

definition mem_at :: "string \<Rightarrow> string option" where
  "mem_at d = (if take 2 d = ''a/'' \<or> take 2 d = ''b/'' then Some (drop 2 d) else None)"

definition split_path :: "string \<Rightarrow> string \<times> string" where
  "split_path n = (rev (tl (dropWhile (\<lambda>c. c \<noteq> CHR ''/'') (rev n))), rev (takeWhile (\<lambda>c. c \<noteq> CHR ''/'') (rev n)))"

lemma split_path_of [simp]: "plain_name f \<Longrightarrow> split_path (path_of d f) = (d, f)"
  by (simp add: split_path_def path_of_def plain_name_def dropWhile_append takeWhile_append)

definition mem_file :: "string \<Rightarrow> vfs \<Rightarrow> fname option" where
  "mem_file n v = (case split_path n of (d, f) \<Rightarrow>
     (case mem_at d of None \<Rightarrow> None | Some k \<Rightarrow> if k \<in> vf_dirs v then Some (k, f) else None))"

definition mem_open :: "who \<Rightarrow> string \<Rightarrow> open_flag set \<Rightarrow> vfs \<Rightarrow> int \<times> vfs" where
  "mem_open w n fl v = (case mem_file n v of
     None \<Rightarrow> (-1, v)
   | Some x \<Rightarrow> if vf_files v x = None \<and> O_CREAT \<notin> fl then (-1, v)
       else (3, set_fd w 3 (Some (x, 0, O_APPEND \<in> fl)) (if vf_files v x = None then set_file x (Some []) v else v)))"

definition mem_on :: "who \<Rightarrow> int \<Rightarrow> vfs \<Rightarrow> 'a \<Rightarrow> (fname \<Rightarrow> nat \<Rightarrow> bool \<Rightarrow> string \<Rightarrow> 'a \<times> vfs) \<Rightarrow> 'a \<times> vfs" where
  "mem_on w fd v bad act = (case vf_fds v w fd of
     None \<Rightarrow> (bad, v)
   | Some (x, off, ap) \<Rightarrow> (case vf_files v x of None \<Rightarrow> act x off ap [] | Some c \<Rightarrow> act x off ap c))"

definition mem_kernel :: "vfs kernel" where
  "mem_kernel w = \<lparr>
     px_creat = (\<lambda>n v. case mem_file n v of None \<Rightarrow> (-1, v)
       | Some x \<Rightarrow> (3, set_fd w 3 (Some (x, 0, False)) (set_file x (Some []) v))),
     px_open = mem_open w,
     px_read = (\<lambda>fd n v. mem_on w fd v (-1, []) (\<lambda>x off ap c.
       let b = take n (drop off c) in ((int (length b), b), set_fd w fd (Some (x, off + length b, ap)) v))),
     px_write = (\<lambda>fd b v. mem_on w fd v (-1) (\<lambda>x off ap c.
       let pos = (if ap then length c else off) in
       (int (length b), set_fd w fd (Some (x, pos + length b, ap)) (set_file x (Some (wr_at pos b c)) v)))),
     px_lseek = (\<lambda>fd n v. mem_on w fd v (-1) (\<lambda>x off ap c. (int n, set_fd w fd (Some (x, n, ap)) v))),
     px_fsync = (\<lambda>fd v. (0, v)),
     px_close = (\<lambda>fd v. (0, set_fd w fd None v)),
     px_unlink = (\<lambda>n v. case mem_file n v of None \<Rightarrow> (-1, v) | Some x \<Rightarrow> (0, set_file x None v)),
     px_readdir = (\<lambda>d v. case mem_at d of None \<Rightarrow> (None, v)
       | Some k \<Rightarrow> (Some (sorted_list_of_set (entries k (vf_files v) \<union> {''.'', ''..''})), v)),
     px_mkdir = (\<lambda>d v. case mem_at d of None \<Rightarrow> (-1, v)
       | Some k \<Rightarrow> if k \<in> vf_dirs v then (-1, v)
           else (0, v\<lparr>vf_dirs := insert k (vf_dirs v), vf_files := (\<lambda>x. if fst x = k then None else vf_files v x)\<rparr>)),
     px_access = (\<lambda>d v. case mem_at d of None \<Rightarrow> (-1, v) | Some k \<Rightarrow> (if k \<in> vf_dirs v then 0 else -1, v)),
     px_fork = (\<lambda>v. (7, v\<lparr>vf_fds := (vf_fds v)(Child := vf_fds v Parent)\<rparr>)),
     px_exists = (\<lambda>v. (False, v))\<rparr>"

lemma mem_file_path [simp]: "plain_name f \<Longrightarrow> mem_at d = Some k \<Longrightarrow> k \<in> vf_dirs v \<Longrightarrow> mem_file (path_of d f) v = Some (k, f)"
  by (simp add: mem_file_def)

lemma mem_dir_law: "dir_law mem_kernel id mem_at"
proof -
  have "distinct (sorted_list_of_set (A \<union> {''.'', ''..''})) \<and> set (sorted_list_of_set (A \<union> {''.'', ''..''})) = A \<union> {''.'', ''..''}"
    if "finite A" for A :: "string set"
    using that set_sorted_list_of_set [of "A \<union> {''.'', ''..''}"] distinct_sorted_list_of_set by blast
  then show ?thesis unfolding dir_law_def mem_kernel_def id_def by simp
qed

lemma mem_laws: "posix_laws mem_kernel id mem_at"
  using mem_dir_law unfolding posix_laws_def
  by (simp add: law_defs mem_kernel_def mem_open_def mem_on_def fork_law_def Let_def split: option.splits)

definition empty_vfs :: vfs where
  "empty_vfs = \<lparr>vf_dirs = {}, vf_files = (\<lambda>_. None), vf_fds = (\<lambda>_ _. None)\<rparr>"

lemma show_7: "show_nat 7 = ''7''"
  by (simp add: show_nat.simps [of 7] char_of_eq_iff)


theorem c_main_passes_witness:
  "passes (\<lambda>v. \<forall>x. fst x = ''da7'' \<or> fst x = ''db7'' \<longrightarrow> vf_files v x = left_over ''da7'' ''db7'' x)
    (c_main mem_kernel [''test-lab-3-c'', ''a'', ''b''] 7, None, empty_vfs)"
  using c_main_passes [OF mem_laws, of "''a''" 7 "''da7''" "''b''" "''db7''" empty_vfs "''test-lab-3-c''"]
  by (simp add: path_of_def mem_at_def show_7 empty_vfs_def)

theorem dircheck_exact_witness:
  "run (dircheck ((mem_kernel Parent)\<lparr>px_readdir := (\<lambda>d v. (Some [''.'', ''f1'', ''f1''], v))\<rparr>) ''a'' 2) empty_vfs = Fault Exit_failure"
  using dircheck_exact [of "(mem_kernel Parent)\<lparr>px_readdir := (\<lambda>d v. (Some [''.'', ''f1'', ''f1''], v))\<rparr>" "''a''" empty_vfs "[''.'', ''f1'', ''f1'']" empty_vfs 2]
  by (simp add: listed_def cur_def)

theorem check1_exact_witness:
  "\<exists>v. run (check1 21000 (mem_kernel Parent) ''a/d'' ''f'' ''xxxxxxxx'')
    (empty_vfs\<lparr>vf_dirs := {''d''}, vf_files := [(''d'', ''f'') \<mapsto> ''xxxxxxxy'']\<rparr>) = Ret v"
proof -
  let ?v = "empty_vfs\<lparr>vf_dirs := {''d''}, vf_files := [(''d'', ''f'') \<mapsto> ''xxxxxxxy'']\<rparr>"
  let ?v1 = "set_fd Parent 3 (Some ((''d'', ''f''), 0, False)) ?v" and ?buf = "''xxxxxxxy''"
  let ?v2 = "set_fd Parent 3 (Some ((''d'', ''f''), length ?buf, False)) ?v1"
  have f: "mem_file (path_of ''a/d'' ''f'') ?v = Some (''d'', ''f'')" by (rule mem_file_path) (simp_all add: plain_name_def mem_at_def)
  have "run (check1 21000 (mem_kernel Parent) ''a/d'' ''f'' ''xxxxxxxx'') ?v =
    (if length ?buf = length ''xxxxxxxx'' \<and>
        take (length (path_of ''a/d'' ''f'')) ?buf = take (length (path_of ''a/d'' ''f'')) ''xxxxxxxx'' then Ret (set_fd Parent 3 None ?v2)
     else Fault Exit_failure)"
    by (rule check1_exact [where fd = 3 and buf = ?buf and ?s1.0 = ?v1 and ?s2.0 = ?v2 and r = 0])
      (use f in \<open>simp_all add: mem_kernel_def mem_open_def mem_on_def path_of_def\<close>)
  then show ?thesis by (simp add: path_of_def)
qed

end
