(* ===== verification/Method_Thread.thy ===== *)
theory Method_Thread
  imports Prelude
begin

text \<open>
  Starting a thread that runs a method of an object (\<^verbatim>\<open>rpc/method_thread.h\<close>). \<^verbatim>\<open>method_thread\<close> puts the object, the method and its
  arguments into an object \<^verbatim>\<open>XXX\<close> of its own and starts a thread with its address; the thread copies the fields,
  deletes the object and calls the method. Any number of threads may be started and run interleaved. What the system
  decides is an argument: the address of a new object, the number of the new thread, and the results of the calls
  of the thread library. All arguments of methods have one type here.
\<close>

section \<open>Closures and threads\<close>

text \<open>One constructor for each of the four classes \<^verbatim>\<open>XXX\<close>, by the number of arguments.\<close>

datatype ('o, 'm, 'a) closure = XXX0 'o 'm | XXX1 'o 'm 'a | XXX2 'o 'm 'a 'a | XXX3 'o 'm 'a 'a 'a

text \<open>How far a thread has come: it has the address, it has copied the fields, it has deleted the object, it has called the method.\<close>

datatype ('o, 'm, 'a) phase = Entered nat | Copied nat "('o, 'm, 'a) closure" | Freed "('o, 'm, 'a) closure" | Called

record ('o, 'm, 'a) threads =
  th_heap :: "nat \<Rightarrow> ('o, 'm, 'a) closure option"
  th_phase :: "nat \<Rightarrow> ('o, 'm, 'a) phase option"
  th_detached :: "nat set"
  th_calls :: "(nat \<times> 'o \<times> 'm \<times> 'a list) list"

definition threads_new :: "('o, 'm, 'a) threads" where
  "threads_new = \<lparr>th_heap = (\<lambda>_. None), th_phase = (\<lambda>_. None), th_detached = {}, th_calls = []\<rparr>"

text \<open>What the environment answers when a thread is started: a fresh address and thread, \<^verbatim>\<open>pthread_create\<close> and \<^verbatim>\<open>pthread_detach\<close>.\<close>

record start_env =
  se_addr :: nat
  se_thread :: nat
  se_create :: int
  se_detach :: int

section \<open>Starting\<close>

definition method_thread_parent ::
  "start_env \<Rightarrow> nat \<Rightarrow> bool \<Rightarrow> ('o, 'm, 'a) threads \<Rightarrow> (nat \<times> ('o, 'm, 'a) threads) res" where
  "method_thread_parent e arg detach s =
     (if se_create e \<noteq> 0 then Fault Exit_failure
      else let th = se_thread e; s = s\<lparr>th_phase := (th_phase s)(th \<mapsto> Entered arg)\<rparr> in
        if detach then verify (se_detach e = 0) (Ret (th, s\<lparr>th_detached := insert th (th_detached s)\<rparr>))
        else Ret (th, s))"

definition new_closure :: "nat \<Rightarrow> ('o, 'm, 'a) closure \<Rightarrow> ('o, 'm, 'a) threads \<Rightarrow> ('o, 'm, 'a) threads" where
  "new_closure x c s = s\<lparr>th_heap := (th_heap s)(x \<mapsto> c)\<rparr>"

definition method_thread0 :: "start_env \<Rightarrow> 'o \<Rightarrow> bool \<Rightarrow> 'm \<Rightarrow> ('o, 'm, 'a) threads \<Rightarrow> (nat \<times> ('o, 'm, 'a) threads) res" where
  "method_thread0 e ob detach m s =
     (let x = se_addr e in method_thread_parent e x detach (new_closure x (XXX0 ob m) s))"

definition method_thread1 ::
  "start_env \<Rightarrow> 'o \<Rightarrow> bool \<Rightarrow> 'm \<Rightarrow> 'a \<Rightarrow> ('o, 'm, 'a) threads \<Rightarrow> (nat \<times> ('o, 'm, 'a) threads) res" where
  "method_thread1 e ob detach m a s =
     (let x = se_addr e in method_thread_parent e x detach (new_closure x (XXX1 ob m a) s))"

definition method_thread2 ::
  "start_env \<Rightarrow> 'o \<Rightarrow> bool \<Rightarrow> 'm \<Rightarrow> 'a \<Rightarrow> 'a \<Rightarrow> ('o, 'm, 'a) threads \<Rightarrow> (nat \<times> ('o, 'm, 'a) threads) res" where
  "method_thread2 e ob detach m a1 a2 s =
     (let x = se_addr e in method_thread_parent e x detach (new_closure x (XXX2 ob m a1 a2) s))"

definition method_thread3 ::
  "start_env \<Rightarrow> 'o \<Rightarrow> bool \<Rightarrow> 'm \<Rightarrow> 'a \<Rightarrow> 'a \<Rightarrow> 'a \<Rightarrow> ('o, 'm, 'a) threads \<Rightarrow> (nat \<times> ('o, 'm, 'a) threads) res" where
  "method_thread3 e ob detach m a1 a2 a3 s =
     (let x = se_addr e in method_thread_parent e x detach (new_closure x (XXX3 ob m a1 a2 a3) s))"

section \<open>The new thread\<close>

text \<open>\<^verbatim>\<open>method_thread_child\<close> with the results of \<^verbatim>\<open>pthread_setcancelstate\<close> and \<^verbatim>\<open>pthread_setcanceltype\<close>.\<close>

definition method_thread_child :: "int \<times> int \<Rightarrow> 'b res \<Rightarrow> 'b res" where
  "method_thread_child r k = verify (fst r = 0) (verify (snd r = 0) k)"

fun call_of :: "('o, 'm, 'a) closure \<Rightarrow> 'o \<times> 'm \<times> 'a list" where
  "call_of (XXX0 ob m) = (ob, m, [])"
| "call_of (XXX1 ob m a) = (ob, m, [a])"
| "call_of (XXX2 ob m a1 a2) = (ob, m, [a1, a2])"
| "call_of (XXX3 ob m a1 a2 a3) = (ob, m, [a1, a2, a3])"

text \<open>
  \<^verbatim>\<open>yyy\<close>, in the pieces between which other threads may run: the copies of the fields, \<^verbatim>\<open>delete\<close>, the call. \<open>None\<close>: the thread
  has nothing to do. Reading or deleting an object that is not there is an access outside.
\<close>

definition yyy :: "int \<times> int \<Rightarrow> nat \<Rightarrow> ('o, 'm, 'a) threads \<Rightarrow> ('o, 'm, 'a) threads res option" where
  "yyy r t s =
     (case th_phase s t of
        None \<Rightarrow> None
      | Some Called \<Rightarrow> None
      | Some (Entered x) \<Rightarrow> Some (case th_heap s x of
            None \<Rightarrow> Fault Bad_access
          | Some c \<Rightarrow> Ret (s\<lparr>th_phase := (th_phase s)(t \<mapsto> Copied x c)\<rparr>))
      | Some (Copied x c) \<Rightarrow> Some (case th_heap s x of
            None \<Rightarrow> Fault Bad_access
          | Some _ \<Rightarrow> Ret (s\<lparr>th_heap := (th_heap s)(x := None), th_phase := (th_phase s)(t \<mapsto> Freed c)\<rparr>))
      | Some (Freed c) \<Rightarrow> Some (method_thread_child r
            (Ret (s\<lparr>th_phase := (th_phase s)(t \<mapsto> Called), th_calls := th_calls s @ [(t, call_of c)]\<rparr>))))"

section \<open>All threads\<close>

text \<open>
  \<open>mt_reach W s\<close>: \<open>s\<close> can be reached when the threads \<open>W\<close>, a map to their closures, have been started. Memory and thread numbers are fresh:
  \<^verbatim>\<open>new\<close> returns an address that is not in use, \<^verbatim>\<open>pthread_create\<close> a number no thread of the program has had.
\<close>

definition start :: "start_env \<Rightarrow> bool \<Rightarrow> ('o, 'm, 'a) closure \<Rightarrow> ('o, 'm, 'a) threads \<Rightarrow> (nat \<times> ('o, 'm, 'a) threads) res" where
  "start e detach c s =
     (case c of
        XXX0 ob m \<Rightarrow> method_thread0 e ob detach m s
      | XXX1 ob m a \<Rightarrow> method_thread1 e ob detach m a s
      | XXX2 ob m a1 a2 \<Rightarrow> method_thread2 e ob detach m a1 a2 s
      | XXX3 ob m a1 a2 a3 \<Rightarrow> method_thread3 e ob detach m a1 a2 a3 s)"

inductive mt_reach :: "(nat \<Rightarrow> ('o, 'm, 'a) closure option) \<Rightarrow> ('o, 'm, 'a) threads \<Rightarrow> bool" where
  mt_new: "mt_reach (\<lambda>_. None) threads_new"
| mt_start: "mt_reach W s \<Longrightarrow> th_heap s (se_addr e) = None \<Longrightarrow> th_phase s (se_thread e) = None \<Longrightarrow>
    start e detach c s = Ret (t, s') \<Longrightarrow> mt_reach (W(t \<mapsto> c)) s'"
| mt_run: "mt_reach W s \<Longrightarrow> yyy r t s = Some (Ret s') \<Longrightarrow> mt_reach W s'"

text \<open>The address of the object a thread has not deleted yet, and the calls it has made.\<close>

fun holds :: "('o, 'm, 'a) phase option \<Rightarrow> nat option" where
  "holds (Some (Entered x)) = Some x"
| "holds (Some (Copied x c)) = Some x"
| "holds (Some (Freed c)) = None"
| "holds (Some Called) = None"
| "holds None = None"

definition calls_of :: "('o, 'm, 'a) threads \<Rightarrow> nat \<Rightarrow> ('o \<times> 'm \<times> 'a list) list" where
  "calls_of s t = map snd (filter (\<lambda>p. fst p = t) (th_calls s))"

fun on_course :: "('o, 'm, 'a) phase option \<Rightarrow> ('o, 'm, 'a) closure option \<Rightarrow> (nat \<Rightarrow> ('o, 'm, 'a) closure option) \<Rightarrow> ('o \<times> 'm \<times> 'a list) list \<Rightarrow> bool" where
  "on_course None w h ks \<longleftrightarrow> w = None \<and> ks = []"
| "on_course (Some (Entered x)) w h ks \<longleftrightarrow> w \<noteq> None \<and> h x = w \<and> ks = []"
| "on_course (Some (Copied x c)) w h ks \<longleftrightarrow> w = Some c \<and> h x = Some c \<and> ks = []"
| "on_course (Some (Freed c)) w h ks \<longleftrightarrow> w = Some c \<and> ks = []"
| "on_course (Some Called) w h ks \<longleftrightarrow> (\<exists>c. w = Some c \<and> ks = [call_of c])"

definition mt_ok :: "(nat \<Rightarrow> ('o, 'm, 'a) closure option) \<Rightarrow> ('o, 'm, 'a) threads \<Rightarrow> bool" where
  "mt_ok W s \<longleftrightarrow>
     (\<forall>t. on_course (th_phase s t) (W t) (th_heap s) (calls_of s t)) \<and>
     (\<forall>t u x. holds (th_phase s t) = Some x \<longrightarrow> holds (th_phase s u) = Some x \<longrightarrow> t = u) \<and>
     (\<forall>x. th_heap s x \<noteq> None \<longrightarrow> (\<exists>t. holds (th_phase s t) = Some x))"

lemma mt_okD:
  assumes "mt_ok W s"
  shows "on_course (th_phase s t) (W t) (th_heap s) (calls_of s t)"
    and "holds (th_phase s t) = Some x \<Longrightarrow> holds (th_phase s u) = Some x \<Longrightarrow> t = u"
    and "th_heap s x \<noteq> None \<Longrightarrow> \<exists>t. holds (th_phase s t) = Some x"
  using assms unfolding mt_ok_def by blast+

lemma mt_ok_new: "mt_ok (\<lambda>_. None) threads_new"
  by (simp add: mt_ok_def threads_new_def calls_of_def)

lemma held_in_heap: "on_course p w h ks \<Longrightarrow> holds p = Some x \<Longrightarrow> h x \<noteq> None"
  by (induction p w h ks rule: on_course.induct) auto

lemma fits_heap: "on_course p w h ks \<Longrightarrow> (\<And>x. holds p = Some x \<Longrightarrow> h' x = h x) \<Longrightarrow> on_course p w h' ks"
  by (induction p w h ks rule: on_course.induct) auto

lemma start_result:
  assumes "start e detach c s = Ret (t, s')"
  shows "t = se_thread e" and "th_heap s' = (th_heap s)(se_addr e \<mapsto> c)" and "th_phase s' = (th_phase s)(t \<mapsto> Entered (se_addr e))"
    and "th_calls s' = th_calls s"
  using assms
  by (auto simp: start_def method_thread0_def method_thread1_def method_thread2_def method_thread3_def method_thread_parent_def
      new_closure_def Let_def verify_def split: closure.splits if_splits)

text \<open>A step of one thread, or its start: the others keep what they have.\<close>

lemma mt_ok_step:
  assumes ok: "mt_ok W s" and here: "on_course (th_phase s' t) (W' t) (th_heap s') (calls_of s' t)"
    and others: "\<And>u. u \<noteq> t \<Longrightarrow> th_phase s' u = th_phase s u \<and> W' u = W u \<and> calls_of s' u = calls_of s u"
    and heap: "\<And>u x. u \<noteq> t \<Longrightarrow> holds (th_phase s u) = Some x \<Longrightarrow> th_heap s' x = th_heap s x"
    and new: "\<And>x. holds (th_phase s' t) = Some x \<Longrightarrow> holds (th_phase s t) = Some x \<or> th_heap s x = None"
    and kept: "\<And>x. th_heap s' x \<noteq> None \<Longrightarrow> holds (th_phase s' t) = Some x \<or> th_heap s x \<noteq> None \<and> holds (th_phase s t) \<noteq> Some x"
  shows "mt_ok W' s'"
  unfolding mt_ok_def
proof (intro conjI allI impI)
  fix u show "on_course (th_phase s' u) (W' u) (th_heap s') (calls_of s' u)"
    using fits_heap [OF mt_okD(1) [OF ok, of u]] heap [of u] others [of u] here by (cases "u = t") auto
next
  have apart: "holds (th_phase s u) \<noteq> Some x" if "u \<noteq> t" "holds (th_phase s' t) = Some x" for u x
    using new [OF that(2)] that(1) mt_okD(2) [OF ok] held_in_heap [OF mt_okD(1) [OF ok, of u]] by metis
  fix u v x assume "holds (th_phase s' u) = Some x" "holds (th_phase s' v) = Some x"
  then show "u = v" using others apart mt_okD(2) [OF ok] by metis
next
  fix x assume "th_heap s' x \<noteq> None"
  then show "\<exists>u. holds (th_phase s' u) = Some x" using kept others mt_okD(3) [OF ok] by metis
qed

lemma mt_ok_start:
  assumes ok: "mt_ok W s" and f: "th_heap s (se_addr e) = None" "th_phase s (se_thread e) = None" and st: "start e detach c s = Ret (t, s')"
  shows "mt_ok (W(t \<mapsto> c)) s'"
proof (rule mt_ok_step [OF ok, where t = t])
  note r = start_result [OF st]
  have k: "calls_of s' = calls_of s" by (simp add: fun_eq_iff calls_of_def r(4))
  have none: "calls_of s t = []" using mt_okD(1) [OF ok, of t] f(2) r(1) by simp
  show "on_course (th_phase s' t) ((W(t \<mapsto> c)) t) (th_heap s') (calls_of s' t)" using none by (simp add: r(2,3) k)
  show "th_heap s' x = th_heap s x" if "holds (th_phase s u) = Some x" for u x
    using held_in_heap [OF mt_okD(1) [OF ok] that] f(1) by (auto simp: r(2))
  show "th_phase s' u = th_phase s u \<and> (W(t \<mapsto> c)) u = W u \<and> calls_of s' u = calls_of s u" if "u \<noteq> t" for u using that by (simp add: r(3) k)
  show "holds (th_phase s' t) = Some x \<or> th_heap s x \<noteq> None \<and> holds (th_phase s t) \<noteq> Some x" if "th_heap s' x \<noteq> None" for x
    using that f(2) r(1) by (auto simp: r(2,3) split: if_splits)
qed (use f start_result [OF st] in auto)

lemma mt_ok_run:
  assumes ok: "mt_ok W s" and y: "yyy r t s = Some (Ret s')"
  shows "mt_ok W s'"
proof (rule mt_ok_step [OF ok, where t = t])
  note t = mt_okD(1) [OF ok, of t]
  show "on_course (th_phase s' t) (W t) (th_heap s') (calls_of s' t)"
    using t y by (cases "th_phase s t" rule: holds.cases)
      (auto simp: yyy_def method_thread_child_def verify_def calls_of_def split: option.splits if_splits)
  show "th_phase s' u = th_phase s u \<and> W u = W u \<and> calls_of s' u = calls_of s u" if "u \<noteq> t" for u
    using that y by (cases "th_phase s t" rule: holds.cases)
      (auto simp: yyy_def method_thread_child_def verify_def calls_of_def split: option.splits if_splits)
  show "th_heap s' x = th_heap s x" if "u \<noteq> t" "holds (th_phase s u) = Some x" for u x
    using that y mt_okD(2) [OF ok, of t x u] by (cases "th_phase s t" rule: holds.cases)
      (auto simp: yyy_def method_thread_child_def verify_def split: option.splits if_splits)
  show "holds (th_phase s t) = Some x \<or> th_heap s x = None" if "holds (th_phase s' t) = Some x" for x
    using that y by (cases "th_phase s t" rule: holds.cases)
      (auto simp: yyy_def method_thread_child_def verify_def split: option.splits if_splits)
  show "holds (th_phase s' t) = Some x \<or> th_heap s x \<noteq> None \<and> holds (th_phase s t) \<noteq> Some x" if "th_heap s' x \<noteq> None" for x
    using that y by (cases "th_phase s t" rule: holds.cases)
      (auto simp: yyy_def method_thread_child_def verify_def split: option.splits if_splits)
qed

lemma mt_reach_ok: "mt_reach W s \<Longrightarrow> mt_ok W s"
  by (induction rule: mt_reach.induct) (use mt_ok_new mt_ok_start mt_ok_run in blast)+

section \<open>Properties\<close>

text \<open>
  C40. Every started thread calls its method once, with the object and the arguments that were given. In every interleaving a thread that
  has not made its call can go on, and does not read or delete an object that is not there; a thread that has come to its end has made exactly
  its call and any other none; and when all threads have made their calls no object \<^verbatim>\<open>XXX\<close> is left in memory.
\<close>
theorem threads_call_once:
  assumes "mt_reach W s"
  shows "(case W t of
      None \<Rightarrow> calls_of s t = [] \<and> yyy (0, 0) t s = None
    | Some c \<Rightarrow> if th_phase s t = Some Called then calls_of s t = [call_of c]
        else calls_of s t = [] \<and> (\<exists>s'. yyy (0, 0) t s = Some (Ret s') \<and> mt_reach W s')) \<and>
    ((\<forall>u. W u \<noteq> None \<longrightarrow> th_phase s u = Some Called) \<longrightarrow> th_heap s = (\<lambda>_. None))"
proof (intro conjI impI)
  note ok = mt_reach_ok [OF assms]
  have go: "\<exists>s'. yyy (0, 0) t s = Some (Ret s')" if "th_phase s t \<noteq> Some Called" "W t \<noteq> None"
    using mt_okD(1) [OF ok, of t] that by (cases "th_phase s t" rule: holds.cases) (auto simp: yyy_def method_thread_child_def)
  show "case W t of None \<Rightarrow> calls_of s t = [] \<and> yyy (0, 0) t s = None
    | Some c \<Rightarrow> if th_phase s t = Some Called then calls_of s t = [call_of c]
        else calls_of s t = [] \<and> (\<exists>s'. yyy (0, 0) t s = Some (Ret s') \<and> mt_reach W s')"
    using mt_okD(1) [OF ok, of t] go mt_run [OF assms, of "(0, 0)" t]
    by (cases "th_phase s t" rule: holds.cases) (auto simp: yyy_def split: option.splits)
  assume fin: "\<forall>u. W u \<noteq> None \<longrightarrow> th_phase s u = Some Called"
  have "holds (th_phase s u) = None" for u
    using fin [rule_format, of u] mt_okD(1) [OF ok, of u] by (cases "th_phase s u" rule: holds.cases) auto
  then show "th_heap s = (\<lambda>_. None)" using mt_okD(3) [OF ok] by (metis option.distinct(1) ext)
qed

text \<open>
  When the system refuses to create a thread the program ends with \<^verbatim>\<open>exit(1)\<close>, and when it refuses to detach one it aborts; so
  \<^verbatim>\<open>method_thread\<close> never returns zero, which its comment announces for an error and which its callers test for.
\<close>
theorem method_thread_error:
  "se_create e \<noteq> 0 \<Longrightarrow> start e detach c s = Fault Exit_failure"
  by (auto simp: start_def method_thread0_def method_thread1_def method_thread2_def method_thread3_def method_thread_parent_def split: closure.splits)

section \<open>Witnesses\<close>

definition env2 :: "nat \<Rightarrow> nat \<Rightarrow> start_env" where
  "env2 x t = \<lparr>se_addr = x, se_thread = t, se_create = 0, se_detach = 0\<rparr>"

theorem threads_call_once_witness:
  "\<exists>s1 s2 s3 s. start (env2 100 1) True (XXX1 ''pool'' ''worker'' 5) (threads_new :: (string, string, nat) threads) = Ret (1, s1) \<and>
     yyy (0, 0) 1 s1 = Some (Ret s2) \<and> yyy (0, 0) 1 s2 = Some (Ret s3) \<and> yyy (0, 0) 1 s3 = Some (Ret s) \<and>
     calls_of s 1 = [(''pool'', ''worker'', [5])]"
proof -
  let ?c = "XXX1 ''pool'' ''worker'' (5 :: nat)"
  obtain s1 where s1: "start (env2 100 1) True ?c threads_new = Ret (1, s1)" "th_phase s1 1 = Some (Entered 100)" "th_heap s1 100 = Some ?c"
    by (simp add: start_def method_thread1_def method_thread_parent_def new_closure_def env2_def threads_new_def)
  have r1: "mt_reach ((\<lambda>_. None)(1 \<mapsto> ?c)) s1"
    by (rule mt_start [OF mt_new _ _ s1(1)]) (simp_all add: threads_new_def)
  obtain s2 where s2: "yyy (0, 0) 1 s1 = Some (Ret s2)" "th_phase s2 1 = Some (Copied 100 ?c)" "th_heap s2 100 = Some ?c"
    using s1(2,3) by (simp add: yyy_def)
  obtain s3 where s3: "yyy (0, 0) 1 s2 = Some (Ret s3)" "th_phase s3 1 = Some (Freed ?c)" using s2(2,3) by (simp add: yyy_def)
  obtain s where s: "yyy (0, 0) 1 s3 = Some (Ret s)" "th_phase s 1 = Some Called" using s3(2) by (simp add: yyy_def method_thread_child_def)
  have "mt_reach ((\<lambda>_. None)(1 \<mapsto> ?c)) s" using r1 s2(1) s3(1) s(1) by (blast intro: mt_run)
  from threads_call_once [OF this, of 1] have "calls_of s 1 = [(''pool'', ''worker'', [5])]" using s(2) by simp
  then show ?thesis using s1(1) s2(1) s3(1) s(1) by blast
qed

theorem method_thread_error_witness:
  "start ((env2 100 1)\<lparr>se_create := 11\<rparr>) True (XXX0 ''pool'' ''worker'') (threads_new :: (string, string, nat) threads) = Fault Exit_failure"
  by (rule method_thread_error) (simp add: env2_def)

end
