(* ===== verification/Spec2Isabelle.thy ===== *)
theory Spec2Isabelle
  imports Fuse Coherence Poll_Mgr Thr_Pool Handle Rpc_Channel Plain_Clients Rpc_Network Lock_Tester Rpc_Test Fork_Tests Lock_Disconnect
    Method_Thread
begin

text \<open>
  A verification library for YFS, a distributed file system that keeps working while its client is disconnected.

  \<^bold>\<open>The program.\<close> A YFS client process (\<^verbatim>\<open>fuse.cc\<close>) receives file system requests from FUSE and turns them into
  operations of \<^verbatim>\<open>yfs_client\<close>. Files and directories are extents, byte strings with attributes, kept by the
  extent server (\<^verbatim>\<open>extent_server.cc\<close>) and cached by each client (\<^verbatim>\<open>extent_client_cache.cc\<close>). Each extent is
  protected by a lock of the same number. The lock server (\<^verbatim>\<open>lock_server_cache.cc\<close>) grants locks, revokes them
  when another client waits and tells waiting clients to retry; the client (\<^verbatim>\<open>lock_client_cache.cc\<close>) keeps locks
  between uses and writes an extent back before it gives up its lock. A client may disconnect: it goes on with the
  locks and extents it has cached, and when it connects again it acquires its locks anew, compares versions, and
  saves its own version of an extent that was changed meanwhile as a conflict copy in a special directory. All
  processes talk through an RPC library (\<^verbatim>\<open>rpc/\<close>) with at-most-once semantics over TCP.

  \<^bold>\<open>The theories\<close>, from the bottom:

  \<^item> \<open>Prelude\<close>: the outcome type \<open>res\<close> (a value, the end of the process, or a call that never returns), the
    ordered maps and the strings of the C++ library, sequences of operations (locales \<open>op_machine\<close>,
    \<open>ordered_map\<close>).
  \<^item> \<open>Marshall\<close> (\<^verbatim>\<open>rpc/marshall.h\<close>, the \<^verbatim>\<open>marshall\<close> part of \<^verbatim>\<open>rpc/rpc.cc\<close>): the growing write buffer and the read cursor
    with its flag. \<open>emits\<close> and \<open>reads\<close> say what an operator writes and consumes; the locale \<open>codec\<close> is the interface
    of a type that can be sent, interpreted for each type. Shown: the buffer is never left, headers and values
    survive the wire, truncated input is detected, a forged string length is not.
  \<^item> \<open>Connection\<close> (\<^verbatim>\<open>rpc/connection.cc\<close>): \<^verbatim>\<open>send\<close>, \<^verbatim>\<open>write_cb\<close>, \<^verbatim>\<open>read_cb\<close> and the framing of PDUs. A sender, a byte stream
    and a receiver form a step relation; the receiver gets a prefix of what was sent, in order and unchanged,
    however the kernel cuts the stream, and never leaves its buffer unless the peer forges a length.
  \<^item> \<open>Poll_Mgr\<close> (\<^verbatim>\<open>rpc/pollmgr.cc\<close>): the two implementations of \<^verbatim>\<open>aio_mgr\<close> are interpretations of the locale of that
    name and watch the same descriptors; the waiting loop and the threads that remove descriptors are a step
    relation in which the guarantee of \<^verbatim>\<open>block_remove_fd\<close> holds.
  \<^item> \<open>Thr_Pool\<close> (\<^verbatim>\<open>rpc/fifo.h\<close>, \<^verbatim>\<open>rpc/thr_pool.cc\<close>, \<^verbatim>\<open>rpcs::got_pdu\<close>): the bounded queue, its workers, and the destructor with
    its poison pills; accepted jobs start in order, no wake-up is lost, and shutting down ends with every
    accepted job run once.
  \<^item> \<open>Rpc_Server\<close> (\<^verbatim>\<open>rpcs\<close> of \<^verbatim>\<open>rpc/rpc.cc\<close>): the window of replies, registration, and the whole of \<^verbatim>\<open>dispatch\<close>. A request that is
    not yet acknowledged runs at most once, and its duplicates get the recorded reply.
  \<^item> \<open>Rpc_Client\<close> (\<^verbatim>\<open>rpcc\<close>): request numbers, the compressed window of replies, which is exactly the set of answered
    requests, matching of replies, cancellation, and the retransmission loop, which ends in time.
  \<^item> \<open>Rpc_Call\<close> (the templates of \<^verbatim>\<open>rpc/rpc.h\<close>): a call with up to seven arguments reaches the method registered for it
    with exactly these arguments, and the result reaches the call that waits for it.
  \<^item> \<open>Rpc_System\<close>: the client, \<^verbatim>\<open>dispatch\<close> and the reply composed; a call returns what the method returned, and a repeated
    request gets the same reply without running the method again.
  \<^item> \<open>Rpc_Network\<close>: a client and a server with a network between them that loses, repeats and reorders messages, several handlers
    at work and other clients. While a call waits its handler has been started at most once, and every reply that
    can arrive is the one of that execution; \<^verbatim>\<open>dispatch\<close> is split where it calls the handler, and the parts compose to it.
  \<^item> \<open>Rpc_Channel\<close> (\<^verbatim>\<open>get_refconn\<close>, \<^verbatim>\<open>make_sockaddr\<close>, \<^verbatim>\<open>tcpsconn\<close>): the reference counts of the connections of a client are exact,
    the accepting thread collects only connections nobody uses, addresses are read correctly.
  \<^item> \<open>Handle\<close> (\<^verbatim>\<open>handle.cc\<close>): the cache of RPC clients never uses a freed object and its counts are exact.
  \<^item> \<open>Lock_Server\<close> (\<^verbatim>\<open>lock_server.cc\<close>, \<^verbatim>\<open>lock_server_cache.cc\<close>, \<^verbatim>\<open>lock_smain.cc\<close>): both servers are interpretations of the
    locale \<open>lock_service\<close> (at most one grant of a lock is out); no waiting client is forgotten.
  \<^item> \<open>Extent_Server\<close> (\<^verbatim>\<open>extent_server.cc\<close>) and \<open>Extent_Client_Cache\<close> (\<^verbatim>\<open>extent_client_cache.cc\<close>): the server with its
    versions and the write-back cache in front of it both refine a plain map of contents (locale
    \<open>extent_store\<close>); a flush writes back, \<^verbatim>\<open>make_copy\<close> saves the private version.
  \<^item> \<open>Lock_Client_Cache\<close> (\<^verbatim>\<open>lock_client_cache.cc\<close>): first the stretches of code that run under the mutex (\<open>acq_try\<close>, \<open>acq_reply\<close>,
    \<open>rel_try\<close>, ...), then the methods of a client on its own, including disconnection, reconnection
    and conflict resolution.
  \<^item> \<open>Lock_System\<close>: any number of caching clients, the lock server and the messages between them. In every
    interleaving at most one client has a lock, no check fails, and no lock that nobody uses is deadlocked; a second system with
    the condition variables of one client shows a lost wake-up.
  \<^item> \<open>Lock_Disconnect\<close>: the lock system with clients that disconnect. Of these only the requests are seen, in any order; the clients that stay
    connected still exclude one another, none of their actions fails, and a lock whose owner leaves goes to those that wait. A client
    that returns may lose a lock it holds.
  \<^item> \<open>Coherence\<close>: the lock system together with the write-back caches of all clients and the extent server. A client that holds
    the lock of an extent reads what was written last by any client, a free extent is on the server as it was
    written last, and no check fails, the version check of the server included.
  \<^item> \<open>Yfs_Dir\<close>, \<open>Yfs_Client\<close> (\<^verbatim>\<open>yfs_client.cc\<close>): directories as strings, and every operation of the file system client over
    the lock client and the cache, with its locks, early returns and search for an inode number.
  \<^item> \<open>Fuse\<close> (\<^verbatim>\<open>fuse.cc\<close>): every handler with each reply it sends. Sessions keep the client in order, files are read back
    as written, directories are listed completely page by page.
  \<^item> \<open>Plain_Clients\<close> (\<^verbatim>\<open>lock_client.cc\<close>, \<^verbatim>\<open>extent_client.cc\<close>, \<^verbatim>\<open>lock_demo.cc\<close>, \<^verbatim>\<open>disconnect_client.cc\<close>, \<^verbatim>\<open>disconnect_tester.cc\<close>): the stubs
    without a cache, whose requests no longer fit the servers, and the command that disconnects a client.
  \<^item> \<open>Lock_Tester\<close> (\<^verbatim>\<open>lock_tester.cc\<close>): the checks of the lock tester as properties of the lock system. Its first test passes,
    and no interleaving of its threads fails a check; but a revocation uses the null pointer that the tester leaves
    in its clients.
  \<^item> \<open>Rpc_Test\<close> (\<^verbatim>\<open>rpc/rpctest.cc\<close>): the tests of the RPC library. A call whose messages arrive (\<open>perform\<close>, from \<^verbatim>\<open>call1\<close>, \<^verbatim>\<open>dispatch\<close> and
    \<^verbatim>\<open>got_pdu\<close>) gives what its handler returns and leaves client and server ready for the next one (\<open>perform_ok\<close>), from
    which the test of marshalling, the simple tests, the bodies of the threads and the failure test pass.
  \<^item> \<open>Processes\<close>: programs that make system calls, fork one child and wait for it. \<open>passes\<close> says that a program ends normally in every
    schedule, after finitely many steps; rely and guarantee conditions (\<open>sat\<close>, locale \<open>interference\<close>) reduce this to each process on its own.
  \<^item> \<open>Lab_Tests\<close>, \<open>Fork_Tests\<close> (\<^verbatim>\<open>test-lab-3-b.c\<close>, \<^verbatim>\<open>test-lab-3-c.c\<close>): both test programs of a mounted file system from the command line to their
    last test, over system calls that are a parameter; the named laws \<open>creat_law\<close>, \<open>open_law\<close>, ... say what the manual pages promise of
    them. The programs pass in every schedule, also where parent and child create the same files or write to one file; what the
    checks of contents and of directories accept is stated exactly, with what they overlook.
  \<^item> \<open>Method_Thread\<close> (\<^verbatim>\<open>rpc/method_thread.h\<close>): starting threads; every thread calls its method once with its arguments, and its closure
    is deleted once.

  \<^bold>\<open>Conventions.\<close> A C++ object is a record, a method a function from its arguments and the state to a \<open>res\<close>. A failed
  \<^verbatim>\<open>VERIFY\<close>, an uncaught exception and an access outside an object are faults, so that a theorem with a result \<open>Ret\<close>
  says that none happens. Integers that wrap are words of their width. What the environment decides (system calls,
  the clock, random numbers, fresh addresses, the content of fresh memory, the scheduler's choice of the thread
  to wake) is an argument. A mutex shows as the piece of code that is one step; where a method gives up its mutex
  it is split there. \<^verbatim>\<open>pthread_cond_signal\<close> wakes one thread; spurious wake-ups are not modelled, all waits being in
  loops except the one of \<^verbatim>\<open>block_remove_fd\<close>.

  \<^bold>\<open>Fuel.\<close> The operations of \<open>Lock_Client_Cache\<close>, \<open>Yfs_Client\<close> and \<open>Fuse\<close> take a number \<open>n\<close> that bounds the loops that wait for
  a lock or search for a free number; running out is \<open>Stuck\<close>. The theorems say that operations return, with
  \<open>n\<close> at least 3, on a client that works alone: each acquire then succeeds at its first try and the first random
  number is free, which the hypotheses name. \<^verbatim>\<open>call1\<close> needs nine rounds for its longest timeout, which is proved.
  All other recursions are on lists or have a termination proof; the shutdown of the pool has a measure.

  \<^bold>\<open>Not modelled.\<close> Scoped locks, logging and the clock of another platform (\<^verbatim>\<open>slock.h\<close>, \<^verbatim>\<open>jsl_log\<close>, \<^verbatim>\<open>tprintf\<close>, \<^verbatim>\<open>gettime\<close>), which have
  no state that the program reads; setting up sockets and mounting the file system, which are system calls in a row; printing
  statistics. Of the test program of the RPC library, the tests that run threads at the same time and the tests of time limits:
  what they observe depends on the clock and on random loss. \<open>Coherence\<close> composes clients that stay connected; the extents of clients
  that disconnect are treated for one client and the servers, since the conflict copies it makes have no single last write.
  \<open>Coherence\<close> has no removal of extents, and a thread gives a lock back only after it has looked at the
  extent; without that the flush deletes the extent, which is one of the findings.
\<close>

end
